(* ===== verification/Prelude.thy ===== *)
theory Prelude
  imports "HOL-Library.Word"
begin

text \<open>
  Shared vocabulary of the development: the machine types of the sources
  (bytes, 32- and 64-bit integers, floats as IEEE bit patterns), the
  \<open>Status\<close> value every fallible operation returns
  (\<open>include/pomai/status.h\<close>), the memcpy of an integer into a byte buffer
  (the little-endian hosts the code is built for), and the list lemmas the
  components share.  The collection \<open>codec\<close> gathers the encode/decode facts.
\<close>

unbundle bit_operations_syntax

named_theorems codec

type_synonym byte = "8 word"
type_synonym u32 = "32 word"
type_synonym u64 = "64 word"

text \<open>A C++ \<open>float\<close> and \<open>double\<close> are kept as their bit patterns; no component below
  computes with them except through an explicit table of IEEE operations.\<close>

type_synonym float32 = "32 word"
type_synonym float64 = "64 word"

datatype ErrorCode =
    kOk | kInvalidArgument | kNotFound | kAlreadyExists | kPermissionDenied
  | kResourceExhausted | kFailedPrecondition | kAborted | kIO | kInternal
  | kPartial | kCorruption | kUnknown

datatype status = Status (st_code: ErrorCode) (st_msg: string)

definition Ok :: status where
  "Ok = Status kOk ''''"

definition st_ok :: "status \<Rightarrow> bool" where
  "st_ok s = (st_code s = kOk)"

definition NotFound :: "string \<Rightarrow> status" where
  "NotFound m = Status kNotFound m"

definition InvalidArgument :: "string \<Rightarrow> status" where
  "InvalidArgument m = Status kInvalidArgument m"

definition IOError :: "string \<Rightarrow> status" where
  "IOError m = Status kIO m"

definition Corruption :: "string \<Rightarrow> status" where
  "Corruption m = Status kCorruption m"

definition Internal :: "string \<Rightarrow> status" where
  "Internal m = Status kInternal m"

definition Aborted :: "string \<Rightarrow> status" where
  "Aborted m = Status kAborted m"

definition ResourceExhausted :: "string \<Rightarrow> status" where
  "ResourceExhausted m = Status kResourceExhausted m"

definition AlreadyExists :: "string \<Rightarrow> status" where
  "AlreadyExists m = Status kAlreadyExists m"

lemma st_ok_simps [simp]:
  "st_ok Ok" "\<not> st_ok (NotFound m)" "\<not> st_ok (InvalidArgument m)" "\<not> st_ok (IOError m)"
  "\<not> st_ok (Corruption m)" "\<not> st_ok (Internal m)" "\<not> st_ok (Aborted m)"
  "\<not> st_ok (ResourceExhausted m)" "\<not> st_ok (AlreadyExists m)"
  by (simp_all add: st_ok_def Ok_def NotFound_def InvalidArgument_def IOError_def
      Corruption_def Internal_def Aborted_def ResourceExhausted_def AlreadyExists_def)

subsection \<open>Integers as bytes\<close>

fun le_bytes :: "nat \<Rightarrow> nat \<Rightarrow> byte list" where
  "le_bytes 0 v = []"
| "le_bytes (Suc k) v = word_of_nat v # le_bytes k (v div 256)"

fun le_nat :: "byte list \<Rightarrow> nat" where
  "le_nat [] = 0"
| "le_nat (b # bs) = unat b + 256 * le_nat bs"

definition u32_bytes :: "u32 \<Rightarrow> byte list" where
  "u32_bytes w = le_bytes 4 (unat w)"

definition u64_bytes :: "u64 \<Rightarrow> byte list" where
  "u64_bytes w = le_bytes 8 (unat w)"

definition bytes_u32 :: "byte list \<Rightarrow> u32" where
  "bytes_u32 bs = word_of_nat (le_nat (take 4 bs))"

definition bytes_u64 :: "byte list \<Rightarrow> u64" where
  "bytes_u64 bs = word_of_nat (le_nat (take 8 bs))"

lemma unat_byte_less: "unat (b :: byte) < 256"
  using unsigned_less [of b] by simp

lemma unat_u32_less: "unat (w :: u32) < 2 ^ 32"
  using unsigned_less [of w] by simp

lemma unat_u64_less: "unat (w :: u64) < 2 ^ 64"
  using unsigned_less [of w] by simp

lemma length_le_bytes [simp]: "length (le_bytes k v) = k"
  by (induction k arbitrary: v) auto

lemma unat_byte_of_nat: "unat (word_of_nat v :: byte) = v mod 256"
  by (simp add: unat_of_nat)

lemma le_nat_le_bytes: "le_nat (le_bytes k v) = v mod 256 ^ k"
proof (induction k arbitrary: v)
  case (Suc k)
  have "v mod (256 * 256 ^ k) = 256 * (v div 256 mod 256 ^ k) + v mod 256"
    by (rule mod_mult2_eq)
  then show ?case
    by (simp add: unat_byte_of_nat Suc)
qed simp

lemma le_nat_less: "le_nat bs < 256 ^ length bs"
proof (induction bs)
  case (Cons b bs)
  have b: "unat b < 256" by (rule unat_byte_less)
  have "unat b + 256 * le_nat bs < 256 + 256 * le_nat bs"
    using b by simp
  also have "\<dots> \<le> 256 * 256 ^ length bs"
  proof -
    have "256 * Suc (le_nat bs) \<le> 256 * 256 ^ length bs"
      using Cons by (intro mult_le_mono2) simp
    then show ?thesis by simp
  qed
  finally show ?case by simp
qed simp

lemma le_bytes_le_nat: "length bs = k \<Longrightarrow> le_bytes k (le_nat bs) = bs"
proof (induction bs arbitrary: k)
  case (Cons b bs)
  have b: "unat b < 256" by (rule unat_byte_less)
  have "word_of_nat (unat b + 256 * le_nat bs) = (b :: byte)"
    by (rule word_unat_eq_iff [THEN iffD2]) (simp only: unat_byte_of_nat, simp add: b)
  moreover have "(unat b + 256 * le_nat bs) div 256 = le_nat bs"
    using b by simp
  ultimately show ?case
    using Cons by (cases k) auto
qed simp

lemma length_u32_bytes [simp]: "length (u32_bytes w) = 4"
  by (simp add: u32_bytes_def)

lemma length_u64_bytes [simp]: "length (u64_bytes w) = 8"
  by (simp add: u64_bytes_def)

lemma bytes_u32_u32 [codec]: "bytes_u32 (u32_bytes w @ bs) = w"
proof -
  have "unat w < 2 ^ 32" by (rule unat_u32_less)
  then show ?thesis
    by (simp add: bytes_u32_def u32_bytes_def le_nat_le_bytes)
qed

lemma bytes_u64_u64 [codec]: "bytes_u64 (u64_bytes w @ bs) = w"
proof -
  have "unat w < 2 ^ 64" by (rule unat_u64_less)
  then show ?thesis
    by (simp add: bytes_u64_def u64_bytes_def le_nat_le_bytes)
qed

lemma bytes_u32_u32' [codec]: "bytes_u32 (u32_bytes w) = w"
  using bytes_u32_u32 [of w "[]"] by simp

lemma bytes_u64_u64' [codec]: "bytes_u64 (u64_bytes w) = w"
  using bytes_u64_u64 [of w "[]"] by simp

lemma u32_bytes_inject: "u32_bytes v = u32_bytes w \<longleftrightarrow> v = w"
  by (metis bytes_u32_u32')

lemma u64_bytes_inject: "u64_bytes v = u64_bytes w \<longleftrightarrow> v = w"
  by (metis bytes_u64_u64')

lemma replicate_numeral: "replicate (numeral w) x = x # replicate (pred_numeral w) x"
  by (simp add: numeral_eq_Suc)

subsection \<open>Strings as bytes\<close>

text \<open>A \<open>std::string\<close> is a byte string; a character is one byte.\<close>

definition byte_of_char :: "char \<Rightarrow> byte" where
  "byte_of_char c = word_of_nat (of_char c)"

definition char_of_byte :: "byte \<Rightarrow> char" where
  "char_of_byte b = char_of (unat b)"

definition bytes_of :: "string \<Rightarrow> byte list" where
  "bytes_of s = map byte_of_char s"

definition string_of :: "byte list \<Rightarrow> string" where
  "string_of bs = map char_of_byte bs"

lemma char_of_byte_of_char [simp]: "char_of_byte (byte_of_char c) = c"
  by (simp add: char_of_byte_def byte_of_char_def unat_byte_of_nat)

lemma byte_of_char_of_byte [simp]: "byte_of_char (char_of_byte b) = b"
proof -
  have "unat b < 256" by (rule unat_byte_less)
  then show ?thesis
    by (simp add: char_of_byte_def byte_of_char_def of_char_of)
qed

lemma string_of_bytes_of [codec, simp]: "string_of (bytes_of s) = s"
  by (simp add: string_of_def bytes_of_def comp_def)

lemma bytes_of_string_of [codec, simp]: "bytes_of (string_of bs) = bs"
  by (simp add: string_of_def bytes_of_def comp_def)

lemma length_bytes_of [simp]: "length (bytes_of s) = length s"
  by (simp add: bytes_of_def)

lemma length_string_of [simp]: "length (string_of bs) = length bs"
  by (simp add: string_of_def)

subsection \<open>Decimal numerals\<close>

text \<open>\<open>std::to_string\<close> of an unsigned integer, and its inverse.\<close>

definition digit_char :: "nat \<Rightarrow> char" where
  "digit_char d = char_of (48 + d)"

fun to_string :: "nat \<Rightarrow> string" where
  "to_string n = (if n < 10 then [digit_char n] else to_string (n div 10) @ [digit_char (n mod 10)])"

declare to_string.simps [simp del]

definition dec_value :: "string \<Rightarrow> nat" where
  "dec_value s = foldl (\<lambda>v c. 10 * v + (of_char c - 48)) 0 s"

lemma of_digit_char [simp]: "d < 10 \<Longrightarrow> of_char (digit_char d) = (48 + d :: nat)"
  by (simp add: digit_char_def of_char_of)

lemma dec_value_to_string: "dec_value (to_string n) = n"
proof (induction n rule: to_string.induct)
  case (1 n)
  then show ?case
    by (subst to_string.simps) (simp add: dec_value_def)
qed

lemma to_string_inject [simp]: "to_string m = to_string n \<longleftrightarrow> m = n"
  by (metis dec_value_to_string)

lemma to_string_digits: "c \<in> set (to_string n) \<Longrightarrow> 48 \<le> (of_char c :: nat) \<and> (of_char c :: nat) \<le> 57"
proof (induction n rule: to_string.induct)
  case (1 n)
  then show ?case
    by (subst (asm) (2) to_string.simps) (auto split: if_splits)
qed

lemma to_string_nonempty [simp]: "to_string n \<noteq> []"
  by (subst to_string.simps) simp

subsection \<open>The interface of a key-value table\<close>

text \<open>What a client of a hash table relies on: after a \<open>put\<close> a \<open>find\<close> sees it, at
  that key and no other, and the table's invariant survives.  The lemmas about
  whole batches are proved here once.\<close>

locale key_map =
  fixes put :: "'m \<Rightarrow> 'k \<Rightarrow> 'v \<Rightarrow> 'm"
    and find :: "'m \<Rightarrow> 'k \<Rightarrow> 'v option"
    and tinv :: "'m \<Rightarrow> bool"
    and legal :: "'k \<Rightarrow> bool"
  assumes tinv_put: "tinv m \<Longrightarrow> legal k \<Longrightarrow> tinv (put m k v)"
    and find_put: "tinv m \<Longrightarrow> legal k \<Longrightarrow> legal k' \<Longrightarrow> find (put m k v) k' = (if k' = k then Some v else find m k')"
begin

lemma tinv_put_all:
  "tinv m \<Longrightarrow> \<forall>kv \<in> set kvs. legal (fst kv) \<Longrightarrow> tinv (foldl (\<lambda>m (k, v). put m k v) m kvs)"
  by (induction kvs arbitrary: m) (auto simp: tinv_put split: prod.splits)

lemma find_put_all:
  "tinv m \<Longrightarrow> \<forall>kv \<in> set kvs. legal (fst kv) \<Longrightarrow> legal k \<Longrightarrow>
   find (foldl (\<lambda>m (k, v). put m k v) m kvs) k
     = (case map_of (rev kvs) k of Some v \<Rightarrow> Some v | None \<Rightarrow> find m k)"
proof (induction kvs arbitrary: m)
  case (Cons kv kvs)
  obtain k0 v0 where kv: "kv = (k0, v0)" by (cases kv)
  have "find (foldl (\<lambda>m (k, v). put m k v) (put m k0 v0) kvs) k
      = (case map_of (rev kvs) k of Some v \<Rightarrow> Some v | None \<Rightarrow> find (put m k0 v0) k)"
    using Cons kv by (auto intro!: Cons.IH tinv_put)
  then show ?case
    using Cons.prems kv by (simp add: find_put map_add_def split: option.split)
qed simp

end

end
