(* ===== verification/Crc32c.thy ===== *)
theory Crc32c
  imports Prelude
begin

text \<open>
  The checksum of \<open>src/util/crc32c.cc\<close>: the table of the reflected Castagnoli
  polynomial, the table-driven byte loop, and what the storage formats rely on:
  the loop is the bit-serial CRC, it can be fed in pieces, and it detects every
  change confined to one byte.
\<close>

definition kPoly :: u32 where
  "kPoly = 0x82F63B78"

text \<open>One round of the inner loop of \<open>TableAt\<close>; the mask is
  \<open>~(crc & 1) + 1\<close>, all ones when the bit shifted out is set.\<close>

definition crc_round :: "u32 \<Rightarrow> u32" where
  "crc_round crc = drop_bit 1 crc XOR (kPoly AND (NOT (crc AND 1) + 1))"

definition TableAt :: "u32 \<Rightarrow> u32" where
  "TableAt i = (crc_round ^^ 8) i"

definition crc_table :: "u32 list" where
  "crc_table = map (\<lambda>i. TableAt (word_of_nat i)) [0..<256]"

definition crc_step :: "u32 \<Rightarrow> byte \<Rightarrow> u32" where
  "crc_step crc b = (crc_table ! unat ((crc XOR ucast b) AND 0xFF)) XOR drop_bit 8 crc"

fun crc_loop :: "u32 \<Rightarrow> byte list \<Rightarrow> u32" where
  "crc_loop crc [] = crc"
| "crc_loop crc (b # bs) = crc_loop (crc_step crc b) bs"

definition Crc32c :: "byte list \<Rightarrow> u32 \<Rightarrow> u32" where
  "Crc32c data seed = NOT (crc_loop (NOT seed) data)"

text \<open>The bit-serial reference: the register takes one message bit at a time,
  least significant bit of a byte first.\<close>

definition serial_bit :: "u32 \<Rightarrow> bool \<Rightarrow> u32" where
  "serial_bit crc m = (if bit crc 0 \<noteq> m then drop_bit 1 crc XOR kPoly else drop_bit 1 crc)"

definition byte_bits :: "byte \<Rightarrow> bool list" where
  "byte_bits b = map (bit b) [0..<8]"

definition crc_serial :: "byte list \<Rightarrow> u32 \<Rightarrow> u32" where
  "crc_serial data seed = NOT (foldl serial_bit (NOT seed) (concat (map byte_bits data)))"

subsection \<open>The round is linear and injective\<close>

lemma crc_round_if:
  "crc_round c = (if bit c 0 then drop_bit 1 c XOR kPoly else drop_bit 1 c)"
proof -
  have "c AND 1 = (if bit c 0 then 1 else 0)"
    by (simp add: and_one_eq mod_2_eq_odd bit_0)
  then show ?thesis
    by (simp add: crc_round_def)
qed

lemma crc_round_xor: "crc_round (a XOR b) = crc_round a XOR crc_round b"
  by (auto simp: crc_round_if bit_simps intro!: bit_word_eqI)

lemma crc_rounds_xor: "(crc_round ^^ n) (a XOR b) = (crc_round ^^ n) a XOR (crc_round ^^ n) b"
  by (induction n) (simp_all add: crc_round_xor)

lemma bit_kPoly_31: "bit kPoly 31"
  by (simp add: kPoly_def)

lemma crc_round_eq_0: "crc_round c = 0 \<Longrightarrow> c = 0"
proof -
  assume z: "crc_round c = 0"
  have "bit (crc_round c) 31 = bit c 0"
    using bit_kPoly_31 by (auto simp: crc_round_if bit_simps dest: bit_imp_le_length)
  with z have b0: "\<not> bit c 0" by simp
  with z have d: "drop_bit 1 c = 0" by (simp add: crc_round_if)
  show "c = 0"
  proof (rule bit_word_eqI)
    fix n assume "n < LENGTH(32)"
    show "bit c n = bit (0 :: u32) n"
    proof (cases n)
      case (Suc m)
      have "bit (drop_bit 1 c) m = bit c (Suc m)" by (simp add: bit_simps)
      then show ?thesis using d Suc by simp
    qed (use b0 in simp)
  qed
qed

lemma crc_rounds_eq_0: "(crc_round ^^ n) c = 0 \<Longrightarrow> c = 0"
  by (induction n) (auto dest: crc_round_eq_0)

lemma xor_eq_0_word: "(a :: 'a::len word) XOR b = 0 \<longleftrightarrow> a = b"
  by (metis xor.assoc xor.left_neutral xor_self_eq)

lemma xor_right_cancel: "(a :: 'a::len word) XOR x = b XOR x \<longleftrightarrow> a = b"
  by (metis xor.assoc xor.right_neutral xor_self_eq)

lemma xor_left_cancel: "(x :: 'a::len word) XOR a = x XOR b \<longleftrightarrow> a = b"
  by (metis xor.assoc xor.left_neutral xor_self_eq)

lemma crc_rounds_inject: "(crc_round ^^ n) a = (crc_round ^^ n) b \<longleftrightarrow> a = b"
  by (metis crc_rounds_eq_0 crc_rounds_xor xor_eq_0_word)

subsection \<open>The table step is eight rounds\<close>

lemma crc_rounds_shift:
  "(\<And>i. i < n \<Longrightarrow> \<not> bit c i) \<Longrightarrow> (crc_round ^^ n) c = drop_bit n c"
proof (induction n)
  case (Suc n)
  then have "\<not> bit (drop_bit n c) 0" by (simp add: bit_simps)
  with Suc show ?case by (simp add: crc_round_if)
qed simp

lemma crc_table_nth: "unat i < 256 \<Longrightarrow> crc_table ! unat i = (crc_round ^^ 8) i"
  by (simp add: crc_table_def TableAt_def)

lemma unat_and_mask8: "unat ((x :: u32) AND mask 8) < 256"
  by (simp only: take_bit_eq_mask [symmetric] unsigned_take_bit_eq)
    (rule order_less_le_trans [OF take_bit_nat_less_exp], simp)

lemma crc_step_rounds: "crc_step c b = (crc_round ^^ 8) (c XOR ucast b)"
proof -
  let ?x = "c XOR ucast b"
  have split: "?x = (?x AND 0xFF) XOR (?x AND NOT 0xFF)"
    by (auto simp: bit_simps intro: bit_word_eqI)
  have m: "(0xFF :: u32) = mask 8" by (simp add: mask_eq_exp_minus_1)
  have "unat (?x AND 0xFF) < 256"
    unfolding m by (rule unat_and_mask8)
  then have lo: "crc_table ! unat (?x AND 0xFF) = (crc_round ^^ 8) (?x AND 0xFF)"
    by (rule crc_table_nth)
  have "(crc_round ^^ 8) (?x AND NOT 0xFF) = drop_bit 8 (?x AND NOT 0xFF)"
    by (rule crc_rounds_shift) (simp add: m bit_simps)
  also have "\<dots> = drop_bit 8 c"
  proof (rule bit_word_eqI)
    fix n
    have "\<not> bit b (8 + n)" using bit_imp_le_length [of b "8 + n"] by auto
    then show "bit (drop_bit 8 (?x AND NOT 0xFF)) n = bit (drop_bit 8 c) n"
      using bit_imp_le_length [of c "8 + n"] by (auto simp: m bit_simps)
  qed
  finally have "crc_step c b = (crc_round ^^ 8) ((?x AND 0xFF) XOR (?x AND NOT 0xFF))"
    by (simp only: crc_step_def lo crc_rounds_xor)
  then show ?thesis by (simp only: split [symmetric])
qed

subsection \<open>Bit-serial reference, pieces and bursts\<close>

lemma serial_bit_round: "serial_bit c m = crc_round (c XOR of_bool m)"
  by (auto simp: serial_bit_def crc_round_if bit_simps drop_bit_Suc intro!: bit_word_eqI)

lemma serial_bits_rounds:
  "k \<le> 8 \<Longrightarrow> foldl serial_bit c (map (bit b) [0..<k])
     = (crc_round ^^ k) (c XOR ucast (take_bit k b))"
proof (induction k)
  case (Suc k)
  have k: "k < 8" using Suc.prems by simp
  have sp: "(ucast (take_bit (Suc k) b) :: u32)
      = ucast (take_bit k b) XOR (of_bool (bit b k) * 2 ^ k)"
    using k by (intro bit_word_eqI) (auto simp: bit_simps less_Suc_eq)
  have sh: "(crc_round ^^ k) (of_bool (bit b k) * 2 ^ k) = of_bool (bit b k)"
  proof -
    have "(crc_round ^^ k) (of_bool (bit b k) * 2 ^ k) = drop_bit k (of_bool (bit b k) * 2 ^ k)"
      by (rule crc_rounds_shift) (auto simp: bit_simps)
    also have "\<dots> = of_bool (bit b k)"
      using k by (intro bit_word_eqI) (auto simp: bit_simps)
    finally show ?thesis .
  qed
  have "foldl serial_bit c (map (bit b) [0..<Suc k])
      = crc_round ((crc_round ^^ k) (c XOR ucast (take_bit k b)) XOR of_bool (bit b k))"
    using Suc.IH [OF less_imp_le [OF k]] by (simp add: serial_bit_round [of _ "bit b k"])
  also have "\<dots> = (crc_round ^^ Suc k) (c XOR ucast (take_bit (Suc k) b))"
    by (simp only: sp crc_rounds_xor sh xor.assoc [symmetric] funpow.simps comp_def)
  finally show ?case .
qed simp

lemma serial_byte: "foldl serial_bit c (byte_bits b) = crc_step c b"
  using serial_bits_rounds [of 8 c b, OF order_refl]
  by (simp only: byte_bits_def crc_step_rounds) (simp add: take_bit_word_eq_self)

lemma crc_loop_serial: "crc_loop c data = foldl serial_bit c (concat (map byte_bits data))"
  by (induction data arbitrary: c) (simp_all add: serial_byte)

lemma crc_loop_append: "crc_loop c (xs @ ys) = crc_loop (crc_loop c xs) ys"
  by (induction xs arbitrary: c) simp_all

lemma crc_step_inject1: "crc_step c b = crc_step d b \<longleftrightarrow> c = d"
  by (simp only: crc_step_rounds crc_rounds_inject xor_right_cancel)

lemma crc_loop_inject: "crc_loop c xs = crc_loop d xs \<longleftrightarrow> c = d"
  by (induction xs arbitrary: c d) (simp_all add: crc_step_inject1)

text \<open>A window of up to four bytes, seen as one register-sized value.\<close>

fun pack :: "byte list \<Rightarrow> u32" where
  "pack [] = 0"
| "pack (b # bs) = ucast b XOR push_bit 8 (pack bs)"

lemma bit_pack:
  "length bs \<le> 4 \<Longrightarrow> bit (pack bs) n = (n < 8 * length bs \<and> bit (bs ! (n div 8)) (n mod 8))"
proof (induction bs arbitrary: n)
  case (Cons b bs)
  show ?case
  proof (cases "n < 8")
    case True
    then show ?thesis by (simp add: bit_simps)
  next
    case False
    then obtain m where n: "n = m + 8" by (metis add.commute le_Suc_ex not_less)
    have le: "length bs \<le> 4" "length bs \<le> 3" using Cons.prems by simp_all
    have "\<not> bit b n" using bit_imp_le_length [of b n] False by auto
    then have "bit (pack (b # bs)) n = (n < 32 \<and> bit (pack bs) m)"
      by (simp add: n bit_simps)
    moreover have "(n < 32 \<and> bit (pack bs) m) = (m < 8 * length bs \<and> bit (bs ! (m div 8)) (m mod 8))"
      using le by (auto simp: Cons.IH [OF le(1)] n)
    moreover have "(m + 8) div 8 = Suc (m div 8)" by simp
    ultimately show ?thesis
      by (simp add: n)
  qed
qed simp

lemma pack_inject:
  assumes "length us = length vs" "length us \<le> 4" "pack us = pack vs"
  shows "us = vs"
proof (rule nth_equalityI)
  fix i assume i: "i < length us"
  show "us ! i = vs ! i"
  proof (rule bit_word_eqI)
    fix j assume "j < LENGTH(8)"
    then have j: "j < 8" by simp
    have lt: "8 * i + j < 8 * length us" using i j by linarith
    have "bit (pack us) (8 * i + j) = bit (us ! i) j"
      using bit_pack [of us "8 * i + j"] assms lt j by simp
    moreover have "bit (pack vs) (8 * i + j) = bit (vs ! i) j"
      using bit_pack [of vs "8 * i + j"] assms lt j by simp
    ultimately show "bit (us ! i) j = bit (vs ! i) j"
      using assms(3) by simp
  qed
qed (rule assms(1))

lemma crc_loop_pack: "length bs \<le> 4 \<Longrightarrow> crc_loop c bs = (crc_round ^^ (8 * length bs)) (c XOR pack bs)"
proof (induction bs arbitrary: c)
  case (Cons b bs)
  let ?p = "pack bs"
  have hi: "\<not> bit ?p n" if "24 \<le> n" for n
    using bit_pack [of bs n] that Cons.prems by simp
  have "(crc_round ^^ 8) (push_bit 8 ?p) = drop_bit 8 (push_bit 8 ?p)"
    by (rule crc_rounds_shift) (simp add: bit_simps)
  also have "\<dots> = ?p"
    by (rule bit_word_eqI) (use hi not_le in \<open>auto simp: bit_simps\<close>)
  finally have sh: "(crc_round ^^ 8) (push_bit 8 ?p) = ?p" .
  have "(crc_round ^^ (8 * length (b # bs))) (c XOR pack (b # bs))
      = (crc_round ^^ (8 * length bs)) ((crc_round ^^ 8) ((c XOR ucast b) XOR push_bit 8 ?p))"
  proof -
    have "8 * length (b # bs) = 8 * length bs + 8" by simp
    then show ?thesis by (simp only: funpow_add comp_apply pack.simps xor.assoc)
  qed
  also have "\<dots> = (crc_round ^^ (8 * length bs)) (crc_step c b XOR ?p)"
    by (simp only: crc_rounds_xor sh crc_step_rounds)
  finally show ?case
    using Cons by simp
qed simp

text \<open>C15: the table-driven checksum of \<open>Crc32c\<close> is the bit-serial CRC-32C of
  the data, least significant bit first, for every input and every seed.\<close>

theorem Crc32c_serial: "Crc32c data seed = crc_serial data seed"
  by (simp add: Crc32c_def crc_serial_def crc_loop_serial)

text \<open>The checksum may be computed in pieces, the result of one call being
  the seed of the next; this is what lets a writer checksum a record as it
  assembles it.\<close>

theorem Crc32c_append: "Crc32c (xs @ ys) seed = Crc32c ys (Crc32c xs seed)"
  by (simp add: Crc32c_def crc_loop_append)

lemma crc_loop_burst:
  assumes "length us = length vs" "length us \<le> 4" "us \<noteq> vs"
  shows "crc_loop c (us @ post) \<noteq> crc_loop c (vs @ post)"
proof
  assume "crc_loop c (us @ post) = crc_loop c (vs @ post)"
  then have "crc_loop c us = crc_loop c vs" by (simp add: crc_loop_append crc_loop_inject)
  then have "pack us = pack vs"
    using assms(1,2) by (simp add: crc_loop_pack crc_rounds_inject xor_left_cancel)
  then show False
    using pack_inject assms by blast
qed

text \<open>C32: error detection. Two messages of the same length that differ only
  inside a window of at most four bytes (any burst of up to 32 bits aligned to
  bytes) have different checksums.\<close>

theorem Crc32c_burst:
  assumes "length us = length vs" "length us \<le> 4" "us \<noteq> vs"
  shows "Crc32c (pre @ us @ post) seed \<noteq> Crc32c (pre @ vs @ post) seed"
  using crc_loop_burst [OF assms] by (simp add: Crc32c_def crc_loop_append)

theorem Crc32c_burst_witness:
  "Crc32c ([1, 2] @ [3, 4] @ [5]) 0 \<noteq> Crc32c ([1, 2] @ [7, 4] @ [5]) 0"
  by (rule Crc32c_burst) simp_all

end
