(* ===== verification/Env.thy ===== *)
theory Env
  imports Prelude
begin

text \<open>
  The file system layer: \<open>PosixEnv\<close> of \<open>src/util/posix_env.cc\<close> and \<open>InMemoryEnv\<close> of
  \<open>src/util/memory_env.cc\<close>, the two implementations of \<open>include/pomai/env.h\<close>.

  A POSIX environment is a map from paths to contents and an oracle for the system
  calls: the \<open>n\<close>-th call fails with the error text \<open>ev_err n\<close> when that is present,
  and a \<open>pwrite\<close> moves at most \<open>ev_chunk n + 1\<close> bytes (a short write).  Calls that
  return \<open>EINTR\<close> are retried by the source and are not counted.  Files are not
  renamed or unlinked while open.
\<close>

record posix_env =
  ev_files :: "string \<rightharpoonup> byte list"
  ev_tick :: nat
  ev_err :: "nat \<Rightarrow> string option"
  ev_chunk :: "nat \<Rightarrow> nat"

definition ErrnoStatus :: "string \<Rightarrow> string \<Rightarrow> status" where
  "ErrnoStatus op_name msg = IOError (op_name @ '': '' @ msg)"

definition ENOENT :: string where
  "ENOENT = ''No such file or directory''"

text \<open>One system call: its error, if any, and the environment after it.\<close>

definition sys :: "posix_env \<Rightarrow> string option \<times> posix_env" where
  "sys e = (ev_err e (ev_tick e), e\<lparr>ev_tick := ev_tick e + 1\<rparr>)"

definition FileExists :: "posix_env \<Rightarrow> string \<Rightarrow> status \<times> posix_env" where
  "FileExists e path =
     (case sys e of
        (Some msg, e) \<Rightarrow> (ErrnoStatus ''stat'' msg, e)
      | (None, e) \<Rightarrow> (if ev_files e path = None then NotFound ''file does not exist'' else Ok, e))"

definition GetFileSize :: "posix_env \<Rightarrow> string \<Rightarrow> status \<times> nat \<times> posix_env" where
  "GetFileSize e path =
     (case sys e of
        (Some msg, e) \<Rightarrow> (ErrnoStatus ''stat'' msg, 0, e)
      | (None, e) \<Rightarrow> (case ev_files e path of
            None \<Rightarrow> (ErrnoStatus ''stat'' ENOENT, 0, e)
          | Some c \<Rightarrow> (Ok, length c, e)))"

text \<open>A random-access file is known by its path; \<open>Read\<close> is one \<open>pread\<close>.\<close>

definition NewRandomAccessFile :: "posix_env \<Rightarrow> string \<Rightarrow> status \<times> posix_env" where
  "NewRandomAccessFile e path =
     (case sys e of
        (Some msg, e) \<Rightarrow> (ErrnoStatus ''open'' msg, e)
      | (None, e) \<Rightarrow> (if ev_files e path = None then ErrnoStatus ''open'' ENOENT else Ok, e))"

definition Raf_Read :: "posix_env \<Rightarrow> string \<Rightarrow> nat \<Rightarrow> nat \<Rightarrow> status \<times> byte list \<times> posix_env" where
  "Raf_Read e path off n =
     (case sys e of
        (Some msg, e) \<Rightarrow> (ErrnoStatus ''pread'' msg, [], e)
      | (None, e) \<Rightarrow> (Ok, take n (drop off (case ev_files e path of Some c \<Rightarrow> c | None \<Rightarrow> [])), e))"

text \<open>A sequential file: one \<open>read\<close> at the file position, \<open>lseek\<close> to skip.\<close>

record sfile =
  sf_open :: bool
  sf_path :: string
  sf_pos :: nat

definition NewSequentialFile :: "posix_env \<Rightarrow> string \<Rightarrow> status \<times> sfile option \<times> posix_env" where
  "NewSequentialFile e path =
     (case sys e of
        (Some msg, e) \<Rightarrow> (ErrnoStatus ''open'' msg, None, e)
      | (None, e) \<Rightarrow> (if ev_files e path = None then (ErrnoStatus ''open'' ENOENT, None, e)
                      else (Ok, Some \<lparr>sf_open = True, sf_path = path, sf_pos = 0\<rparr>, e)))"

definition Sf_Read :: "posix_env \<Rightarrow> sfile \<Rightarrow> nat \<Rightarrow> status \<times> byte list \<times> posix_env \<times> sfile" where
  "Sf_Read e f n =
     (if \<not> sf_open f then (InvalidArgument ''file closed'', [], e, f)
      else case sys e of
        (Some msg, e) \<Rightarrow> (ErrnoStatus ''read'' msg, [], e, f)
      | (None, e) \<Rightarrow>
          let d = take n (drop (sf_pos f) (case ev_files e (sf_path f) of Some c \<Rightarrow> c | None \<Rightarrow> []))
          in (Ok, d, e, f\<lparr>sf_pos := sf_pos f + length d\<rparr>))"

definition Sf_Skip :: "posix_env \<Rightarrow> sfile \<Rightarrow> nat \<Rightarrow> status \<times> posix_env \<times> sfile" where
  "Sf_Skip e f n =
     (if \<not> sf_open f then (InvalidArgument ''file closed'', e, f)
      else case sys e of
        (Some msg, e) \<Rightarrow> (ErrnoStatus ''lseek'' msg, e, f)
      | (None, e) \<Rightarrow> (Ok, e, f\<lparr>sf_pos := sf_pos f + n\<rparr>))"

text \<open>A mapping is the content of the file at the time of the call: \<open>open\<close>, \<open>fstat\<close> and,
  unless the file is empty, \<open>mmap\<close>.\<close>

definition NewFileMapping :: "posix_env \<Rightarrow> string \<Rightarrow> status \<times> byte list option \<times> posix_env" where
  "NewFileMapping e path =
     (case sys e of
        (Some msg, e) \<Rightarrow> (ErrnoStatus ''open'' msg, None, e)
      | (None, e) \<Rightarrow>
          (case ev_files e path of
             None \<Rightarrow> (ErrnoStatus ''open'' ENOENT, None, e)
           | Some c \<Rightarrow>
               (case sys e of
                  (Some msg, e) \<Rightarrow> (ErrnoStatus ''fstat'' msg, None, e)
                | (None, e) \<Rightarrow>
                    if c = [] then (Ok, Some [], e)
                    else (case sys e of
                            (Some msg, e) \<Rightarrow> (ErrnoStatus ''mmap'' msg, None, e)
                          | (None, e) \<Rightarrow> (Ok, Some c, e)))))"

record wfile =
  wf_open :: bool
  wf_path :: string
  wf_off :: nat
  wf_written :: nat

definition NewWritableFile :: "posix_env \<Rightarrow> string \<Rightarrow> status \<times> wfile option \<times> posix_env" where
  "NewWritableFile e path =
     (case sys e of
        (Some msg, e) \<Rightarrow> (ErrnoStatus ''open'' msg, None, e)
      | (None, e) \<Rightarrow> (Ok, Some \<lparr>wf_open = True, wf_path = path, wf_off = 0, wf_written = 0\<rparr>,
                        e\<lparr>ev_files := (ev_files e)(path \<mapsto> [])\<rparr>))"

definition NewAppendableFile :: "posix_env \<Rightarrow> string \<Rightarrow> status \<times> wfile option \<times> posix_env" where
  "NewAppendableFile e path =
     (case sys e of
        (Some msg, e) \<Rightarrow> (ErrnoStatus ''open'' msg, None, e)
      | (None, e) \<Rightarrow>
          (let c = (case ev_files e path of Some c \<Rightarrow> c | None \<Rightarrow> []);
               e = e\<lparr>ev_files := (ev_files e)(path \<mapsto> c)\<rparr>
           in case sys e of
             (Some msg, e) \<Rightarrow> (ErrnoStatus ''fstat'' msg, None, e)
           | (None, e) \<Rightarrow> (Ok, Some \<lparr>wf_open = True, wf_path = path, wf_off = length c, wf_written = 0\<rparr>, e)))"

text \<open>\<open>pwrite\<close> of some bytes at an offset; a gap is filled with zeros.\<close>

definition pwrite_at :: "byte list \<Rightarrow> nat \<Rightarrow> byte list \<Rightarrow> byte list" where
  "pwrite_at c off bs = take off c @ replicate (off - length c) 0 @ bs @ drop (off + length bs) c"

function append_loop :: "posix_env \<Rightarrow> wfile \<Rightarrow> byte list \<Rightarrow> status \<times> posix_env \<times> wfile" where
  "append_loop e f data =
     (if data = [] then (Ok, e, f) else
      let w = min (length data) (ev_chunk e (ev_tick e) + 1) in
      case sys e of
        (Some msg, e) \<Rightarrow> (ErrnoStatus ''pwrite'' msg, e, f)
      | (None, e) \<Rightarrow>
          append_loop
            (e\<lparr>ev_files := (ev_files e)(wf_path f := map_option (\<lambda>c. pwrite_at c (wf_off f) (take w data)) (ev_files e (wf_path f)))\<rparr>)
            (f\<lparr>wf_off := wf_off f + w, wf_written := wf_written f + w\<rparr>) (drop w data))"
  by pat_completeness auto
termination
  by (relation "measure (\<lambda>(e, f, data). length data)") auto

declare append_loop.simps [simp del]

definition Wf_Append :: "posix_env \<Rightarrow> wfile \<Rightarrow> byte list \<Rightarrow> status \<times> posix_env \<times> wfile" where
  "Wf_Append e f data = (if \<not> wf_open f then (InvalidArgument ''file closed'', e, f) else append_loop e f data)"

definition Wf_Sync :: "posix_env \<Rightarrow> wfile \<Rightarrow> status \<times> posix_env" where
  "Wf_Sync e f = (if \<not> wf_open f then (InvalidArgument ''file closed'', e)
     else case sys e of (Some msg, e) \<Rightarrow> (ErrnoStatus ''fdatasync'' msg, e) | (None, e) \<Rightarrow> (Ok, e))"

definition Wf_Close :: "posix_env \<Rightarrow> wfile \<Rightarrow> status \<times> posix_env \<times> wfile" where
  "Wf_Close e f = (if \<not> wf_open f then (Ok, e, f)
     else case sys e of
       (Some msg, e) \<Rightarrow> (ErrnoStatus ''close'' msg, e, f\<lparr>wf_open := False\<rparr>)
     | (None, e) \<Rightarrow> (Ok, e, f\<lparr>wf_open := False\<rparr>))"

definition DeleteFile :: "posix_env \<Rightarrow> string \<Rightarrow> status \<times> posix_env" where
  "DeleteFile e path =
     (case sys e of
        (Some msg, e) \<Rightarrow> (ErrnoStatus ''unlink'' msg, e)
      | (None, e) \<Rightarrow> (if ev_files e path = None then (ErrnoStatus ''unlink'' ENOENT, e)
                       else (Ok, e\<lparr>ev_files := (ev_files e)(path := None)\<rparr>)))"

definition RenameFile :: "posix_env \<Rightarrow> string \<Rightarrow> string \<Rightarrow> status \<times> posix_env" where
  "RenameFile e src dst =
     (case sys e of
        (Some msg, e) \<Rightarrow> (ErrnoStatus ''rename'' msg, e)
      | (None, e) \<Rightarrow> (case ev_files e src of
            None \<Rightarrow> (ErrnoStatus ''rename'' ENOENT, e)
          | Some c \<Rightarrow> (Ok, e\<lparr>ev_files := ((ev_files e)(src := None))(dst \<mapsto> c)\<rparr>)))"

text \<open>\<open>CreateDirIfMissing\<close> makes every non-empty prefix that ends at a slash or at the
  end; the oracle's error is one other than \<open>EEXIST\<close>. Directories are not tracked.\<close>

definition dir_prefixes :: "string \<Rightarrow> string list" where
  "dir_prefixes path = filter (\<lambda>p. p \<noteq> []) (map (\<lambda>i. take i path)
     (filter (\<lambda>i. i = length path \<or> path ! i = CHR ''/'') [0..<length path + 1]))"

fun mkdirs :: "posix_env \<Rightarrow> string list \<Rightarrow> status \<times> posix_env" where
  "mkdirs e [] = (Ok, e)"
| "mkdirs e (p # ps) = (case sys e of (Some msg, e) \<Rightarrow> (ErrnoStatus ''mkdir'' msg, e) | (None, e) \<Rightarrow> mkdirs e ps)"

definition CreateDirIfMissing :: "posix_env \<Rightarrow> string \<Rightarrow> status \<times> posix_env" where
  "CreateDirIfMissing e path = (if path = [] then (Ok, e) else mkdirs e (dir_prefixes path))"

definition SyncDir :: "posix_env \<Rightarrow> string \<Rightarrow> status \<times> posix_env" where
  "SyncDir e path =
     (case sys e of
        (Some msg, e) \<Rightarrow> (ErrnoStatus ''open dir'' msg, e)
      | (None, e) \<Rightarrow> (case sys e of
            (Some msg, e) \<Rightarrow> (IOError (''fsync dir: '' @ msg), e)
          | (None, e) \<Rightarrow> (Ok, e)))"

subsection \<open>The in-memory environment\<close>

type_synonym mem_env = "string \<rightharpoonup> byte list"

text \<open>A writable file buffers its content and publishes it on \<open>Close\<close>.\<close>

record mfile =
  mf_path :: string
  mf_content :: "byte list"
  mf_closed :: bool
  mf_written :: nat

definition mem_NewFile :: "mem_env \<Rightarrow> string \<Rightarrow> bool \<Rightarrow> mfile" where
  "mem_NewFile fs path app =
     \<lparr>mf_path = path,
      mf_content = (if app then case fs path of Some c \<Rightarrow> c | None \<Rightarrow> [] else []),
      mf_closed = False, mf_written = 0\<rparr>"

definition mem_Append :: "mem_env \<Rightarrow> mfile \<Rightarrow> byte list \<Rightarrow> status \<times> mem_env \<times> mfile" where
  "mem_Append fs f data =
     (Ok, fs, f\<lparr>mf_content := mf_content f @ data, mf_written := mf_written f + length data\<rparr>)"

definition mem_Close :: "mem_env \<Rightarrow> mfile \<Rightarrow> status \<times> mem_env \<times> mfile" where
  "mem_Close fs f =
     (if mf_closed f then (Ok, fs, f)
      else (Ok, fs(mf_path f \<mapsto> mf_content f), f\<lparr>mf_closed := True, mf_content := []\<rparr>))"

definition mem_Read :: "mem_env \<Rightarrow> string \<Rightarrow> nat \<Rightarrow> nat \<Rightarrow> status \<times> byte list" where
  "mem_Read fs path off n =
     (case fs path of
        None \<Rightarrow> (NotFound ''file does not exist'', [])
      | Some c \<Rightarrow> if off \<ge> length c then (Ok, []) else (Ok, take (min n (length c - off)) (drop off c)))"

record mseq =
  ms_data :: "byte list"
  ms_pos :: nat

definition mem_NewSequentialFile :: "mem_env \<Rightarrow> string \<Rightarrow> status \<times> mseq option" where
  "mem_NewSequentialFile fs path =
     (case fs path of
        None \<Rightarrow> (NotFound ''file does not exist'', None)
      | Some c \<Rightarrow> (Ok, Some \<lparr>ms_data = c, ms_pos = 0\<rparr>))"

definition mem_SeqRead :: "mseq \<Rightarrow> nat \<Rightarrow> status \<times> byte list \<times> mseq" where
  "mem_SeqRead f n =
     (let avail = (if ms_pos f < length (ms_data f) then length (ms_data f) - ms_pos f else 0);
          to_read = min n avail
      in if to_read = 0 then (Ok, [], f)
         else (Ok, take to_read (drop (ms_pos f) (ms_data f)), f\<lparr>ms_pos := ms_pos f + to_read\<rparr>))"

definition mem_SeqSkip :: "mseq \<Rightarrow> nat \<Rightarrow> status \<times> mseq" where
  "mem_SeqSkip f n = (Ok, f\<lparr>ms_pos := ms_pos f + min n (length (ms_data f) - ms_pos f)\<rparr>)"

definition mem_NewFileMapping :: "mem_env \<Rightarrow> string \<Rightarrow> status \<times> byte list option" where
  "mem_NewFileMapping fs path =
     (case fs path of None \<Rightarrow> (NotFound ''file does not exist'', None) | Some c \<Rightarrow> (Ok, Some c))"

definition mem_FileExists :: "mem_env \<Rightarrow> string \<Rightarrow> status" where
  "mem_FileExists fs path = (if fs path \<noteq> None then Ok else NotFound ''file does not exist'')"

definition mem_GetFileSize :: "mem_env \<Rightarrow> string \<Rightarrow> status \<times> nat" where
  "mem_GetFileSize fs path =
     (case fs path of None \<Rightarrow> (NotFound ''file does not exist'', 0) | Some c \<Rightarrow> (Ok, length c))"

definition mem_DeleteFile :: "mem_env \<Rightarrow> string \<Rightarrow> status \<times> mem_env" where
  "mem_DeleteFile fs path = (Ok, fs(path := None))"

definition mem_RenameFile :: "mem_env \<Rightarrow> string \<Rightarrow> string \<Rightarrow> status \<times> mem_env" where
  "mem_RenameFile fs src dst =
     (case fs src of
        None \<Rightarrow> (NotFound ''file does not exist'', fs)
      | Some c \<Rightarrow> (Ok, (fs(src := None))(dst \<mapsto> c)))"

subsection \<open>The interface of an append-only file\<close>

text \<open>What a log writer relies on, of either environment: an append that succeeds
  adds exactly its bytes, one that fails adds a prefix of them.  Appending a list
  of buffers (\<open>AppendIovecs\<close> of \<open>src/storage/wal/wal.cc\<close>) inherits both.\<close>

fun AppendIovecs :: "('e \<Rightarrow> 'f \<Rightarrow> byte list \<Rightarrow> status \<times> 'e \<times> 'f) \<Rightarrow> 'e \<Rightarrow> 'f \<Rightarrow> byte list list \<Rightarrow> status \<times> 'e \<times> 'f" where
  "AppendIovecs app e f [] = (Ok, e, f)"
| "AppendIovecs app e f (v # vs) =
     (if v = [] then AppendIovecs app e f vs
      else case app e f v of (st, e, f) \<Rightarrow> if \<not> st_ok st then (st, e, f) else AppendIovecs app e f vs)"

locale append_file =
  fixes app :: "'e \<Rightarrow> 'f \<Rightarrow> byte list \<Rightarrow> status \<times> 'e \<times> 'f"
    and content :: "'e \<Rightarrow> 'f \<Rightarrow> byte list"
    and ready :: "'e \<Rightarrow> 'f \<Rightarrow> bool"
  assumes app_ready: "ready e f \<Longrightarrow> app e f d = (st, e', f') \<Longrightarrow> ready e' f'"
    and app_ok: "ready e f \<Longrightarrow> app e f d = (st, e', f') \<Longrightarrow> st_ok st \<Longrightarrow> content e' f' = content e f @ d"
    and app_prefix: "ready e f \<Longrightarrow> app e f d = (st, e', f') \<Longrightarrow> \<exists>k \<le> length d. content e' f' = content e f @ take k d"
begin

lemma iovecs_ready: "ready e f \<Longrightarrow> AppendIovecs app e f vs = (st, e', f') \<Longrightarrow> ready e' f'"
proof (induction vs arbitrary: e f)
  case (Cons v vs)
  then show ?case
    by (auto split: prod.splits if_splits dest: app_ready)
qed simp

lemma iovecs_ok:
  "ready e f \<Longrightarrow> AppendIovecs app e f vs = (st, e', f') \<Longrightarrow> st_ok st \<Longrightarrow> content e' f' = content e f @ concat vs"
proof (induction vs arbitrary: e f)
  case (Cons v vs)
  then show ?case
    using app_ready [of e f v] app_ok [of e f v]
    by (auto split: prod.splits if_splits)
qed simp

lemma iovecs_prefix:
  "ready e f \<Longrightarrow> AppendIovecs app e f vs = (st, e', f') \<Longrightarrow> \<exists>k \<le> length (concat vs). content e' f' = content e f @ take k (concat vs)"
proof (induction vs arbitrary: e f)
  case (Cons v vs)
  show ?case
  proof (cases "v = []")
    case False
    obtain s e1 f1 where a: "app e f v = (s, e1, f1)" by (cases "app e f v")
    show ?thesis
    proof (cases "st_ok s")
      case True
      then have r: "AppendIovecs app e1 f1 vs = (st, e', f')" using Cons.prems False a by simp
      obtain k where "k \<le> length (concat vs)" "content e' f' = content e1 f1 @ take k (concat vs)"
        using Cons.IH [OF app_ready [OF Cons.prems(1) a] r] by blast
      then show ?thesis
        using app_ok [OF Cons.prems(1) a True] by (intro exI [of _ "length v + k"]) simp
    next
      case False
      then have "e' = e1" "f' = f1" using Cons.prems(2) a \<open>v \<noteq> []\<close> by auto
      show ?thesis
      proof -
        from app_prefix [OF Cons.prems(1) a] obtain k where "k \<le> length v" "content e1 f1 = content e f @ take k v"
          by blast
        then show ?thesis using \<open>e' = e1\<close> \<open>f' = f1\<close> by (intro exI [of _ k]) simp
      qed
    qed
  qed (use Cons in simp)
qed simp

end

subsection \<open>Both environments provide it\<close>

definition wf_content :: "posix_env \<Rightarrow> wfile \<Rightarrow> byte list" where
  "wf_content e f = (case ev_files e (wf_path f) of Some c \<Rightarrow> c | None \<Rightarrow> [])"

definition wf_ready :: "posix_env \<Rightarrow> wfile \<Rightarrow> bool" where
  "wf_ready e f \<longleftrightarrow> wf_open f \<and> (\<exists>c. ev_files e (wf_path f) = Some c \<and> wf_off f = length c)"

lemma pwrite_at_end: "pwrite_at c (length c) bs = c @ bs"
  by (simp add: pwrite_at_def)

lemma append_loop_spec:
  "wf_ready e f \<Longrightarrow> append_loop e f d = (st, e', f') \<Longrightarrow>
   wf_ready e' f' \<and> wf_path f' = wf_path f \<and>
   (st_ok st \<longrightarrow> wf_content e' f' = wf_content e f @ d) \<and>
   (\<exists>k \<le> length d. wf_content e' f' = wf_content e f @ take k d) \<and>
   (\<forall>p. p \<noteq> wf_path f \<longrightarrow> ev_files e' p = ev_files e p) \<and> ev_err e' = ev_err e \<and> ev_chunk e' = ev_chunk e \<and>
   ((\<forall>n. ev_err e n = None) \<longrightarrow> st = Ok)"
proof (induction e f d rule: append_loop.induct)
  case (1 e f d)
  show ?case
  proof (cases "d = []")
    case True
    then show ?thesis using "1.prems" by (subst (asm) append_loop.simps) auto
  next
    case False
    define w where "w = min (length d) (ev_chunk e (ev_tick e) + 1)"
    have wl: "w \<le> length d" by (simp add: w_def)
    obtain c where c: "wf_open f" "ev_files e (wf_path f) = Some c" "wf_off f = length c"
      using "1.prems"(1) by (auto simp: wf_ready_def)
    show ?thesis
    proof (cases "ev_err e (ev_tick e)")
      case (Some msg)
      then have "st = ErrnoStatus ''pwrite'' msg" "e' = e\<lparr>ev_tick := ev_tick e + 1\<rparr>" "f' = f"
        using "1.prems"(2) False by (subst (asm) append_loop.simps; simp add: sys_def Let_def)+
      then show ?thesis
        using c Some by (auto simp: wf_ready_def wf_content_def ErrnoStatus_def)
    next
      case None
      let ?e = "e\<lparr>ev_tick := Suc (ev_tick e), ev_files := (ev_files e)(wf_path f \<mapsto> c @ take w d)\<rparr>"
      let ?f = "f\<lparr>wf_off := wf_off f + w, wf_written := wf_written f + w\<rparr>"
      have s: "sys e = (None, e\<lparr>ev_tick := Suc (ev_tick e)\<rparr>)" using None by (simp add: sys_def)
      have r: "append_loop ?e ?f (drop w d) = (st, e', f')"
        using "1.prems"(2) False c by (subst (asm) append_loop.simps) (simp add: s Let_def pwrite_at_end w_def)
      have rdy: "wf_ready ?e ?f" using c wl by (simp add: wf_ready_def)
      have IH: "wf_ready e' f' \<and> wf_path f' = wf_path f \<and>
        (st_ok st \<longrightarrow> wf_content e' f' = wf_content ?e ?f @ drop w d) \<and>
        (\<exists>k \<le> length (drop w d). wf_content e' f' = wf_content ?e ?f @ take k (drop w d)) \<and>
        (\<forall>p. p \<noteq> wf_path f \<longrightarrow> ev_files e' p = ev_files ?e p) \<and> ev_err e' = ev_err e \<and> ev_chunk e' = ev_chunk e \<and>
        ((\<forall>n. ev_err e n = None) \<longrightarrow> st = Ok)"
        using "1.IH" [OF False w_def s [symmetric] refl] rdy r c by (simp add: pwrite_at_end)
      have cc: "wf_content ?e ?f = wf_content e f @ take w d" using c by (simp add: wf_content_def)
      have "\<exists>k \<le> length d. wf_content e' f' = wf_content e f @ take k d"
      proof -
        from IH obtain k where "k \<le> length (drop w d)" "wf_content e' f' = wf_content ?e ?f @ take k (drop w d)" by blast
        then have "w + k \<le> length d \<and> wf_content e' f' = wf_content e f @ take (w + k) d"
          using wl by (simp add: cc take_add)
        then show ?thesis by blast
      qed
      moreover have "st_ok st \<longrightarrow> wf_content e' f' = wf_content e f @ d" using IH by (simp add: cc)
      moreover have "\<forall>p. p \<noteq> wf_path f \<longrightarrow> ev_files e' p = ev_files e p" using IH by simp
      ultimately show ?thesis using IH by blast
    qed
  qed
qed

interpretation posix: append_file Wf_Append wf_content wf_ready
proof unfold_locales
  fix e f d st e' f'
  assume "wf_ready e f" "Wf_Append e f d = (st, e', f')"
  then have "append_loop e f d = (st, e', f')" by (simp add: Wf_Append_def wf_ready_def)
  note A = append_loop_spec [OF \<open>wf_ready e f\<close> this]
  show "wf_ready e' f'" using A by blast
  show "\<exists>k \<le> length d. wf_content e' f' = wf_content e f @ take k d" using A by blast
  assume "st_ok st"
  then show "wf_content e' f' = wf_content e f @ d" using A by blast
qed

interpretation in_memory: append_file mem_Append "\<lambda>fs f. mf_content f" "\<lambda>fs f. \<not> mf_closed f"
  by unfold_locales (auto simp: mem_Append_def)

text \<open>With no failing system call, everything succeeds; this is the premise of the
  durability statements of the log.\<close>

definition calls_ok :: "posix_env \<Rightarrow> bool" where
  "calls_ok e \<longleftrightarrow> (\<forall>n. ev_err e n = None)"

lemma sys_ok: "calls_ok e \<Longrightarrow> sys e = (None, e\<lparr>ev_tick := ev_tick e + 1\<rparr>)"
  by (simp add: sys_def calls_ok_def)

lemma calls_ok_tick [simp]: "calls_ok (e\<lparr>ev_tick := n\<rparr>) = calls_ok e" "calls_ok (e\<lparr>ev_files := fs\<rparr>) = calls_ok e"
  by (simp_all add: calls_ok_def)

lemma Wf_Append_ok:
  assumes "calls_ok e" "wf_ready e f" "Wf_Append e f d = (st, e', f')"
  shows "st = Ok" "calls_ok e'" "wf_ready e' f'" "wf_path f' = wf_path f"
    "ev_files e' = (ev_files e)(wf_path f \<mapsto> wf_content e f @ d)" "ev_chunk e' = ev_chunk e"
proof -
  have "append_loop e f d = (st, e', f')" using assms(2,3) by (simp add: Wf_Append_def wf_ready_def)
  note A = append_loop_spec [OF assms(2) this]
  show ok: "st = Ok" and "calls_ok e'" and rdy: "wf_ready e' f'" and pth: "wf_path f' = wf_path f"
    using A assms(1) by (simp_all add: calls_ok_def)
  have "wf_content e' f' = wf_content e f @ d" using A ok by simp
  then have "ev_files e' (wf_path f) = Some (wf_content e f @ d)"
    using rdy pth by (auto simp: wf_ready_def wf_content_def)
  then show "ev_files e' = (ev_files e)(wf_path f \<mapsto> wf_content e f @ d)"
    using A by (auto simp: fun_eq_iff)
  show "ev_chunk e' = ev_chunk e" using A by blast
qed

lemma AppendIovecs_ok:
  assumes "calls_ok e" "wf_ready e f" "AppendIovecs Wf_Append e f vs = (st, e', f')"
  shows "st = Ok \<and> calls_ok e' \<and> wf_ready e' f' \<and> wf_path f' = wf_path f \<and>
    ev_files e' = (ev_files e)(wf_path f \<mapsto> wf_content e f @ concat vs) \<and> ev_chunk e' = ev_chunk e"
  using assms
proof (induction vs arbitrary: e f)
  case Nil
  then show ?case by (auto simp: wf_ready_def wf_content_def)
next
  case (Cons v vs)
  obtain s e1 f1 where a: "Wf_Append e f v = (s, e1, f1)" by (cases "Wf_Append e f v")
  note W = Wf_Append_ok [OF Cons.prems(1,2) a]
  have c: "wf_content e1 f1 = wf_content e f @ v" using W by (simp add: wf_content_def)
  show ?case
  proof (cases "v = []")
    case False
    then have "AppendIovecs Wf_Append e1 f1 vs = (st, e', f')" using Cons.prems(3) a W(1) by simp
    from Cons.IH [OF W(2,3) this] show ?thesis by (simp add: c W(4-6) fun_eq_iff)
  qed (use Cons in simp)
qed

lemma mkdirs_ok: "calls_ok e \<Longrightarrow> \<exists>n. mkdirs e ps = (Ok, e\<lparr>ev_tick := n\<rparr>)"
proof (induction ps arbitrary: e)
  case Nil
  then show ?case by (auto intro: exI [of _ "ev_tick e"])
next
  case (Cons p ps)
  then show ?case using Cons.IH [of "e\<lparr>ev_tick := ev_tick e + 1\<rparr>"] by (auto simp: sys_ok)
qed

lemma CreateDirIfMissing_ok: "calls_ok e \<Longrightarrow> \<exists>n. CreateDirIfMissing e p = (Ok, e\<lparr>ev_tick := n\<rparr>)"
  using mkdirs_ok by (auto simp: CreateDirIfMissing_def intro: exI [of _ "ev_tick e"])

text \<open>C25: a failed write leaves a prefix. Whatever system calls fail and however short
  the writes are, appending a list of buffers to a file opened for append leaves
  the old content followed by a prefix of the concatenated buffers; if it reports
  \<open>Ok\<close> the prefix is all of it, and the writer stays positioned at the end of the
  file.\<close>

theorem AppendIovecs_prefix:
  assumes "wf_ready e f" "AppendIovecs Wf_Append e f vs = (st, e', f')"
  shows "wf_ready e' f' \<and> (\<exists>k \<le> length (concat vs). wf_content e' f' = wf_content e f @ take k (concat vs) \<and>
    (st_ok st \<longrightarrow> k = length (concat vs)))"
  using posix.iovecs_ready [OF assms] posix.iovecs_prefix [OF assms] posix.iovecs_ok [OF assms]
  by (cases "st_ok st") auto

theorem AppendIovecs_prefix_witness:
  "\<exists>k \<le> 3. wf_content (fst (snd (AppendIovecs Wf_Append
      \<lparr>ev_files = [''f'' \<mapsto> [9]], ev_tick = 0, ev_err = (\<lambda>n. if n = 2 then Some ''EIO'' else None), ev_chunk = (\<lambda>_. 0)\<rparr>
      \<lparr>wf_open = True, wf_path = ''f'', wf_off = 1, wf_written = 0\<rparr> [[1], [2, 3]])))
      \<lparr>wf_open = True, wf_path = ''f'', wf_off = 3, wf_written = 2\<rparr> = 9 # take k [1, 2, 3]"
proof -
  let ?e = "\<lparr>ev_files = [''f'' \<mapsto> [9]], ev_tick = 0, ev_err = (\<lambda>n. if n = 2 then Some ''EIO'' else None), ev_chunk = (\<lambda>_. 0)\<rparr>"
  let ?f = "\<lparr>wf_open = True, wf_path = ''f'', wf_off = 1, wf_written = 0\<rparr>"
  obtain st e' f' where a: "AppendIovecs Wf_Append ?e ?f [[1], [2, 3]] = (st, e', f')"
    by (cases "AppendIovecs Wf_Append ?e ?f [[1], [2, 3]]")
  have "f' = \<lparr>wf_open = True, wf_path = ''f'', wf_off = 3, wf_written = 2\<rparr>"
    using a by (auto simp: Wf_Append_def append_loop.simps sys_def Let_def ErrnoStatus_def)
  then show ?thesis
    using AppendIovecs_prefix [OF _ a] unfolding a by (auto simp: wf_ready_def wf_content_def [of ?e] numeral_3_eq_3)
qed

end
