(* ===== verification/Flat_Hash.thy ===== *)
theory Flat_Hash
  imports Prelude
begin

text \<open>
  The open-addressing table of \<open>src/table/flat_hash_memmap.h\<close>, as the memtable
  instantiates it: 64-bit keys, pointer values (\<open>None\<close> is the null pointer, which
  is also \<open>V{}\<close>), linear probing over a power-of-two slot array, the all-ones key
  marking an empty slot.  The hash functor is a parameter and nothing is assumed
  of it.  Slot indices and sizes are natural numbers (a slot array has far fewer
  than \<open>2 ^ 64\<close> entries); the one subtraction that can wrap, in \<open>Erase\<close>, has its
  wrap-around written out.  The table refines a finite map; the interface the
  memtable relies on is the locale \<open>key_map\<close>.
\<close>

type_synonym 'p slot = "u64 \<times> 'p option"

record 'p flat =
  fh_cap :: nat
  fh_mask :: nat
  fh_slots :: "'p slot list"
  fh_count :: nat

definition kInitialCap :: nat where
  "kInitialCap = 64"

definition sentinel :: u64 where
  "sentinel = NOT 0"

definition empty_slot :: "'p slot" where
  "empty_slot = (sentinel, None)"

text \<open>The smearing of \<open>RoundUpPow2\<close> on the 64-bit \<open>size_t\<close>.\<close>

definition RoundUpPow2 :: "u64 \<Rightarrow> u64" where
  "RoundUpPow2 n0 = (if n0 = 0 then 1 else
     let n = n0 - 1;
         n = n OR drop_bit 1 n;
         n = n OR drop_bit 2 n;
         n = n OR drop_bit 4 n;
         n = n OR drop_bit 8 n;
         n = n OR drop_bit 16 n;
         n = n OR drop_bit 32 n
     in n + 1)"

definition clear_slots :: "nat \<Rightarrow> nat \<Rightarrow> 'p slot list \<Rightarrow> 'p slot list" where
  "clear_slots b e ss = foldl (\<lambda>ss i. ss[i := empty_slot]) ss [b..<e]"

definition fh_new :: "u64 \<Rightarrow> 'p flat" where
  "fh_new initial_cap =
     (let c = (if initial_cap \<noteq> 0 then unat (RoundUpPow2 initial_cap) else kInitialCap)
      in \<lparr>fh_cap = c, fh_mask = c - 1, fh_slots = clear_slots 0 c (replicate c (0, None)), fh_count = 0\<rparr>)"

definition threshold :: "'p flat \<Rightarrow> nat" where
  "threshold m = (fh_cap m * 3) div 4"

definition BucketOf :: "(u64 \<Rightarrow> u64) \<Rightarrow> nat \<Rightarrow> u64 \<Rightarrow> nat" where
  "BucketOf hash msk k = unat (hash k) AND msk"

text \<open>The probe loop that \<open>Find\<close>, \<open>Erase\<close> and \<open>PutInternal\<close> share: slots
  \<open>(idx + i) & mask\<close> for the next \<open>n\<close> values of \<open>i\<close>, until an empty slot or the key.\<close>

datatype probe = Found nat | Vacant nat | Exhausted

fun probe_loop :: "'p slot list \<Rightarrow> nat \<Rightarrow> nat \<Rightarrow> u64 \<Rightarrow> nat \<Rightarrow> nat \<Rightarrow> probe" where
  "probe_loop ss msk idx key i 0 = Exhausted"
| "probe_loop ss msk idx key i (Suc n) =
     (let p = (idx + i) AND msk in
      if fst (ss ! p) = sentinel then Vacant p
      else if fst (ss ! p) = key then Found p
      else probe_loop ss msk idx key (Suc i) n)"

definition fh_Find :: "(u64 \<Rightarrow> u64) \<Rightarrow> 'p flat \<Rightarrow> u64 \<Rightarrow> 'p option option" where
  "fh_Find hash m key =
     (case probe_loop (fh_slots m) (fh_mask m) (BucketOf hash (fh_mask m) key) key 0 (fh_cap m) of
        Found p \<Rightarrow> Some (snd (fh_slots m ! p))
      | _ \<Rightarrow> None)"

text \<open>\<open>PutInternal\<close> on the map's own slot array, overwriting; the result says
  whether the key is new.\<close>

definition PutInternal :: "(u64 \<Rightarrow> u64) \<Rightarrow> 'p flat \<Rightarrow> u64 \<Rightarrow> 'p option \<Rightarrow> bool \<times> 'p flat" where
  "PutInternal hash m key value =
     (case probe_loop (fh_slots m) (fh_mask m) (BucketOf hash (fh_mask m) key) key 0 (fh_mask m + 1) of
        Vacant p \<Rightarrow> (True, m\<lparr>fh_slots := (fh_slots m)[p := (key, value)], fh_count := fh_count m + 1\<rparr>)
      | Found p \<Rightarrow> (False, m\<lparr>fh_slots := (fh_slots m)[p := (fst (fh_slots m ! p), value)]\<rparr>)
      | Exhausted \<Rightarrow> (False, m))"

fun raw_loop :: "'p slot list \<Rightarrow> nat \<Rightarrow> nat \<Rightarrow> 'p slot \<Rightarrow> nat \<Rightarrow> nat \<Rightarrow> 'p slot list" where
  "raw_loop ss msk idx s i 0 = ss"
| "raw_loop ss msk idx s i (Suc n) =
     (let p = (idx + i) AND msk in
      if fst (ss ! p) = sentinel then ss[p := s]
      else raw_loop ss msk idx s (Suc i) n)"

definition PutIntoRaw :: "(u64 \<Rightarrow> u64) \<Rightarrow> nat \<Rightarrow> 'p slot list \<Rightarrow> 'p slot \<Rightarrow> 'p slot list" where
  "PutIntoRaw hash msk ss s = raw_loop ss msk (BucketOf hash msk (fst s)) s 0 (msk + 1)"

definition fh_Grow :: "(u64 \<Rightarrow> u64) \<Rightarrow> 'p flat \<Rightarrow> 'p flat" where
  "fh_Grow hash m =
     (let new_cap = fh_cap m * 2;
          new_mask = new_cap - 1;
          new_slots = foldl (\<lambda>ss s. if fst s \<noteq> sentinel then PutIntoRaw hash new_mask ss s else ss)
                        (replicate new_cap empty_slot) (fh_slots m)
      in \<lparr>fh_cap = new_cap, fh_mask = new_mask, fh_slots = new_slots, fh_count = fh_count m\<rparr>)"

definition fh_Put :: "(u64 \<Rightarrow> u64) \<Rightarrow> 'p flat \<Rightarrow> u64 \<Rightarrow> 'p option \<Rightarrow> bool \<times> 'p flat" where
  "fh_Put hash m key value =
     PutInternal hash (if fh_count m \<ge> threshold m then fh_Grow hash m else m) key value"

text \<open>\<open>(a - b) & mask\<close> on \<open>size_t\<close>, with the wrap of the subtraction.\<close>

definition dist_mask :: "nat \<Rightarrow> nat \<Rightarrow> nat \<Rightarrow> nat" where
  "dist_mask msk a b = ((a + 2 ^ 64 - b) mod 2 ^ 64) AND msk"

text \<open>The backward-shift loop of \<open>Erase\<close>; the loop index keeps counting when the
  hole moves, as in the source.\<close>

fun shift_loop :: "(u64 \<Rightarrow> u64) \<Rightarrow> nat \<Rightarrow> 'p slot list \<Rightarrow> nat \<Rightarrow> nat \<Rightarrow> nat \<Rightarrow> 'p slot list \<times> nat" where
  "shift_loop hash msk ss hole i 0 = (ss, hole)"
| "shift_loop hash msk ss hole i (Suc n) =
     (let nxt = (hole + i) AND msk in
      if fst (ss ! nxt) = sentinel then (ss, hole)
      else let home = BucketOf hash msk (fst (ss ! nxt)) in
        if dist_mask msk hole home \<le> dist_mask msk nxt home
        then shift_loop hash msk (ss[hole := ss ! nxt]) nxt (Suc i) n
        else shift_loop hash msk ss hole (Suc i) n)"

definition fh_Erase :: "(u64 \<Rightarrow> u64) \<Rightarrow> 'p flat \<Rightarrow> u64 \<Rightarrow> bool \<times> 'p flat" where
  "fh_Erase hash m key =
     (case probe_loop (fh_slots m) (fh_mask m) (BucketOf hash (fh_mask m) key) key 0 (fh_cap m) of
        Found p \<Rightarrow>
          (let (ss, hole) = shift_loop hash (fh_mask m) (fh_slots m) p 1 (fh_cap m - 1)
           in (True, m\<lparr>fh_slots := ss[hole := empty_slot], fh_count := fh_count m - 1\<rparr>))
      | _ \<Rightarrow> (False, m))"

definition fh_Clear :: "'p flat \<Rightarrow> 'p flat" where
  "fh_Clear m = m\<lparr>fh_slots := clear_slots 0 (fh_cap m) (fh_slots m), fh_count := 0\<rparr>"

text \<open>\<open>ForEach\<close> calls back once per occupied slot, in slot order: the list of calls.\<close>

definition fh_ForEach :: "'p flat \<Rightarrow> 'p slot list" where
  "fh_ForEach m = filter (\<lambda>s. fst s \<noteq> sentinel) (fh_slots m)"

subsection \<open>The invariant and the map a table stands for\<close>

definition probe_at :: "(u64 \<Rightarrow> u64) \<Rightarrow> nat \<Rightarrow> u64 \<Rightarrow> nat \<Rightarrow> nat" where
  "probe_at hash N k i = (unat (hash k) + i) mod N"

definition occupied :: "'p slot list \<Rightarrow> nat \<Rightarrow> bool" where
  "occupied ss p = (fst (ss ! p) \<noteq> sentinel)"

text \<open>Every key is stored once, and no empty slot lies between the home bucket of
  a stored key and its slot.\<close>

definition slots_ok :: "(u64 \<Rightarrow> u64) \<Rightarrow> nat \<Rightarrow> 'p slot list \<Rightarrow> bool" where
  "slots_ok hash N ss \<longleftrightarrow>
     length ss = N \<and>
     (\<forall>p<N. \<forall>q<N. occupied ss p \<longrightarrow> fst (ss ! p) = fst (ss ! q) \<longrightarrow> p = q) \<and>
     (\<forall>p<N. occupied ss p \<longrightarrow>
        (\<exists>d<N. p = probe_at hash N (fst (ss ! p)) d \<and>
          (\<forall>i<d. occupied ss (probe_at hash N (fst (ss ! p)) i))))"

definition entries :: "'p slot list \<Rightarrow> 'p slot set" where
  "entries ss = {s \<in> set ss. fst s \<noteq> sentinel}"

definition pow2 :: "nat \<Rightarrow> bool" where
  "pow2 N \<longleftrightarrow> (\<exists>n. N = 2 ^ n)"

definition flat_inv :: "(u64 \<Rightarrow> u64) \<Rightarrow> 'p flat \<Rightarrow> bool" where
  "flat_inv hash m \<longleftrightarrow>
     pow2 (fh_cap m) \<and> fh_mask m = fh_cap m - Suc 0 \<and> slots_ok hash (fh_cap m) (fh_slots m) \<and>
     fh_count m = card {p. p < fh_cap m \<and> occupied (fh_slots m) p} \<and>
     fh_count m \<le> threshold m"

definition flat_map :: "'p flat \<Rightarrow> u64 \<rightharpoonup> 'p option" where
  "flat_map m = map_of (fh_ForEach m)"

lemma and_mask_mod: "pow2 N \<Longrightarrow> a AND (N - Suc 0) = a mod N"
proof -
  assume "pow2 N"
  then obtain n where "N = 2 ^ n" by (auto simp: pow2_def)
  then show ?thesis
    by (simp add: take_bit_eq_mod [symmetric] take_bit_eq_mask mask_eq_exp_minus_1)
qed

lemma pow2_pos: "pow2 N \<Longrightarrow> 0 < N"
  by (auto simp: pow2_def)

lemma BucketOf_probe_at: "pow2 N \<Longrightarrow> (BucketOf hash (N - Suc 0) k + i) AND (N - Suc 0) = probe_at hash N k i"
  by (simp add: BucketOf_def probe_at_def and_mask_mod mod_add_left_eq)

lemma probe_at_less [simp]: "0 < N \<Longrightarrow> probe_at hash N k i < N"
  by (simp add: probe_at_def)

lemma probe_at_surj:
  assumes "p < N"
  obtains d where "d < N" "probe_at hash N k d = p"
proof
  let ?h = "unat (hash k) mod N"
  let ?d = "(p + N - ?h) mod N"
  show "?d < N" using assms by simp
  have h: "?h < N" using assms by simp
  have "(?h + ?d) mod N = (?h + (p + N - ?h)) mod N" by (rule mod_add_right_eq)
  also have "?h + (p + N - ?h) = p + N" using h by linarith
  finally have "(?h + ?d) mod N = p" using assms by simp
  then show "probe_at hash N k ?d = p"
    by (simp add: probe_at_def mod_add_left_eq)
qed

subsection \<open>What a probe finds\<close>

lemma probe_spec:
  assumes N: "pow2 N"
    and start: "\<forall>j<i. occupied ss (probe_at hash N k j) \<and> fst (ss ! probe_at hash N k j) \<noteq> k"
  shows "case probe_loop ss (N - Suc 0) (BucketOf hash (N - Suc 0) k) k i n of
      Found p \<Rightarrow> (\<exists>d<i + n. p = probe_at hash N k d \<and> fst (ss ! p) = k \<and> occupied ss p)
    | Vacant p \<Rightarrow> (\<exists>d<i + n. p = probe_at hash N k d \<and> \<not> occupied ss p \<and>
        (\<forall>j<d. occupied ss (probe_at hash N k j) \<and> fst (ss ! probe_at hash N k j) \<noteq> k))
    | Exhausted \<Rightarrow> (\<forall>j<i + n. occupied ss (probe_at hash N k j) \<and> fst (ss ! probe_at hash N k j) \<noteq> k)"
  using start
proof (induction n arbitrary: i)
  case (Suc n)
  note B = BucketOf_probe_at [OF N, of hash k i]
  consider "\<not> occupied ss (probe_at hash N k i)"
    | "occupied ss (probe_at hash N k i)" "fst (ss ! probe_at hash N k i) = k"
    | "occupied ss (probe_at hash N k i)" "fst (ss ! probe_at hash N k i) \<noteq> k"
    by blast
  then show ?case
  proof cases
    case 1
    then show ?thesis
      using Suc.prems by (auto simp: B occupied_def Let_def intro!: exI [of _ i])
  next
    case 2
    then show ?thesis
      by (auto simp: B occupied_def Let_def intro!: exI [of _ i])
  next
    case 3
    then have "\<forall>j<Suc i. occupied ss (probe_at hash N k j) \<and> fst (ss ! probe_at hash N k j) \<noteq> k"
      using Suc.prems by (auto simp: less_Suc_eq)
    from Suc.IH [OF this, unfolded add_Suc_shift] 3 show ?thesis
      by (simp add: B occupied_def Let_def)
  qed
qed simp

lemma slots_ok_unique:
  "slots_ok hash N ss \<Longrightarrow> p < N \<Longrightarrow> q < N \<Longrightarrow> occupied ss p \<Longrightarrow> fst (ss ! p) = fst (ss ! q) \<Longrightarrow> p = q"
  unfolding slots_ok_def by blast

lemma slots_ok_chain:
  assumes "slots_ok hash N ss" "p < N" "occupied ss p"
  obtains d where "d < N" "p = probe_at hash N (fst (ss ! p)) d"
    "\<forall>i<d. occupied ss (probe_at hash N (fst (ss ! p)) i)"
  using assms unfolding slots_ok_def by blast

text \<open>An empty slot on the probe_at of a key, reached before the key, shows the key is
  not stored anywhere.\<close>

lemma vacant_absent:
  assumes ok: "slots_ok hash N ss" and vac: "\<not> occupied ss (probe_at hash N k d)"
    and before: "\<forall>j<d. fst (ss ! probe_at hash N k j) \<noteq> k" and k: "k \<noteq> sentinel"
    and q: "q < N"
  shows "fst (ss ! q) \<noteq> k"
proof
  assume e: "fst (ss ! q) = k"
  then have "occupied ss q" using k by (simp add: occupied_def)
  from slots_ok_chain [OF ok q this] e obtain d' where
    d': "q = probe_at hash N k d'" "\<forall>i<d'. occupied ss (probe_at hash N k i)" by metis
  consider "d' < d" | "d' = d" | "d < d'" by linarith
  then show False
    by cases (use before d' e vac k in \<open>auto simp: occupied_def\<close>)
qed

lemma Find_spec:
  assumes N: "pow2 N" and ok: "slots_ok hash N ss" and free: "\<exists>q<N. \<not> occupied ss q"
    and k: "k \<noteq> sentinel"
  shows "case probe_loop ss (N - Suc 0) (BucketOf hash (N - Suc 0) k) k 0 N of
      Found p \<Rightarrow> p < N \<and> fst (ss ! p) = k
    | Vacant p \<Rightarrow> p < N \<and> \<not> occupied ss p \<and> (\<forall>q<N. fst (ss ! q) \<noteq> k) \<and>
        (\<exists>d<N. p = probe_at hash N k d \<and> (\<forall>i<d. occupied ss (probe_at hash N k i)))
    | Exhausted \<Rightarrow> False"
proof -
  note sp = probe_spec [OF N, of 0 ss hash k N]
  have pos: "0 < N" by (rule pow2_pos [OF N])
  show ?thesis
  proof (cases "probe_loop ss (N - Suc 0) (BucketOf hash (N - Suc 0) k) k 0 N")
    case (Found p)
    then show ?thesis using sp pos by auto
  next
    case (Vacant p)
    then obtain d where d: "d < N" "p = probe_at hash N k d" "\<not> occupied ss p"
        "\<forall>j<d. occupied ss (probe_at hash N k j) \<and> fst (ss ! probe_at hash N k j) \<noteq> k"
      using sp by auto
    have "\<forall>q<N. fst (ss ! q) \<noteq> k"
      using vacant_absent [OF ok _ _ k, of d] d by blast
    then show ?thesis using Vacant d pos by auto
  next
    case Exhausted
    then have all: "\<forall>j<N. occupied ss (probe_at hash N k j)" using sp by auto
    from free obtain q where q: "q < N" "\<not> occupied ss q" by blast
    obtain d where "d < N" "probe_at hash N k d = q" by (rule probe_at_surj [OF q(1)])
    then show ?thesis using all q by auto
  qed
qed

subsection \<open>Storing into the slot array\<close>

lemma slots_ok_insert:
  assumes ok: "slots_ok hash N ss" and p: "p = probe_at hash N k d" "d < N" "\<not> occupied ss p"
    and chain: "\<forall>i<d. occupied ss (probe_at hash N k i)"
    and absent: "\<forall>q<N. fst (ss ! q) \<noteq> k"
  shows "slots_ok hash N (ss[p := (k, v)])"
proof -
  let ?t = "ss[p := (k, v)]"
  have len: "length ss = N" using ok by (simp add: slots_ok_def)
  have pN: "p < N" using p by (simp add: probe_at_def)
  have mono: "occupied ?t q" if "occupied ss q" "q < N" for q
    using that p(3) by (cases "q = p") (auto simp: occupied_def)
  have uniq: "r = q" if "r < N" "q < N" "occupied ?t r" "fst (?t ! r) = fst (?t ! q)" for r q
  proof (cases "r = p \<or> q = p")
    case True
    then show ?thesis using that absent len by (auto simp: nth_list_update split: if_splits)
  next
    case False
    then show ?thesis
      using that slots_ok_unique [OF ok that(1,2)] by (simp add: occupied_def)
  qed
  have "\<exists>e<N. q = probe_at hash N (fst (?t ! q)) e \<and> (\<forall>i<e. occupied ?t (probe_at hash N (fst (?t ! q)) i))"
    if q: "q < N" "occupied ?t q" for q
  proof (cases "q = p")
    case True
    then have "fst (?t ! q) = k" using len pN by simp
    then show ?thesis
      using True p chain mono pN by (intro exI [of _ d]) (simp add: probe_at_less [of N])
  next
    case False
    then have "occupied ss q" using q by (simp add: occupied_def)
    from slots_ok_chain [OF ok q(1) this] obtain e where
      "e < N" "q = probe_at hash N (fst (ss ! q)) e" "\<forall>i<e. occupied ss (probe_at hash N (fst (ss ! q)) i)" .
    then show ?thesis
      using False mono pN by (intro exI [of _ e]) (simp add: probe_at_less [of N])
  qed
  then show ?thesis
    unfolding slots_ok_def using len uniq by simp
qed

lemma slots_ok_overwrite:
  assumes ok: "slots_ok hash N ss" and "p < N" "fst (ss ! p) = k"
  shows "slots_ok hash N (ss[p := (k, v)])"
proof -
  have len: "length ss = N" using ok by (simp add: slots_ok_def)
  then have f: "fst (ss[p := (k, v)] ! q) = fst (ss ! q)" if "q < N" for q
    using assms that by (auto simp: nth_list_update)
  then have o: "occupied (ss[p := (k, v)]) q = occupied ss q" if "q < N" for q
    using that by (simp add: occupied_def)
  have "0 < N" using assms by simp
  then show ?thesis
    using ok by (simp add: slots_ok_def f o probe_at_less cong: conj_cong imp_cong)
qed

lemma entries_nth: "s \<in> entries ss \<longleftrightarrow> (\<exists>p<length ss. ss ! p = s \<and> occupied ss p)"
  by (auto simp: entries_def occupied_def in_set_conv_nth)

lemma entries_insert:
  assumes "p < length ss" "\<not> occupied ss p" "k \<noteq> sentinel"
  shows "entries (ss[p := (k, v)]) = insert (k, v) (entries ss)"
proof (rule set_eqI)
  fix s
  have "(\<exists>q<length ss. ss[p := (k, v)] ! q = s \<and> occupied (ss[p := (k, v)]) q)
      \<longleftrightarrow> s = (k, v) \<or> (\<exists>q<length ss. ss ! q = s \<and> occupied ss q)"
    using assms by (auto simp: occupied_def nth_list_update)
  then show "s \<in> entries (ss[p := (k, v)]) \<longleftrightarrow> s \<in> insert (k, v) (entries ss)"
    by (simp add: entries_nth)
qed

lemma entries_overwrite:
  assumes ok: "slots_ok hash N ss" and p: "p < N" "fst (ss ! p) = k" and k: "k \<noteq> sentinel"
  shows "entries (ss[p := (k, v)]) = insert (k, v) {s \<in> entries ss. fst s \<noteq> k}"
proof (rule set_eqI)
  fix s
  have len: "length ss = N" using ok by (simp add: slots_ok_def)
  have u: "q = p" if "q < N" "fst (ss ! q) = k" for q
    using slots_ok_unique [OF ok p(1) that(1)] p that k by (auto simp: occupied_def)
  have t: "ss[p := (k, v)] ! q = (if q = p then (k, v) else ss ! q)" if "q < N" for q
    using that p len by simp
  show "s \<in> entries (ss[p := (k, v)]) \<longleftrightarrow> s \<in> insert (k, v) {s \<in> entries ss. fst s \<noteq> k}"
  proof
    assume "s \<in> entries (ss[p := (k, v)])"
    then obtain q where q: "q < N" "ss[p := (k, v)] ! q = s" "fst s \<noteq> sentinel"
      unfolding entries_nth occupied_def by (auto simp: len)
    show "s \<in> insert (k, v) {s \<in> entries ss. fst s \<noteq> k}"
    proof (cases "q = p")
      case True
      then show ?thesis using t [OF q(1)] q(2) by simp
    next
      case False
      then have e: "ss ! q = s" using t [OF q(1)] q(2) by simp
      then have "fst s \<noteq> k" using u [OF q(1)] False by blast
      moreover have "s \<in> entries ss"
        using e q nth_mem [of q ss] len by (auto simp: entries_def)
      ultimately show ?thesis by simp
    qed
  next
    assume "s \<in> insert (k, v) {s \<in> entries ss. fst s \<noteq> k}"
    then consider "s = (k, v)" | q where "q < N" "ss ! q = s" "fst s \<noteq> sentinel" "fst s \<noteq> k"
      unfolding entries_nth occupied_def by (auto simp: len)
    then have "\<exists>q<N. ss[p := (k, v)] ! q = s \<and> fst s \<noteq> sentinel"
    proof cases
      case 1
      then show ?thesis using t [OF p(1)] p k by (intro exI [of _ p]) simp
    next
      case 2
      then have "q \<noteq> p" using p by blast
      then show ?thesis using 2 t [OF 2(1)] by (intro exI [of _ q]) simp
    qed
    then show "s \<in> entries (ss[p := (k, v)])"
      using len by (auto simp: entries_nth occupied_def)
  qed
qed

lemma card_occupied_insert:
  assumes "p < N" "length ss = N" "\<not> occupied ss p" "k \<noteq> sentinel"
  shows "card {q. q < N \<and> occupied (ss[p := (k, v)]) q} = Suc (card {q. q < N \<and> occupied ss q})"
proof -
  have "{q. q < N \<and> occupied (ss[p := (k, v)]) q} = insert p {q. q < N \<and> occupied ss q}"
    using assms by (auto simp: occupied_def nth_list_update)
  then show ?thesis using assms by simp
qed

lemma card_occupied_overwrite:
  assumes "p < N" "length ss = N" "fst (ss ! p) = k"
  shows "{q. q < N \<and> occupied (ss[p := (k, v)]) q} = {q. q < N \<and> occupied ss q}"
  using assms by (auto simp: occupied_def nth_list_update)

lemma free_slot: "card {q. q < N \<and> occupied ss q} < N \<Longrightarrow> \<exists>q<N. \<not> occupied ss q"
proof (rule ccontr)
  assume "card {q. q < N \<and> occupied ss q} < N" "\<not> (\<exists>q<N. \<not> occupied ss q)"
  then have "{q. q < N \<and> occupied ss q} = {..<N}" by auto
  then show False using \<open>card {q. q < N \<and> occupied ss q} < N\<close> by simp
qed

lemma distinct_filter_keys:
  assumes "\<And>p q. p < length ss \<Longrightarrow> q < length ss \<Longrightarrow> occupied ss p \<Longrightarrow> fst (ss ! p) = fst (ss ! q) \<Longrightarrow> p = q"
  shows "distinct (map fst (filter (\<lambda>s. fst s \<noteq> sentinel) ss))"
  using assms
proof (induction ss)
  case (Cons s ss)
  have "p = q" if "p < length ss" "q < length ss" "occupied ss p" "fst (ss ! p) = fst (ss ! q)" for p q
    using Cons.prems [of "Suc p" "Suc q"] that by (simp add: occupied_def)
  then have IH: "distinct (map fst (filter (\<lambda>s. fst s \<noteq> sentinel) ss))"
    by (rule Cons.IH)
  have "fst s \<notin> fst ` set ss" if "fst s \<noteq> sentinel"
  proof
    assume "fst s \<in> fst ` set ss"
    then obtain q where "q < length ss" "fst (ss ! q) = fst s"
      by (auto simp: in_set_conv_nth)
    then show False
      using Cons.prems [of 0 "Suc q"] that by (simp add: occupied_def)
  qed
  then show ?case using IH by auto
qed simp

lemma distinct_ForEach: "flat_inv hash m \<Longrightarrow> distinct (map fst (fh_ForEach m))"
  unfolding fh_ForEach_def
  by (rule distinct_filter_keys, rule slots_ok_unique [of hash "fh_cap m"]) (auto simp: flat_inv_def slots_ok_def)

lemma flat_map_entries:
  assumes "flat_inv hash m"
  shows "flat_map m k = Some v \<longleftrightarrow> (k, v) \<in> entries (fh_slots m)"
  using distinct_ForEach [OF assms] by (simp add: flat_map_def) (auto simp: fh_ForEach_def entries_def)

lemma flat_map_eqI:
  assumes "flat_inv hash m" "\<And>k v. f k = Some v \<longleftrightarrow> (k, v) \<in> entries (fh_slots m)"
  shows "flat_map m = f"
proof
  fix k
  show "flat_map m k = f k"
    using flat_map_entries [OF assms(1)] assms(2) by (metis not_Some_eq)
qed

lemma flat_inv_free: "flat_inv hash m \<Longrightarrow> \<exists>q<fh_cap m. \<not> occupied (fh_slots m) q"
proof (rule free_slot)
  assume inv: "flat_inv hash m"
  then have "0 < fh_cap m" by (auto simp: flat_inv_def intro: pow2_pos)
  then show "card {q. q < fh_cap m \<and> occupied (fh_slots m) q} < fh_cap m"
    using inv by (auto simp: flat_inv_def threshold_def)
qed

subsection \<open>Find, insertion and growth refine the map\<close>

lemma fh_Find_map:
  assumes inv: "flat_inv hash m" and k: "k \<noteq> sentinel"
  shows "fh_Find hash m k = flat_map m k"
proof -
  have N: "pow2 (fh_cap m)" and ok: "slots_ok hash (fh_cap m) (fh_slots m)"
    and msk: "fh_mask m = fh_cap m - Suc 0" and len: "length (fh_slots m) = fh_cap m"
    using inv by (auto simp: flat_inv_def slots_ok_def)
  note sp = Find_spec [OF N ok flat_inv_free [OF inv] k]
  show ?thesis
  proof (cases "probe_loop (fh_slots m) (fh_cap m - Suc 0) (BucketOf hash (fh_cap m - Suc 0) k) k 0 (fh_cap m)")
    case (Found p)
    then have p: "p < fh_cap m" "fst (fh_slots m ! p) = k" using sp by auto
    then have "(k, snd (fh_slots m ! p)) \<in> entries (fh_slots m)"
      using k nth_mem [of p "fh_slots m"] len by (auto simp: entries_def)
    then show ?thesis
      using Found flat_map_entries [OF inv, of k "snd (fh_slots m ! p)"] by (simp add: fh_Find_def msk)
  next
    case (Vacant p)
    then have "\<forall>q<fh_cap m. fst (fh_slots m ! q) \<noteq> k" using sp by auto
    then have "flat_map m k = None"
      using flat_map_entries [OF inv, of k] len by (metis entries_nth fst_conv not_Some_eq)
    then show ?thesis using Vacant by (simp add: fh_Find_def msk)
  qed (use sp in auto)
qed

lemma PutInternal_correct:
  assumes N: "pow2 (fh_cap m)" and msk: "fh_mask m = fh_cap m - Suc 0"
    and ok: "slots_ok hash (fh_cap m) (fh_slots m)"
    and cnt: "fh_count m = card {p. p < fh_cap m \<and> occupied (fh_slots m) p}"
    and room: "fh_count m < threshold m" and k: "k \<noteq> sentinel"
    and r_def: "r = PutInternal hash m k v"
  shows "flat_inv hash (snd r)"
    and "entries (fh_slots (snd r)) = insert (k, v) {s \<in> entries (fh_slots m). fst s \<noteq> k}"
    and "fst r \<longleftrightarrow> (\<forall>s \<in> entries (fh_slots m). fst s \<noteq> k)"
proof -
  let ?N = "fh_cap m" and ?ss = "fh_slots m"
  have pos: "0 < ?N" by (rule pow2_pos [OF N])
  have len: "length ?ss = ?N" using ok by (simp add: slots_ok_def)
  have "card {q. q < ?N \<and> occupied ?ss q} < ?N"
    using room cnt pos by (auto simp: threshold_def)
  note sp = Find_spec [OF N ok free_slot [OF this] k]
  have m1: "?N - Suc 0 + 1 = ?N" using pos by simp
  let ?pr = "probe_loop ?ss (?N - Suc 0) (BucketOf hash (?N - Suc 0) k) k 0 ?N"
  have "flat_inv hash (snd r) \<and>
     entries (fh_slots (snd r)) = insert (k, v) {s \<in> entries ?ss. fst s \<noteq> k} \<and>
     (fst r \<longleftrightarrow> (\<forall>s \<in> entries ?ss. fst s \<noteq> k))"
  proof (cases ?pr)
    case (Found p)
    then have p: "p < ?N" "fst (?ss ! p) = k" using sp by auto
    have r: "r = (False, m\<lparr>fh_slots := ?ss[p := (k, v)]\<rparr>)"
      unfolding r_def PutInternal_def msk m1 using Found p by simp
    have "?ss ! p \<in> entries ?ss" using p k nth_mem [of p ?ss] len by (auto simp: entries_def)
    then have "\<not> (\<forall>s \<in> entries ?ss. fst s \<noteq> k)" using p by blast
    moreover have "flat_inv hash (snd r)"
      using N msk cnt room slots_ok_overwrite [OF ok p] card_occupied_overwrite [OF p(1) len p(2)]
      by (simp add: r flat_inv_def threshold_def)
    ultimately show ?thesis
      by (simp add: r entries_overwrite [OF ok p k])
  next
    case (Vacant p)
    then obtain d where p: "p < ?N" "\<not> occupied ?ss p" "\<forall>q<?N. fst (?ss ! q) \<noteq> k"
        "d < ?N" "p = probe_at hash ?N k d" "\<forall>i<d. occupied ?ss (probe_at hash ?N k i)"
      using sp by auto
    have r: "r = (True, m\<lparr>fh_slots := ?ss[p := (k, v)], fh_count := fh_count m + 1\<rparr>)"
      unfolding r_def PutInternal_def msk m1 using Vacant by simp
    have abs: "\<forall>s \<in> entries ?ss. fst s \<noteq> k" using p(3) len by (metis entries_nth)
    then have same: "{s \<in> entries ?ss. fst s \<noteq> k} = entries ?ss" by auto
    have "flat_inv hash (snd r)"
      using N msk cnt room slots_ok_insert [OF ok p(5,4,2,6,3)] card_occupied_insert [OF p(1) len p(2) k]
      by (simp add: r flat_inv_def threshold_def)
    then show ?thesis
      using p len k abs by (simp add: r entries_insert same)
  qed (use sp in auto)
  then show "flat_inv hash (snd r)"
    and "entries (fh_slots (snd r)) = insert (k, v) {s \<in> entries (fh_slots m). fst s \<noteq> k}"
    and "fst r \<longleftrightarrow> (\<forall>s \<in> entries (fh_slots m). fst s \<noteq> k)" by blast+
qed

lemma raw_loop_probe:
  assumes N: "pow2 N" and absent: "\<forall>q<N. fst (ss ! q) \<noteq> k"
  shows "raw_loop ss (N - Suc 0) idx (k, v) i n
    = (case probe_loop ss (N - Suc 0) idx k i n of Vacant p \<Rightarrow> ss[p := (k, v)] | _ \<Rightarrow> ss)"
proof (induction n arbitrary: i)
  case (Suc n)
  have "(idx + i) AND (N - Suc 0) < N" using pow2_pos [OF N] by (simp add: and_mask_mod [OF N])
  then show ?case using absent Suc by (simp add: Let_def)
qed simp

lemma PutIntoRaw_correct:
  assumes N: "pow2 N" and ok: "slots_ok hash N ss"
    and room: "card {q. q < N \<and> occupied ss q} < N"
    and k: "fst s \<noteq> sentinel" and absent: "\<forall>t \<in> entries ss. fst t \<noteq> fst s"
    and r_def: "r = PutIntoRaw hash (N - Suc 0) ss s"
  shows "slots_ok hash N r" "entries r = insert s (entries ss)"
    "card {q. q < N \<and> occupied r q} = Suc (card {q. q < N \<and> occupied ss q})"
proof -
  obtain kk v where s: "s = (kk, v)" by (cases s)
  have pos: "0 < N" by (rule pow2_pos [OF N])
  have len: "length ss = N" using ok by (simp add: slots_ok_def)
  have ab: "\<forall>q<N. fst (ss ! q) \<noteq> kk"
    using absent k s len by (metis entries_nth fst_conv occupied_def)
  note sp = Find_spec [OF N ok free_slot [OF room], of kk]
  obtain p d where p: "p < N" "\<not> occupied ss p" "d < N" "p = probe_at hash N kk d"
      "\<forall>i<d. occupied ss (probe_at hash N kk i)"
      "probe_loop ss (N - Suc 0) (BucketOf hash (N - Suc 0) kk) kk 0 N = Vacant p"
    using sp k s ab by (auto split: probe.splits)
  have m1: "N - Suc 0 + 1 = N" using pos by simp
  have r: "r = ss[p := (kk, v)]"
    unfolding r_def PutIntoRaw_def s fst_conv m1 by (simp add: raw_loop_probe [OF N ab] p)
  show "slots_ok hash N r"
    unfolding r by (rule slots_ok_insert [OF ok p(4,3,2,5) ab])
  show "entries r = insert s (entries ss)"
    using p len k s by (simp add: r entries_insert)
  show "card {q. q < N \<and> occupied r q} = Suc (card {q. q < N \<and> occupied ss q})"
    unfolding r by (rule card_occupied_insert) (use p len k s in auto)
qed

lemma Grow_fold:
  assumes N: "pow2 N" and "slots_ok hash N ss"
    and "card {q. q < N \<and> occupied ss q} + length (filter (\<lambda>s. fst s \<noteq> sentinel) xs) \<le> N"
    and "distinct (map fst (filter (\<lambda>s. fst s \<noteq> sentinel) xs))"
    and "\<forall>t \<in> entries ss. \<forall>x \<in> entries xs. fst t \<noteq> fst x"
    and "r = foldl (\<lambda>ss s. if fst s \<noteq> sentinel then PutIntoRaw hash (N - Suc 0) ss s else ss) ss xs"
  shows "slots_ok hash N r \<and> entries r = entries ss \<union> entries xs \<and>
    card {q. q < N \<and> occupied r q} = card {q. q < N \<and> occupied ss q} + length (filter (\<lambda>s. fst s \<noteq> sentinel) xs)"
  using assms(2-)
proof (induction xs arbitrary: ss)
  case (Cons x xs)
  show ?case
  proof (cases "fst x = sentinel")
    case True
    then have "entries (x # xs) = entries xs" by (auto simp: entries_def)
    then show ?thesis using Cons True by simp
  next
    case False
    let ?ss = "PutIntoRaw hash (N - Suc 0) ss x"
    have "entries (x # xs) = insert x (entries xs)" using False by (auto simp: entries_def)
    note e = this
    have "card {q. q < N \<and> occupied ss q} < N" using Cons.prems(2) False by simp
    moreover have "\<forall>t \<in> entries ss. fst t \<noteq> fst x" using Cons.prems(4) e by blast
    ultimately have P: "slots_ok hash N ?ss" "entries ?ss = insert x (entries ss)"
      "card {q. q < N \<and> occupied ?ss q} = Suc (card {q. q < N \<and> occupied ss q})"
      using PutIntoRaw_correct [OF N Cons.prems(1) _ False] by blast+
    have xs: "fst x \<noteq> fst y" if "y \<in> entries xs" for y
      using Cons.prems(3) False that by (auto simp: entries_def)
    have dis: "\<forall>t \<in> entries ?ss. \<forall>y \<in> entries xs. fst t \<noteq> fst y"
      using Cons.prems(4) [unfolded e] xs by (simp add: P(2))
    have "slots_ok hash N r \<and> entries r = entries ?ss \<union> entries xs \<and>
        card {q. q < N \<and> occupied r q} = card {q. q < N \<and> occupied ?ss q}
          + length (filter (\<lambda>s. fst s \<noteq> sentinel) xs)"
      by (rule Cons.IH [OF P(1) _ _ dis]) (use Cons.prems False P(3) in auto)
    then show ?thesis using P e False by simp
  qed
qed (simp add: entries_def)

lemma card_occupied_filter:
  "length ss = N \<Longrightarrow> card {q. q < N \<and> occupied ss q} = length (filter (\<lambda>s. fst s \<noteq> sentinel) ss)"
  by (simp add: length_filter_conv_card occupied_def)

lemma Grow_correct:
  fixes m :: "'p flat"
  assumes inv: "flat_inv hash m" and g: "g = fh_Grow hash m"
  shows "pow2 (fh_cap g)" "fh_cap g = 2 * fh_cap m" "fh_mask g = fh_cap g - Suc 0"
    "slots_ok hash (fh_cap g) (fh_slots g)"
    "fh_count g = card {p. p < fh_cap g \<and> occupied (fh_slots g) p}"
    "fh_count g = fh_count m" "entries (fh_slots g) = entries (fh_slots m)"
proof -
  let ?N = "fh_cap m * 2" and ?e = "replicate (fh_cap m * 2) empty_slot :: 'p slot list"
  have N: "pow2 ?N"
  proof -
    obtain n where "fh_cap m = 2 ^ n" using inv by (auto simp: flat_inv_def pow2_def)
    then show ?thesis by (auto simp: pow2_def intro: exI [of _ "Suc n"])
  qed
  have ok: "slots_ok hash (fh_cap m) (fh_slots m)" and len: "length (fh_slots m) = fh_cap m"
    and cnt: "fh_count m = card {p. p < fh_cap m \<and> occupied (fh_slots m) p}"
    and thr: "fh_count m \<le> threshold m"
    using inv by (auto simp: flat_inv_def slots_ok_def)
  have nocc: "\<not> occupied ?e q" if "q < ?N" for q
    using that by (simp add: occupied_def empty_slot_def)
  have ee: "entries ?e = {}" by (auto simp: entries_def empty_slot_def)
  have c0: "{q. q < ?N \<and> occupied ?e q} = {}" using nocc by auto
  have "slots_ok hash ?N (fh_slots g) \<and> entries (fh_slots g) = entries ?e \<union> entries (fh_slots m) \<and>
      card {q. q < ?N \<and> occupied (fh_slots g) q}
        = card {q. q < ?N \<and> occupied ?e q} + length (filter (\<lambda>s. fst s \<noteq> sentinel) (fh_slots m))"
  proof (rule Grow_fold [OF N])
    show "slots_ok hash ?N ?e" using nocc by (simp add: slots_ok_def)
    show "card {q. q < ?N \<and> occupied ?e q} + length (filter (\<lambda>s. fst s \<noteq> sentinel) (fh_slots m)) \<le> ?N"
      using cnt thr card_occupied_filter [OF len] by (simp add: c0 threshold_def)
    show "distinct (map fst (filter (\<lambda>s. fst s \<noteq> sentinel) (fh_slots m)))"
      by (rule distinct_filter_keys, rule slots_ok_unique [OF ok]) (simp_all add: len)
  qed (simp_all add: ee g fh_Grow_def Let_def)
  then show "pow2 (fh_cap g)" "fh_cap g = 2 * fh_cap m" "fh_mask g = fh_cap g - Suc 0"
    "slots_ok hash (fh_cap g) (fh_slots g)"
    "fh_count g = card {p. p < fh_cap g \<and> occupied (fh_slots g) p}"
    "fh_count g = fh_count m" "entries (fh_slots g) = entries (fh_slots m)"
    using N cnt card_occupied_filter [OF len] ee c0 by (simp_all add: g fh_Grow_def Let_def)
qed

lemma fh_Put_correct:
  assumes inv: "flat_inv hash m" and k: "k \<noteq> sentinel"
  shows "flat_inv hash (snd (fh_Put hash m k v))"
    and "flat_map (snd (fh_Put hash m k v)) = (flat_map m)(k \<mapsto> v)"
    and "fst (fh_Put hash m k v) \<longleftrightarrow> flat_map m k = None"
proof -
  let ?m = "if fh_count m \<ge> threshold m then fh_Grow hash m else m"
  let ?r = "PutInternal hash ?m k v"
  note G = Grow_correct [OF inv refl]
  have pos: "0 < fh_cap m" using inv by (auto simp: flat_inv_def intro: pow2_pos)
  have pre: "pow2 (fh_cap ?m)" "fh_mask ?m = fh_cap ?m - Suc 0"
      "slots_ok hash (fh_cap ?m) (fh_slots ?m)"
      "fh_count ?m = card {p. p < fh_cap ?m \<and> occupied (fh_slots ?m) p}"
    and ent: "entries (fh_slots ?m) = entries (fh_slots m)"
    using G inv by (auto simp: flat_inv_def)
  have room: "fh_count ?m < threshold ?m"
    using G inv pos by (auto simp: flat_inv_def threshold_def)
  note P = PutInternal_correct [OF pre room k refl, of v]
  have r: "fh_Put hash m k v = ?r" by (simp only: fh_Put_def)
  show i: "flat_inv hash (snd (fh_Put hash m k v))" unfolding r by (rule P(1))
  show "flat_map (snd (fh_Put hash m k v)) = (flat_map m)(k \<mapsto> v)"
  proof (rule flat_map_eqI [OF i])
    fix k' v'
    show "((flat_map m)(k \<mapsto> v)) k' = Some v' \<longleftrightarrow> (k', v') \<in> entries (fh_slots (snd (fh_Put hash m k v)))"
      unfolding r P(2) ent using flat_map_entries [OF inv, of k' v'] by auto
  qed
  show "fst (fh_Put hash m k v) \<longleftrightarrow> flat_map m k = None"
    unfolding r P(3) ent using flat_map_entries [OF inv, of k]
    by (metis fst_conv not_Some_eq surj_pair)
qed

lemma clear_slots_all: "length ss = n \<Longrightarrow> clear_slots 0 n ss = replicate n empty_slot"
proof -
  assume len: "length ss = n"
  have "foldl (\<lambda>ss i. ss[i := empty_slot]) ss [0..<k] = replicate k empty_slot @ drop k ss"
    if "k \<le> n" for k
    using that
  proof (induction k)
    case (Suc k)
    then have "k < length ss" using len by simp
    then have "drop k ss = ss ! k # drop (Suc k) ss" by (rule Cons_nth_drop_Suc [symmetric])
    then have "(replicate k empty_slot @ drop k ss)[k := empty_slot]
        = replicate (Suc k) empty_slot @ drop (Suc k) ss"
      by (simp add: list_update_append replicate_append_same [symmetric])
    then show ?case using Suc by simp
  qed simp
  from this [of n] show ?thesis using len by (simp add: clear_slots_def)
qed

lemma empty_table_inv:
  assumes "pow2 N" "fh_cap m = N" "fh_mask m = N - Suc 0" "fh_slots m = replicate N empty_slot"
    "fh_count m = 0"
  shows "flat_inv hash m" "flat_map m = Map.empty"
proof -
  have n: "\<not> occupied (fh_slots m) p" if "p < N" for p
    using that assms by (simp add: occupied_def empty_slot_def)
  then have "{p. p < N \<and> occupied (fh_slots m) p} = {}" by auto
  then show "flat_inv hash m"
    using assms n by (simp add: flat_inv_def slots_ok_def)
  show "flat_map m = Map.empty"
    using assms by (simp add: flat_map_def fh_ForEach_def empty_slot_def)
qed

lemma fh_Clear_correct:
  assumes "flat_inv hash m"
  shows "flat_inv hash (fh_Clear m)" "flat_map (fh_Clear m) = Map.empty"
  by (rule empty_table_inv [of "fh_cap m"];
      use assms in \<open>simp add: flat_inv_def slots_ok_def fh_Clear_def clear_slots_all\<close>)+

subsection \<open>Rounding a capacity up\<close>

text \<open>One smearing step extends the run of bits to the right of each set bit.\<close>

lemma smear_step:
  fixes n n0 :: u64
  assumes "\<And>j. bit n j \<longleftrightarrow> (\<exists>i. j \<le> i \<and> i < j + w \<and> bit n0 i)"
  shows "bit (n OR drop_bit w n) j \<longleftrightarrow> (\<exists>i. j \<le> i \<and> i < j + (w + w) \<and> bit n0 i)"
proof -
  have "bit (n OR drop_bit w n) j \<longleftrightarrow> bit n j \<or> bit n (w + j)"
    by (simp add: bit_simps)
  also have "\<dots> \<longleftrightarrow> (\<exists>i. j \<le> i \<and> i < j + (w + w) \<and> bit n0 i)"
    unfolding assms
  proof
    assume "\<exists>i. j \<le> i \<and> i < j + (w + w) \<and> bit n0 i"
    then obtain i where "j \<le> i" "i < j + (w + w)" "bit n0 i" by blast
    then show "(\<exists>i. j \<le> i \<and> i < j + w \<and> bit n0 i) \<or> (\<exists>i. w + j \<le> i \<and> i < w + j + w \<and> bit n0 i)"
      by (cases "i < j + w") (force intro: exI [of _ i])+
  next
    assume "(\<exists>i. j \<le> i \<and> i < j + w \<and> bit n0 i) \<or> (\<exists>i. w + j \<le> i \<and> i < w + j + w \<and> bit n0 i)"
    then obtain i where "bit n0 i" "j \<le> i" "i < j + (w + w)"
      by (elim disjE exE conjE) simp_all
    then show "\<exists>i. j \<le> i \<and> i < j + (w + w) \<and> bit n0 i" by blast
  qed
  finally show ?thesis .
qed

lemma smear_bit:
  fixes n :: u64
  defines "a \<equiv> n OR drop_bit 1 n"
  defines "b \<equiv> a OR drop_bit 2 a"
  defines "c \<equiv> b OR drop_bit 4 b"
  defines "d \<equiv> c OR drop_bit 8 c"
  defines "e \<equiv> d OR drop_bit 16 d"
  shows "bit (e OR drop_bit 32 e) j \<longleftrightarrow> (\<exists>i. j \<le> i \<and> bit n i)"
proof -
  have 1: "bit n j \<longleftrightarrow> (\<exists>i. j \<le> i \<and> i < j + 1 \<and> bit n i)" for j
    by (auto simp: less_Suc_eq_le dest: antisym)
  have 2: "bit a j \<longleftrightarrow> (\<exists>i. j \<le> i \<and> i < j + 2 \<and> bit n i)" for j
    using smear_step [OF 1] by (simp add: a_def)
  have 4: "bit b j \<longleftrightarrow> (\<exists>i. j \<le> i \<and> i < j + 4 \<and> bit n i)" for j
    using smear_step [OF 2] by (simp add: b_def)
  have 8: "bit c j \<longleftrightarrow> (\<exists>i. j \<le> i \<and> i < j + 8 \<and> bit n i)" for j
    using smear_step [OF 4] by (simp add: c_def)
  have 16: "bit d j \<longleftrightarrow> (\<exists>i. j \<le> i \<and> i < j + 16 \<and> bit n i)" for j
    using smear_step [OF 8] by (simp add: d_def)
  have 32: "bit e j \<longleftrightarrow> (\<exists>i. j \<le> i \<and> i < j + 32 \<and> bit n i)" for j
    using smear_step [OF 16] by (simp add: e_def)
  have "i < j + 64" if "bit n i" for i
    using bit_imp_le_length [OF that] by simp
  then show ?thesis
    using smear_step [OF 32, of j] by auto
qed

lemma RoundUpPow2_smear:
  assumes "n0 \<noteq> 0"
  shows "\<exists>s. RoundUpPow2 n0 = s + 1 \<and> (\<forall>j. bit s j \<longleftrightarrow> (\<exists>i. j \<le> i \<and> bit (n0 - 1) i))"
proof (intro exI conjI allI)
  let ?n = "n0 - 1"
  let ?a = "?n OR drop_bit 1 ?n"
  let ?b = "?a OR drop_bit 2 ?a"
  let ?c = "?b OR drop_bit 4 ?b"
  let ?d = "?c OR drop_bit 8 ?c"
  let ?e = "?d OR drop_bit 16 ?d"
  show "RoundUpPow2 n0 = (?e OR drop_bit 32 ?e) + 1"
    using assms unfolding RoundUpPow2_def Let_def by (simp only: if_False)
  show "bit (?e OR drop_bit 32 ?e) j \<longleftrightarrow> (\<exists>i. j \<le> i \<and> bit (n0 - 1) i)" for j
    by (rule smear_bit)
qed

lemma top_bit:
  fixes n :: u64
  assumes "n \<noteq> 0"
  obtains t where "bit n t" "\<And>i. bit n i \<Longrightarrow> i \<le> t"
proof -
  have fin: "finite {i. bit n i}"
    by (rule finite_subset [of _ "{..<64}"]) (auto dest: bit_imp_le_length)
  obtain i where "bit n i" using assms by (metis bit_0_eq bit_eqI bot_apply bot_bool_def)
  then have "Max {i. bit n i} \<in> {i. bit n i}" using fin by (intro Max_in) auto
  then show thesis
    using that [of "Max {i. bit n i}"] fin by (auto intro: Max_ge)
qed

lemma bit_le_unat: "bit (n :: u64) t \<Longrightarrow> 2 ^ t \<le> unat n"
proof (rule ccontr)
  assume b: "bit n t" and "\<not> 2 ^ t \<le> unat n"
  then have "unat n div 2 ^ t = 0" by simp
  moreover have "bit (unat n) t" using b by (simp add: bit_simps)
  ultimately show False by (simp add: bit_iff_odd)
qed

lemma unat_pow2: "k < 64 \<Longrightarrow> unat (2 ^ k :: u64) = 2 ^ k"
proof -
  assume "k < 64"
  then have "(2 :: nat) ^ k < 2 ^ 64" by (intro power_strict_increasing) simp_all
  then have "unat (word_of_nat (2 ^ k) :: u64) = 2 ^ k" by (simp add: unat_of_nat del: of_nat_power)
  then show ?thesis by simp
qed

lemma RoundUpPow2_correct:
  assumes n0: "0 < n0" "n0 \<le> 2 ^ 63"
  shows "\<exists>k<64. unat (RoundUpPow2 n0) = 2 ^ k \<and> unat n0 \<le> 2 ^ k \<and> (k = 0 \<or> 2 ^ (k - 1) < unat n0)"
proof -
  have nz: "n0 \<noteq> 0" using n0 by auto
  obtain s where s: "RoundUpPow2 n0 = s + 1" "\<And>j. bit s j \<longleftrightarrow> (\<exists>i. j \<le> i \<and> bit (n0 - 1) i)"
    using RoundUpPow2_smear [OF nz] by blast
  have un: "unat (n0 - 1) = unat n0 - 1" using nz by (simp add: unat_minus_one)
  have pos: "unat n0 = Suc (unat (n0 - 1))" using nz un by (simp add: unat_gt_0)
  show ?thesis
  proof (cases "n0 = 1")
    case True
    then have "s = 0" using s(2) by (intro bit_word_eqI) simp
    then show ?thesis using s(1) True by (intro exI [of _ 0]) simp
  next
    case False
    then have "n0 - 1 \<noteq> 0" by simp
    then obtain t where t: "bit (n0 - 1) t" "\<And>i. bit (n0 - 1) i \<Longrightarrow> i \<le> t" using top_bit by blast
    have lo: "2 ^ t \<le> unat (n0 - 1)"
      using t(1) by (rule bit_le_unat)
    have "unat n0 \<le> 2 ^ 63" using n0(2) by (simp add: word_le_nat_alt)
    then have "(2::nat) ^ t < 2 ^ 63" using lo un pos by linarith
    then have t63: "t < 63" by (rule power_less_imp_less_exp [rotated]) simp
    have hi: "unat (n0 - 1) < 2 ^ Suc t"
    proof -
      have "take_bit (Suc t) (n0 - 1) = n0 - 1"
        using t(2) by (intro bit_word_eqI) (auto simp: bit_take_bit_iff less_Suc_eq_le)
      then have "unat (n0 - 1) = take_bit (Suc t) (unat (n0 - 1))"
        by (metis unsigned_take_bit_eq)
      then show ?thesis by (metis take_bit_nat_less_exp)
    qed
    have "s = mask (Suc t)"
    proof (rule bit_word_eqI)
      fix j assume "j < LENGTH(64)"
      then show "bit s j = bit (mask (Suc t) :: u64) j"
        using t by (auto simp: s(2) bit_mask_iff less_Suc_eq_le intro: order_trans)
    qed
    then have "RoundUpPow2 n0 = 2 ^ Suc t" using s(1) by (simp add: mask_eq_exp_minus_1)
    then have "unat (RoundUpPow2 n0) = 2 ^ Suc t" using t63 unat_pow2 [of "Suc t"] by simp
    then show ?thesis using t63 hi lo pos by (intro exI [of _ "Suc t"]) simp
  qed
qed

lemma fh_new_correct:
  assumes "n0 \<le> 2 ^ 63"
  shows "flat_inv hash (fh_new n0)" "flat_map (fh_new n0) = Map.empty"
proof -
  let ?c = "if n0 \<noteq> 0 then unat (RoundUpPow2 n0) else kInitialCap"
  have "pow2 ?c"
  proof (cases "n0 = 0")
    case True
    then show ?thesis by (simp add: pow2_def kInitialCap_def) (intro exI [of _ 6], simp)
  next
    case False
    then have "0 < n0" by (simp add: word_gt_0)
    then show ?thesis
      using RoundUpPow2_correct [OF _ assms] False by (auto simp: pow2_def)
  qed
  then show "flat_inv hash (fh_new n0)" "flat_map (fh_new n0) = Map.empty"
    by (rule empty_table_inv; simp add: fh_new_def Let_def clear_slots_all)+
qed

lemmas loop_numeral =
  probe_loop.simps(2) [of _ _ _ _ _ "pred_numeral w" for w, folded numeral_eq_Suc]
  shift_loop.simps(2) [of _ _ _ _ _ "pred_numeral w" for w, folded numeral_eq_Suc]

subsection \<open>The map interface of the memtable\<close>

interpretation flat: key_map "\<lambda>m k v. snd (fh_Put hash m k v)" "fh_Find hash" "flat_inv hash"
  "\<lambda>k. k \<noteq> sentinel" for hash
proof unfold_locales
  fix m :: "'a flat" and k k' v
  assume "flat_inv hash m" "k \<noteq> sentinel"
  note P = fh_Put_correct [OF this, of v]
  show "flat_inv hash (snd (fh_Put hash m k v))" by (rule P(1))
  assume "k' \<noteq> sentinel"
  then show "fh_Find hash (snd (fh_Put hash m k v)) k' = (if k' = k then Some v else fh_Find hash m k')"
    using P \<open>flat_inv hash m\<close> by (simp add: fh_Find_map)
qed

text \<open>C6: the open-addressing table refines a finite map. On a table that
  satisfies the invariant, and for every key but the all-ones sentinel,
  \<open>Put\<close> keeps the invariant (power-of-two capacity, each key stored once and
  reachable from its home bucket, load at most three quarters), updates the map
  the table stands for at that key only, even when it had to grow, and reports
  whether the key was new; \<open>Find\<close> reads that map. No property of the hash is
  used.\<close>

theorem fh_Put_refines:
  assumes "flat_inv hash m" "k \<noteq> sentinel"
  shows "flat_inv hash (snd (fh_Put hash m k v)) \<and>
    flat_map (snd (fh_Put hash m k v)) = (flat_map m)(k \<mapsto> v) \<and>
    (fst (fh_Put hash m k v) \<longleftrightarrow> flat_map m k = None) \<and>
    fh_Find hash m k = flat_map m k"
  using fh_Put_correct [OF assms] fh_Find_map [OF assms] by simp

theorem fh_Put_refines_witness:
  "fh_Find (\<lambda>x. x) (fh_new 4 :: nat flat) 7 = flat_map (fh_new 4) 7 \<and>
   flat_map (snd (fh_Put (\<lambda>x. x) (fh_new 4) 7 (Some (9 :: nat)))) 7 = Some (Some 9)"
proof -
  have "flat_inv (\<lambda>x. x) (fh_new 4 :: nat flat)"
    by (rule fh_new_correct) code_simp
  moreover have "(7 :: u64) \<noteq> sentinel" by (simp add: sentinel_def)
  ultimately show ?thesis
    using fh_Put_refines [of "\<lambda>x. x" "fh_new 4" 7 "Some (9 :: nat)"] by simp
qed

text \<open>Whatever sequence of insertions a fresh table has seen, with any hash
  function and through any number of growths, \<open>Find\<close> returns the value of the
  last insertion of the key, and nothing for a key never inserted.\<close>

theorem fh_history:
  fixes kvs :: "(u64 \<times> 'p option) list"
  assumes "n0 \<le> 2 ^ 63" "\<forall>kv \<in> set kvs. fst kv \<noteq> sentinel" "k \<noteq> sentinel"
  shows "fh_Find hash (foldl (\<lambda>m (k, v). snd (fh_Put hash m k v)) (fh_new n0) kvs) k = map_of (rev kvs) k"
proof -
  have inv: "flat_inv hash (fh_new n0 :: 'p flat)" by (rule fh_new_correct(1) [OF assms(1)])
  have "fh_Find hash (fh_new n0 :: 'p flat) k = None"
    by (simp add: fh_Find_map [OF inv assms(3)] fh_new_correct(2) [OF assms(1)])
  then show ?thesis
    using flat.find_put_all [OF inv assms(2,3)] by (simp split: option.split)
qed

theorem fh_history_witness:
  "fh_Find (\<lambda>_. 0) (foldl (\<lambda>m (k, v). snd (fh_Put (\<lambda>_. 0) m k v)) (fh_new 1)
     [(5, Some 1), (6, None), (5, Some (2 :: nat))]) 5 = Some (Some 2)"
  using fh_history [of 1 "[(5, Some 1), (6, None), (5, Some (2 :: nat))]" 5 "\<lambda>_. 0"]
  by (simp add: sentinel_def)

text \<open>\<open>RoundUpPow2\<close> returns the least power of two that is at least its
  argument, for every argument from 1 to \<open>2 ^ 63\<close>; the smearing on 64-bit
  words does not overflow there.\<close>

theorem RoundUpPow2_least:
  assumes "0 < n" "n \<le> 2 ^ 63"
  shows "\<exists>k<64. unat (RoundUpPow2 n) = 2 ^ k \<and> unat n \<le> 2 ^ k \<and> (k = 0 \<or> 2 ^ (k - 1) < unat n)"
  using assms by (rule RoundUpPow2_correct)

theorem RoundUpPow2_least_witness:
  "\<exists>k<64. unat (RoundUpPow2 100) = 2 ^ k \<and> 100 \<le> (2 :: nat) ^ k \<and> (k = 0 \<or> 2 ^ (k - 1) < (100 :: nat))"
  using RoundUpPow2_least [of 100] by (simp add: word_less_nat_alt word_le_nat_alt)

text \<open>C34: \<open>Erase\<close> can lose a key that was not erased. With three keys that share
  a home bucket, erasing the first moves the second into its place but leaves
  the third behind an empty slot, because the loop index is not reset when the
  hole moves: \<open>Find\<close> no longer reaches the third key.\<close>

theorem Erase_loses_key:
  "\<exists>m :: nat flat. m = foldl (\<lambda>m (k, v). snd (fh_Put (\<lambda>_. 0) m k v)) (fh_new 8)
       [(1, Some 10), (2, Some 20), (3, Some 30)] \<and>
     fh_Find (\<lambda>_. 0) m 3 = Some (Some 30) \<and>
     fst (fh_Erase (\<lambda>_. 0) m 1) \<and>
     fh_Find (\<lambda>_. 0) (snd (fh_Erase (\<lambda>_. 0) m 1)) 3 = None"
proof (intro exI conjI)
  let ?t = "\<lambda>c ss. \<lparr>fh_cap = 8, fh_mask = 7, fh_slots = ss @ replicate (8 - length ss) empty_slot, fh_count = c\<rparr>
    :: nat flat"
  note eval = fh_Put_def threshold_def PutInternal_def BucketOf_def sentinel_def empty_slot_def
    Let_def loop_numeral replicate_numeral numeral_2_eq_2 [symmetric]
  have "RoundUpPow2 8 = 8" by (simp add: RoundUpPow2_def Let_def)
  then have e: "fh_new 8 = ?t 0 []" by (simp add: fh_new_def clear_slots_all)
  have 1: "snd (fh_Put (\<lambda>_. 0) (?t 0 []) 1 (Some 10)) = ?t 1 [(1, Some 10)]"
    by (simp add: eval)
  have 2: "snd (fh_Put (\<lambda>_. 0) (?t 1 [(1, Some 10)]) 2 (Some 20)) = ?t 2 [(1, Some 10), (2, Some 20)]"
    by (simp add: eval)
  have 3: "snd (fh_Put (\<lambda>_. 0) (?t 2 [(1, Some 10), (2, Some 20)]) 3 (Some 30))
      = ?t 3 [(1, Some 10), (2, Some 20), (3, Some 30)]"
    by (simp add: eval)
  show m: "?t 3 [(1, Some 10), (2, Some 20), (3, Some 30)] = foldl (\<lambda>m (k, v). snd (fh_Put (\<lambda>_. 0) m k v))
      (fh_new 8) [(1, Some 10), (2, Some 20), (3, Some 30)]"
    by (simp only: foldl.simps prod.case e 1 2 3)
  show "fh_Find (\<lambda>_. 0) (?t 3 [(1, Some 10), (2, Some 20), (3, Some 30)]) 3 = Some (Some 30)"
    by (simp add: fh_Find_def eval)
  have "fh_Erase (\<lambda>_. 0) (?t 3 [(1, Some 10), (2, Some 20), (3, Some 30)]) 1
      = (True, ?t 2 [(2, Some 20), empty_slot, (3, Some 30)])"
    by (simp add: fh_Erase_def dist_mask_def eval)
  then show "fst (fh_Erase (\<lambda>_. 0) (?t 3 [(1, Some 10), (2, Some 20), (3, Some 30)]) 1)"
    and "fh_Find (\<lambda>_. 0) (snd (fh_Erase (\<lambda>_. 0) (?t 3 [(1, Some 10), (2, Some 20), (3, Some 30)]) 1)) 3 = None"
    by (simp_all add: fh_Find_def eval)
qed

end
