(* ===== verification/Types.thy ===== *)
theory Types
  imports Prelude
begin

text \<open>
  The public value types: \<open>Metadata\<close>, \<open>Filter\<close> and \<open>SearchOptions\<close> of
  \<open>include/pomai/metadata.h\<close> with their \<open>Matches\<close> predicates, and \<open>VectorView\<close>
  of \<open>include/pomai/types.h\<close>.  Floating-point arithmetic is a table of the IEEE
  operations the sources apply to bit patterns; literals are their bit patterns.
\<close>

type_synonym VectorId = u64

record ieee =
  f_lt :: "float32 \<Rightarrow> float32 \<Rightarrow> bool"
  f_le :: "float32 \<Rightarrow> float32 \<Rightarrow> bool"
  f_add :: "float32 \<Rightarrow> float32 \<Rightarrow> float32"
  f_sub :: "float32 \<Rightarrow> float32 \<Rightarrow> float32"
  f_mul :: "float32 \<Rightarrow> float32 \<Rightarrow> float32"
  f_div :: "float32 \<Rightarrow> float32 \<Rightarrow> float32"
  f_of_byte :: "byte \<Rightarrow> float32"
  f_to_byte :: "float32 \<Rightarrow> byte"
  d_lt :: "float64 \<Rightarrow> float64 \<Rightarrow> bool"
  d_add :: "float64 \<Rightarrow> float64 \<Rightarrow> float64"
  d_sub :: "float64 \<Rightarrow> float64 \<Rightarrow> float64"
  d_mul :: "float64 \<Rightarrow> float64 \<Rightarrow> float64"
  d_div :: "float64 \<Rightarrow> float64 \<Rightarrow> float64"
  d_of_u64 :: "u64 \<Rightarrow> float64"
  d_cos :: "float64 \<Rightarrow> float64"
  d_sqrt :: "float64 \<Rightarrow> float64"
  d_log :: "float64 \<Rightarrow> float64"

definition f_0 :: float32 where "f_0 = 0"
definition f_1 :: float32 where "f_1 = 0x3F800000"
definition f_0_5 :: float32 where "f_0_5 = 0x3F000000"
definition f_1e_9 :: float32 where "f_1e_9 = 0x3089705F"
definition f_255 :: float32 where "f_255 = 0x437F0000"
definition d_0_5 :: float64 where "d_0_5 = 0x3FE0000000000000"
definition d_0_75 :: float64 where "d_0_75 = 0x3FE8000000000000"
definition d_1 :: float64 where "d_1 = 0x3FF0000000000000"
definition d_1_2 :: float64 where "d_1_2 = 0x3FF3333333333333"
definition d_2 :: float64 where "d_2 = 0x4000000000000000"
definition d_pi :: float64 where "d_pi = 0x400921FB54442D18"
definition d_180 :: float64 where "d_180 = 0x4066800000000000"
definition d_6371 :: float64 where "d_6371 = 0x40B8E30000000000"

text \<open>A \<open>VectorView\<close> is the list of its floats; \<open>dim\<close> is its 32-bit length.\<close>

type_synonym VectorView = "float32 list"

definition vv_dim :: "VectorView \<Rightarrow> u32" where
  "vv_dim v = word_of_nat (length v)"

definition float_bytes :: "VectorView \<Rightarrow> byte list" where
  "float_bytes v = concat (map u32_bytes v)"

fun bytes_floats :: "nat \<Rightarrow> byte list \<Rightarrow> VectorView" where
  "bytes_floats 0 bs = []"
| "bytes_floats (Suc n) bs = bytes_u32 (take 4 bs) # bytes_floats n (drop 4 bs)"

record Metadata =
  md_tenant :: string
  md_device_id :: string
  md_location_id :: string
  md_src_vid :: u64
  md_timestamp :: u64
  md_lsn :: u64
  md_text :: string
  md_payload :: string
  md_lat :: float64
  md_lon :: float64

definition Metadata0 :: Metadata where
  "Metadata0 = \<lparr>md_tenant = '''', md_device_id = '''', md_location_id = '''', md_src_vid = 0,
     md_timestamp = 0, md_lsn = 0, md_text = '''', md_payload = '''', md_lat = 0, md_lon = 0\<rparr>"

record Filter =
  fl_field :: string
  fl_value :: string
  fl_min_ts :: u64
  fl_max_ts :: u64
  fl_lat :: float64
  fl_lon :: float64
  fl_radius :: float64
  fl_is_radius :: bool

definition Filter_TimeRange :: "u64 \<Rightarrow> u64 \<Rightarrow> Filter" where
  "Filter_TimeRange mn mx = \<lparr>fl_field = ''timestamp'', fl_value = '''', fl_min_ts = mn, fl_max_ts = mx,
     fl_lat = 0, fl_lon = 0, fl_radius = 0, fl_is_radius = False\<rparr>"

definition Filter_Radius :: "float64 \<Rightarrow> float64 \<Rightarrow> float64 \<Rightarrow> Filter" where
  "Filter_Radius lat lon r = \<lparr>fl_field = ''spatial'', fl_value = '''', fl_min_ts = 0, fl_max_ts = 0,
     fl_lat = lat, fl_lon = lon, fl_radius = r, fl_is_radius = True\<rparr>"

text \<open>The equirectangular distance of \<open>Filter::Matches\<close>, in kilometres.\<close>

definition dist_km :: "ieee \<Rightarrow> Filter \<Rightarrow> Metadata \<Rightarrow> float64" where
  "dist_km fp f meta =
     (let deg = d_div fp d_pi d_180;
          latm = d_mul fp (md_lat meta) deg;
          lonm = d_mul fp (md_lon meta) deg;
          lats = d_mul fp (fl_lat f) deg;
          lons = d_mul fp (fl_lon f) deg;
          x = d_mul fp (d_sub fp lonm lons) (d_cos fp (d_div fp (d_add fp latm lats) d_2));
          y = d_sub fp latm lats
      in d_mul fp (d_sqrt fp (d_add fp (d_mul fp x x) (d_mul fp y y))) d_6371)"

definition Filter_Matches :: "ieee \<Rightarrow> Filter \<Rightarrow> Metadata \<Rightarrow> bool" where
  "Filter_Matches fp f meta =
     (if fl_field f = ''tenant'' \<and> md_tenant meta \<noteq> fl_value f then False
      else if fl_field f = ''device_id'' \<and> md_device_id meta \<noteq> fl_value f then False
      else if fl_field f = ''location_id'' \<and> md_location_id meta \<noteq> fl_value f then False
      else if fl_field f = ''timestamp'' \<and> fl_min_ts f > 0 \<and> md_timestamp meta < fl_min_ts f then False
      else if fl_field f = ''timestamp'' \<and> fl_max_ts f > 0 \<and> md_timestamp meta > fl_max_ts f then False
      else if fl_field f = ''spatial'' \<and> fl_is_radius f \<and> d_lt fp (fl_radius f) (dist_km fp f meta) then False
      else True)"

record SearchOptions =
  so_filters :: "Filter list"
  so_as_of_ts :: u64
  so_as_of_lsn :: u64
  so_partition_device_id :: string
  so_partition_location_id :: string

definition SearchOptions_Matches :: "ieee \<Rightarrow> SearchOptions \<Rightarrow> Metadata \<Rightarrow> bool" where
  "SearchOptions_Matches fp opt meta =
     (if so_as_of_ts opt > 0 \<and> md_timestamp meta > so_as_of_ts opt then False
      else if so_as_of_lsn opt > 0 \<and> md_lsn meta > so_as_of_lsn opt then False
      else if so_partition_device_id opt \<noteq> '''' \<and> md_device_id meta \<noteq> so_partition_device_id opt then False
      else if so_partition_location_id opt \<noteq> '''' \<and> md_location_id meta \<noteq> so_partition_location_id opt then False
      else list_all (\<lambda>f. Filter_Matches fp f meta) (so_filters opt))"

subsection \<open>Vectors as bytes\<close>

lemma length_float_bytes [simp]: "length (float_bytes v) = 4 * length v"
  by (induction v) (simp_all add: float_bytes_def)

lemma bytes_floats_float_bytes [codec]: "bytes_floats (length v) (float_bytes v @ bs) = v"
  by (induction v) (simp_all add: float_bytes_def bytes_u32_u32')

lemma bytes_floats_float_bytes' [codec]: "bytes_floats (length v) (float_bytes v) = v"
  using bytes_floats_float_bytes [of v "[]"] by simp

lemma unat_vv_dim: "length v < 2 ^ 32 \<Longrightarrow> unat (vv_dim v) = length v"
  by (simp add: vv_dim_def unat_of_nat)

lemma length_bytes_floats [simp]: "length (bytes_floats n bs) = n"
  by (induction n arbitrary: bs) simp_all

end
