(* ===== verification/Arena.thy ===== *)
theory Arena
  imports Prelude
begin

text \<open>
  The bump allocator of \<open>src/table/arena.h\<close> and \<open>src/table/memtable.cc\<close>.  A
  pointer is a block index and an offset; a block's memory maps offsets to the
  bytes written so far, so that aliasing between allocations is visible.  The
  main facts: an allocation is aligned, lies inside its block, and shares no
  byte with any region handed out before.
\<close>

type_synonym ptr = "nat \<times> nat"

record block =
  bl_mem :: "nat \<rightharpoonup> byte"
  bl_used :: nat

record arena =
  ar_block_bytes :: nat
  ar_blocks :: "block list"

definition Arena_new :: "nat \<Rightarrow> arena" where
  "Arena_new n = \<lparr>ar_block_bytes = n, ar_blocks = []\<rparr>"

text \<open>\<open>AlignUp\<close> on the 64-bit \<open>size_t\<close>.\<close>

definition AlignUp :: "nat \<Rightarrow> nat \<Rightarrow> nat" where
  "AlignUp x a = unat (((word_of_nat x :: u64) + (word_of_nat a - 1)) AND NOT (word_of_nat a - 1))"

definition Allocate :: "arena \<Rightarrow> nat \<Rightarrow> nat \<Rightarrow> ptr \<times> arena" where
  "Allocate ar n align =
     (let bs = (if ar_blocks ar = [] \<or> AlignUp (bl_used (last (ar_blocks ar))) align + n > ar_block_bytes ar
                then ar_blocks ar @ [\<lparr>bl_mem = Map.empty, bl_used = 0\<rparr>] else ar_blocks ar);
          i = length bs - 1;
          blk = bs ! i;
          u = AlignUp (bl_used blk) align
      in ((i, u), ar\<lparr>ar_blocks := bs[i := blk\<lparr>bl_used := u + n\<rparr>]\<rparr>))"

definition Arena_Clear :: "arena \<Rightarrow> arena" where
  "Arena_Clear ar = ar\<lparr>ar_blocks := []\<rparr>"

definition Arena_BytesUsed :: "arena \<Rightarrow> nat" where
  "Arena_BytesUsed ar = sum_list (map bl_used (ar_blocks ar))"

text \<open>\<open>memcpy\<close> into and out of a region.\<close>

fun mem_write :: "(nat \<rightharpoonup> byte) \<Rightarrow> nat \<Rightarrow> byte list \<Rightarrow> (nat \<rightharpoonup> byte)" where
  "mem_write m off [] = m"
| "mem_write m off (b # bs) = mem_write (m(off \<mapsto> b)) (Suc off) bs"

definition ar_write :: "arena \<Rightarrow> ptr \<Rightarrow> byte list \<Rightarrow> arena" where
  "ar_write ar p bs =
     ar\<lparr>ar_blocks := (ar_blocks ar)[fst p := (ar_blocks ar ! fst p)\<lparr>bl_mem := mem_write (bl_mem (ar_blocks ar ! fst p)) (snd p) bs\<rparr>]\<rparr>"

definition ar_read :: "arena \<Rightarrow> ptr \<Rightarrow> nat \<Rightarrow> byte list option" where
  "ar_read ar p n = those (map (bl_mem (ar_blocks ar ! fst p)) [snd p..<snd p + n])"

subsection \<open>Alignment\<close>

lemma AlignUp_pow2:
  assumes "x + 2 ^ k \<le> 2 ^ 64" "k < 64"
  shows "AlignUp x (2 ^ k) = ((x + (2 ^ k - 1)) div 2 ^ k) * 2 ^ k"
proof -
  have p: "(2 :: nat) ^ k \<ge> 1" by simp
  have m: "(word_of_nat (2 ^ k) - 1 :: u64) = mask k"
    by (simp add: mask_eq_exp_minus_1)
  have s: "(word_of_nat x :: u64) + mask k = word_of_nat (x + (2 ^ k - 1))"
    by (simp only: m [symmetric] of_nat_add of_nat_diff [OF p] of_nat_1)
  let ?y = "x + (2 ^ k - 1)"
  have y: "?y < 2 ^ 64" using assms p by linarith
  have "(word_of_nat ?y :: u64) AND NOT (mask k) = push_bit k (drop_bit k (word_of_nat ?y))"
    by (rule bit_word_eqI) (auto simp: bit_simps)
  also have "unat \<dots> = push_bit k (drop_bit k ?y)"
  proof -
    have "unat (drop_bit k (word_of_nat ?y :: u64)) = drop_bit k ?y"
      using y by (simp add: unsigned_drop_bit_eq unat_of_nat take_bit_eq_mod)
    note U = this
    have lt: "?y div 2 ^ k * 2 ^ k < 2 ^ 64"
      using y by (intro order_le_less_trans [OF div_times_less_eq_dividend])
    have pb: "unat (push_bit k d) = take_bit 64 (push_bit k (unat d))" for d :: u64
      by (simp add: unsigned_push_bit_eq)
    show ?thesis
      unfolding pb U using lt by (simp add: push_bit_eq_mult drop_bit_eq_div take_bit_eq_mod)
  qed
  finally show ?thesis
    unfolding AlignUp_def m s by (simp add: push_bit_eq_mult drop_bit_eq_div)
qed

lemma AlignUp_bounds:
  assumes "x + 2 ^ k \<le> 2 ^ 64" "k < 64"
  shows "x \<le> AlignUp x (2 ^ k)" "AlignUp x (2 ^ k) < x + 2 ^ k" "2 ^ k dvd AlignUp x (2 ^ k)"
proof -
  let ?a = "(2 :: nat) ^ k"
  have a: "?a > 0" by simp
  let ?q = "(x + (?a - 1)) div ?a"
  have d: "?q * ?a + (x + (?a - 1)) mod ?a = x + (?a - 1)" by (rule div_mult_mod_eq)
  have r: "(x + (?a - 1)) mod ?a < ?a" using a by simp
  show "x \<le> AlignUp x ?a" unfolding AlignUp_pow2 [OF assms] using d r a by linarith
  show "AlignUp x ?a < x + ?a" unfolding AlignUp_pow2 [OF assms] using d r a by linarith
  show "?a dvd AlignUp x ?a" unfolding AlignUp_pow2 [OF assms] by simp
qed

subsection \<open>Regions\<close>

definition arena_inv :: "arena \<Rightarrow> bool" where
  "arena_inv ar \<longleftrightarrow> ar_block_bytes ar < 2 ^ 63 \<and> (\<forall>b \<in> set (ar_blocks ar). bl_used b \<le> ar_block_bytes ar)"

text \<open>The \<open>n\<close> bytes at \<open>p\<close> have been handed out.\<close>

definition region_ok :: "arena \<Rightarrow> ptr \<Rightarrow> nat \<Rightarrow> bool" where
  "region_ok ar p n \<longleftrightarrow> fst p < length (ar_blocks ar) \<and> snd p + n \<le> bl_used (ar_blocks ar ! fst p)"

definition disjoint_regions :: "ptr \<Rightarrow> nat \<Rightarrow> ptr \<Rightarrow> nat \<Rightarrow> bool" where
  "disjoint_regions p n q k \<longleftrightarrow> fst p \<noteq> fst q \<or> snd p + n \<le> snd q \<or> snd q + k \<le> snd p"

lemma arena_inv_new: "n < 2 ^ 63 \<Longrightarrow> arena_inv (Arena_new n)"
  by (simp add: arena_inv_def Arena_new_def)

lemma Allocate_correct:
  assumes inv: "arena_inv ar" and n: "n \<le> ar_block_bytes ar" and k: "k < 63"
    and r: "Allocate ar n (2 ^ k) = (p, ar')"
  shows "arena_inv ar'" "ar_block_bytes ar' = ar_block_bytes ar" "region_ok ar' p n"
    "snd p + n \<le> ar_block_bytes ar" "2 ^ k dvd snd p"
    "\<And>q j. region_ok ar q j \<Longrightarrow> region_ok ar' q j \<and> disjoint_regions p n q j"
    "\<And>q j. region_ok ar q j \<Longrightarrow> bl_mem (ar_blocks ar' ! fst q) = bl_mem (ar_blocks ar ! fst q)"
proof -
  let ?B = "ar_block_bytes ar"
  let ?new = "ar_blocks ar = [] \<or> AlignUp (bl_used (last (ar_blocks ar))) (2 ^ k) + n > ?B"
  have kb: "(2 :: nat) ^ k \<le> 2 ^ 63" using k by (intro power_increasing) simp_all
  have B: "?B < 2 ^ 63" using inv by (simp add: arena_inv_def)
  have al: "x \<le> AlignUp x (2 ^ k) \<and> 2 ^ k dvd AlignUp x (2 ^ k)" if "x \<le> ?B" for x
  proof -
    have "x + 2 ^ k \<le> 2 ^ 64" using that B kb by simp
    then show ?thesis using AlignUp_bounds [of x k] k by simp
  qed
  have a0: "AlignUp 0 (2 ^ k) = 0"
    using AlignUp_pow2 [of 0 k] kb k by simp
  have "arena_inv ar' \<and> ar_block_bytes ar' = ?B \<and> region_ok ar' p n \<and> snd p + n \<le> ?B \<and> 2 ^ k dvd snd p \<and>
    (\<forall>q j. region_ok ar q j \<longrightarrow> region_ok ar' q j \<and> disjoint_regions p n q j \<and>
       bl_mem (ar_blocks ar' ! fst q) = bl_mem (ar_blocks ar ! fst q))"
  proof (cases ?new)
    case True
    then have p: "p = (length (ar_blocks ar), 0)"
      and ar': "ar' = ar\<lparr>ar_blocks := ar_blocks ar @ [\<lparr>bl_mem = Map.empty, bl_used = n\<rparr>]\<rparr>"
      using r a0 by (auto simp: Allocate_def Let_def list_update_append)
    show ?thesis
      using inv n by (auto simp: p ar' arena_inv_def region_ok_def disjoint_regions_def nth_append)
  next
    case False
    let ?l = "length (ar_blocks ar) - 1"
    let ?b = "ar_blocks ar ! ?l"
    let ?u = "AlignUp (bl_used ?b) (2 ^ k)"
    have ne: "ar_blocks ar \<noteq> []" using False by simp
    then have lst: "last (ar_blocks ar) = ?b" and l: "?l < length (ar_blocks ar)"
      by (simp_all add: last_conv_nth)
    have p: "p = (?l, ?u)" and ar': "ar' = ar\<lparr>ar_blocks := (ar_blocks ar)[?l := ?b\<lparr>bl_used := ?u + n\<rparr>]\<rparr>"
      using r False by (auto simp: Allocate_def Let_def)
    have used: "bl_used ?b \<le> ?B" using inv l by (simp add: arena_inv_def)
    have fits: "?u + n \<le> ?B" using False lst by simp
    have inv': "arena_inv ar'"
      using inv fits set_update_subset_insert [of "ar_blocks ar" ?l "?b\<lparr>bl_used := ?u + n\<rparr>"]
      by (auto simp: arena_inv_def ar')
    have "region_ok ar' q j \<and> disjoint_regions p n q j \<and> bl_mem (ar_blocks ar' ! fst q) = bl_mem (ar_blocks ar ! fst q)"
      if "region_ok ar q j" for q j
      using that al [OF used] l
      by (cases "fst q = ?l") (auto simp: region_ok_def disjoint_regions_def p ar')
    then show ?thesis
      using inv' fits al [OF used] l by (auto simp: region_ok_def p ar')
  qed
  then show "arena_inv ar'" "ar_block_bytes ar' = ar_block_bytes ar" "region_ok ar' p n"
    "snd p + n \<le> ar_block_bytes ar" "2 ^ k dvd snd p"
    "\<And>q j. region_ok ar q j \<Longrightarrow> region_ok ar' q j \<and> disjoint_regions p n q j"
    "\<And>q j. region_ok ar q j \<Longrightarrow> bl_mem (ar_blocks ar' ! fst q) = bl_mem (ar_blocks ar ! fst q)"
    by blast+
qed

lemma mem_write_other: "i < off \<or> off + length bs \<le> i \<Longrightarrow> mem_write m off bs i = m i"
  by (induction bs arbitrary: m off) auto

lemma mem_write_at: "i < length bs \<Longrightarrow> mem_write m off bs (off + i) = Some (bs ! i)"
proof (induction bs arbitrary: m off i)
  case (Cons b bs)
  show ?case
  proof (cases i)
    case 0
    then show ?thesis by (simp add: mem_write_other)
  next
    case (Suc j)
    then show ?thesis using Cons.IH [of j "m(off \<mapsto> b)" "Suc off"] Cons.prems by (simp del: fun_upd_apply)
  qed
qed simp

lemma those_Some: "those (map Some xs) = Some xs"
  by (induction xs) simp_all

lemma read_own_write:
  assumes "fst p < length (ar_blocks ar)"
  shows "ar_read (ar_write ar p bs) p (length bs) = Some bs"
proof -
  have "map (mem_write m off bs) [off..<off + length bs] = map Some bs" for m off
    by (rule nth_equalityI) (simp_all add: mem_write_at)
  then show ?thesis using assms by (simp add: ar_read_def ar_write_def those_Some)
qed

lemma read_other_write:
  assumes "fst p < length (ar_blocks ar)" "disjoint_regions p (length bs) q j"
  shows "ar_read (ar_write ar p bs) q j = ar_read ar q j"
proof (cases "fst p = fst q")
  case True
  then have eq: "map (mem_write m (snd p) bs) [snd q..<snd q + j] = map m [snd q..<snd q + j]" for m
    using assms(2) by (auto simp: disjoint_regions_def intro!: mem_write_other)
  show ?thesis using True assms(1) by (simp add: ar_read_def ar_write_def eq del: map_eq_conv)
qed (simp add: ar_read_def ar_write_def)

lemma write_region: "arena_inv (ar_write ar p bs) \<longleftrightarrow> arena_inv ar"
  "region_ok (ar_write ar p bs) q j \<longleftrightarrow> region_ok ar q j"
  "ar_block_bytes (ar_write ar p bs) = ar_block_bytes ar"
proof -
  have u: "map bl_used (ar_blocks (ar_write ar p bs)) = map bl_used (ar_blocks ar)"
    by (cases "fst p < length (ar_blocks ar)")
      (auto simp: ar_write_def map_update list_update_same_conv intro!: nth_equalityI)
  show b: "ar_block_bytes (ar_write ar p bs) = ar_block_bytes ar"
    by (simp add: ar_write_def)
  have "(\<forall>b \<in> set bs. bl_used b \<le> n) \<longleftrightarrow> (\<forall>x \<in> set (map bl_used bs). x \<le> n)" for bs :: "block list" and n
    by simp
  then show "arena_inv (ar_write ar p bs) \<longleftrightarrow> arena_inv ar"
    by (simp only: arena_inv_def b u)
  show "region_ok (ar_write ar p bs) q j \<longleftrightarrow> region_ok ar q j"
    by (cases "fst p = fst q") (auto simp: region_ok_def ar_write_def)
qed

text \<open>C26: Memory safety of the arena. For a request that fits in a block, with a
  power-of-two alignment, \<open>Allocate\<close> returns a region that lies inside its block, at
  an offset that is aligned, and overlaps no region handed out before. The earlier regions stay
  valid, the bytes of the blocks they are in are unchanged, and the fill level of every block stays within its size. As the
  blocks themselves are allocated at multiples of 64, the address is aligned too when the alignment is at most 64.\<close>

theorem Allocate_safe:
  assumes "arena_inv ar" "n \<le> ar_block_bytes ar" "k < 63" "Allocate ar n (2 ^ k) = (p, ar')"
  shows "arena_inv ar' \<and> region_ok ar' p n \<and> snd p + n \<le> ar_block_bytes ar \<and> 2 ^ k dvd snd p \<and>
    (\<forall>q j. region_ok ar q j \<longrightarrow> region_ok ar' q j \<and> disjoint_regions p n q j \<and> bl_mem (ar_blocks ar' ! fst q) = bl_mem (ar_blocks ar ! fst q)) \<and>
    (\<forall>base. 64 dvd base \<and> k \<le> 6 \<longrightarrow> 2 ^ k dvd base + snd p)"
proof -
  note A = Allocate_correct [OF assms]
  have "2 ^ k dvd base + snd p" if "64 dvd base" "k \<le> 6" for base :: nat
  proof -
    have "(2 :: nat) ^ k dvd 2 ^ 6" using that(2) by (rule le_imp_power_dvd)
    then have "(2 :: nat) ^ k dvd 64" by simp
    then have "2 ^ k dvd base" using that(1) by (rule dvd_trans)
    then show ?thesis using A(5) by (rule dvd_add)
  qed
  then show ?thesis using A by blast
qed

theorem Allocate_safe_witness:
  "\<exists>p ar1 q ar2. Allocate (Arena_new 64) 12 (2 ^ 2) = (p, ar1) \<and> Allocate ar1 5 (2 ^ 3) = (q, ar2) \<and> region_ok ar2 p 12 \<and> region_ok ar2 q 5 \<and>
     disjoint_regions q 5 p 12 \<and> bl_mem (ar_blocks ar2 ! fst p) = bl_mem (ar_blocks ar1 ! fst p)"
proof -
  obtain p ar1 where a: "Allocate (Arena_new 64) 12 (2 ^ 2) = (p, ar1)" by (cases "Allocate (Arena_new 64) 12 (2 ^ 2)")
  obtain q ar2 where b: "Allocate ar1 5 (2 ^ 3) = (q, ar2)" by (cases "Allocate ar1 5 (2 ^ 3)")
  have "arena_inv (Arena_new 64)" by (rule arena_inv_new) simp
  then have A: "arena_inv ar1" "region_ok ar1 p 12" using Allocate_safe [of "Arena_new 64" 12 2 p ar1] a by (simp_all add: Arena_new_def)
  have "ar_block_bytes ar1 = 64" using a by (auto simp: Allocate_def Arena_new_def Let_def)
  then have "region_ok ar2 q 5" "\<forall>q' j. region_ok ar1 q' j \<longrightarrow>
      region_ok ar2 q' j \<and> disjoint_regions q 5 q' j \<and> bl_mem (ar_blocks ar2 ! fst q') = bl_mem (ar_blocks ar1 ! fst q')"
    using Allocate_safe [OF A(1), of 5 3 q ar2] b by simp_all
  then show ?thesis using A(2) a b by blast
qed

text \<open>A request larger than a block is not refused. \<open>Allocate\<close> opens a new
  block of the usual size and hands out a region that reaches past its end, so a
  vector of more bytes than a block holds is copied out of bounds.\<close>

theorem Allocate_oversize:
  assumes "ar_block_bytes ar < n" "Allocate ar n align = (p, ar')"
  shows "ar_block_bytes ar < snd p + n \<and> ar_block_bytes ar' = ar_block_bytes ar \<and>
    length (ar_blocks ar') = Suc (length (ar_blocks ar))"
  using assms by (auto simp: Allocate_def Let_def)

theorem Allocate_oversize_witness:
  "64 < snd (fst (Allocate (Arena_new 64) 100 4)) + 100"
  using Allocate_oversize [of "Arena_new 64" 100 4 "fst (Allocate (Arena_new 64) 100 4)" "snd (Allocate (Arena_new 64) 100 4)"]
  by (simp add: Arena_new_def)

end
