(* ===== verification/Lexical.thy ===== *)
theory Lexical
  imports Types
begin

text \<open>
  The inverted index of \<open>src/core/query/lexical_index.cc\<close>: tokenisation, the
  document statistics and postings kept by \<open>Add\<close>, \<open>Remove\<close> and \<open>Clear\<close>, and the
  scoring pass of \<open>Search\<close>.  \<open>Search\<close> is modelled up to the scores it computes
  (and the default entries its \<open>operator[]\<close> adds to the length table); the final
  \<open>partial_sort\<close> is not, since ties come out in an unspecified order.
\<close>

definition isalnum :: "char \<Rightarrow> bool" where
  "isalnum c \<longleftrightarrow> (let n = of_char c :: nat in
     48 \<le> n \<and> n \<le> 57 \<or> 65 \<le> n \<and> n \<le> 90 \<or> 97 \<le> n \<and> n \<le> 122)"

definition tolower :: "char \<Rightarrow> char" where
  "tolower c = (let n = of_char c :: nat in if 65 \<le> n \<and> n \<le> 90 then char_of (n + 32) else c)"

fun tok_loop :: "string \<Rightarrow> string list \<Rightarrow> string \<Rightarrow> string list" where
  "tok_loop cur toks [] = (if cur \<noteq> [] then toks @ [cur] else toks)"
| "tok_loop cur toks (c # cs) =
     (if isalnum c then tok_loop (cur @ [tolower c]) toks cs
      else if cur \<noteq> [] then tok_loop [] (toks @ [cur]) cs
      else tok_loop cur toks cs)"

definition Tokenize :: "string \<Rightarrow> string list" where
  "Tokenize text = tok_loop [] [] text"

record lexical =
  lx_index :: "string \<rightharpoonup> (VectorId \<times> u32) list"
  lx_lengths :: "VectorId \<rightharpoonup> u32"
  lx_total :: u64
  lx_avg :: float64

definition LexicalIndex_new :: lexical where
  "LexicalIndex_new = \<lparr>lx_index = Map.empty, lx_lengths = Map.empty, lx_total = 0, lx_avg = 0\<rparr>"

definition u64_of_u32 :: "u32 \<Rightarrow> u64" where
  "u64_of_u32 w = ucast w"

text \<open>The term frequencies are an unordered map, but each word gets one posting, so
  the order in which the words are visited does not matter.\<close>

definition tf_count :: "string list \<Rightarrow> string \<Rightarrow> u32" where
  "tf_count tokens w = word_of_nat (count_list tokens w)"

definition add_postings :: "(string \<rightharpoonup> (VectorId \<times> u32) list) \<Rightarrow> VectorId \<Rightarrow> string list \<Rightarrow> (string \<rightharpoonup> (VectorId \<times> u32) list)" where
  "add_postings idx i tokens = (\<lambda>w. if w \<in> set tokens
      then Some ((case idx w of None \<Rightarrow> [] | Some ps \<Rightarrow> ps) @ [(i, tf_count tokens w)]) else idx w)"

definition lex_Add :: "ieee \<Rightarrow> lexical \<Rightarrow> VectorId \<Rightarrow> string \<Rightarrow> lexical" where
  "lex_Add fp lx i txt =
     (let tokens = Tokenize txt in
      if tokens = [] then lx else
      let lx = (case lx_lengths lx i of
                  None \<Rightarrow> lx
                | Some l \<Rightarrow> lx\<lparr>lx_avg := d_div fp (d_sub fp (d_mul fp (lx_avg lx) (d_of_u64 fp (lx_total lx)))
                                                     (d_of_u64 fp (u64_of_u32 l)))
                                             (d_of_u64 fp (lx_total lx - 1)),
                               lx_total := lx_total lx - 1\<rparr>);
          lx = lx\<lparr>lx_index := add_postings (lx_index lx) i tokens,
                  lx_lengths := (lx_lengths lx)(i \<mapsto> word_of_nat (length tokens)),
                  lx_total := lx_total lx + 1\<rparr>
      in lx\<lparr>lx_avg := d_div fp (d_add fp (d_mul fp (lx_avg lx) (d_of_u64 fp (lx_total lx - 1)))
                                  (d_of_u64 fp (word_of_nat (length tokens))))
                         (d_of_u64 fp (lx_total lx))\<rparr>)"

definition lex_Remove :: "ieee \<Rightarrow> lexical \<Rightarrow> VectorId \<Rightarrow> lexical" where
  "lex_Remove fp lx i =
     (case lx_lengths lx i of
        None \<Rightarrow> lx
      | Some l \<Rightarrow>
          let avg = d_sub fp (d_mul fp (lx_avg lx) (d_of_u64 fp (lx_total lx))) (d_of_u64 fp (u64_of_u32 l));
              total = lx_total lx - 1
          in lx\<lparr>lx_total := total,
                lx_avg := (if total > 0 then d_div fp avg (d_of_u64 fp total) else 0),
                lx_lengths := (lx_lengths lx)(i := None)\<rparr>)"

definition lex_Clear :: "lexical \<Rightarrow> lexical" where
  "lex_Clear lx = LexicalIndex_new"

text \<open>The BM25 term of one posting; reading \<open>doc_lengths_[id]\<close> inserts a zero entry
  for an id that has none.\<close>

definition score_posting :: "ieee \<Rightarrow> float64 \<Rightarrow> lexical \<times> (VectorId \<rightharpoonup> float64) \<Rightarrow> VectorId \<times> u32 \<Rightarrow> lexical \<times> (VectorId \<rightharpoonup> float64)" where
  "score_posting fp idf st p =
     (case (st, p) of ((lx, scores), (i, c)) \<Rightarrow>
       let l = (case lx_lengths lx i of Some l \<Rightarrow> l | None \<Rightarrow> 0);
           lx = lx\<lparr>lx_lengths := (lx_lengths lx)(i \<mapsto> l)\<rparr>;
           tf = d_of_u64 fp (u64_of_u32 c);
           L = d_div fp (d_of_u64 fp (u64_of_u32 l)) (lx_avg lx);
           num = d_mul fp idf (d_mul fp tf (d_add fp d_1_2 d_1));
           den = d_add fp tf (d_mul fp d_1_2 (d_add fp (d_sub fp d_1 d_0_75) (d_mul fp d_0_75 L)));
           old = (case scores i of Some s \<Rightarrow> s | None \<Rightarrow> 0)
       in (lx, scores(i \<mapsto> d_add fp old (d_div fp num den))))"

definition score_word :: "ieee \<Rightarrow> lexical \<times> (VectorId \<rightharpoonup> float64) \<Rightarrow> string \<Rightarrow> lexical \<times> (VectorId \<rightharpoonup> float64)" where
  "score_word fp st w =
     (case lx_index (fst st) w of
        None \<Rightarrow> st
      | Some ps \<Rightarrow>
          let n = word_of_nat (length ps) :: u64;
              idf = d_log fp (d_add fp (d_div fp (d_add fp (d_of_u64 fp (lx_total (fst st) - n)) d_0_5)
                                                 (d_add fp (d_of_u64 fp n) d_0_5)) d_1)
          in foldl (score_posting fp idf) st ps)"

definition lex_Search :: "ieee \<Rightarrow> lexical \<Rightarrow> string \<Rightarrow> lexical \<times> (VectorId \<rightharpoonup> float64)" where
  "lex_Search fp lx query =
     (let q = Tokenize query in
      if q = [] \<or> lx_total lx = 0 then (lx, Map.empty)
      else foldl (score_word fp) (lx, Map.empty) q)"

subsection \<open>Tokens\<close>

definition word_ok :: "string \<Rightarrow> bool" where
  "word_ok w \<longleftrightarrow> w \<noteq> [] \<and> (\<forall>c \<in> set w. isalnum c \<and> tolower c = c)"

lemma tolower_alnum: "isalnum c \<Longrightarrow> isalnum (tolower c) \<and> tolower (tolower c) = tolower c"
  by (auto simp: isalnum_def tolower_def Let_def)

lemma tolower_other: "\<not> isalnum c \<Longrightarrow> tolower c = c"
  by (auto simp: isalnum_def tolower_def Let_def)

lemma isalnum_tolower: "isalnum (tolower c) = isalnum c"
  by (metis tolower_alnum tolower_other)

lemma tolower_tolower: "tolower (tolower c) = tolower c"
  by (metis tolower_alnum tolower_other)

lemma tok_loop_acc: "tok_loop cur toks cs = toks @ tok_loop cur [] cs"
proof (induction cs arbitrary: cur toks)
  case (Cons c cs)
  show ?case
    using Cons [of "cur @ [tolower c]" toks] Cons [of "[]" "toks @ [cur]"] Cons [of "[]" "[cur]"]
      Cons [of cur toks]
    by (cases "isalnum c"; cases "cur = []") simp_all
qed simp

lemma tok_loop_words:
  "\<forall>c \<in> set cur. isalnum c \<and> tolower c = c \<Longrightarrow> \<forall>w \<in> set toks. word_ok w \<Longrightarrow>
   \<forall>w \<in> set (tok_loop cur toks cs). word_ok w"
proof (induction cs arbitrary: cur toks)
  case Nil
  then show ?case by (auto simp: word_ok_def)
next
  case (Cons c cs)
  show ?case
  proof (cases "isalnum c")
    case True
    then show ?thesis
      using Cons.IH [of "cur @ [tolower c]" toks] Cons.prems tolower_alnum [of c] by auto
  next
    case False
    have 1: "\<forall>w \<in> set (tok_loop cur toks cs). word_ok w" by (rule Cons.IH [OF Cons.prems])
    have 2: "\<forall>w \<in> set (tok_loop [] (toks @ [cur]) cs). word_ok w" if "cur \<noteq> []"
      by (rule Cons.IH) (use Cons.prems that in \<open>simp_all add: word_ok_def\<close>)
    show ?thesis using False 1 2 by simp
  qed
qed

lemma Tokenize_words: "w \<in> set (Tokenize tx) \<Longrightarrow> word_ok w"
  using tok_loop_words [of "[]" "[]" tx] by (simp add: Tokenize_def)

lemma tok_loop_lower: "tok_loop cur toks (map tolower cs) = tok_loop cur toks cs"
  by (induction cs arbitrary: cur toks) (simp_all add: isalnum_tolower tolower_tolower)

lemma tok_loop_word:
  "\<forall>c \<in> set w. isalnum c \<and> tolower c = c \<Longrightarrow> tok_loop cur toks (w @ cs) = tok_loop (cur @ w) toks cs"
  by (induction w arbitrary: cur) simp_all

definition unwords :: "string list \<Rightarrow> string" where
  "unwords ws = concat (map (\<lambda>w. w @ '' '') ws)"

lemma Tokenize_unwords: "\<forall>w \<in> set ws. word_ok w \<Longrightarrow> tok_loop [] toks (unwords ws) = toks @ ws"
proof (induction ws arbitrary: toks)
  case (Cons w ws)
  have sp: "\<not> isalnum CHR '' ''" by (simp add: isalnum_def)
  have "tok_loop [] toks (w @ '' '' @ unwords ws) = tok_loop w toks ('' '' @ unwords ws)"
    using Cons.prems tok_loop_word [of w "[]"] by (simp add: word_ok_def)
  also have "\<dots> = tok_loop [] (toks @ [w]) (unwords ws)"
    using Cons.prems sp by (simp add: word_ok_def)
  finally show ?case
    using Cons by (simp add: unwords_def)
qed (simp add: unwords_def)

subsection \<open>Postings and scores\<close>

lemma score_posting_dom:
  "dom (snd (score_posting fp idf st p)) = insert (fst p) (dom (snd st))"
  by (auto simp: score_posting_def Let_def split: prod.splits)

lemma score_posting_index: "lx_index (fst (score_posting fp idf st p)) = lx_index (fst st)"
  by (auto simp: score_posting_def Let_def split: prod.splits)

lemma foldl_score_posting:
  "dom (snd (foldl (score_posting fp idf) st ps)) = fst ` set ps \<union> dom (snd st) \<and>
   lx_index (fst (foldl (score_posting fp idf) st ps)) = lx_index (fst st)"
  by (induction ps arbitrary: st) (auto simp: score_posting_dom score_posting_index)

lemma score_word_dom:
  "dom (snd (score_word fp st w)) =
     (case lx_index (fst st) w of None \<Rightarrow> {} | Some ps \<Rightarrow> fst ` set ps) \<union> dom (snd st)"
  "lx_index (fst (score_word fp st w)) = lx_index (fst st)"
  by (auto simp: score_word_def Let_def foldl_score_posting split: option.split)

lemma foldl_score_word:
  "dom (snd (foldl (score_word fp) st ws)) =
     (\<Union>w \<in> set ws. case lx_index (fst st) w of None \<Rightarrow> {} | Some ps \<Rightarrow> fst ` set ps) \<union> dom (snd st)"
  by (induction ws arbitrary: st) (auto simp: score_word_dom)

lemma lex_Search_dom:
  "lx_total lx \<noteq> 0 \<Longrightarrow> dom (snd (lex_Search fp lx q))
     = (\<Union>w \<in> set (Tokenize q). case lx_index lx w of None \<Rightarrow> {} | Some ps \<Rightarrow> fst ` set ps)"
  by (simp add: lex_Search_def Let_def foldl_score_word)

lemma lex_Add_index:
  "lx_index (lex_Add fp lx i tx) = add_postings (lx_index lx) i (Tokenize tx)"
  by (auto simp: lex_Add_def Let_def add_postings_def split: option.split)

text \<open>The tokens of a text are its maximal alphanumeric runs in lower case:
  they are non-empty words of lower-case alphanumeric characters, tokenising
  them again gives the same list, and the case of the text does not matter.\<close>

theorem Tokenize_normal_form:
  "list_all word_ok (Tokenize tx) \<and> Tokenize (unwords (Tokenize tx)) = Tokenize tx \<and>
   Tokenize (map tolower tx) = Tokenize tx"
proof -
  have ok: "\<forall>w \<in> set (Tokenize tx). word_ok w" using Tokenize_words by blast
  then have "Tokenize (unwords (Tokenize tx)) = Tokenize tx"
    using Tokenize_unwords [of "Tokenize tx" "[]"] by (simp add: Tokenize_def [of "unwords _"])
  with ok show ?thesis
    by (simp add: list_all_iff Tokenize_def [of "map tolower tx"] tok_loop_lower Tokenize_def [of tx, symmetric])
qed

text \<open>An index after a sequence of additions and removals, and the documents that were added last and not removed since.\<close>

datatype lex_op = LexAdd VectorId string | LexRemove VectorId

fun lex_do :: "ieee \<Rightarrow> lex_op \<Rightarrow> lexical \<Rightarrow> lexical" where
  "lex_do fp (LexAdd i tx) lx = lex_Add fp lx i tx"
| "lex_do fp (LexRemove i) lx = lex_Remove fp lx i"

fun lex_kept :: "lex_op \<Rightarrow> VectorId set \<Rightarrow> VectorId set" where
  "lex_kept (LexAdd i tx) D = (if Tokenize tx = [] then D else insert i D)"
| "lex_kept (LexRemove i) D = D - {i}"

definition posted :: "lexical \<Rightarrow> string \<Rightarrow> VectorId set" where
  "posted lx w = (case lx_index lx w of None \<Rightarrow> {} | Some ps \<Rightarrow> fst ` set ps)"

lemma posted_do:
  "posted (lex_do fp op lx) w = posted lx w \<union> {i. \<exists>tx. op = LexAdd i tx \<and> w \<in> set (Tokenize tx)}"
proof (cases op)
  case (LexAdd i tx)
  then show ?thesis by (auto simp: posted_def lex_Add_index add_postings_def split: option.splits)
next
  case (LexRemove i)
  then show ?thesis by (auto simp: posted_def lex_Remove_def Let_def split: option.split)
qed

lemma posted_fold:
  "posted (fold (lex_do fp) ops lx) w = posted lx w \<union> {i. \<exists>tx. LexAdd i tx \<in> set ops \<and> w \<in> set (Tokenize tx)}"
  by (induction ops arbitrary: lx) (auto simp: posted_do)

definition lex_counts :: "lexical \<Rightarrow> bool" where
  "lex_counts lx \<longleftrightarrow> finite (dom (lx_lengths lx)) \<and> lx_total lx = of_nat (card (dom (lx_lengths lx)))"

lemma lex_do_counts:
  assumes "lex_counts lx"
  shows "lex_counts (lex_do fp op lx) \<and> dom (lx_lengths (lex_do fp op lx)) = lex_kept op (dom (lx_lengths lx))"
proof (cases op)
  case (LexAdd i tx)
  then show ?thesis
    using assms by (auto simp: lex_counts_def lex_Add_def Let_def insert_absorb domIff split: option.splits)
next
  case (LexRemove i)
  let ?D = "dom (lx_lengths lx)"
  show ?thesis
  proof (cases "lx_lengths lx i")
    case None
    then have "?D - {i} = ?D" by auto
    then show ?thesis using LexRemove None assms by (simp add: lex_Remove_def)
  next
    case (Some l)
    then have "card ?D = Suc (card (?D - {i}))" using assms by (intro card.remove) (auto simp: lex_counts_def)
    then have "lx_total lx - 1 = of_nat (card (?D - {i}))" using assms by (simp add: lex_counts_def)
    then show ?thesis using LexRemove Some assms by (simp add: lex_counts_def lex_Remove_def Let_def)
  qed
qed

lemma fold_lex_counts:
  "lex_counts lx \<Longrightarrow> lex_counts (fold (lex_do fp) ops lx) \<and> dom (lx_lengths (fold (lex_do fp) ops lx)) = fold lex_kept ops (dom (lx_lengths lx))"
proof (induction ops arbitrary: lx)
  case (Cons op ops)
  then show ?case using lex_do_counts [OF Cons.prems, of fp op] by simp
qed simp

lemma card_kept: "finite D \<Longrightarrow> card (fold lex_kept ops D) \<le> card D + length ops"
proof (induction ops arbitrary: D)
  case (Cons op ops)
  have "finite (lex_kept op D)" "card (lex_kept op D) \<le> Suc (card D)"
    using Cons.prems by (cases op; simp add: card_insert_if card_Diff1_le le_SucI)+
  then show ?case using Cons.IH [of "lex_kept op D"] by simp
qed simp

text \<open>C23: Keyword search scores exactly the documents that share a token with the query. After any additions and removals on an empty
  index, while a document is left, \<open>Search\<close> gives a score to an id if and only if it was added with a text that has a token of the query. The
  removed documents and the replaced texts count too: \<open>Remove\<close> and \<open>Add\<close> leave old postings in place. With no document left it scores none.\<close>

theorem lex_Search_exact:
  assumes "length ops < 2 ^ 64"
  shows "dom (snd (lex_Search fp (fold (lex_do fp) ops LexicalIndex_new) q)) =
    (if fold lex_kept ops {} = {} then {}
     else {i. \<exists>tx. LexAdd i tx \<in> set ops \<and> set (Tokenize tx) \<inter> set (Tokenize q) \<noteq> {}})"
proof -
  let ?lx = "fold (lex_do fp) ops LexicalIndex_new"
  have new: "lex_counts LexicalIndex_new" "dom (lx_lengths LexicalIndex_new) = {}" "posted LexicalIndex_new w = {}" for w
    by (simp_all add: lex_counts_def LexicalIndex_new_def posted_def)
  have C: "finite (fold lex_kept ops {})" "lx_total ?lx = of_nat (card (fold lex_kept ops {}))"
    using fold_lex_counts [OF new(1), of fp ops] new(2) by (auto simp: lex_counts_def)
  have "card (fold lex_kept ops {}) < 2 ^ 64" using card_kept [of "{}" ops] assms by simp
  then have "unat (lx_total ?lx) = card (fold lex_kept ops {})" unfolding C(2) by (simp add: unat_of_nat)
  then have t: "lx_total ?lx = 0 \<longleftrightarrow> fold lex_kept ops {} = {}" using C(1) by (simp add: unat_eq_0 flip: unat_eq_zero)
  show ?thesis
  proof (cases "fold lex_kept ops {} = {}")
    case True
    then show ?thesis using t by (simp add: lex_Search_def)
  next
    case False
    then have "dom (snd (lex_Search fp ?lx q)) = (\<Union>w \<in> set (Tokenize q). posted ?lx w)" using t by (simp add: lex_Search_dom posted_def)
    then show ?thesis using False by (auto simp: posted_fold new(3))
  qed
qed

lemma Tokenize_eval: "Tokenize ''Red car'' = [''red'', ''car'']" "Tokenize ''car'' = [''car'']"
  by code_simp+

theorem lex_Search_exact_witness:
  "\<forall>fp. dom (snd (lex_Search fp (fold (lex_do fp) [LexAdd 7 ''Red car'', LexAdd 8 ''blue'', LexAdd 9 ''car'', LexRemove 9] LexicalIndex_new) ''car'')) = {7, 9}"
proof
  fix fp
  have "Tokenize ''blue'' = [''blue'']" by code_simp
  then show "dom (snd (lex_Search fp (fold (lex_do fp) [LexAdd 7 ''Red car'', LexAdd 8 ''blue'', LexAdd 9 ''car'', LexRemove 9] LexicalIndex_new) ''car'')) = {7, 9}"
    using lex_Search_exact [of "[LexAdd 7 ''Red car'', LexAdd 8 ''blue'', LexAdd 9 ''car'', LexRemove 9]" fp "''car''"]
    by (auto simp: Tokenize_eval)
qed

text \<open>A search can corrupt the statistics of the index. \<open>Search\<close> inserts a
  length entry for a removed document whose postings remain, so removing that
  document a second time lowers the document count again; with one other
  document left the count reaches zero and no search finds it any more,
  whatever the arithmetic.\<close>

theorem lex_Search_corrupts:
  "\<forall>fp. let a = lex_Add fp (lex_Add fp LexicalIndex_new 1 ''car'') 2 ''car'';
           r = lex_Remove fp a 1;
           s = fst (lex_Search fp r ''car'');
           d = lex_Remove fp s 1
       in 2 \<in> dom (snd (lex_Search fp s ''car'')) \<and> snd (lex_Search fp d ''car'') = Map.empty \<and>
          lx_lengths d 2 = Some 1 \<and> lx_total d = 0"
  by (simp add: lex_Add_def lex_Remove_def lex_Search_def Tokenize_eval LexicalIndex_new_def Let_def
      add_postings_def tf_count_def score_word_def score_posting_def)

end
