(* ===== verification/Memtable.thy ===== *)
theory Memtable
  imports Flat_Hash Arena Lexical
begin

text \<open>
  The write buffer of \<open>src/table/memtable.h\<close> and \<open>src/table/memtable.cc\<close>: vectors
  in an arena, a hash table from ids to pointers (null for a tombstone), metadata,
  a time index (a multimap) and a keyword index.  The vector bytes are really
  stored in and read back from arena memory.  The hash functor (xxHash64) and the
  IEEE operations are parameters.
\<close>

record memtable =
  mt_dim :: u32
  mt_quant :: bool
  mt_arena :: arena
  mt_map :: "ptr flat"
  mt_meta :: "VectorId \<rightharpoonup> Metadata"
  mt_temporal :: "(u64 \<times> VectorId) list"
  mt_lex :: lexical

definition MemTable_new :: "u32 \<Rightarrow> nat \<Rightarrow> bool \<Rightarrow> memtable" where
  "MemTable_new dim block_bytes quant = \<lparr>mt_dim = dim, mt_quant = quant, mt_arena = Arena_new block_bytes,
     mt_map = fh_new 128, mt_meta = Map.empty, mt_temporal = [], mt_lex = LexicalIndex_new\<rparr>"

text \<open>\<open>std::multimap\<close> keyed by timestamp: \<open>insert\<close> goes after the equal keys; erasing
  an entry of the equal range takes the first one with the id.\<close>

definition mm_insert :: "u64 \<Rightarrow> VectorId \<Rightarrow> (u64 \<times> VectorId) list \<Rightarrow> (u64 \<times> VectorId) list" where
  "mm_insert ts i xs = takeWhile (\<lambda>x. fst x \<le> ts) xs @ [(ts, i)] @ dropWhile (\<lambda>x. fst x \<le> ts) xs"

definition mm_erase :: "u64 \<Rightarrow> VectorId \<Rightarrow> (u64 \<times> VectorId) list \<Rightarrow> (u64 \<times> VectorId) list" where
  "mm_erase ts i xs = remove1 (ts, i) xs"

text \<open>The per-vector scalar quantisation of \<open>Put\<close>, and its decoding.\<close>

definition sq8_minmax :: "ieee \<Rightarrow> VectorView \<Rightarrow> float32 \<times> float32" where
  "sq8_minmax fp v = foldl (\<lambda>(mn, mx) x. (if f_lt fp x mn then x else mn, if f_lt fp mx x then x else mx))
     (hd v, hd v) (tl v)"

definition sq8_encode :: "ieee \<Rightarrow> VectorView \<Rightarrow> byte list" where
  "sq8_encode fp v =
     (let (vmin, vmax) = sq8_minmax fp v;
          range = f_sub fp vmax vmin;
          inv_scale = (if f_lt fp f_0 range then f_div fp f_255 range else f_0);
          code = (\<lambda>x. let scaled = (if f_lt fp f_0 range
                                      then f_mul fp (f_div fp (f_sub fp x vmin) range) f_255 else f_0)
                      in f_to_byte fp (if f_lt fp scaled f_0 then f_0
                                       else if f_lt fp f_255 scaled then f_255 else scaled))
      in u32_bytes vmin @ u32_bytes inv_scale @ map code v)"

definition sq8_decode :: "ieee \<Rightarrow> nat \<Rightarrow> byte list \<Rightarrow> VectorView" where
  "sq8_decode fp n bs =
     (let vmin = bytes_u32 bs;
          inv_scale = bytes_u32 (drop 4 bs);
          scale = (if f_lt fp f_0 inv_scale then f_div fp f_1 inv_scale else f_0)
      in map (\<lambda>c. f_add fp vmin (f_mul fp (f_of_byte fp c) scale)) (take n (drop 8 bs)))"

text \<open>Drop the time-index entry of the metadata currently stored for an id.\<close>

definition erase_temporal :: "memtable \<Rightarrow> VectorId \<Rightarrow> (u64 \<times> VectorId) list" where
  "erase_temporal mt i =
     (case mt_meta mt i of
        None \<Rightarrow> mt_temporal mt
      | Some old \<Rightarrow> if md_timestamp old > 0 then mm_erase (md_timestamp old) i (mt_temporal mt)
                    else mt_temporal mt)"

definition store_bytes :: "memtable \<Rightarrow> byte list \<Rightarrow> ptr \<times> arena" where
  "store_bytes mt bs = (let (p, ar) = Allocate (mt_arena mt) (length bs) 4 in (p, ar_write ar p bs))"

definition has_meta :: "Metadata \<Rightarrow> bool" where
  "has_meta meta \<longleftrightarrow> md_tenant meta \<noteq> '''' \<or> md_src_vid meta \<noteq> 0 \<or> md_timestamp meta \<noteq> 0 \<or> md_text meta \<noteq> ''''"

definition mt_Put :: "ieee \<Rightarrow> (u64 \<Rightarrow> u64) \<Rightarrow> memtable \<Rightarrow> VectorId \<Rightarrow> VectorView \<Rightarrow> Metadata \<Rightarrow> status \<times> memtable" where
  "mt_Put fp hash mt i vec meta =
     (if vv_dim vec \<noteq> mt_dim mt then (InvalidArgument ''dim mismatch'', mt) else
      let (dst, ar) = store_bytes mt (if mt_quant mt \<and> mt_dim mt > 0 then sq8_encode fp vec else float_bytes vec);
          mt = mt\<lparr>mt_arena := ar, mt_map := snd (fh_Put hash (mt_map mt) i (Some dst))\<rparr>;
          mt = mt\<lparr>mt_temporal := erase_temporal mt i\<rparr>;
          mt = (if has_meta meta
                then mt\<lparr>mt_meta := (mt_meta mt)(i \<mapsto> meta),
                        mt_temporal := (if md_timestamp meta > 0 then mm_insert (md_timestamp meta) i (mt_temporal mt)
                                        else mt_temporal mt),
                        mt_lex := (if md_text meta \<noteq> '''' then lex_Add fp (mt_lex mt) i (md_text meta) else mt_lex mt)\<rparr>
                else mt\<lparr>mt_meta := (mt_meta mt)(i := None)\<rparr>)
      in (Ok, mt))"

definition mt_Put0 :: "ieee \<Rightarrow> (u64 \<Rightarrow> u64) \<Rightarrow> memtable \<Rightarrow> VectorId \<Rightarrow> VectorView \<Rightarrow> status \<times> memtable" where
  "mt_Put0 fp hash mt i vec = mt_Put fp hash mt i vec Metadata0"

fun batch_store :: "memtable \<Rightarrow> VectorView list \<Rightarrow> ptr list \<times> memtable" where
  "batch_store mt [] = ([], mt)"
| "batch_store mt (v # vs) =
     (let (p, ar) = store_bytes mt (float_bytes v);
          (ps, mt) = batch_store (mt\<lparr>mt_arena := ar\<rparr>) vs
      in (p # ps, mt))"

definition mt_PutBatch :: "(u64 \<Rightarrow> u64) \<Rightarrow> memtable \<Rightarrow> VectorId list \<Rightarrow> VectorView list \<Rightarrow> status \<times> memtable" where
  "mt_PutBatch hash mt ids vectors =
     (if length ids \<noteq> length vectors then (InvalidArgument ''ids and vectors size mismatch'', mt)
      else if ids = [] then (Ok, mt)
      else if list_ex (\<lambda>v. vv_dim v \<noteq> mt_dim mt) vectors then (InvalidArgument ''dim mismatch'', mt)
      else let (ptrs, mt) = batch_store mt vectors
           in (Ok, mt\<lparr>mt_map := foldl (\<lambda>m (i, p). snd (fh_Put hash m i p)) (mt_map mt) (zip ids (map Some ptrs))\<rparr>))"

definition mt_Delete :: "ieee \<Rightarrow> (u64 \<Rightarrow> u64) \<Rightarrow> memtable \<Rightarrow> VectorId \<Rightarrow> status \<times> memtable" where
  "mt_Delete fp hash mt i =
     (let mt = mt\<lparr>mt_map := snd (fh_Put hash (mt_map mt) i None)\<rparr>;
          mt = mt\<lparr>mt_temporal := erase_temporal mt i\<rparr>
      in (Ok, mt\<lparr>mt_lex := lex_Remove fp (mt_lex mt) i, mt_meta := (mt_meta mt)(i := None)\<rparr>))"

text \<open>\<open>Get\<close> with both out-parameters: the pointer, and the metadata when it is written.\<close>

definition mt_Get :: "(u64 \<Rightarrow> u64) \<Rightarrow> memtable \<Rightarrow> VectorId \<Rightarrow> status \<times> ptr option \<times> Metadata option" where
  "mt_Get hash mt i =
     (case fh_Find hash (mt_map mt) i of
        Some (Some p) \<Rightarrow> (Ok, Some p, Some (case mt_meta mt i of Some m \<Rightarrow> m | None \<Rightarrow> Metadata0))
      | _ \<Rightarrow> (NotFound ''vector not found'', None, None))"

definition mt_GetPtr :: "(u64 \<Rightarrow> u64) \<Rightarrow> memtable \<Rightarrow> VectorId \<Rightarrow> ptr option" where
  "mt_GetPtr hash mt i = (case fh_Find hash (mt_map mt) i of Some v \<Rightarrow> v | None \<Rightarrow> None)"

definition mt_IsTombstone :: "(u64 \<Rightarrow> u64) \<Rightarrow> memtable \<Rightarrow> VectorId \<Rightarrow> bool" where
  "mt_IsTombstone hash mt i = (fh_Find hash (mt_map mt) i = Some None)"

definition mt_GetCount :: "memtable \<Rightarrow> nat" where
  "mt_GetCount mt = fh_count (mt_map mt)"

definition mt_BytesUsed :: "memtable \<Rightarrow> nat" where
  "mt_BytesUsed mt = Arena_BytesUsed (mt_arena mt)"

definition mt_Clear :: "memtable \<Rightarrow> memtable" where
  "mt_Clear mt = mt\<lparr>mt_map := fh_Clear (mt_map mt), mt_meta := Map.empty, mt_temporal := [],
     mt_lex := lex_Clear (mt_lex mt), mt_arena := Arena_Clear (mt_arena mt)\<rparr>"

text \<open>The scan from \<open>lower_bound(start)\<close> to \<open>upper_bound(end)\<close>, for \<open>start \<le> end\<close>.\<close>

definition mt_GetByTimeRange :: "memtable \<Rightarrow> u64 \<Rightarrow> u64 \<Rightarrow> VectorId list" where
  "mt_GetByTimeRange mt start stop =
     map snd (takeWhile (\<lambda>x. fst x \<le> stop) (dropWhile (\<lambda>x. fst x < start) (mt_temporal mt)))"

text \<open>The cursor: a snapshot of the slots, read one entry at a time.\<close>

record cursor =
  cu_snap :: "(VectorId \<times> ptr option) list"
  cu_idx :: nat

definition mt_CreateCursor :: "memtable \<Rightarrow> cursor" where
  "mt_CreateCursor mt = \<lparr>cu_snap = fh_ForEach (mt_map mt), cu_idx = 0\<rparr>"

definition entry_vec :: "ieee \<Rightarrow> memtable \<Rightarrow> ptr \<Rightarrow> VectorView option" where
  "entry_vec fp mt p =
     (if mt_quant mt then map_option (sq8_decode fp (unat (mt_dim mt))) (ar_read (mt_arena mt) p (8 + unat (mt_dim mt)))
      else map_option (bytes_floats (unat (mt_dim mt))) (ar_read (mt_arena mt) p (4 * unat (mt_dim mt))))"

definition mt_Next :: "ieee \<Rightarrow> memtable \<Rightarrow> cursor \<Rightarrow> (VectorId \<times> VectorView option \<times> bool \<times> Metadata option) option \<times> cursor" where
  "mt_Next fp mt cu =
     (if cu_idx cu \<ge> length (cu_snap cu) then (None, cu)
      else case cu_snap cu ! cu_idx cu of
        (i, None) \<Rightarrow> (Some (i, None, True, None), cu\<lparr>cu_idx := cu_idx cu + 1\<rparr>)
      | (i, Some p) \<Rightarrow> (Some (i, entry_vec fp mt p, False, mt_meta mt i), cu\<lparr>cu_idx := cu_idx cu + 1\<rparr>))"

text \<open>The scans, as the list of the callback's arguments.  Two of them read \<open>dim\<close> floats at
  the pointer whether or not the table is quantised; reading past the block is \<open>None\<close>.\<close>

definition raw_vec :: "memtable \<Rightarrow> ptr \<Rightarrow> VectorView option" where
  "raw_vec mt p = map_option (bytes_floats (unat (mt_dim mt))) (ar_read (mt_arena mt) p (4 * unat (mt_dim mt)))"

definition mt_IterateWithStatus :: "memtable \<Rightarrow> (VectorId \<times> VectorView option \<times> bool) list" where
  "mt_IterateWithStatus mt =
     map (\<lambda>(i, q). case q of None \<Rightarrow> (i, None, True) | Some p \<Rightarrow> (i, raw_vec mt p, False)) (fh_ForEach (mt_map mt))"

definition mt_IterateWithMetadata :: "ieee \<Rightarrow> memtable \<Rightarrow> (VectorId \<times> VectorView option \<times> bool \<times> Metadata option) list" where
  "mt_IterateWithMetadata fp mt =
     map (\<lambda>(i, q). case q of None \<Rightarrow> (i, None, True, None) | Some p \<Rightarrow> (i, entry_vec fp mt p, False, mt_meta mt i))
       (fh_ForEach (mt_map mt))"

definition mt_IterateQuantizedWithMetadata ::
    "memtable \<Rightarrow> (VectorId \<times> float32 \<times> float32 \<times> byte list option \<times> bool \<times> Metadata option) list" where
  "mt_IterateQuantizedWithMetadata mt =
     map (\<lambda>(i, q). case q of
            None \<Rightarrow> (i, f_0, f_0, None, True, None)
          | Some p \<Rightarrow>
              if mt_quant mt then
                case ar_read (mt_arena mt) p (8 + unat (mt_dim mt)) of
                  None \<Rightarrow> (i, f_0, f_0, None, False, mt_meta mt i)
                | Some bs \<Rightarrow> (i, bytes_u32 bs, bytes_u32 (drop 4 bs), Some (drop 8 bs), False, mt_meta mt i)
              else (i, f_0, f_0, None, False, mt_meta mt i))
       (fh_ForEach (mt_map mt))"

definition mt_ForEach :: "memtable \<Rightarrow> (VectorId \<times> VectorView option) list" where
  "mt_ForEach mt = concat (map (\<lambda>(i, q). case q of None \<Rightarrow> [] | Some p \<Rightarrow> [(i, raw_vec mt p)]) (fh_ForEach (mt_map mt)))"

subsection \<open>What a memtable stands for\<close>

definition obj_size :: "memtable \<Rightarrow> nat" where
  "obj_size mt = (if mt_quant mt then 8 + unat (mt_dim mt) else 4 * unat (mt_dim mt))"

definition temporal_ok :: "(VectorId \<rightharpoonup> Metadata) \<Rightarrow> (u64 \<times> VectorId) list \<Rightarrow> bool" where
  "temporal_ok meta xs \<longleftrightarrow> distinct xs \<and> sorted (map fst xs) \<and>
     (\<forall>ts i. (ts, i) \<in> set xs \<longleftrightarrow> ts > 0 \<and> (\<exists>m. meta i = Some m \<and> md_timestamp m = ts))"

definition mt_inv :: "(u64 \<Rightarrow> u64) \<Rightarrow> memtable \<Rightarrow> bool" where
  "mt_inv hash mt \<longleftrightarrow>
     flat_inv hash (mt_map mt) \<and> arena_inv (mt_arena mt) \<and> obj_size mt \<le> ar_block_bytes (mt_arena mt) \<and>
     (mt_quant mt \<longrightarrow> mt_dim mt > 0) \<and>
     (\<forall>i p. flat_map (mt_map mt) i = Some (Some p) \<longrightarrow>
        region_ok (mt_arena mt) p (obj_size mt) \<and> ar_read (mt_arena mt) p (obj_size mt) \<noteq> None) \<and>
     (\<forall>i m. mt_meta mt i = Some m \<longrightarrow> (\<exists>p. flat_map (mt_map mt) i = Some (Some p))) \<and>
     temporal_ok (mt_meta mt) (mt_temporal mt)"

text \<open>For each id: nothing, a tombstone, or the decoded vector with its metadata.\<close>

definition mt_view :: "ieee \<Rightarrow> memtable \<Rightarrow> VectorId \<rightharpoonup> (VectorView option \<times> Metadata option) option" where
  "mt_view fp mt i =
     map_option (map_option (\<lambda>p. (entry_vec fp mt p, mt_meta mt i))) (flat_map (mt_map mt) i)"

text \<open>What a stored vector reads back as: itself, or its quantised image.\<close>

definition stored_vec :: "ieee \<Rightarrow> memtable \<Rightarrow> VectorView \<Rightarrow> VectorView" where
  "stored_vec fp mt v = (if mt_quant mt then sq8_decode fp (unat (mt_dim mt)) (sq8_encode fp v) else v)"

lemma length_sq8_encode [simp]: "length (sq8_encode fp v) = 8 + length v"
  by (simp add: sq8_encode_def Let_def split: prod.split)

lemma store_bytes_correct:
  assumes inv: "arena_inv (mt_arena mt)" and n: "length bs \<le> ar_block_bytes (mt_arena mt)"
    and r: "store_bytes mt bs = (p, ar')"
  shows "arena_inv ar'" "ar_block_bytes ar' = ar_block_bytes (mt_arena mt)"
    "region_ok ar' p (length bs)" "ar_read ar' p (length bs) = Some bs"
    "\<And>q j. region_ok (mt_arena mt) q j \<Longrightarrow> region_ok ar' q j \<and> ar_read ar' q j = ar_read (mt_arena mt) q j"
proof -
  obtain ar1 where a: "Allocate (mt_arena mt) (length bs) (2 ^ 2) = (p, ar1)" and ar': "ar' = ar_write ar1 p bs"
    using r by (auto simp: store_bytes_def split: prod.splits)
  note A = Allocate_correct [OF inv n _ a, simplified]
  have f: "fst p < length (ar_blocks ar1)" using A(3) by (simp add: region_ok_def)
  show "arena_inv ar'" "ar_block_bytes ar' = ar_block_bytes (mt_arena mt)" "region_ok ar' p (length bs)"
    using A by (simp_all add: ar' write_region)
  show "ar_read ar' p (length bs) = Some bs" unfolding ar' by (rule read_own_write [OF f])
  fix q j assume q: "region_ok (mt_arena mt) q j"
  have "ar_read ar1 q j = ar_read (mt_arena mt) q j"
    using A(7) [OF q] by (simp add: ar_read_def)
  then show "region_ok ar' q j \<and> ar_read ar' q j = ar_read (mt_arena mt) q j"
    using A(6) [OF q] read_other_write [OF f] by (simp add: ar' write_region)
qed

subsection \<open>The time index\<close>

lemma sorted_takeWhile_dropWhile:
  "sorted (map fst xs) \<Longrightarrow> x \<in> set (dropWhile (\<lambda>x. fst x \<le> ts) xs) \<Longrightarrow> ts < fst (x :: u64 \<times> 'a)"
proof (induction xs)
  case (Cons y ys)
  then show ?case by (cases "fst y \<le> ts") (auto simp: not_le dest: set_dropWhileD)
qed simp

lemma set_mm_insert: "set (mm_insert ts i xs) = insert (ts, i) (set xs)"
proof -
  have "set (takeWhile P xs) \<union> set (dropWhile P xs) = set xs" for P
    by (metis set_append takeWhile_dropWhile_id)
  then show ?thesis unfolding mm_insert_def by auto
qed

lemma mm_insert_ok:
  assumes "distinct xs" "sorted (map fst xs)" "(ts, i) \<notin> set xs"
  shows "distinct (mm_insert ts i xs)" "sorted (map fst (mm_insert ts i xs))"
proof -
  let ?t = "takeWhile (\<lambda>x. fst x \<le> ts) xs" and ?d = "dropWhile (\<lambda>x. fst x \<le> ts) xs"
  have x: "xs = ?t @ ?d" by simp
  have d: "distinct (?t @ ?d)" using assms(1) by simp
  have n: "(ts, i) \<notin> set ?t" "(ts, i) \<notin> set ?d"
    using assms(3) by (auto dest: set_takeWhileD set_dropWhileD)
  show "distinct (mm_insert ts i xs)"
    using d n unfolding mm_insert_def distinct_append by simp
  have s: "sorted (map fst ?t @ map fst ?d)" using assms(2) by (metis map_append takeWhile_dropWhile_id)
  have lo: "\<forall>x \<in> set ?t. fst x \<le> ts" by (auto dest: set_takeWhileD)
  have hi: "\<forall>x \<in> set ?d. ts \<le> fst x"
    using sorted_takeWhile_dropWhile [OF assms(2)] by (auto simp: less_imp_le)
  show "sorted (map fst (mm_insert ts i xs))"
    using s lo hi unfolding mm_insert_def by (auto simp: sorted_append)
qed

lemma mm_erase_ok:
  assumes "distinct xs" "sorted (map fst xs)"
  shows "distinct (mm_erase ts i xs)" "sorted (map fst (mm_erase ts i xs))"
    "set (mm_erase ts i xs) = set xs - {(ts, i)}"
proof -
  show "distinct (mm_erase ts i xs)" "set (mm_erase ts i xs) = set xs - {(ts, i)}"
    using assms by (simp_all add: mm_erase_def)
  have "mm_erase ts i xs = filter (\<lambda>x. (ts, i) \<noteq> x) xs"
    using assms(1) by (simp add: mm_erase_def distinct_remove1_removeAll removeAll_filter_not_eq)
  then show "sorted (map fst (mm_erase ts i xs))"
    using assms(2) by (simp add: sorted_filter)
qed

lemma erase_temporal_ok:
  assumes "temporal_ok (mt_meta mt) (mt_temporal mt)"
  shows "temporal_ok ((mt_meta mt)(i := None)) (erase_temporal mt i)"
proof (cases "\<exists>old. mt_meta mt i = Some old \<and> md_timestamp old > 0")
  case True
  then obtain old where "mt_meta mt i = Some old" "md_timestamp old > 0" by blast
  then show ?thesis
    using assms mm_erase_ok [of "mt_temporal mt" "md_timestamp old" i]
    by (auto simp: temporal_ok_def erase_temporal_def)
next
  case False
  then have "erase_temporal mt i = mt_temporal mt"
    by (auto simp: erase_temporal_def split: option.split)
  moreover have "(ts, i) \<notin> set (mt_temporal mt)" for ts
    using assms False by (auto simp: temporal_ok_def)
  ultimately show ?thesis
    using assms by (auto simp: temporal_ok_def)
qed

lemma temporal_ok_insert:
  assumes "temporal_ok (meta(i := None)) xs"
  shows "temporal_ok (meta(i \<mapsto> m)) (if md_timestamp m > 0 then mm_insert (md_timestamp m) i xs else xs)"
proof -
  have "(md_timestamp m, i) \<notin> set xs" using assms by (simp add: temporal_ok_def)
  then show ?thesis
    using assms mm_insert_ok [of xs "md_timestamp m" i]
    by (auto simp: temporal_ok_def set_mm_insert)
qed

subsection \<open>The operations refine updates of the view\<close>

lemma mt_inv_flat: "mt_inv hash mt \<Longrightarrow> flat_inv hash (mt_map mt)"
  by (simp add: mt_inv_def)

lemma mt_inv_ptr:
  "mt_inv hash mt \<Longrightarrow> flat_map (mt_map mt) i = Some (Some p) \<Longrightarrow>
   region_ok (mt_arena mt) p (obj_size mt) \<and> ar_read (mt_arena mt) p (obj_size mt) \<noteq> None"
  unfolding mt_inv_def by blast

lemma mt_inv_live: "mt_inv hash mt \<Longrightarrow> mt_meta mt i = Some m \<Longrightarrow> \<exists>p. flat_map (mt_map mt) i = Some (Some p)"
  unfolding mt_inv_def by blast

lemma entry_vec_eq:
  assumes "mt_dim mt' = mt_dim mt" "mt_quant mt' = mt_quant mt"
    "ar_read (mt_arena mt') p (obj_size mt) = ar_read (mt_arena mt) p (obj_size mt)"
  shows "entry_vec fp mt' p = entry_vec fp mt p"
  using assms by (simp add: entry_vec_def obj_size_def split: if_splits)

text \<open>A new arena object under an id: the pointer map gains it, everything else keeps
  its bytes.\<close>

lemma store_put:
  assumes inv: "mt_inv hash mt" and i: "i \<noteq> sentinel" and n: "length bs = obj_size mt"
    and st: "store_bytes mt bs = (p, ar')"
  defines "mt' \<equiv> mt\<lparr>mt_arena := ar', mt_map := snd (fh_Put hash (mt_map mt) i (Some p))\<rparr>"
  shows "flat_inv hash (mt_map mt')" "arena_inv ar'" "obj_size mt \<le> ar_block_bytes ar'"
    "flat_map (mt_map mt') = (flat_map (mt_map mt))(i \<mapsto> Some p)"
    "\<And>j q. flat_map (mt_map mt') j = Some (Some q) \<Longrightarrow>
       region_ok ar' q (obj_size mt) \<and> ar_read ar' q (obj_size mt) \<noteq> None"
    "ar_read ar' p (obj_size mt) = Some bs"
    "\<And>j q. flat_map (mt_map mt) j = Some (Some q) \<Longrightarrow>
       ar_read ar' q (obj_size mt) = ar_read (mt_arena mt) q (obj_size mt)"
proof -
  have a: "arena_inv (mt_arena mt)" "length bs \<le> ar_block_bytes (mt_arena mt)"
    using inv n by (simp_all add: mt_inv_def)
  note S = store_bytes_correct [OF a st]
  note P = fh_Put_correct [OF mt_inv_flat [OF inv] i, of "Some p"]
  have old: "region_ok (mt_arena mt) q (obj_size mt)" "ar_read (mt_arena mt) q (obj_size mt) \<noteq> None"
    if "flat_map (mt_map mt) j = Some (Some q)" for j q
    using mt_inv_ptr [OF inv that] by blast+
  show "flat_inv hash (mt_map mt')" "flat_map (mt_map mt') = (flat_map (mt_map mt))(i \<mapsto> Some p)"
    using P by (simp_all add: mt'_def)
  show "arena_inv ar'" "ar_read ar' p (obj_size mt) = Some bs" "obj_size mt \<le> ar_block_bytes ar'"
    using S inv n by (simp_all add: mt_inv_def)
  show "ar_read ar' q (obj_size mt) = ar_read (mt_arena mt) q (obj_size mt)"
    if "flat_map (mt_map mt) j = Some (Some q)" for j q
    using S(5) old that by blast
  show "region_ok ar' q (obj_size mt) \<and> ar_read ar' q (obj_size mt) \<noteq> None"
    if "flat_map (mt_map mt') j = Some (Some q)" for j q
  proof (cases "j = i")
    case True
    then have "q = p" using that P(2) by (simp add: mt'_def)
    then show ?thesis using S(3,4) n by simp
  next
    case False
    then have "flat_map (mt_map mt) j = Some (Some q)" using that P(2) by (simp add: mt'_def)
    then show ?thesis using S(5) old by (metis (no_types))
  qed
qed

lemma mt_Put_correct:
  assumes inv: "mt_inv hash mt" and i: "i \<noteq> sentinel"
    and v: "length v = unat (mt_dim mt)"
    and r: "mt_Put fp hash mt i v meta = (st, mt')"
  shows "st = Ok" "mt_inv hash mt'"
    "mt_view fp mt' = (mt_view fp mt)(i \<mapsto> Some (Some (stored_vec fp mt v), if has_meta meta then Some meta else None))"
    "mt_dim mt' = mt_dim mt" "mt_quant mt' = mt_quant mt"
proof -
  define bs where "bs = (if mt_quant mt \<and> mt_dim mt > 0 then sq8_encode fp v else float_bytes v)"
  obtain p ar' where st: "store_bytes mt bs = (p, ar')" by (cases "store_bytes mt bs")
  have n: "length bs = obj_size mt" using inv v by (auto simp: bs_def obj_size_def mt_inv_def)
  have dim: "vv_dim v = mt_dim mt" using v by (simp add: vv_dim_def)
  note S = store_put [OF inv i n st]
  have S4: "flat_map (snd (fh_Put hash (mt_map mt) i (Some p))) = (flat_map (mt_map mt))(i \<mapsto> Some p)"
    using S(4) by simp
  let ?m1 = "mt\<lparr>mt_arena := ar', mt_map := snd (fh_Put hash (mt_map mt) i (Some p))\<rparr>"
  have temp: "temporal_ok (mt_meta mt) (mt_temporal mt)" using inv by (simp add: mt_inv_def)
  have er: "erase_temporal ?m1 i = erase_temporal mt i" by (simp add: erase_temporal_def split: option.split)
  define meta' where "meta' = (if has_meta meta then (mt_meta mt)(i \<mapsto> meta) else (mt_meta mt)(i := None))"
  have fields: "st = Ok" "mt_dim mt' = mt_dim mt" "mt_quant mt' = mt_quant mt" "mt_arena mt' = ar'"
    "mt_map mt' = snd (fh_Put hash (mt_map mt) i (Some p))" "mt_meta mt' = meta'"
    "mt_temporal mt' = (if has_meta meta \<and> md_timestamp meta > 0
       then mm_insert (md_timestamp meta) i (erase_temporal mt i) else erase_temporal mt i)"
    using r dim st by (auto simp: mt_Put_def Let_def bs_def [symmetric] er meta'_def split: if_splits)
  show "st = Ok" "mt_dim mt' = mt_dim mt" "mt_quant mt' = mt_quant mt" by (rule fields)+
  have os: "obj_size mt' = obj_size mt" using fields by (simp add: obj_size_def)
  have "temporal_ok meta' (mt_temporal mt')"
    using erase_temporal_ok [OF temp, of i] temporal_ok_insert [of "mt_meta mt" i "erase_temporal mt i" meta]
    by (simp add: meta'_def fields(7) split: if_splits)
  moreover have "\<exists>q. flat_map (mt_map mt') j = Some (Some q)" if "meta' j = Some m" for j m
    using that mt_inv_live [OF inv, of j m] S4
    by (cases "j = i") (auto simp: meta'_def fields(5) split: if_splits)
  ultimately show "mt_inv hash mt'"
    using inv S(1-3,5) fields by (simp add: mt_inv_def os)
  have ev: "entry_vec fp mt' q = entry_vec fp mt q" if "flat_map (mt_map mt) j = Some (Some q)" for j q
    using S(7) [OF that] fields by (intro entry_vec_eq) simp_all
  have new: "entry_vec fp mt' p = Some (stored_vec fp mt v)"
    using S(6) inv v codec
    by (auto simp: entry_vec_def stored_vec_def fields obj_size_def bs_def mt_inv_def bytes_floats_float_bytes' [of v, unfolded v])
  show "mt_view fp mt' = (mt_view fp mt)(i \<mapsto> Some (Some (stored_vec fp mt v), if has_meta meta then Some meta else None))"
  proof
    fix j
    show "mt_view fp mt' j = ((mt_view fp mt)(i \<mapsto> Some (Some (stored_vec fp mt v), if has_meta meta then Some meta else None))) j"
    proof (cases "j = i")
      case True
      then show ?thesis
        by (simp add: mt_view_def fields(5,6) S4 new meta'_def)
    next
      case False
      then have "flat_map (mt_map mt') j = flat_map (mt_map mt) j" "mt_meta mt' j = mt_meta mt j"
        by (simp_all add: fields(5,6) S4 meta'_def)
      then show ?thesis using False ev [of j]
        by (cases "flat_map (mt_map mt) j"; cases "the (flat_map (mt_map mt) j)") (auto simp: mt_view_def)
    qed
  qed
qed

lemma mt_Delete_correct:
  assumes inv: "mt_inv hash mt" and i: "i \<noteq> sentinel"
    and r: "mt_Delete fp hash mt i = (st, mt')"
  shows "st = Ok" "mt_inv hash mt'" "mt_view fp mt' = (mt_view fp mt)(i \<mapsto> None)"
    "mt_dim mt' = mt_dim mt" "mt_quant mt' = mt_quant mt"
proof -
  note P = fh_Put_correct [OF mt_inv_flat [OF inv] i, of None]
  have er: "erase_temporal (mt\<lparr>mt_map := m\<rparr>) i = erase_temporal mt i" for m
    by (simp add: erase_temporal_def split: option.split)
  have fields: "st = Ok" "mt_dim mt' = mt_dim mt" "mt_quant mt' = mt_quant mt" "mt_arena mt' = mt_arena mt"
    "mt_map mt' = snd (fh_Put hash (mt_map mt) i None)" "mt_meta mt' = (mt_meta mt)(i := None)"
    "mt_temporal mt' = erase_temporal mt i"
    using r by (auto simp: mt_Delete_def Let_def er)
  show "st = Ok" "mt_dim mt' = mt_dim mt" "mt_quant mt' = mt_quant mt" by (rule fields)+
  have os: "obj_size mt' = obj_size mt" using fields by (simp add: obj_size_def)
  have "temporal_ok (mt_meta mt') (mt_temporal mt')"
    using erase_temporal_ok [of mt i] inv by (simp add: fields mt_inv_def)
  moreover have "\<exists>q. flat_map (mt_map mt') j = Some (Some q)" if "mt_meta mt' j = Some m" for j m
    using that mt_inv_live [OF inv, of j m] P(2) by (cases "j = i") (auto simp: fields)
  moreover have "region_ok (mt_arena mt) q (obj_size mt) \<and> ar_read (mt_arena mt) q (obj_size mt) \<noteq> None"
    if "flat_map (mt_map mt') j = Some (Some q)" for j q
    using that mt_inv_ptr [OF inv, of j q] P(2) by (cases "j = i") (auto simp: fields)
  ultimately show "mt_inv hash mt'"
    using inv P(1) fields by (simp add: mt_inv_def os)
  have ev: "entry_vec fp mt' q = entry_vec fp mt q" for q
    by (rule entry_vec_eq) (simp_all add: fields)
  show "mt_view fp mt' = (mt_view fp mt)(i \<mapsto> None)"
    by (auto simp: mt_view_def fields P(2) ev fun_eq_iff cong: option.map_cong)
qed

lemma mt_Get_view:
  assumes inv: "mt_inv hash mt" and i: "i \<noteq> sentinel"
  shows "mt_Get hash mt i =
    (case flat_map (mt_map mt) i of
       Some (Some p) \<Rightarrow> (Ok, Some p, Some (case mt_meta mt i of Some m \<Rightarrow> m | None \<Rightarrow> Metadata0))
     | _ \<Rightarrow> (NotFound ''vector not found'', None, None))"
  by (simp add: mt_Get_def fh_Find_map [OF mt_inv_flat [OF inv] i])

lemma flat_map_sentinel: "flat_map m sentinel = None"
  by (auto simp: flat_map_def fh_ForEach_def map_of_eq_None_iff)

lemma mt_new_inv:
  assumes "b < 2 ^ 63" "(if quant then 8 + unat dim else 4 * unat dim) \<le> b" "quant \<longrightarrow> dim > 0"
  shows "mt_inv hash (MemTable_new dim b quant)" "mt_view fp (MemTable_new dim b quant) = Map.empty"
proof -
  have f: "flat_inv hash (fh_new 128 :: ptr flat)" "flat_map (fh_new 128 :: ptr flat) = Map.empty"
    by (rule fh_new_correct; simp add: word_le_nat_alt)+
  show "mt_inv hash (MemTable_new dim b quant)"
    using assms arena_inv_new [of b] f
    by (simp add: mt_inv_def MemTable_new_def obj_size_def temporal_ok_def Arena_new_def split: if_splits)
  show "mt_view fp (MemTable_new dim b quant) = Map.empty"
    using f by (simp add: mt_view_def MemTable_new_def fun_eq_iff)
qed

lemma mt_Clear_correct:
  assumes "mt_inv hash mt"
  shows "mt_inv hash (mt_Clear mt)" "mt_view fp (mt_Clear mt) = Map.empty"
  using assms fh_Clear_correct [OF mt_inv_flat [OF assms]]
  by (simp_all add: mt_inv_def mt_Clear_def arena_inv_def Arena_Clear_def obj_size_def temporal_ok_def
      mt_view_def fun_eq_iff split: if_splits)

subsection \<open>Batches\<close>

lemma batch_store_correct:
  assumes "arena_inv (mt_arena mt)" "n \<le> ar_block_bytes (mt_arena mt)"
    "\<forall>v \<in> set vs. length (float_bytes v) = n" "batch_store mt vs = (ps, mt')"
  shows "length ps = length vs \<and> (\<exists>ar'. mt' = mt\<lparr>mt_arena := ar'\<rparr>) \<and> arena_inv (mt_arena mt') \<and>
    ar_block_bytes (mt_arena mt') = ar_block_bytes (mt_arena mt) \<and>
    (\<forall>x \<in> set (zip vs ps). region_ok (mt_arena mt') (snd x) n \<and> ar_read (mt_arena mt') (snd x) n = Some (float_bytes (fst x))) \<and>
    (\<forall>q j. region_ok (mt_arena mt) q j \<longrightarrow> region_ok (mt_arena mt') q j \<and> ar_read (mt_arena mt') q j = ar_read (mt_arena mt) q j)"
  using assms
proof (induction vs arbitrary: mt ps mt')
  case Nil
  then show ?case by (auto intro: exI [of _ "mt_arena mt"])
next
  case (Cons v vs)
  obtain p ar1 where st: "store_bytes mt (float_bytes v) = (p, ar1)" by (cases "store_bytes mt (float_bytes v)")
  obtain ps1 where b: "batch_store (mt\<lparr>mt_arena := ar1\<rparr>) vs = (ps1, mt')" and ps: "ps = p # ps1"
    using Cons.prems(4) st by (auto split: prod.splits)
  have n: "length (float_bytes v) = n" using Cons.prems(3) by simp
  note S = store_bytes_correct [OF Cons.prems(1) _ st, unfolded n, OF Cons.prems(2)]
  have IH: "length ps1 = length vs \<and> (\<exists>ar'. mt' = mt\<lparr>mt_arena := ar'\<rparr>) \<and> arena_inv (mt_arena mt') \<and>
    ar_block_bytes (mt_arena mt') = ar_block_bytes ar1 \<and>
    (\<forall>x \<in> set (zip vs ps1). region_ok (mt_arena mt') (snd x) n \<and> ar_read (mt_arena mt') (snd x) n = Some (float_bytes (fst x))) \<and>
    (\<forall>q j. region_ok ar1 q j \<longrightarrow> region_ok (mt_arena mt') q j \<and> ar_read (mt_arena mt') q j = ar_read ar1 q j)"
    using Cons.IH [OF _ _ _ b] S(1,2) Cons.prems(2,3) by simp
  then have "region_ok (mt_arena mt') p n \<and> ar_read (mt_arena mt') p n = Some (float_bytes v)"
    using S(3,4) by (cases p) simp
  then show ?case
    using IH S(2,5) by (simp add: ps)
qed

lemma map_of_rev_zip_map:
  "length vs = length ps \<Longrightarrow> length is = length ps \<Longrightarrow>
   map_of (rev (zip is (map f ps))) = map_option (f \<circ> snd) \<circ> map_of (rev (zip is (zip vs ps))) \<and>
   map_of (rev (zip is vs)) = map_option fst \<circ> map_of (rev (zip is (zip vs ps)))"
proof -
  assume len: "length vs = length ps" "length is = length ps"
  have "zip is (map f ps) = map (\<lambda>(i, x). (i, (f \<circ> snd) x)) (zip is (zip vs ps))"
    "zip is vs = map (\<lambda>(i, x). (i, fst x)) (zip is (zip vs ps))"
    using len by (auto intro!: nth_equalityI)
  then show ?thesis by (simp only: rev_map map_of_map)
qed

lemma flat_put_all:
  assumes inv: "flat_inv hash m" and legal: "\<forall>kv \<in> set kvs. fst kv \<noteq> sentinel"
  shows "flat_inv hash (foldl (\<lambda>m (i, p). snd (fh_Put hash m i p)) m kvs)"
    "flat_map (foldl (\<lambda>m (i, p). snd (fh_Put hash m i p)) m kvs) j
       = (case map_of (rev kvs) j of Some v \<Rightarrow> Some v | None \<Rightarrow> flat_map m j)"
proof -
  let ?m = "foldl (\<lambda>m (i, p). snd (fh_Put hash m i p)) m kvs"
  show fi: "flat_inv hash ?m" by (rule flat.tinv_put_all [OF inv legal])
  show "flat_map ?m j = (case map_of (rev kvs) j of Some v \<Rightarrow> Some v | None \<Rightarrow> flat_map m j)"
  proof (cases "j = sentinel")
    case True
    moreover have "map_of (rev kvs) sentinel = None" using legal by (auto simp: map_of_eq_None_iff)
    ultimately show ?thesis by (simp add: flat_map_sentinel)
  next
    case False
    then show ?thesis
      using flat.find_put_all [OF inv legal False] fh_Find_map [OF fi False] fh_Find_map [OF inv False]
      by (auto split: option.splits)
  qed
qed

text \<open>The state after a batch: \<open>zs\<close> gives, for each id of the batch, the vector and
  the pointer of its last occurrence.\<close>

lemma mt_PutBatch_state:
  assumes inv: "mt_inv hash mt" and q: "\<not> mt_quant mt" and ids: "\<forall>i \<in> set ids. i \<noteq> sentinel"
    and len: "length ids = length vs" and dims: "\<forall>v \<in> set vs. length v = unat (mt_dim mt)"
    and r: "mt_PutBatch hash mt ids vs = (st, mt')"
  shows "\<exists>ar' m' zs. st = Ok \<and> mt' = mt\<lparr>mt_arena := ar', mt_map := m'\<rparr> \<and> flat_inv hash m' \<and>
    arena_inv ar' \<and> ar_block_bytes ar' = ar_block_bytes (mt_arena mt) \<and>
    map_of (rev (zip ids vs)) = map_option fst \<circ> zs \<and>
    (\<forall>j. flat_map m' j = (case zs j of Some x \<Rightarrow> Some (Some (snd x)) | None \<Rightarrow> flat_map (mt_map mt) j)) \<and>
    (\<forall>j x. zs j = Some x \<longrightarrow> fst x \<in> set vs \<and> region_ok ar' (snd x) (obj_size mt) \<and>
       ar_read ar' (snd x) (obj_size mt) = Some (float_bytes (fst x))) \<and>
    (\<forall>q j. region_ok (mt_arena mt) q j \<longrightarrow> region_ok ar' q j \<and> ar_read ar' q j = ar_read (mt_arena mt) q j)"
proof -
  have dok: "\<not> list_ex (\<lambda>v. vv_dim v \<noteq> mt_dim mt) vs"
    using dims by (auto simp: list_ex_iff vv_dim_def)
  obtain ps m1 where b: "batch_store mt vs = (ps, m1)" by (cases "batch_store mt vs")
  have fb: "\<forall>v \<in> set vs. length (float_bytes v) = obj_size mt" using dims q by (simp add: obj_size_def)
  have "obj_size mt \<le> ar_block_bytes (mt_arena mt)" "arena_inv (mt_arena mt)" using inv by (simp_all add: mt_inv_def)
  note C = batch_store_correct [OF this(2,1) fb b]
  then obtain ar' where m1: "m1 = mt\<lparr>mt_arena := ar'\<rparr>" by blast
  have ma: "mt_arena m1 = ar'" using m1 by simp
  have B: "length ps = length vs" "arena_inv ar'" "ar_block_bytes ar' = ar_block_bytes (mt_arena mt)"
    "\<forall>x \<in> set (zip vs ps). region_ok ar' (snd x) (obj_size mt) \<and> ar_read ar' (snd x) (obj_size mt) = Some (float_bytes (fst x))"
    "\<forall>q j. region_ok (mt_arena mt) q j \<longrightarrow> region_ok ar' q j \<and> ar_read ar' q j = ar_read (mt_arena mt) q j"
    using C unfolding ma by blast+
  define kvs where "kvs = zip ids (map Some ps)"
  define zs where "zs = map_of (rev (zip ids (zip vs ps)))"
  let ?m = "foldl (\<lambda>m (i, p). snd (fh_Put hash m i p)) (mt_map mt) kvs"
  have eq: "st = Ok \<and> mt' = m1\<lparr>mt_map := ?m\<rparr>"
  proof (cases "ids = []")
    case True
    then have "vs = []" using len by simp
    then show ?thesis using r True b by (auto simp: mt_PutBatch_def kvs_def)
  next
    case False
    then show ?thesis using r b dok len m1 by (auto simp: mt_PutBatch_def kvs_def)
  qed
  have legal: "\<forall>kv \<in> set kvs. fst kv \<noteq> sentinel"
    using ids by (auto simp: kvs_def dest: set_zip_leftD)
  note F = flat_put_all [OF mt_inv_flat [OF inv] legal]
  have lp: "length vs = length ps" "length ids = length ps" using B len by simp_all
  have Z: "map_of (rev kvs) = map_option (Some \<circ> snd) \<circ> zs" "map_of (rev (zip ids vs)) = map_option fst \<circ> zs"
    using map_of_rev_zip_map [OF lp, of Some] by (simp_all add: kvs_def zs_def)
  have zin: "x \<in> set (zip vs ps)" if "zs j = Some x" for j x
    using that by (auto simp: zs_def dest!: map_of_SomeD dest: set_zip_rightD)
  have fm: "\<forall>j. flat_map ?m j = (case zs j of Some x \<Rightarrow> Some (Some (snd x)) | None \<Rightarrow> flat_map (mt_map mt) j)"
    unfolding F(2) Z(1) by (simp split: option.split)
  have zr: "\<forall>j x. zs j = Some x \<longrightarrow> fst x \<in> set vs \<and> region_ok ar' (snd x) (obj_size mt) \<and>
      ar_read ar' (snd x) (obj_size mt) = Some (float_bytes (fst x))"
  proof (intro allI impI)
    fix j x assume "zs j = Some x"
    then have x: "x \<in> set (zip vs ps)" by (rule zin)
    then have "fst x \<in> set vs" by (metis prod.collapse set_zip_leftD)
    then show "fst x \<in> set vs \<and> region_ok ar' (snd x) (obj_size mt) \<and>
        ar_read ar' (snd x) (obj_size mt) = Some (float_bytes (fst x))"
      using B(4) x by blast
  qed
  have "mt' = mt\<lparr>mt_arena := ar', mt_map := ?m\<rparr>" "st = Ok" using eq m1 by simp_all
  with B F(1) Z(2) fm zr show ?thesis by blast
qed

lemma mt_PutBatch_correct:
  assumes inv: "mt_inv hash mt" and q: "\<not> mt_quant mt" and ids: "\<forall>i \<in> set ids. i \<noteq> sentinel"
    and len: "length ids = length vs" and dims: "\<forall>v \<in> set vs. length v = unat (mt_dim mt)"
    and r: "mt_PutBatch hash mt ids vs = (st, mt')"
  shows "st = Ok" "mt_inv hash mt'"
    "mt_view fp mt' j = (case map_of (rev (zip ids vs)) j of
        None \<Rightarrow> mt_view fp mt j | Some v \<Rightarrow> Some (Some (Some v, mt_meta mt j)))"
proof -
  obtain ar' m' zs where B: "st = Ok" "mt' = mt\<lparr>mt_arena := ar', mt_map := m'\<rparr>" "flat_inv hash m'"
    "arena_inv ar'" "ar_block_bytes ar' = ar_block_bytes (mt_arena mt)"
    "map_of (rev (zip ids vs)) = map_option fst \<circ> zs"
    "\<forall>j. flat_map m' j = (case zs j of Some x \<Rightarrow> Some (Some (snd x)) | None \<Rightarrow> flat_map (mt_map mt) j)"
    "\<forall>j x. zs j = Some x \<longrightarrow> fst x \<in> set vs \<and> region_ok ar' (snd x) (obj_size mt) \<and>
       ar_read ar' (snd x) (obj_size mt) = Some (float_bytes (fst x))"
    "\<forall>q j. region_ok (mt_arena mt) q j \<longrightarrow> region_ok ar' q j \<and> ar_read ar' q j = ar_read (mt_arena mt) q j"
    using mt_PutBatch_state [OF assms] by (elim exE conjE) (rule that)
  show "st = Ok" by (rule B(1))
  have os: "obj_size mt' = obj_size mt" using B(2) by (simp add: obj_size_def)
  have arr: "region_ok ar' p (obj_size mt) \<and> ar_read ar' p (obj_size mt) \<noteq> None"
    if "flat_map m' j = Some (Some p)" for j p
    using that B(7) [rule_format, of j] B(8) [rule_format, of j] B(9) [rule_format, of p "obj_size mt"]
      mt_inv_ptr [OF inv, of j p]
    by (cases "zs j") auto
  have live: "\<exists>p. flat_map m' j = Some (Some p)" if "mt_meta mt j = Some m" for j m
    using mt_inv_live [OF inv that] B(7) [rule_format, of j] by (cases "zs j") auto
  show "mt_inv hash mt'"
    using inv arr live B(2-5) unfolding mt_inv_def os by simp
  show "mt_view fp mt' j = (case map_of (rev (zip ids vs)) j of
        None \<Rightarrow> mt_view fp mt j | Some v \<Rightarrow> Some (Some (Some v, mt_meta mt j)))"
  proof (cases "zs j")
    case None
    have "entry_vec fp mt' p = entry_vec fp mt p" if "flat_map (mt_map mt) j = Some (Some p)" for p
      using B(2) B(9) [rule_format, of p] mt_inv_ptr [OF inv that] by (intro entry_vec_eq) simp_all
    then show ?thesis
      using None B(2,6,7)
      by (cases "flat_map (mt_map mt) j"; cases "the (flat_map (mt_map mt) j)") (auto simp: mt_view_def)
  next
    case (Some x)
    then have "length (fst x) = unat (mt_dim mt)" "ar_read ar' (snd x) (obj_size mt) = Some (float_bytes (fst x))"
      using B(8) dims by blast+
    then have "entry_vec fp mt' (snd x) = Some (fst x)"
      using q B(2) bytes_floats_float_bytes' [of "fst x"] by (simp add: entry_vec_def obj_size_def)
    then show ?thesis using Some B(2,6,7) by (simp add: mt_view_def)
  qed
qed

lemma dropWhile_sorted:
  "sorted (map fst xs) \<Longrightarrow> dropWhile (\<lambda>x. fst x < a) xs = filter (\<lambda>x. a \<le> fst x) (xs :: (u64 \<times> 'a) list)"
proof (induction xs)
  case (Cons x xs)
  show ?case
  proof (cases "fst x < a")
    case False
    then have "\<forall>y \<in> set (x # xs). a \<le> fst y" using Cons.prems by (auto simp: not_less intro: order_trans)
    then show ?thesis using False by simp
  qed (use Cons in simp)
qed simp

lemma takeWhile_sorted:
  "sorted (map fst xs) \<Longrightarrow> takeWhile (\<lambda>x. fst x \<le> b) xs = filter (\<lambda>x. fst x \<le> b) (xs :: (u64 \<times> 'a) list)"
proof (induction xs)
  case (Cons x xs)
  show ?case
  proof (cases "fst x \<le> b")
    case False
    then have "\<forall>y \<in> set xs. \<not> fst y \<le> b" using Cons.prems by auto
    then show ?thesis using False by simp
  qed (use Cons in simp)
qed simp

lemma mt_GetByTimeRange_correct:
  assumes "temporal_ok (mt_meta mt) (mt_temporal mt)"
  shows "set (mt_GetByTimeRange mt a b) =
    {i. \<exists>m. mt_meta mt i = Some m \<and> md_timestamp m > 0 \<and> a \<le> md_timestamp m \<and> md_timestamp m \<le> b}"
    "\<exists>ts. length ts = length (mt_GetByTimeRange mt a b) \<and> sorted ts \<and>
       (\<forall>k < length ts. \<exists>m. mt_meta mt (mt_GetByTimeRange mt a b ! k) = Some m \<and> md_timestamp m = ts ! k)"
proof -
  let ?xs = "mt_temporal mt"
  let ?r = "takeWhile (\<lambda>x. fst x \<le> b) (dropWhile (\<lambda>x. fst x < a) ?xs)"
  have srt: "sorted (map fst ?xs)" using assms by (simp add: temporal_ok_def)
  have s: "sorted (map fst (filter (\<lambda>x. a \<le> fst x) ?xs))" using srt by (rule sorted_filter)
  have r: "?r = filter (\<lambda>x. a \<le> fst x \<and> fst x \<le> b) ?xs"
    unfolding dropWhile_sorted [OF srt] takeWhile_sorted [OF s] by (simp add: conj_commute)
  show "set (mt_GetByTimeRange mt a b) =
    {i. \<exists>m. mt_meta mt i = Some m \<and> md_timestamp m > 0 \<and> a \<le> md_timestamp m \<and> md_timestamp m \<le> b}"
    using assms unfolding mt_GetByTimeRange_def r temporal_ok_def by force
  have "\<exists>m. mt_meta mt (snd (?r ! k)) = Some m \<and> md_timestamp m = fst (?r ! k)" if "k < length ?r" for k
  proof -
    obtain ts i where e: "?r ! k = (ts, i)" by (cases "?r ! k")
    have "(ts, i) \<in> set ?xs" using nth_mem [OF that] by (auto simp: e dest: set_takeWhileD set_dropWhileD)
    then show ?thesis using assms unfolding temporal_ok_def e by simp
  qed
  then show "\<exists>ts. length ts = length (mt_GetByTimeRange mt a b) \<and> sorted ts \<and>
       (\<forall>k < length ts. \<exists>m. mt_meta mt (mt_GetByTimeRange mt a b ! k) = Some m \<and> md_timestamp m = ts ! k)"
    using sorted_filter [OF srt, of "\<lambda>x. a \<le> fst x \<and> fst x \<le> b"]
    by (intro exI [of _ "map fst ?r"]) (simp add: mt_GetByTimeRange_def r)
qed

subsection \<open>Properties\<close>

text \<open>C12: \<open>Put\<close> refines an update of the abstract table. With a vector of the
  table's dimension and an id other than the reserved one it succeeds, keeps the
  invariant (hash table, arena regions, metadata and time index agree), and
  changes the view at that id only: it now shows the vector, read back from arena
  memory (its quantised image in quantised mode), with the new metadata, or none
  when tenant, source vertex, timestamp and text are all unset.\<close>

theorem mt_Put_refines:
  assumes "mt_inv hash mt" "i \<noteq> sentinel" "length v = unat (mt_dim mt)"
  shows "fst (mt_Put fp hash mt i v meta) = Ok \<and> mt_inv hash (snd (mt_Put fp hash mt i v meta)) \<and>
    mt_view fp (snd (mt_Put fp hash mt i v meta)) =
      (mt_view fp mt)(i \<mapsto> Some (Some (stored_vec fp mt v), if has_meta meta then Some meta else None))"
  using mt_Put_correct [OF assms prod.collapse [symmetric]] by blast

lemma small_table_inv: "mt_inv hash (MemTable_new 1 64 False)" "mt_dim (MemTable_new 1 64 False) = 1"
  using mt_new_inv(1) [of 64 False 1] by (simp_all add: MemTable_new_def)

theorem mt_Put_refines_witness:
  "\<forall>fp. mt_view fp (snd (mt_Put fp (\<lambda>x. x) (MemTable_new 1 64 False) 7 [0x3F800000] Metadata0)) 7
     = Some (Some (Some [0x3F800000], None))"
proof
  fix fp
  have "stored_vec fp (MemTable_new 1 64 False) [0x3F800000] = [0x3F800000]"
    by (simp add: stored_vec_def MemTable_new_def)
  then show "mt_view fp (snd (mt_Put fp (\<lambda>x. x) (MemTable_new 1 64 False) 7 [0x3F800000] Metadata0)) 7
     = Some (Some (Some [0x3F800000], None))"
    using mt_Put_refines [OF small_table_inv(1), where i = 7 and v = "[0x3F800000]" and hash = "\<lambda>x. x"
        and fp = fp and meta = Metadata0]
    by (simp add: small_table_inv sentinel_def has_meta_def Metadata0_def)
qed

text \<open>\<open>Delete\<close> succeeds on every id but the reserved one, leaves a tombstone for
  it, keeps every other entry with its vector and metadata, and keeps the
  invariant: in particular the id leaves the metadata table and the time index.\<close>

theorem mt_Delete_refines:
  assumes "mt_inv hash mt" "i \<noteq> sentinel"
  shows "fst (mt_Delete fp hash mt i) = Ok \<and> mt_inv hash (snd (mt_Delete fp hash mt i)) \<and>
    mt_view fp (snd (mt_Delete fp hash mt i)) = (mt_view fp mt)(i \<mapsto> None) \<and>
    mt_IsTombstone hash (snd (mt_Delete fp hash mt i)) i"
proof -
  note D = mt_Delete_correct [OF assms prod.collapse [symmetric], of fp]
  have "fh_Find hash (mt_map (snd (mt_Delete fp hash mt i))) i = Some None"
    using fh_Find_map [OF mt_inv_flat [OF D(2)] assms(2)] fun_cong [OF D(3), of i]
    by (auto simp: mt_view_def)
  then show ?thesis using D by (simp add: mt_IsTombstone_def)
qed

theorem mt_Delete_refines_witness:
  "\<forall>fp. mt_IsTombstone (\<lambda>x. x) (snd (mt_Delete fp (\<lambda>x. x) (MemTable_new 1 64 False) 7)) 7"
  using mt_Delete_refines [OF small_table_inv(1), of 7] by (simp add: sentinel_def)

text \<open>A read returns the last write. After a \<open>Put\<close>, \<open>Get\<close> of the same id succeeds
  and its pointer leads to exactly the bytes of the stored vector; for any other
  id \<open>Get\<close> still answers as before, with a pointer whose bytes are unchanged,
  although the arena may have grown and been written.\<close>

theorem mt_Get_after_Put:
  assumes "mt_inv hash mt" "i \<noteq> sentinel" "j \<noteq> sentinel" "length v = unat (mt_dim mt)"
    and "mt' = snd (mt_Put fp hash mt i v meta)"
  shows "(case mt_Get hash mt' j of (st, p, md) \<Rightarrow>
      (st_ok st, map_option (entry_vec fp mt') p, md)) =
    (if j = i then (True, Some (Some (stored_vec fp mt v)), Some (if has_meta meta then meta else Metadata0))
     else case mt_Get hash mt j of (st, p, md) \<Rightarrow> (st_ok st, map_option (entry_vec fp mt) p, md))"
proof -
  note P = mt_Put_correct [OF assms(1,2,4) prod.collapse [symmetric], of fp meta, folded assms(5)]
  have G: "(case mt_Get hash m j of (st, p, md) \<Rightarrow> (st_ok st, map_option (entry_vec fp m) p, md)) =
      (case mt_view fp m j of Some (Some (w, md)) \<Rightarrow> (True, Some w, Some (case md of Some x \<Rightarrow> x | None \<Rightarrow> Metadata0))
       | _ \<Rightarrow> (False, None, None))" if "mt_inv hash m" for m
    unfolding mt_Get_view [OF that assms(3)]
    by (auto simp: mt_view_def split: option.split)
  show ?thesis
    unfolding G [OF P(2)] G [OF assms(1)] P(3) by simp
qed

theorem mt_Get_after_Put_witness:
  "\<forall>fp. st_ok (fst (mt_Get (\<lambda>x. x) (snd (mt_Put fp (\<lambda>x. x) (MemTable_new 1 64 False) 7 [5] Metadata0)) 7))"
proof
  fix fp
  show "st_ok (fst (mt_Get (\<lambda>x. x) (snd (mt_Put fp (\<lambda>x. x) (MemTable_new 1 64 False) 7 [5] Metadata0)) 7))"
    using mt_Get_after_Put [OF small_table_inv(1) _ _ _ refl, where i = 7 and j = 7 and v = "[5]"
        and hash = "\<lambda>x. x" and fp = fp and meta = Metadata0]
    by (simp add: sentinel_def small_table_inv split: prod.splits)
qed

text \<open>C30: \<open>PutBatch\<close> (unquantised) is the sequence of its writes: the last vector
  given for an id wins, ids outside the batch are untouched and the invariant is
  kept. It does not replace metadata, so an id keeps whatever metadata it had.\<close>

theorem mt_PutBatch_refines:
  assumes "mt_inv hash mt" "\<not> mt_quant mt" "\<forall>i \<in> set ids. i \<noteq> sentinel" "length ids = length vs"
    and "\<forall>v \<in> set vs. length v = unat (mt_dim mt)"
  shows "fst (mt_PutBatch hash mt ids vs) = Ok \<and> mt_inv hash (snd (mt_PutBatch hash mt ids vs)) \<and>
    mt_view fp (snd (mt_PutBatch hash mt ids vs)) j = (case map_of (rev (zip ids vs)) j of
        None \<Rightarrow> mt_view fp mt j | Some v \<Rightarrow> Some (Some (Some v, mt_meta mt j)))"
  using mt_PutBatch_correct [OF assms prod.collapse [symmetric]] by blast

theorem mt_PutBatch_refines_witness:
  "\<forall>fp. mt_view fp (snd (mt_PutBatch (\<lambda>x. x) (MemTable_new 1 64 False) [3, 4, 3] [[1], [2], [9]])) 3
     = Some (Some (Some [9], None))"
  using mt_PutBatch_refines [OF small_table_inv(1), of "[3, 4, 3]" "[[1], [2], [9]]" "\<lambda>x. x" _ 3]
  by (simp add: sentinel_def small_table_inv) (simp add: MemTable_new_def)

text \<open>C31: \<open>GetByTimeRange\<close> is exact and ordered. On a table with the invariant it
  returns precisely the ids whose stored metadata carry a timestamp (zero means
  none) in the closed range, in order of those timestamps.\<close>

theorem mt_GetByTimeRange_exact:
  assumes "mt_inv hash mt" "a \<le> b"
  shows "set (mt_GetByTimeRange mt a b) =
      {i. \<exists>m. mt_meta mt i = Some m \<and> md_timestamp m > 0 \<and> a \<le> md_timestamp m \<and> md_timestamp m \<le> b} \<and>
    (\<exists>ts. length ts = length (mt_GetByTimeRange mt a b) \<and> sorted ts \<and>
       (\<forall>k < length ts. \<exists>m. mt_meta mt (mt_GetByTimeRange mt a b ! k) = Some m \<and> md_timestamp m = ts ! k))"
proof -
  have "temporal_ok (mt_meta mt) (mt_temporal mt)" using assms by (simp add: mt_inv_def)
  then show ?thesis using mt_GetByTimeRange_correct by blast
qed

theorem mt_GetByTimeRange_exact_witness:
  "\<forall>fp. set (mt_GetByTimeRange (snd (mt_Put fp (\<lambda>x. x) (MemTable_new 1 64 False) 7 [5] (Metadata0\<lparr>md_timestamp := 9\<rparr>))) 1 10) = {7}"
proof
  fix fp
  let ?m = "snd (mt_Put fp (\<lambda>x. x) (MemTable_new 1 64 False) 7 [5] (Metadata0\<lparr>md_timestamp := 9\<rparr>))"
  have "mt_inv (\<lambda>x. x) ?m"
    using mt_Put_correct(2) [OF small_table_inv(1) _ _ prod.collapse [symmetric], of 7 "[5]"]
    by (simp add: sentinel_def small_table_inv)
  moreover have "mt_meta ?m = [7 \<mapsto> Metadata0\<lparr>md_timestamp := 9\<rparr>]"
    by (auto simp: mt_Put_def MemTable_new_def vv_dim_def has_meta_def Let_def split: prod.split)
  ultimately show "set (mt_GetByTimeRange ?m 1 10) = {7}"
    using mt_GetByTimeRange_exact [of "\<lambda>x. x" ?m 1 10] by auto
qed

fun mt_drain :: "ieee \<Rightarrow> memtable \<Rightarrow> nat \<Rightarrow> cursor \<Rightarrow> (VectorId \<times> VectorView option \<times> bool \<times> Metadata option) list" where
  "mt_drain fp mt 0 cu = []"
| "mt_drain fp mt (Suc n) cu = (case mt_Next fp mt cu of (None, cu) \<Rightarrow> [] | (Some x, cu) \<Rightarrow> x # mt_drain fp mt n cu)"

lemma mt_drain_iterate:
  assumes "cu_snap cu = fh_ForEach (mt_map mt)" "cu_idx cu \<le> length (cu_snap cu)" "length (cu_snap cu) - cu_idx cu < n"
  shows "mt_drain fp mt n cu = drop (cu_idx cu) (mt_IterateWithMetadata fp mt)"
  using assms
proof (induction n arbitrary: cu)
  case (Suc n)
  show ?case
  proof (cases "cu_idx cu < length (cu_snap cu)")
    case True
    let ?cu = "cu\<lparr>cu_idx := cu_idx cu + 1\<rparr>"
    have "mt_drain fp mt n ?cu = drop (cu_idx ?cu) (mt_IterateWithMetadata fp mt)"
      by (rule Suc.IH) (use Suc.prems True in auto)
    moreover have "cu_idx cu < length (mt_IterateWithMetadata fp mt)"
      using True Suc.prems(1) by (simp add: mt_IterateWithMetadata_def)
    then have "drop (cu_idx cu) (mt_IterateWithMetadata fp mt) =
        mt_IterateWithMetadata fp mt ! cu_idx cu # drop (cu_idx ?cu) (mt_IterateWithMetadata fp mt)"
      by (simp add: Cons_nth_drop_Suc)
    ultimately show ?thesis
      using True Suc.prems(1) by (auto simp: mt_Next_def mt_IterateWithMetadata_def split: prod.split option.split)
  next
    case False
    then show ?thesis using Suc.prems by (simp add: mt_Next_def mt_IterateWithMetadata_def)
  qed
qed simp

lemma map_of_map_keyed: "map_of (map (\<lambda>(i, q). (i, g i q)) xs) k = map_option (g k) (map_of xs k)"
  by (induction xs) auto

text \<open>Scans see exactly the table. Draining a cursor and \<open>IterateWithMetadata\<close> visit the
  same entries; no id is visited twice, and what they report for an id (the
  decoded vector and metadata, a tombstone, or nothing at all) is what the table
  stands for.\<close>

theorem mt_scan_exact:
  assumes inv: "mt_inv hash mt" and n: "fh_cap (mt_map mt) < n"
  shows "mt_drain fp mt n (mt_CreateCursor mt) = mt_IterateWithMetadata fp mt \<and>
    distinct (map fst (mt_IterateWithMetadata fp mt)) \<and>
    map_of (mt_IterateWithMetadata fp mt) i =
      map_option (\<lambda>x. case x of None \<Rightarrow> (None, True, None) | Some (v, m) \<Rightarrow> (v, False, m)) (mt_view fp mt i)"
proof -
  let ?g = "\<lambda>i q. case q of None \<Rightarrow> (None, True, None) | Some p \<Rightarrow> (entry_vec fp mt p, False, mt_meta mt i)"
  have it: "mt_IterateWithMetadata fp mt = map (\<lambda>(i, q). (i, ?g i q)) (fh_ForEach (mt_map mt))"
    by (auto simp: mt_IterateWithMetadata_def split: option.split)
  have len: "length (fh_ForEach (mt_map mt)) < n"
    using n mt_inv_flat [OF inv] length_filter_le [of _ "fh_slots (mt_map mt)"]
    by (auto simp: fh_ForEach_def flat_inv_def slots_ok_def intro: le_less_trans)
  have "mt_drain fp mt n (mt_CreateCursor mt) = mt_IterateWithMetadata fp mt"
    using mt_drain_iterate [of "mt_CreateCursor mt" mt n fp] len by (simp add: mt_CreateCursor_def)
  moreover have "map fst (mt_IterateWithMetadata fp mt) = map fst (fh_ForEach (mt_map mt))"
    by (simp add: it case_prod_unfold)
  moreover have "map_of (mt_IterateWithMetadata fp mt) i = map_option (?g i) (flat_map (mt_map mt) i)"
    unfolding it flat_map_def by (rule map_of_map_keyed)
  ultimately show ?thesis
    using distinct_ForEach [OF mt_inv_flat [OF inv]]
    by (auto simp: mt_view_def option.map_comp comp_def split: option.splits intro!: option.map_cong)
qed

theorem mt_scan_exact_witness:
  "\<forall>fp. map_of (mt_drain fp (snd (mt_Delete fp (\<lambda>x. x) (MemTable_new 1 64 False) 7)) 1000
       (mt_CreateCursor (snd (mt_Delete fp (\<lambda>x. x) (MemTable_new 1 64 False) 7)))) 7 = Some (None, True, None)"
proof
  fix fp
  let ?m = "snd (mt_Delete fp (\<lambda>x. x) (MemTable_new 1 64 False) 7)"
  note D = mt_Delete_correct [OF small_table_inv(1) _ prod.collapse [symmetric], where i = 7 and fp = fp and hash = "\<lambda>x. x"]
  have "mt_inv (\<lambda>x. x) ?m" "mt_view fp ?m 7 = Some None" using D(2,3) by (simp_all add: sentinel_def)
  moreover have "fh_cap (mt_map ?m) < 1000"
    by (simp add: mt_Delete_def MemTable_new_def fh_Put_def fh_new_def threshold_def RoundUpPow2_def PutInternal_def
        Let_def split: probe.split)
  ultimately show "map_of (mt_drain fp ?m 1000 (mt_CreateCursor ?m)) 7 = Some (None, True, None)"
    using mt_scan_exact [of "\<lambda>x. x" ?m 1000 fp 7] by simp
qed

end
