(* ===== verification/Wal.thy ===== *)
theory Wal
  imports Env Crc32c Memtable
begin

text \<open>
  The write-ahead log of \<open>src/storage/wal/wal.cc\<close>, at the level of file bytes: the
  segment files and their headers, record framing with CRC, optional encryption,
  rotation, replay into a memtable and reset.  AES-GCM (OpenSSL behind
  \<open>src/core/security/aes_gcm.cc\<close>) is a parameter.  The loops over segment numbers
  end when a file does not exist; they are partial functions whose value is
  \<open>None\<close> if they never do.  A dereference of a null \<open>impl_\<close> is the status
  \<open>NullImpl\<close>, which no code path returns.
\<close>

datatype FsyncPolicy = kNever | kAlways

record aes_gcm =
  aes_encrypt :: "byte list \<Rightarrow> byte list \<Rightarrow> byte list \<Rightarrow> status \<times> byte list \<times> byte list"
  aes_decrypt :: "byte list \<Rightarrow> byte list \<Rightarrow> byte list \<Rightarrow> byte list \<Rightarrow> status \<times> byte list"

record wal =
  wal_db_path :: string
  wal_shard_id :: u32
  wal_segment_bytes :: nat
  wal_fsync :: FsyncPolicy
  wal_gen :: nat
  wal_seq :: u64
  wal_file_off :: nat
  wal_bytes_in_seg :: nat
  wal_bytes_total :: nat
  wal_impl :: "wfile option"
  wal_enc :: bool
  wal_key :: "byte list"

definition NullImpl :: status where
  "NullImpl = Status kUnknown ''null impl_''"

subsection \<open>Record operations and layouts\<close>

definition kPut :: byte where "kPut = 1"
definition kDel :: byte where "kDel = 2"
definition kPutMeta :: byte where "kPutMeta = 3"
definition kRawKV :: byte where "kRawKV = 4"
definition kBatchStart :: byte where "kBatchStart = 5"
definition kBatchEnd :: byte where "kBatchEnd = 6"

definition kWalMagic :: "byte list" where
  "kWalMagic = bytes_of ''pomai.wal.v1''"

definition kWalVersion :: u32 where
  "kWalVersion = 1"

definition wal_header :: "byte list" where
  "wal_header = kWalMagic @ u32_bytes kWalVersion"

text \<open>The packed \<open>RecordPrefix\<close>: 21 bytes.\<close>

definition rp_bytes :: "u64 \<Rightarrow> byte \<Rightarrow> u64 \<Rightarrow> u32 \<Rightarrow> byte list" where
  "rp_bytes seq op i dim = u64_bytes seq @ [op] @ u64_bytes i @ u32_bytes dim"

definition rp_seq :: "byte list \<Rightarrow> u64" where "rp_seq p = bytes_u64 p"
definition rp_op :: "byte list \<Rightarrow> byte" where "rp_op p = p ! 8"
definition rp_id :: "byte list \<Rightarrow> u64" where "rp_id p = bytes_u64 (drop 9 p)"
definition rp_dim :: "byte list \<Rightarrow> u32" where "rp_dim p = bytes_u32 (drop 17 p)"

definition AppendString :: "string \<Rightarrow> byte list" where
  "AppendString s = (let len = word_of_nat (length s) :: u32 in u32_bytes len @ bytes_of (take (unat len) s))"

definition ReadString :: "byte list \<Rightarrow> nat \<Rightarrow> (string \<times> nat) option" where
  "ReadString base cursor =
     (if cursor + 4 > length base then None
      else let n = unat (bytes_u32 (drop cursor base)) in
        if cursor + 4 + n > length base then None
        else Some (string_of (take n (drop (cursor + 4) base)), cursor + 4 + n))"

definition MakeNonce :: "u32 \<Rightarrow> u64 \<Rightarrow> nat \<Rightarrow> byte list" where
  "MakeNonce shard seq gen = (let n = u32_bytes shard @ u64_bytes seq in n[11 := n ! 11 XOR word_of_nat gen])"

definition has_wal_meta :: "Metadata \<Rightarrow> bool" where
  "has_wal_meta meta \<longleftrightarrow> md_tenant meta \<noteq> '''' \<or> md_device_id meta \<noteq> '''' \<or> md_location_id meta \<noteq> '''' \<or>
     md_timestamp meta > 0 \<or> md_src_vid meta > 0"

definition meta_bytes :: "Metadata \<Rightarrow> byte list" where
  "meta_bytes meta = u64_bytes (md_src_vid meta) @ u64_bytes (md_timestamp meta) @ u64_bytes (md_lsn meta) @
     u64_bytes (md_lat meta) @ u64_bytes (md_lon meta) @ AppendString (md_tenant meta) @
     AppendString (md_device_id meta) @ AppendString (md_location_id meta) @ AppendString (md_text meta) @
     AppendString (md_payload meta)"

definition put_plain :: "u64 \<Rightarrow> VectorId \<Rightarrow> VectorView \<Rightarrow> Metadata \<Rightarrow> byte list" where
  "put_plain seq i vec meta =
     rp_bytes seq (if md_tenant meta = '''' then kPut else kPutMeta) i (vv_dim vec) @ float_bytes vec @
     (if has_wal_meta meta then meta_bytes meta else [])"

definition del_plain :: "u64 \<Rightarrow> VectorId \<Rightarrow> byte list" where
  "del_plain seq i = rp_bytes seq kDel i 0"

definition raw_plain :: "u64 \<Rightarrow> byte \<Rightarrow> byte list \<Rightarrow> byte list \<Rightarrow> byte list" where
  "raw_plain seq op key val =
     (let klen = word_of_nat (length key) :: u32; vlen = word_of_nat (length val) :: u32
      in rp_bytes seq op 0 0 @ u32_bytes klen @ u32_bytes vlen @ take (unat klen) key @ take (unat vlen) val)"

definition frame :: "byte list \<Rightarrow> byte list" where
  "frame body = u32_bytes (word_of_nat (length body + 4)) @ body @ u32_bytes (Crc32c body 0)"

subsection \<open>Opening, rotating, appending\<close>

definition SegmentPath :: "wal \<Rightarrow> nat \<Rightarrow> string" where
  "SegmentPath w g = wal_db_path w @ ''/wal_'' @ to_string (unat (wal_shard_id w)) @ ''_'' @ to_string g @ ''.log''"

definition HexVal :: "char \<Rightarrow> int" where
  "HexVal c = (let n = of_char c :: int in
     if 48 \<le> n \<and> n \<le> 57 then n - 48
     else if 97 \<le> n \<and> n \<le> 102 then 10 + (n - 97)
     else if 65 \<le> n \<and> n \<le> 70 then 10 + (n - 65)
     else -1)"

fun parse_hex :: "string \<Rightarrow> (byte list) option" where
  "parse_hex (a # b # cs) =
     (if HexVal a < 0 \<or> HexVal b < 0 then None
      else map_option (\<lambda>bs. word_of_int (HexVal a * 16 + HexVal b) # bs) (parse_hex cs))"
| "parse_hex _ = Some []"

definition ParseKeyHex :: "string \<Rightarrow> status + byte list" where
  "ParseKeyHex hex =
     (if length hex \<noteq> 64 then Inl (InvalidArgument ''AES-256 key must be 64 hex chars'')
      else case parse_hex hex of None \<Rightarrow> Inl (InvalidArgument ''invalid key hex'') | Some k \<Rightarrow> Inr k)"

text \<open>The constructor: a key that does not parse turns encryption off.\<close>

definition Wal_new :: "string \<Rightarrow> u32 \<Rightarrow> nat \<Rightarrow> FsyncPolicy \<Rightarrow> bool \<Rightarrow> string \<Rightarrow> wal" where
  "Wal_new path shard seg fs enc hex =
     (let key = (if enc then ParseKeyHex hex else Inl Ok) in
      \<lparr>wal_db_path = path, wal_shard_id = shard, wal_segment_bytes = seg, wal_fsync = fs,
       wal_gen = 0, wal_seq = 0, wal_file_off = 0, wal_bytes_in_seg = 0, wal_bytes_total = 0, wal_impl = None,
       wal_enc = (case key of Inr k \<Rightarrow> True | Inl _ \<Rightarrow> False), wal_key = (case key of Inr k \<Rightarrow> k | Inl _ \<Rightarrow> [])\<rparr>)"

partial_function (option) find_gen :: "posix_env \<Rightarrow> wal \<Rightarrow> nat \<Rightarrow> (nat \<times> posix_env) option" where
  "find_gen e w g = (case FileExists e (SegmentPath w g) of (st, e') \<Rightarrow>
     if st_ok st then find_gen e' w (g + 1) else Some (g, e'))"

fun check_headers :: "posix_env \<Rightarrow> wal \<Rightarrow> nat list \<Rightarrow> status \<times> posix_env" where
  "check_headers e w [] = (Ok, e)"
| "check_headers e w (g # gs) =
     (case NewRandomAccessFile e (SegmentPath w g) of (st, e) \<Rightarrow>
      if \<not> st_ok st then (st, e) else
      case Raf_Read e (SegmentPath w g) 0 16 of (st, hs, e) \<Rightarrow>
      if \<not> st_ok st then (st, e)
      else if length hs \<noteq> 16 then (Aborted ''wal header short'', e)
      else if take 12 hs \<noteq> kWalMagic \<or> bytes_u32 (drop 12 hs) \<noteq> kWalVersion
        then (Aborted ''wal compatibility check failed'', e)
      else check_headers e w gs)"

definition open_segment :: "posix_env \<Rightarrow> wal \<Rightarrow> status \<times> posix_env \<times> wal" where
  "open_segment e w =
     (case NewAppendableFile e (SegmentPath w (wal_gen w)) of
        (st, None, e) \<Rightarrow> (st, e, w\<lparr>wal_impl := None\<rparr>)
      | (st, Some f, e) \<Rightarrow>
          (case GetFileSize e (SegmentPath w (wal_gen w)) of (st, sz, e) \<Rightarrow>
           let sz = (if st_ok st then sz else 0) in
           if sz = 0 then
             (case Wf_Append e f wal_header of (st, e, f) \<Rightarrow>
              if \<not> st_ok st then (st, fst (snd (Wf_Close e f)), w\<lparr>wal_impl := None\<rparr>)
              else (Ok, e, w\<lparr>wal_impl := Some f, wal_file_off := 16, wal_bytes_in_seg := 16\<rparr>))
           else (Ok, e, w\<lparr>wal_impl := Some f, wal_file_off := sz, wal_bytes_in_seg := sz\<rparr>)))"

definition Wal_Open :: "posix_env \<Rightarrow> wal \<Rightarrow> (status \<times> posix_env \<times> wal) option" where
  "Wal_Open e w =
     (case CreateDirIfMissing e (wal_db_path w) of (st, e) \<Rightarrow>
      if \<not> st_ok st then Some (st, e, w) else
      case find_gen e w 0 of
        None \<Rightarrow> None
      | Some (g, e) \<Rightarrow>
          let w = w\<lparr>wal_gen := g\<rparr> in
          case check_headers e w [0..<g] of (st, e) \<Rightarrow>
          if \<not> st_ok st then Some (st, e, w) else Some (open_segment e w))"

definition RotateIfNeeded :: "posix_env \<Rightarrow> wal \<Rightarrow> nat \<Rightarrow> status \<times> posix_env \<times> wal" where
  "RotateIfNeeded e w add_bytes =
     (if wal_bytes_in_seg w + add_bytes \<le> wal_segment_bytes w then (Ok, e, w) else
      let (st_sync, st_close, e) =
            (case wal_impl w of
               None \<Rightarrow> (Ok, Ok, e)
             | Some f \<Rightarrow> (case Wf_Sync e f of (s1, e) \<Rightarrow> case Wf_Close e f of (s2, e, f) \<Rightarrow> (s1, s2, e)));
          w = w\<lparr>wal_impl := None\<rparr> in
      if \<not> st_ok st_sync then (st_sync, e, w)
      else if \<not> st_ok st_close then (st_close, e, w)
      else
        let w = w\<lparr>wal_gen := wal_gen w + 1, wal_file_off := 0, wal_bytes_in_seg := 0\<rparr> in
        case NewAppendableFile e (SegmentPath w (wal_gen w)) of
          (st, None, e) \<Rightarrow> (st, e, w)
        | (st, Some f, e) \<Rightarrow>
            (case Wf_Append e f wal_header of (st, e, f) \<Rightarrow>
             if \<not> st_ok st then (st, e, w\<lparr>wal_impl := Some f\<rparr>)
             else (Ok, e, w\<lparr>wal_impl := Some f, wal_file_off := 16, wal_bytes_in_seg := 16\<rparr>)))"

text \<open>The body of a frame: the plain record, or nonce, ciphertext and tag.\<close>

definition seal :: "aes_gcm \<Rightarrow> wal \<Rightarrow> u64 \<Rightarrow> byte list \<Rightarrow> status \<times> byte list" where
  "seal aes w seq plain =
     (if wal_enc w then
        let nonce = MakeNonce (wal_shard_id w) seq (wal_gen w) in
        case aes_encrypt aes (wal_key w) nonce plain of (st, cipher, tag) \<Rightarrow>
        if \<not> st_ok st then (st, []) else (Ok, nonce @ cipher @ tag)
      else (Ok, plain))"

definition write_iovecs :: "posix_env \<Rightarrow> wal \<Rightarrow> nat \<Rightarrow> byte list list \<Rightarrow> status \<times> posix_env \<times> wal" where
  "write_iovecs e w tot iovecs =
     (case wal_impl w of
        None \<Rightarrow> (NullImpl, e, w)
      | Some f \<Rightarrow>
          (case AppendIovecs Wf_Append e f iovecs of (st, e, f) \<Rightarrow>
           let w = w\<lparr>wal_impl := Some f\<rparr> in
           if \<not> st_ok st then (st, e, w)
           else
             let w = w\<lparr>wal_file_off := wal_file_off w + tot, wal_bytes_in_seg := wal_bytes_in_seg w + tot,
                       wal_bytes_total := wal_bytes_total w + tot\<rparr> in
             if wal_fsync w = kAlways then (case Wf_Sync e f of (st, e) \<Rightarrow> (st, e, w)) else (Ok, e, w)))"

text \<open>The part that \<open>AppendPut\<close>, \<open>AppendDelete\<close> and \<open>AppendRawKV\<close> share, from the
  plain record on.\<close>

definition append_record :: "aes_gcm \<Rightarrow> posix_env \<Rightarrow> wal \<Rightarrow> u64 \<Rightarrow> byte list \<Rightarrow> status \<times> posix_env \<times> wal" where
  "append_record aes e w seq plain =
     (case seal aes w seq plain of (st, body) \<Rightarrow>
      if \<not> st_ok st then (st, e, w) else
      let crc = Crc32c body 0;
          len = word_of_nat (length body + 4) :: u32;
          total = 4 + unat len in
      case RotateIfNeeded e w total of (st, e, w) \<Rightarrow>
      if \<not> st_ok st then (st, e, w)
      else write_iovecs e w total [u32_bytes len, body, u32_bytes crc])"

definition Wal_AppendPut :: "aes_gcm \<Rightarrow> posix_env \<Rightarrow> wal \<Rightarrow> VectorId \<Rightarrow> VectorView \<Rightarrow> Metadata \<Rightarrow> status \<times> posix_env \<times> wal" where
  "Wal_AppendPut aes e w i vec meta =
     (let w = w\<lparr>wal_seq := wal_seq w + 1\<rparr>
      in append_record aes e w (wal_seq w) (put_plain (wal_seq w) i vec meta))"

definition Wal_AppendPut0 :: "aes_gcm \<Rightarrow> posix_env \<Rightarrow> wal \<Rightarrow> VectorId \<Rightarrow> VectorView \<Rightarrow> status \<times> posix_env \<times> wal" where
  "Wal_AppendPut0 aes e w i vec = Wal_AppendPut aes e w i vec Metadata0"

definition Wal_AppendDelete :: "aes_gcm \<Rightarrow> posix_env \<Rightarrow> wal \<Rightarrow> VectorId \<Rightarrow> status \<times> posix_env \<times> wal" where
  "Wal_AppendDelete aes e w i =
     (let w = w\<lparr>wal_seq := wal_seq w + 1\<rparr>
      in append_record aes e w (wal_seq w) (del_plain (wal_seq w) i))"

definition Wal_AppendRawKV :: "aes_gcm \<Rightarrow> posix_env \<Rightarrow> wal \<Rightarrow> byte \<Rightarrow> byte list \<Rightarrow> byte list \<Rightarrow> status \<times> posix_env \<times> wal" where
  "Wal_AppendRawKV aes e w op key val =
     (let w = w\<lparr>wal_seq := wal_seq w + 1\<rparr>
      in append_record aes e w (wal_seq w) (raw_plain (wal_seq w) op key val))"

definition Wal_BeginBatch :: "aes_gcm \<Rightarrow> posix_env \<Rightarrow> wal \<Rightarrow> status \<times> posix_env \<times> wal" where
  "Wal_BeginBatch aes e w = Wal_AppendRawKV aes e w kBatchStart [] []"

definition Wal_EndBatch :: "aes_gcm \<Rightarrow> posix_env \<Rightarrow> wal \<Rightarrow> status \<times> posix_env \<times> wal" where
  "Wal_EndBatch aes e w = Wal_AppendRawKV aes e w kBatchEnd [] []"

text \<open>The encrypted batch is a loop of \<open>AppendPut\<close>; the plain one checksums prefix and
  vector in two steps and writes all frames with one call.\<close>

fun put_each :: "aes_gcm \<Rightarrow> posix_env \<Rightarrow> wal \<Rightarrow> (VectorId \<times> VectorView) list \<Rightarrow> status \<times> posix_env \<times> wal" where
  "put_each aes e w [] = (Ok, e, w)"
| "put_each aes e w ((i, v) # xs) =
     (case Wal_AppendPut0 aes e w i v of (st, e, w) \<Rightarrow> if \<not> st_ok st then (st, e, w) else put_each aes e w xs)"

fun batch_iovecs :: "u64 \<Rightarrow> (VectorId \<times> VectorView) list \<Rightarrow> byte list list" where
  "batch_iovecs seq [] = []"
| "batch_iovecs seq ((i, v) # xs) =
     (let seq = seq + 1;
          rp = rp_bytes seq kPut i (vv_dim v);
          payload = float_bytes v;
          len = word_of_nat (21 + length payload + 4) :: u32;
          crc = Crc32c payload (Crc32c rp 0)
      in u32_bytes len # rp # payload # u32_bytes crc # batch_iovecs seq xs)"

definition Wal_AppendBatch :: "aes_gcm \<Rightarrow> posix_env \<Rightarrow> wal \<Rightarrow> VectorId list \<Rightarrow> VectorView list \<Rightarrow> status \<times> posix_env \<times> wal" where
  "Wal_AppendBatch aes e w ids vectors =
     (if length ids \<noteq> length vectors then (InvalidArgument ''ids and vectors size mismatch'', e, w)
      else if ids = [] then (Ok, e, w)
      else if wal_enc w then put_each aes e w (zip ids vectors)
      else
        let total = sum_list (map (\<lambda>v. 4 + 21 + length (float_bytes v) + 4) vectors) in
        case RotateIfNeeded e w total of (st, e, w) \<Rightarrow>
        if \<not> st_ok st then (st, e, w)
        else
          let iovecs = batch_iovecs (wal_seq w) (zip ids vectors)
          in write_iovecs e (w\<lparr>wal_seq := wal_seq w + word_of_nat (length ids)\<rparr>) total iovecs)"

definition Wal_Flush :: "posix_env \<Rightarrow> wal \<Rightarrow> status \<times> posix_env" where
  "Wal_Flush e w =
     (case wal_impl w of
        None \<Rightarrow> (Ok, e)
      | Some f \<Rightarrow> if wal_fsync w = kNever then (Ok, e) else Wf_Sync e f)"

subsection \<open>Replay\<close>

definition parse_meta :: "byte list \<Rightarrow> status + Metadata" where
  "parse_meta mb =
     (if length mb \<ge> 40 then
        (case ReadString mb 40 of None \<Rightarrow> Inl (Corruption ''wal putmeta decode failed'') | Some (tenant, c) \<Rightarrow>
         case ReadString mb c of None \<Rightarrow> Inl (Corruption ''wal putmeta decode failed'') | Some (device, c) \<Rightarrow>
         case ReadString mb c of None \<Rightarrow> Inl (Corruption ''wal putmeta decode failed'') | Some (location, c) \<Rightarrow>
         case ReadString mb c of None \<Rightarrow> Inl (Corruption ''wal putmeta decode failed'') | Some (tx, c) \<Rightarrow>
         case ReadString mb c of None \<Rightarrow> Inl (Corruption ''wal putmeta decode failed'') | Some (payload, c) \<Rightarrow>
         Inr \<lparr>md_tenant = tenant, md_device_id = device, md_location_id = location,
              md_src_vid = bytes_u64 mb, md_timestamp = bytes_u64 (drop 8 mb), md_lsn = bytes_u64 (drop 16 mb),
              md_text = tx, md_payload = payload, md_lat = bytes_u64 (drop 24 mb), md_lon = bytes_u64 (drop 32 mb)\<rparr>)
      else
        (case ReadString mb 0 of
           None \<Rightarrow> Inl (Corruption ''wal legacy putmeta decode failed'')
         | Some (tenant, c) \<Rightarrow> Inr (Metadata0\<lparr>md_tenant := tenant\<rparr>)))"

definition note_seq :: "wal \<Rightarrow> u64 \<Rightarrow> wal" where
  "note_seq w s = (if s > wal_seq w then w\<lparr>wal_seq := s\<rparr> else w)"

text \<open>The dispatch on the record, once the frame is decrypted. \<open>flen\<close> is the length field
  of the frame; the result's status is not ok where the source returns.\<close>

definition replay_payload :: "ieee \<Rightarrow> (u64 \<Rightarrow> u64) \<Rightarrow> wal \<Rightarrow> nat \<Rightarrow> byte list \<Rightarrow> memtable \<Rightarrow> status \<times> wal \<times> memtable" where
  "replay_payload fp hash w flen p mem =
     (if length p < 21 then (Corruption ''wal missing record prefix'', w, mem)
      else if rp_op p = kPut then
        (let vb = unat (rp_dim p) * 4 in
         if \<not> wal_enc w \<and> 21 + vb + 4 \<noteq> flen then (Corruption ''wal put length mismatch'', w, mem)
         else if wal_enc w \<and> 21 + vb \<noteq> length p then (Corruption ''wal put length mismatch'', w, mem)
         else case mt_Put fp hash mem (rp_id p) (bytes_floats (unat (rp_dim p)) (drop 21 p))
                     (Metadata0\<lparr>md_lsn := rp_seq p\<rparr>) of
           (st, mem) \<Rightarrow> if \<not> st_ok st then (st, w, mem) else (Ok, note_seq w (rp_seq p), mem))
      else if rp_op p = kPutMeta then
        (let vb = unat (rp_dim p) * 4 in
         if (\<not> wal_enc w \<and> flen < 21 + vb + 4 + 4) \<or> (wal_enc w \<and> length p < 21 + vb + 4)
         then (Corruption ''wal putmeta too short'', w, mem)
         else case parse_meta (drop (21 + vb) p) of
           Inl st \<Rightarrow> (st, w, mem)
         | Inr meta \<Rightarrow>
             (case mt_Put fp hash mem (rp_id p) (bytes_floats (unat (rp_dim p)) (drop 21 p))
                     (meta\<lparr>md_lsn := rp_seq p\<rparr>) of
                (st, mem) \<Rightarrow> if \<not> st_ok st then (st, w, mem) else (Ok, note_seq w (rp_seq p), mem)))
      else if rp_op p = kDel then
        (if (\<not> wal_enc w \<and> flen \<noteq> 21 + 4) \<or> (wal_enc w \<and> length p \<noteq> 21)
         then (Corruption ''wal del length mismatch'', w, mem)
         else case mt_Delete fp hash mem (rp_id p) of
           (st, mem) \<Rightarrow> if \<not> st_ok st then (st, w, mem) else (Ok, note_seq w (rp_seq p), mem))
      else if rp_op p = kRawKV \<or> rp_op p = kBatchStart \<or> rp_op p = kBatchEnd
        then (Ok, note_seq w (rp_seq p), mem)
      else (Corruption ''wal unknown op'', w, mem))"

text \<open>Undoing \<open>seal\<close>: the payload of a frame body without its checksum.\<close>

definition unseal :: "aes_gcm \<Rightarrow> wal \<Rightarrow> byte list \<Rightarrow> status \<times> byte list" where
  "unseal aes w b =
     (if wal_enc w then
        (if length b < 12 + 16 then (Corruption ''wal encrypted frame too small'', [])
         else let clen = length b - 12 - 16 in
           aes_decrypt aes (wal_key w) (take 12 b) (take clen (drop 12 b)) (take 16 (drop (12 + clen) b)))
      else (Ok, b))"

definition replay_frame :: "ieee \<Rightarrow> (u64 \<Rightarrow> u64) \<Rightarrow> aes_gcm \<Rightarrow> wal \<Rightarrow> byte list \<Rightarrow> memtable \<Rightarrow> status \<times> wal \<times> memtable" where
  "replay_frame fp hash aes w body mem =
     (let len = length body in
      if len < 21 + 4 then (Corruption ''wal frame too small'', w, mem)
      else
        let b = take (len - 4) body in
        if bytes_u32 (drop (len - 4) body) \<noteq> Crc32c b 0 then (Corruption ''wal crc mismatch'', w, mem)
        else case unseal aes w b of (st, p) \<Rightarrow>
          if \<not> st_ok st then (st, w, mem) else replay_payload fp hash w len p mem)"

text \<open>The \<open>while\<close> loop over the frames of one segment; leaving it by \<open>break\<close> or by its
  condition goes on with the next segment. \<open>ReplayInto\<close> and \<open>ReplayGraphInto\<close> have the
  same loops around different frame steps.\<close>

type_synonym 'm frame_step = "wal \<Rightarrow> byte list \<Rightarrow> 'm \<Rightarrow> status \<times> wal \<times> 'm"

function replay_loop :: "'m frame_step \<Rightarrow> posix_env \<Rightarrow> wal \<Rightarrow> string \<Rightarrow> nat \<Rightarrow> nat \<Rightarrow> 'm
    \<Rightarrow> status \<times> posix_env \<times> wal \<times> 'm" where
  "replay_loop step e w path fsize off mem =
     (if off + 4 \<le> fsize then
        case Raf_Read e path off 4 of (st, hs, e1) \<Rightarrow>
        if \<not> st_ok st then (st, e1, w, mem)
        else if length hs \<noteq> 4 then (Ok, e1, w, mem)
        else
          let len = unat (bytes_u32 hs) in
          if off + 4 + len > fsize then (Ok, e1, w, mem)
          else case Raf_Read e1 path (off + 4) len of (st, body, e2) \<Rightarrow>
            if \<not> st_ok st then (st, e2, w, mem)
            else if length body \<noteq> len then (Ok, e2, w, mem)
            else case step w body mem of (st, w2, mem2) \<Rightarrow>
              if \<not> st_ok st then (st, e2, w2, mem2)
              else replay_loop step e2 w2 path fsize (off + 4 + len) mem2
      else (Ok, e, w, mem))"
  by pat_completeness auto
termination
  by (relation "measure (\<lambda>(step, e, w, path, fsize, off, mem). fsize - off)") auto

declare replay_loop.simps [simp del]

definition segment_start :: "posix_env \<Rightarrow> string \<Rightarrow> nat \<Rightarrow> status \<times> nat \<times> posix_env" where
  "segment_start e path fsize =
     (if fsize \<ge> 16 then
        (case Raf_Read e path 0 16 of (st, hs, e) \<Rightarrow>
         if \<not> st_ok st then (st, 0, e)
         else if length hs \<noteq> 16 then (Corruption ''wal short file header'', 0, e)
         else if take 12 hs = kWalMagic then
           (if bytes_u32 (drop 12 hs) \<noteq> kWalVersion then (Aborted ''wal version mismatch'', 0, e) else (Ok, 16, e))
         else (Ok, 0, e))
      else (Ok, 0, e))"

definition replay_segment :: "'m frame_step \<Rightarrow> posix_env \<Rightarrow> wal \<Rightarrow> nat \<Rightarrow> 'm \<Rightarrow> status \<times> posix_env \<times> wal \<times> 'm" where
  "replay_segment step e w g mem =
     (case NewRandomAccessFile e (SegmentPath w g) of (st, e) \<Rightarrow>
      if \<not> st_ok st then (st, e, w, mem) else
      case GetFileSize e (SegmentPath w g) of (st, fsize, e) \<Rightarrow>
      if \<not> st_ok st then (IOError ''wal GetFileSize failed'', e, w, mem) else
      case segment_start e (SegmentPath w g) fsize of (st, off, e) \<Rightarrow>
      if \<not> st_ok st then (st, e, w, mem)
      else replay_loop step e w (SegmentPath w g) fsize off mem)"

partial_function (option) replay_from :: "'m frame_step \<Rightarrow> posix_env \<Rightarrow> wal \<Rightarrow> nat \<Rightarrow> 'm
    \<Rightarrow> (status \<times> posix_env \<times> wal \<times> 'm) option" where
  "replay_from step e w g mem =
     (case FileExists e (SegmentPath w g) of (st, e1) \<Rightarrow>
      if \<not> st_ok st then Some (Ok, e1, w, mem)
      else case replay_segment step e1 w g mem of (st, e2, w2, mem2) \<Rightarrow>
        if \<not> st_ok st then Some (st, e2, w2, mem2)
        else replay_from step e2 w2 (g + 1) mem2)"

definition Wal_ReplayInto :: "ieee \<Rightarrow> (u64 \<Rightarrow> u64) \<Rightarrow> aes_gcm \<Rightarrow> posix_env \<Rightarrow> wal \<Rightarrow> memtable
    \<Rightarrow> (status \<times> posix_env \<times> wal \<times> memtable) option" where
  "Wal_ReplayInto fp hash aes e w mem = replay_from (replay_frame fp hash aes) e w 0 mem"

partial_function (option) delete_segments :: "posix_env \<Rightarrow> wal \<Rightarrow> nat \<Rightarrow> posix_env option" where
  "delete_segments e w g =
     (case FileExists e (SegmentPath w g) of (st, e1) \<Rightarrow>
      if \<not> st_ok st then Some e1
      else delete_segments (snd (DeleteFile e1 (SegmentPath w g))) w (g + 1))"

definition Wal_Reset :: "posix_env \<Rightarrow> wal \<Rightarrow> (status \<times> posix_env \<times> wal) option" where
  "Wal_Reset e w =
     (let e = (case wal_impl w of None \<Rightarrow> e | Some f \<Rightarrow> fst (snd (Wf_Close e f))) in
      case delete_segments e w 0 of
        None \<Rightarrow> None
      | Some e \<Rightarrow> Wal_Open e (w\<lparr>wal_impl := None, wal_gen := 0, wal_seq := 0, wal_file_off := 0,
                                 wal_bytes_in_seg := 0, wal_bytes_total := 0\<rparr>))"

end
