(* ===== verification/Wal_Log.thy ===== *)
theory Wal_Log
  imports Wal
begin

text \<open>
  What the write-ahead log guarantees: every record kind decodes to what was
  encoded, an append adds one frame to the log whatever rotation happens, replay
  applies exactly the logged records in order, a truncated tail loses only the
  records it cuts, and damage inside a frame is reported.
\<close>

subsection \<open>Layouts decode\<close>

lemma length_rp_bytes [simp]: "length (rp_bytes s op i d) = 21"
  by (simp add: rp_bytes_def)

lemma rp_fields [simp]:
  "rp_seq (rp_bytes s op i d @ bs) = s" "rp_op (rp_bytes s op i d @ bs) = op"
  "rp_id (rp_bytes s op i d @ bs) = i" "rp_dim (rp_bytes s op i d @ bs) = d"
  by (simp_all add: rp_seq_def rp_op_def rp_id_def rp_dim_def rp_bytes_def nth_append bytes_u64_u64 bytes_u32_u32)

lemma rp_fields' [simp]:
  "rp_seq (rp_bytes s op i d) = s" "rp_op (rp_bytes s op i d) = op"
  "rp_id (rp_bytes s op i d) = i" "rp_dim (rp_bytes s op i d) = d"
  using rp_fields [of s op i d "[]"] by simp_all

lemma unat_u32_of_nat: "n < 2 ^ 32 \<Longrightarrow> unat (word_of_nat n :: u32) = n"
  by (simp add: unat_of_nat)

lemma length_AppendString: "length s < 2 ^ 32 \<Longrightarrow> length (AppendString s) = 4 + length s"
  by (simp add: AppendString_def Let_def unat_u32_of_nat)

lemma ReadString_AppendString:
  assumes "length s < 2 ^ 32" "bs = pre @ AppendString s @ post"
  shows "ReadString bs (length pre) = Some (s, length (pre @ AppendString s))"
  using assms by (simp add: ReadString_def AppendString_def Let_def unat_u32_of_nat bytes_u32_u32)

definition meta_small :: "Metadata \<Rightarrow> bool" where
  "meta_small m \<longleftrightarrow> length (md_tenant m) < 2 ^ 32 \<and> length (md_device_id m) < 2 ^ 32 \<and>
     length (md_location_id m) < 2 ^ 32 \<and> length (md_text m) < 2 ^ 32 \<and> length (md_payload m) < 2 ^ 32"

lemma parse_meta_meta_bytes:
  assumes "meta_small m"
  shows "parse_meta (meta_bytes m) = Inr m"
proof -
  let ?h = "u64_bytes (md_src_vid m) @ u64_bytes (md_timestamp m) @ u64_bytes (md_lsn m) @ u64_bytes (md_lat m) @ u64_bytes (md_lon m)"
  let ?t = "AppendString (md_tenant m)" and ?d = "AppendString (md_device_id m)"
    and ?l = "AppendString (md_location_id m)" and ?x = "AppendString (md_text m)" and ?p = "AppendString (md_payload m)"
  have b: "meta_bytes m = ?h @ ?t @ ?d @ ?l @ ?x @ ?p" by (simp add: meta_bytes_def)
  have sm: "length (md_tenant m) < 2 ^ 32" "length (md_device_id m) < 2 ^ 32" "length (md_location_id m) < 2 ^ 32"
    "length (md_text m) < 2 ^ 32" "length (md_payload m) < 2 ^ 32"
    using assms by (simp_all only: meta_small_def)
  define c1 c2 c3 c4 c5 where "c1 = length (?h @ ?t)" and "c2 = length ((?h @ ?t) @ ?d)"
    and "c3 = length (((?h @ ?t) @ ?d) @ ?l)" and "c4 = length ((((?h @ ?t) @ ?d) @ ?l) @ ?x)"
    and "c5 = length (((((?h @ ?t) @ ?d) @ ?l) @ ?x) @ ?p)"
  have "length ?h = 40" by simp
  then have r1: "ReadString (meta_bytes m) 40 = Some (md_tenant m, c1)"
    using ReadString_AppendString [OF sm(1) b] by (simp only: c1_def)
  have r2: "ReadString (meta_bytes m) c1 = Some (md_device_id m, c2)"
    unfolding c1_def c2_def by (rule ReadString_AppendString [OF sm(2), of _ _ "?l @ ?x @ ?p"]) (simp add: b)
  have r3: "ReadString (meta_bytes m) c2 = Some (md_location_id m, c3)"
    unfolding c2_def c3_def by (rule ReadString_AppendString [OF sm(3), of _ _ "?x @ ?p"]) (simp add: b)
  have r4: "ReadString (meta_bytes m) c3 = Some (md_text m, c4)"
    unfolding c3_def c4_def by (rule ReadString_AppendString [OF sm(4), of _ _ "?p"]) (simp add: b)
  have r5: "ReadString (meta_bytes m) c4 = Some (md_payload m, c5)"
    unfolding c4_def c5_def by (rule ReadString_AppendString [OF sm(5), of _ _ "[]"]) (simp add: b)
  have len: "40 \<le> length (meta_bytes m)" by (simp add: b)
  have fl: "bytes_u64 (meta_bytes m) = md_src_vid m" "bytes_u64 (drop 8 (meta_bytes m)) = md_timestamp m"
    "bytes_u64 (drop 16 (meta_bytes m)) = md_lsn m" "bytes_u64 (drop 24 (meta_bytes m)) = md_lat m"
    "bytes_u64 (drop 32 (meta_bytes m)) = md_lon m"
    by (simp_all add: meta_bytes_def bytes_u64_u64)
  show ?thesis
    unfolding parse_meta_def using len by (simp add: r1 r2 r3 r4 r5 fl)
qed

subsection \<open>Records\<close>

datatype lrec = LPut VectorId VectorView Metadata | LDel VectorId | LRaw byte "byte list" "byte list"

fun plain_of :: "u64 \<Rightarrow> lrec \<Rightarrow> byte list" where
  "plain_of s (LPut i v m) = put_plain s i v m"
| "plain_of s (LDel i) = del_plain s i"
| "plain_of s (LRaw op k v) = raw_plain s op k v"

text \<open>The records the log can represent: fields within 32-bit lengths, and for a vector
  either a tenant or no metadata worth logging.\<close>

fun good_rec :: "lrec \<Rightarrow> bool" where
  "good_rec (LPut i v m) \<longleftrightarrow> length v < 2 ^ 32 \<and> meta_small m \<and> (md_tenant m \<noteq> '''' \<or> \<not> has_wal_meta m)"
| "good_rec (LDel i) \<longleftrightarrow> True"
| "good_rec (LRaw op k v) \<longleftrightarrow> op \<in> {kRawKV, kBatchStart, kBatchEnd}"

text \<open>What replaying a record means for the memtable: the sequence number becomes the LSN.\<close>

fun apply_rec :: "ieee \<Rightarrow> (u64 \<Rightarrow> u64) \<Rightarrow> u64 \<Rightarrow> lrec \<Rightarrow> memtable \<Rightarrow> status \<times> memtable" where
  "apply_rec fp hash s (LPut i v m) mem =
     mt_Put fp hash mem i v ((if md_tenant m = '''' then Metadata0 else m)\<lparr>md_lsn := s\<rparr>)"
| "apply_rec fp hash s (LDel i) mem = mt_Delete fp hash mem i"
| "apply_rec fp hash s (LRaw op k v) mem = (Ok, mem)"

lemma op_distinct [simp]:
  "kPut \<noteq> kPutMeta" "kPut \<noteq> kDel" "kPutMeta \<noteq> kDel" "kPut \<noteq> kRawKV" "kPut \<noteq> kBatchStart" "kPut \<noteq> kBatchEnd"
  "kPutMeta \<noteq> kRawKV" "kPutMeta \<noteq> kBatchStart" "kPutMeta \<noteq> kBatchEnd"
  "kDel \<noteq> kRawKV" "kDel \<noteq> kBatchStart" "kDel \<noteq> kBatchEnd"
  "kPutMeta \<noteq> kPut" "kDel \<noteq> kPut" "kDel \<noteq> kPutMeta" "kRawKV \<noteq> kPut" "kBatchStart \<noteq> kPut" "kBatchEnd \<noteq> kPut"
  "kRawKV \<noteq> kPutMeta" "kBatchStart \<noteq> kPutMeta" "kBatchEnd \<noteq> kPutMeta"
  "kRawKV \<noteq> kDel" "kBatchStart \<noteq> kDel" "kBatchEnd \<noteq> kDel"
  by (simp_all add: kPut_def kPutMeta_def kDel_def kRawKV_def kBatchStart_def kBatchEnd_def)

lemma length_plain_of: "21 \<le> length (plain_of s r)"
  by (cases r) (simp_all add: put_plain_def del_plain_def raw_plain_def Let_def)

lemma rp_seq_plain_of [simp]: "rp_seq (plain_of s r) = s"
  by (cases r) (simp_all add: put_plain_def del_plain_def raw_plain_def Let_def)

lemma length_meta_bytes: "40 \<le> length (meta_bytes m)"
  by (simp add: meta_bytes_def)

lemma replay_payload_plain:
  assumes good: "good_rec r" and fl: "\<not> wal_enc w \<longrightarrow> flen = length (plain_of s r) + 4"
  shows "replay_payload fp hash w flen (plain_of s r) mem =
    (case apply_rec fp hash s r mem of (st, mem') \<Rightarrow>
       if \<not> st_ok st then (st, w, mem') else (Ok, note_seq w s, mem'))"
proof (cases r)
  case (LPut i v m)
  have v: "unat (vv_dim v) = length v" using good LPut by (simp add: unat_vv_dim)
  let ?m = "(if md_tenant m = [] then Metadata0 else m)\<lparr>md_lsn := s\<rparr>"
  obtain st mem' where put: "mt_Put fp hash mem i v ?m = (st, mem')" by (cases "mt_Put fp hash mem i v ?m")
  show ?thesis
  proof (cases "md_tenant m = []")
    case True
    then have p: "plain_of s r = rp_bytes s kPut i (vv_dim v) @ float_bytes v"
      using good LPut by (simp add: put_plain_def)
    have f: "\<not> wal_enc w \<longrightarrow> flen = 21 + length v * 4 + 4" using fl by (simp add: p)
    show ?thesis
      unfolding p replay_payload_def using f True LPut put
      by (cases "wal_enc w") (simp_all add: v bytes_floats_float_bytes' Let_def)
  next
    case False
    then have p: "plain_of s r = rp_bytes s kPutMeta i (vv_dim v) @ float_bytes v @ meta_bytes m"
      using LPut by (simp add: put_plain_def has_wal_meta_def)
    have pm: "parse_meta (meta_bytes m) = Inr m" using good LPut by (simp add: parse_meta_meta_bytes)
    have f: "\<not> wal_enc w \<longrightarrow> \<not> flen < 21 + length v * 4 + 4 + 4" using fl length_meta_bytes [of m] by (simp add: p)
    have d: "drop (21 + length v * 4) (rp_bytes s kPutMeta i (vv_dim v) @ float_bytes v @ meta_bytes m) = meta_bytes m"
      by simp
    show ?thesis
      unfolding p replay_payload_def using f False LPut put length_meta_bytes [of m]
      by (cases "wal_enc w") (simp_all add: v d bytes_floats_float_bytes pm Let_def)
  qed
next
  case (LDel i)
  then show ?thesis
    using fl by (cases "wal_enc w") (simp_all add: replay_payload_def del_plain_def split: prod.split)
next
  case (LRaw op k v)
  then have "op = kRawKV \<or> op = kBatchStart \<or> op = kBatchEnd" using good by simp
  then show ?thesis
    using LRaw by (elim disjE) (simp_all add: replay_payload_def raw_plain_def Let_def)
qed

subsection \<open>Frames and one segment\<close>

lemma length_frame: "length (frame b) = length b + 8"
  by (simp add: frame_def)

text \<open>A frame body that fits the length field and decrypts to a record.\<close>

definition body_ok :: "aes_gcm \<Rightarrow> wal \<Rightarrow> byte list \<Rightarrow> u64 \<times> lrec \<Rightarrow> bool" where
  "body_ok aes w b sr \<longleftrightarrow> length b + 4 < 2 ^ 32 \<and> 21 \<le> length b \<and>
     unseal aes w b = (Ok, plain_of (fst sr) (snd sr)) \<and> good_rec (snd sr)"

fun replay_recs :: "ieee \<Rightarrow> (u64 \<Rightarrow> u64) \<Rightarrow> wal \<Rightarrow> (u64 \<times> lrec) list \<Rightarrow> memtable \<Rightarrow> status \<times> wal \<times> memtable" where
  "replay_recs fp hash w [] mem = (Ok, w, mem)"
| "replay_recs fp hash w ((s, r) # rs) mem =
     (case apply_rec fp hash s r mem of (st, mem) \<Rightarrow>
      if \<not> st_ok st then (st, w, mem) else replay_recs fp hash (note_seq w s) rs mem)"

lemma note_seq_fields [simp]:
  "wal_enc (note_seq w s) = wal_enc w" "wal_key (note_seq w s) = wal_key w"
  "SegmentPath (note_seq w s) g = SegmentPath w g" "unseal aes (note_seq w s) b = unseal aes w b"
  "body_ok aes (note_seq w s) = body_ok aes w"
  by (simp_all add: note_seq_def SegmentPath_def unseal_def body_ok_def fun_eq_iff)

lemma replay_frame_body:
  assumes "body_ok aes w b (s, r)"
  shows "replay_frame fp hash aes w (b @ u32_bytes (Crc32c b 0)) mem =
    (case apply_rec fp hash s r mem of (st, mem') \<Rightarrow>
       if \<not> st_ok st then (st, w, mem') else (Ok, note_seq w s, mem'))"
proof -
  have u: "unseal aes w b = (Ok, plain_of s r)" and g: "good_rec r" and l: "21 \<le> length b"
    using assms by (simp_all add: body_ok_def)
  have f: "\<not> wal_enc w \<longrightarrow> length b + 4 = length (plain_of s r) + 4"
    using u by (simp add: unseal_def split: if_splits)
  show ?thesis
    using replay_payload_plain [OF g f, of fp hash mem] u l
    by (simp add: replay_frame_def Let_def bytes_u32_u32')
qed

text \<open>An incomplete frame: too short for its length field, or for what the field says.\<close>

definition torn :: "byte list \<Rightarrow> bool" where
  "torn t \<longleftrightarrow> length t < 4 \<or> length t < 4 + unat (bytes_u32 t)"

lemma replay_loop_step:
  assumes c: "calls_ok e" and fil: "ev_files e path = Some (pre @ frame b @ rest)"
    and b: "length b + 4 < 2 ^ 32" and sz: "fsize = length (pre @ frame b @ rest)" and off: "off = length pre"
  shows "replay_loop step e w path fsize off mem =
    (case step w (b @ u32_bytes (Crc32c b 0)) mem of (st, w2, mem2) \<Rightarrow>
       if \<not> st_ok st then (st, e\<lparr>ev_tick := ev_tick e + 2\<rparr>, w2, mem2)
       else replay_loop step (e\<lparr>ev_tick := ev_tick e + 2\<rparr>) w2 path fsize (off + length (frame b)) mem2)"
proof -
  have hd: "take 4 (drop off (pre @ frame b @ rest)) = u32_bytes (word_of_nat (length b + 4))"
    using off by (simp add: frame_def)
  have bd: "take (length b + 4) (drop (off + 4) (pre @ frame b @ rest)) = b @ u32_bytes (Crc32c b 0)"
    using off by (simp add: frame_def)
  define L where "L = (word_of_nat (length b + 4) :: u32)"
  define body where "body = b @ u32_bytes (Crc32c b 0)"
  define e1 where "e1 = e\<lparr>ev_tick := ev_tick e + 1\<rparr>"
  define e2 where "e2 = e\<lparr>ev_tick := ev_tick e + 2\<rparr>"
  have n: "unat L = length b + 4" unfolding L_def using b by (rule unat_u32_of_nat)
  have r1: "Raf_Read e path off 4 = (Ok, u32_bytes L, e1)"
    using fil c hd by (simp add: Raf_Read_def sys_ok L_def e1_def)
  have r2: "Raf_Read e1 path (off + 4) (length b + 4) = (Ok, body, e2)"
    using fil c bd by (simp add: Raf_Read_def sys_ok e1_def e2_def body_def)
  have le: "off + 4 \<le> fsize" "off + 4 + (length b + 4) \<le> fsize" using sz off by (simp_all add: length_frame)
  have bl: "length body = length b + 4" by (simp add: body_def)
  obtain st w2 mem2 where rf: "step w body mem = (st, w2, mem2)"
    by (cases "step w body mem")
  show ?thesis
    unfolding body_def [symmetric] e2_def [symmetric]
    by (subst replay_loop.simps) (use le in \<open>simp add: r1 r2 n bl rf bytes_u32_u32' Let_def length_frame add.assoc\<close>,
        simp add: add.commute [of "length b"])
qed

lemma replay_loop_torn:
  assumes c: "calls_ok e" and fil: "ev_files e path = Some (pre @ t)" and t: "torn t"
    and sz: "fsize = length (pre @ t)" and off: "off = length pre"
  shows "\<exists>n. replay_loop step e w path fsize off mem = (Ok, e\<lparr>ev_tick := n\<rparr>, w, mem)"
proof (cases "length t < 4")
  case True
  then show ?thesis
    using sz off by (subst replay_loop.simps) (auto intro: exI [of _ "ev_tick e"])
next
  case False
  have "bytes_u32 (take 4 t) = bytes_u32 t" by (simp add: bytes_u32_def)
  then show ?thesis
    using False t sz off fil c
    by (subst replay_loop.simps) (auto simp: Raf_Read_def sys_ok torn_def Let_def)
qed

text \<open>The frame steps over the bodies of a log, in order.\<close>

fun run_steps :: "'m frame_step \<Rightarrow> wal \<Rightarrow> byte list list \<Rightarrow> 'm \<Rightarrow> status \<times> wal \<times> 'm" where
  "run_steps step w [] m = (Ok, w, m)"
| "run_steps step w (b # bs) m =
     (case step w (b @ u32_bytes (Crc32c b 0)) m of (st, w2, m2) \<Rightarrow>
      if \<not> st_ok st then (st, w2, m2) else run_steps step w2 bs m2)"

definition small_body :: "byte list \<Rightarrow> bool" where
  "small_body b \<longleftrightarrow> length b + 4 < 2 ^ 32"

lemma replay_loop_bodies:
  assumes "calls_ok e" "ev_files e path = Some (pre @ concat (map frame bs) @ t)" "torn t"
    "list_all small_body bs" "fsize = length (pre @ concat (map frame bs) @ t)" "off = length pre"
  shows "\<exists>n. replay_loop step e w path fsize off mem =
    (case run_steps step w bs mem of (st, w2, mem2) \<Rightarrow> (st, e\<lparr>ev_tick := n\<rparr>, w2, mem2))"
  using assms
proof (induction bs arbitrary: e w pre off mem)
  case Nil
  then show ?case using replay_loop_torn [of e path pre t fsize off step w mem] by simp
next
  case (Cons b bs)
  have bl: "length b + 4 < 2 ^ 32" using Cons.prems(4) unfolding small_body_def by simp
  let ?e = "e\<lparr>ev_tick := ev_tick e + 2\<rparr>"
  obtain st w2 mem2 where a: "step w (b @ u32_bytes (Crc32c b 0)) mem = (st, w2, mem2)"
    by (cases "step w (b @ u32_bytes (Crc32c b 0)) mem")
  have step: "replay_loop step e w path fsize off mem =
      (if \<not> st_ok st then (st, ?e, w2, mem2)
       else replay_loop step ?e w2 path fsize (off + length (frame b)) mem2)"
    using replay_loop_step [OF Cons.prems(1) _ bl, of path pre "concat (map frame bs) @ t" fsize off step w mem]
      Cons.prems(2,5,6) a by simp
  show ?case
  proof (cases "st_ok st")
    case True
    have "\<exists>n. replay_loop step ?e w2 path fsize (off + length (frame b)) mem2 =
      (case run_steps step w2 bs mem2 of (st, w3, mem3) \<Rightarrow> (st, ?e\<lparr>ev_tick := n\<rparr>, w3, mem3))"
      by (rule Cons.IH [where pre = "pre @ frame b"]) (use Cons.prems in simp_all)
    then show ?thesis using step a True by simp
  next
    case False
    then show ?thesis using step a by auto
  qed
qed

lemma body_ok_small: "list_all2 (body_ok aes w) bs rs \<Longrightarrow> list_all small_body bs"
  unfolding list_all_length list_all2_conv_all_nth body_ok_def small_body_def by (auto split: prod.splits)

lemma run_steps_recs:
  "list_all2 (body_ok aes w) bs rs \<Longrightarrow> run_steps (replay_frame fp hash aes) w bs mem = replay_recs fp hash w rs mem"
proof (induction bs arbitrary: w rs mem)
  case (Cons b bs)
  obtain s r rs' where rs: "rs = (s, r) # rs'" using Cons.prems by (auto simp: list_all2_Cons1)
  have b: "body_ok aes w b (s, r)" and bs: "list_all2 (body_ok aes w) bs rs'" using Cons.prems rs by simp_all
  have "list_all2 (body_ok aes (note_seq w s)) bs rs'" using bs by simp
  then show ?case
    using replay_frame_body [OF b, of fp hash mem] Cons.IH by (auto simp: rs split: prod.split)
qed simp

subsection \<open>The whole log\<close>

text \<open>The segment files of a log: segment \<open>g\<close> holds the header and the frames of the
  bodies \<open>segs ! g\<close>, and there is no further segment.\<close>

definition wal_files :: "posix_env \<Rightarrow> wal \<Rightarrow> byte list list list \<Rightarrow> bool" where
  "wal_files e w segs \<longleftrightarrow>
     (\<forall>g < length segs. ev_files e (SegmentPath w g) = Some (wal_header @ concat (map frame (segs ! g)))) \<and>
     ev_files e (SegmentPath w (length segs)) = None"

lemma SegmentPath_inject [simp]: "SegmentPath w g = SegmentPath w h \<longleftrightarrow> g = h"
  by (simp add: SegmentPath_def)

lemma length_wal_header [simp]: "length wal_header = 16"
  by (simp add: wal_header_def kWalMagic_def)

lemma wal_header_fields:
  "take 12 (wal_header @ bs) = kWalMagic" "bytes_u32 (drop 12 (wal_header @ bs)) = kWalVersion"
  "take 12 wal_header = kWalMagic" "bytes_u32 (drop 12 wal_header) = kWalVersion"
  by (simp_all add: wal_header_def kWalMagic_def bytes_u32_u32 bytes_u32_u32')

lemma wal_files_tick [simp]: "wal_files (e\<lparr>ev_tick := n\<rparr>) w segs = wal_files e w segs"
  by (simp add: wal_files_def)

lemma wal_files_cong: "SegmentPath w' = SegmentPath w \<Longrightarrow> wal_files e w' segs = wal_files e w segs"
  by (simp add: wal_files_def)

lemma replay_segment_bodies:
  assumes c: "calls_ok e" and fil: "ev_files e (SegmentPath w g) = Some (wal_header @ concat (map frame bs) @ t)"
    and t: "torn t" and ok: "list_all small_body bs"
  shows "\<exists>n. replay_segment step e w g mem =
    (case run_steps step w bs mem of (st, w2, mem2) \<Rightarrow> (st, e\<lparr>ev_tick := n\<rparr>, w2, mem2))"
proof -
  let ?c = "wal_header @ concat (map frame bs) @ t"
  let ?e = "e\<lparr>ev_tick := Suc (Suc (Suc (ev_tick e)))\<rparr>"
  have "\<exists>n. replay_loop step ?e w (SegmentPath w g) (length ?c) 16 mem =
    (case run_steps step w bs mem of (st, w2, mem2) \<Rightarrow> (st, ?e\<lparr>ev_tick := n\<rparr>, w2, mem2))"
    by (rule replay_loop_bodies [OF _ _ t ok, where pre = wal_header]) (use c fil in simp_all)
  moreover have "replay_segment step e w g mem = replay_loop step ?e w (SegmentPath w g) (length ?c) 16 mem"
    using c fil
    by (simp add: replay_segment_def NewRandomAccessFile_def GetFileSize_def segment_start_def Raf_Read_def sys_ok
        wal_header_fields)
  ultimately show ?thesis by simp
qed

lemma replay_segment_recs:
  assumes c: "calls_ok e" and fil: "ev_files e (SegmentPath w g) = Some (wal_header @ concat (map frame bs) @ t)"
    and t: "torn t" and ok: "list_all2 (body_ok aes w) bs rs"
  shows "\<exists>n. replay_segment (replay_frame fp hash aes) e w g mem =
    (case replay_recs fp hash w rs mem of (st, w2, mem2) \<Rightarrow> (st, e\<lparr>ev_tick := n\<rparr>, w2, mem2))"
  using replay_segment_bodies [OF c fil t body_ok_small [OF ok], of "replay_frame fp hash aes" mem] by (simp add: run_steps_recs [OF ok])

lemma torn_Nil [simp]: "torn []"
  by (simp add: torn_def)

lemma SegmentPath_replay_recs:
  "replay_recs fp hash w rs mem = (st, w2, mem2) \<Longrightarrow>
   SegmentPath w2 = SegmentPath w \<and> wal_enc w2 = wal_enc w \<and> wal_key w2 = wal_key w"
proof (induction rs arbitrary: w mem)
  case (Cons sr rs)
  obtain s r where sr: "sr = (s, r)" by (cases sr)
  then show ?case using Cons by (auto simp: fun_eq_iff split: prod.splits if_splits)
qed simp

lemma body_ok_cong: "wal_enc w2 = wal_enc w \<Longrightarrow> wal_key w2 = wal_key w \<Longrightarrow> body_ok aes w2 = body_ok aes w"
  by (simp add: body_ok_def unseal_def fun_eq_iff)

lemma replay_recs_append:
  "replay_recs fp hash w (rs @ qs) mem =
    (case replay_recs fp hash w rs mem of (st, w2, mem2) \<Rightarrow>
       if \<not> st_ok st then (st, w2, mem2) else replay_recs fp hash w2 qs mem2)"
proof (induction rs arbitrary: w mem)
  case (Cons sr rs)
  then show ?case by (cases sr) (auto split: prod.split)
qed simp

lemma run_steps_append:
  "run_steps step w (bs @ cs) m =
    (case run_steps step w bs m of (st, w2, m2) \<Rightarrow> if \<not> st_ok st then (st, w2, m2) else run_steps step w2 cs m2)"
  by (induction bs arbitrary: w m) (auto split: prod.split)

text \<open>A frame step leaves the names of the segments alone.\<close>

definition keeps_paths :: "'m frame_step \<Rightarrow> bool" where
  "keeps_paths step \<longleftrightarrow> (\<forall>w b m. SegmentPath (fst (snd (step w b m))) = SegmentPath w)"

lemma keeps_paths_steps: "keeps_paths step \<Longrightarrow> run_steps step w bs m = (st, w2, m2) \<Longrightarrow> SegmentPath w2 = SegmentPath w"
proof (induction bs arbitrary: w m)
  case (Cons b bs)
  have "SegmentPath (fst (snd (step w (b @ u32_bytes (Crc32c b 0)) m))) = SegmentPath w"
    using Cons.prems(1) by (simp add: keeps_paths_def)
  then show ?case using Cons by (auto split: prod.splits if_splits)
qed simp

lemma replay_from_bodies:
  assumes "calls_ok e" "\<forall>g < length segs. ev_files e (SegmentPath w (k + g)) = Some (wal_header @ concat (map frame (segs ! g)) @ ts ! g)"
    "length ts = length segs" "\<forall>t \<in> set ts. torn t"
    "ev_files e (SegmentPath w (k + length segs)) = None" "list_all (list_all small_body) segs" and keeps: "keeps_paths step"
  shows "\<exists>n. replay_from step e w k mem =
    Some (case run_steps step w (concat segs) mem of (st, w2, mem2) \<Rightarrow> (st, e\<lparr>ev_tick := n\<rparr>, w2, mem2))"
  using assms(1-6)
proof (induction segs arbitrary: e w k ts mem)
  case Nil
  then show ?case
    by (subst replay_from.simps) (auto simp: FileExists_def sys_ok)
next
  case (Cons bs segs)
  obtain t ts' where ts: "ts = t # ts'" using Cons.prems(3) by (cases ts) simp_all
  have f0: "ev_files e (SegmentPath w k) = Some (wal_header @ concat (map frame bs) @ t)"
    using Cons.prems(2) [rule_format, of 0] ts by simp
  define e1 where "e1 = e\<lparr>ev_tick := ev_tick e + 1\<rparr>"
  have fe: "FileExists e (SegmentPath w k) = (Ok, e1)" using Cons.prems(1) f0 by (simp add: FileExists_def sys_ok e1_def)
  obtain st w2 mem2 where rr: "run_steps step w bs mem = (st, w2, mem2)" by (cases "run_steps step w bs mem")
  have "\<exists>n. replay_segment step e1 w k mem = (st, e1\<lparr>ev_tick := n\<rparr>, w2, mem2)"
    using replay_segment_bodies [of e1 w k bs t step mem] Cons.prems(1,4,6) f0 rr ts by (simp add: e1_def)
  then obtain n where seg: "replay_segment step e1 w k mem = (st, e\<lparr>ev_tick := n\<rparr>, w2, mem2)" by (auto simp: e1_def)
  note W = keeps_paths_steps [OF keeps rr]
  have eq: "replay_from step e w k mem =
      (if \<not> st_ok st then Some (st, e\<lparr>ev_tick := n\<rparr>, w2, mem2)
       else replay_from step (e\<lparr>ev_tick := n\<rparr>) w2 (Suc k) mem2)"
    by (subst replay_from.simps) (simp add: fe seg)
  show ?case
  proof (cases "st_ok st")
    case False
    then show ?thesis using eq rr by (auto simp: run_steps_append)
  next
    case True
    have "\<exists>m. replay_from step (e\<lparr>ev_tick := n\<rparr>) w2 (Suc k) mem2 =
      Some (case run_steps step w2 (concat segs) mem2 of (st, w3, mem3) \<Rightarrow> (st, e\<lparr>ev_tick := n\<rparr>\<lparr>ev_tick := m\<rparr>, w3, mem3))"
    proof (rule Cons.IH [where ts = ts'])
      show "\<forall>g < length segs. ev_files (e\<lparr>ev_tick := n\<rparr>) (SegmentPath w2 (Suc k + g)) =
          Some (wal_header @ concat (map frame (segs ! g)) @ ts' ! g)"
        using Cons.prems(2) W ts by (auto dest: spec [of _ "Suc _"])
    qed (use Cons.prems W ts in simp_all)
    then show ?thesis using eq rr True by (simp add: run_steps_append)
  qed
qed

lemma SegmentPath_note_seq [simp]: "SegmentPath (note_seq w s) = SegmentPath w"
  by (simp add: note_seq_def SegmentPath_def fun_eq_iff)

definition same_path :: "wal \<Rightarrow> status \<times> wal \<times> 'm \<Rightarrow> bool" where
  "same_path w r \<longleftrightarrow> SegmentPath (fst (snd r)) = SegmentPath w"

lemma same_path_intros:
  "same_path w (st, w, m)" "same_path w (st, note_seq w s, m)"
  "same_path w r1 \<Longrightarrow> same_path w r2 \<Longrightarrow> same_path w (if c then r1 else r2)"
  "(\<And>a b. same_path w (f a b)) \<Longrightarrow> same_path w (case p of (a, b) \<Rightarrow> f a b)"
  "(\<And>a. same_path w (g a)) \<Longrightarrow> (\<And>b. same_path w (h b)) \<Longrightarrow> same_path w (case q of Inl a \<Rightarrow> g a | Inr b \<Rightarrow> h b)"
  by (simp_all add: same_path_def split: prod.split sum.split)

lemma keeps_paths_frame: "keeps_paths (replay_frame fp hash aes)"
proof -
  have "same_path w (replay_frame fp hash aes w b mem)" for w b mem
    unfolding replay_frame_def replay_payload_def Let_def by (intro same_path_intros)
  then show ?thesis by (simp add: keeps_paths_def same_path_def)
qed

lemma list_all2_concatI: "list_all2 (list_all2 P) xss yss \<Longrightarrow> list_all2 P (concat xss) (concat yss)"
  by (induction rule: list_all2_induct) (simp_all add: list_all2_appendI)

lemma replay_from_recs:
  assumes "calls_ok e" "\<forall>g < length segs. ev_files e (SegmentPath w (k + g)) = Some (wal_header @ concat (map frame (segs ! g)) @ ts ! g)"
    "length ts = length segs" "\<forall>t \<in> set ts. torn t"
    "ev_files e (SegmentPath w (k + length segs)) = None" and ok: "list_all2 (list_all2 (body_ok aes w)) segs recs"
  shows "\<exists>n. replay_from (replay_frame fp hash aes) e w k mem =
    Some (case replay_recs fp hash w (concat recs) mem of (st, w2, mem2) \<Rightarrow> (st, e\<lparr>ev_tick := n\<rparr>, w2, mem2))"
proof -
  have "list_all (list_all small_body) segs"
    using ok by (induction rule: list_all2_induct) (auto dest: body_ok_small)
  from replay_from_bodies [OF assms(1-5) this keeps_paths_frame, of fp hash aes mem]
  show ?thesis by (simp add: run_steps_recs [OF list_all2_concatI [OF ok]])
qed

subsection \<open>Opening and appending\<close>

lemma find_gen_files:
  assumes "calls_ok e" "\<forall>g. k \<le> g \<and> g < n \<longrightarrow> ev_files e (SegmentPath w g) \<noteq> None" "ev_files e (SegmentPath w n) = None" "k \<le> n"
  shows "\<exists>t. find_gen e w k = Some (n, e\<lparr>ev_tick := t\<rparr>)"
  using assms
proof (induction "n - k" arbitrary: e k)
  case 0
  then show ?case by (subst find_gen.simps) (auto simp: FileExists_def sys_ok)
next
  case (Suc d)
  define e1 where "e1 = e\<lparr>ev_tick := ev_tick e + 1\<rparr>"
  have "ev_files e (SegmentPath w k) \<noteq> None" using Suc.prems(2) Suc.hyps(2) by simp
  then obtain y where "ev_files e (SegmentPath w k) = Some y" by blast
  then have "FileExists e (SegmentPath w k) = (Ok, e1)"
    using Suc.prems(1) by (simp add: FileExists_def sys_ok e1_def)
  then have eq: "find_gen e w k = find_gen e1 w (Suc k)" by (subst find_gen.simps) simp
  have "\<exists>t. find_gen e1 w (Suc k) = Some (n, e1\<lparr>ev_tick := t\<rparr>)"
    by (rule Suc.hyps(1)) (use Suc.prems Suc.hyps(2) in \<open>simp_all add: e1_def\<close>)
  then show ?case using eq by (simp add: e1_def)
qed

lemma check_headers_ok:
  assumes "calls_ok e" "\<forall>g \<in> set gs. \<exists>bs. ev_files e (SegmentPath w g) = Some (wal_header @ bs)"
  shows "\<exists>t. check_headers e w gs = (Ok, e\<lparr>ev_tick := t\<rparr>)"
  using assms
proof (induction gs arbitrary: e)
  case Nil
  then show ?case by (auto intro: exI [of _ "ev_tick e"])
next
  case (Cons g gs)
  then obtain bs where f: "ev_files e (SegmentPath w g) = Some (wal_header @ bs)" by auto
  define e2 where "e2 = e\<lparr>ev_tick := Suc (Suc (ev_tick e))\<rparr>"
  have "check_headers e w (g # gs) = check_headers e2 w gs"
    using Cons.prems(1) f
    by (simp add: NewRandomAccessFile_def Raf_Read_def sys_ok wal_header_fields e2_def)
  moreover have "\<exists>t. check_headers e2 w gs = (Ok, e2\<lparr>ev_tick := t\<rparr>)"
    by (rule Cons.IH) (use Cons.prems in \<open>auto simp: e2_def\<close>)
  ultimately show ?case by (simp add: e2_def)
qed

text \<open>An open log: the files, and a writer positioned at the end of the last one, whose
  size it knows.\<close>

definition wal_ready :: "posix_env \<Rightarrow> wal \<Rightarrow> byte list list list \<Rightarrow> bool" where
  "wal_ready e w segs \<longleftrightarrow> wal_files e w segs \<and> segs \<noteq> [] \<and> wal_gen w = length segs - 1 \<and>
     (\<exists>f. wal_impl w = Some f \<and> wf_ready e f \<and> wf_path f = SegmentPath w (wal_gen w)) \<and>
     wal_bytes_in_seg w = length (wal_header @ concat (map frame (last segs)))"

lemma NewAppendableFile_fresh:
  assumes "calls_ok e" "ev_files e p = None"
  shows "\<exists>f t. NewAppendableFile e p = (Ok, Some f, e\<lparr>ev_files := (ev_files e)(p \<mapsto> []), ev_tick := t\<rparr>) \<and>
    wf_path f = p \<and> wf_open f \<and> wf_off f = 0"
  using assms by (auto simp: NewAppendableFile_def sys_ok Let_def)

lemma new_segment:
  assumes c: "calls_ok e" and none: "ev_files e p = None"
    and n: "NewAppendableFile e p = (st, Some f, e1)" and a: "Wf_Append e1 f wal_header = (st2, e2, f2)"
  shows "st = Ok" "st2 = Ok" "calls_ok e2" "wf_ready e2 f2" "wf_path f2 = p" "ev_files e2 = (ev_files e)(p \<mapsto> wal_header)"
    "ev_chunk e2 = ev_chunk e"
proof -
  obtain t where f: "st = Ok" "e1 = e\<lparr>ev_files := (ev_files e)(p \<mapsto> []), ev_tick := t\<rparr>" "wf_path f = p" "wf_open f" "wf_off f = 0"
    using NewAppendableFile_fresh [OF c none] n by auto
  have r: "wf_ready e1 f" "calls_ok e1" using f c by (simp_all add: wf_ready_def)
  note W = Wf_Append_ok [OF r(2,1) a]
  show "st = Ok" "st2 = Ok" "calls_ok e2" "wf_ready e2 f2" "wf_path f2 = p" using f W by simp_all
  show "ev_files e2 = (ev_files e)(p \<mapsto> wal_header)" using W(5) f by (auto simp: wf_content_def fun_eq_iff)
  show "ev_chunk e2 = ev_chunk e" using W(6) f by simp
qed

definition wal_cfg :: "wal \<Rightarrow> string \<times> u32 \<times> nat \<times> FsyncPolicy \<times> bool \<times> byte list" where
  "wal_cfg w = (wal_db_path w, wal_shard_id w, wal_segment_bytes w, wal_fsync w, wal_enc w, wal_key w)"

lemma wal_cfg_SegmentPath: "wal_cfg w' = wal_cfg w \<Longrightarrow> SegmentPath w' = SegmentPath w"
  by (simp add: wal_cfg_def SegmentPath_def fun_eq_iff)

lemma wal_cfg_body_ok: "wal_cfg w' = wal_cfg w \<Longrightarrow> body_ok aes w' = body_ok aes w"
  by (rule body_ok_cong) (simp_all add: wal_cfg_def)

lemma wal_cfg_unseal: "wal_cfg w' = wal_cfg w \<Longrightarrow> unseal aes w' b = unseal aes w b"
  by (simp add: wal_cfg_def unseal_def)

lemma wal_files_extend:
  assumes "wal_files e w segs" "ev_files e' = (ev_files e)(SegmentPath w (length segs) \<mapsto> wal_header)"
    "ev_files e (SegmentPath w (Suc (length segs))) = None"
  shows "wal_files e' w (segs @ [[]])"
  using assms by (auto simp: wal_files_def nth_append less_Suc_eq)

text \<open>No stray segment files beyond the end of the log: the writer only ever creates the
  next one.\<close>

definition no_segments_from :: "posix_env \<Rightarrow> wal \<Rightarrow> nat \<Rightarrow> bool" where
  "no_segments_from e w n \<longleftrightarrow> (\<forall>g \<ge> n. ev_files e (SegmentPath w g) = None)"

text \<open>Only files of the log differ.\<close>

definition wal_only :: "wal \<Rightarrow> posix_env \<Rightarrow> posix_env \<Rightarrow> bool" where
  "wal_only w e e' \<longleftrightarrow> (\<forall>p. p \<notin> range (SegmentPath w) \<longrightarrow> ev_files e' p = ev_files e p) \<and> ev_chunk e' = ev_chunk e"

lemma Wf_Sync_ok: "calls_ok e \<Longrightarrow> wf_open f \<Longrightarrow> Wf_Sync e f = (Ok, e\<lparr>ev_tick := ev_tick e + 1\<rparr>)"
  by (simp add: Wf_Sync_def sys_ok)

lemma RotateIfNeeded_ok:
  assumes c: "calls_ok e" and rdy: "wal_ready e w segs" and ns: "no_segments_from e w (length segs)"
    and r: "RotateIfNeeded e w n = (st, e', w')"
  shows "st = Ok \<and> calls_ok e' \<and> wal_cfg w' = wal_cfg w \<and> wal_seq w' = wal_seq w \<and>
    (\<exists>segs'. wal_ready e' w' segs' \<and> (segs' = segs \<or> segs' = segs @ [[]]) \<and> no_segments_from e' w' (length segs')) \<and> wal_only w e e'"
proof (cases "wal_bytes_in_seg w + n \<le> wal_segment_bytes w")
  case True
  then show ?thesis using c rdy ns r by (auto simp: RotateIfNeeded_def wal_only_def)
next
  case False
  obtain f where f: "wal_impl w = Some f" "wf_ready e f" using rdy by (auto simp: wal_ready_def)
  have gen: "Suc (wal_gen w) = length segs" using rdy by (auto simp: wal_ready_def)
  define e1 where "e1 = e\<lparr>ev_tick := Suc (Suc (ev_tick e))\<rparr>"
  have c1: "calls_ok e1" and ef: "ev_files e1 = ev_files e" using c by (simp_all add: e1_def)
  define w1 where "w1 = w\<lparr>wal_impl := None, wal_gen := wal_gen w + 1, wal_file_off := 0, wal_bytes_in_seg := 0\<rparr>"
  have cfg: "wal_cfg w1 = wal_cfg w" "wal_gen w1 = length segs" using gen by (simp_all add: w1_def wal_cfg_def)
  note sp = wal_cfg_SegmentPath [OF cfg(1)]
  have none: "ev_files e1 (SegmentPath w1 (wal_gen w1)) = None"
    using ns cfg(2) by (simp add: no_segments_from_def ef sp)
  obtain g t where g: "NewAppendableFile e1 (SegmentPath w1 (wal_gen w1)) =
      (Ok, Some g, e1\<lparr>ev_files := (ev_files e1)(SegmentPath w1 (wal_gen w1) \<mapsto> []), ev_tick := t\<rparr>)"
    using NewAppendableFile_fresh [OF c1 none] by blast
  define e2 where "e2 = e1\<lparr>ev_files := (ev_files e1)(SegmentPath w1 (wal_gen w1) \<mapsto> []), ev_tick := t\<rparr>"
  obtain s3 e3 f3 where a: "Wf_Append e2 g wal_header = (s3, e3, f3)" by (cases "Wf_Append e2 g wal_header")
  note N = new_segment [OF c1 none g [folded e2_def] a]
  have wo: "wf_open f" using f by (simp add: wf_ready_def)
  have res: "(st, e', w') = (Ok, e3, w1\<lparr>wal_impl := Some f3, wal_file_off := 16, wal_bytes_in_seg := 16\<rparr>)"
    using r False f(1) wo c g a [unfolded e2_def] N(2)
    by (simp add: RotateIfNeeded_def Wf_Sync_ok Wf_Close_def sys_ok e1_def [symmetric]
        sp sp [unfolded w1_def, simplified] Let_def) (simp add: w1_def)
  let ?w = "w1\<lparr>wal_impl := Some f3, wal_file_off := 16, wal_bytes_in_seg := 16\<rparr>"
  have cfg': "wal_cfg ?w = wal_cfg w" using cfg by (simp add: wal_cfg_def)
  note sp' = wal_cfg_SegmentPath [OF cfg']
  have fe: "ev_files e3 = (ev_files e)(SegmentPath w (length segs) \<mapsto> wal_header)"
    using N(6) cfg(2) by (simp add: ef sp)
  have "wal_files e3 w (segs @ [[]])"
    by (rule wal_files_extend [OF _ fe]) (use rdy ns in \<open>simp_all add: wal_ready_def no_segments_from_def\<close>)
  then have "wal_ready e3 ?w (segs @ [[]])"
    using N cfg(2) by (simp add: wal_ready_def wal_files_cong [OF sp'] sp sp')
  moreover have "no_segments_from e3 ?w (length (segs @ [[]]))"
    using ns by (simp add: no_segments_from_def fe sp')
  moreover have "wal_only w e e3" using N(7) by (simp add: wal_only_def fe e1_def)
  ultimately show ?thesis
    using res N(3) cfg' by (auto simp: w1_def)
qed

text \<open>An open log on a file system whose calls succeed (short writes are allowed).\<close>

definition wal_log :: "posix_env \<Rightarrow> wal \<Rightarrow> byte list list list \<Rightarrow> bool" where
  "wal_log e w segs \<longleftrightarrow> calls_ok e \<and> wal_ready e w segs \<and> no_segments_from e w (length segs)"

lemma wal_ready_cong:
  assumes "wal_cfg w' = wal_cfg w" "wal_impl w' = wal_impl w" "wal_gen w' = wal_gen w" "wal_bytes_in_seg w' = wal_bytes_in_seg w"
  shows "wal_ready e w' segs = wal_ready e w segs"
  using assms wal_cfg_SegmentPath [OF assms(1)] by (simp add: wal_ready_def wal_files_def)

lemma wal_log_cong:
  assumes "wal_cfg w' = wal_cfg w" "wal_impl w' = wal_impl w" "wal_gen w' = wal_gen w" "wal_bytes_in_seg w' = wal_bytes_in_seg w"
  shows "wal_log e w' segs = wal_log e w segs"
  using wal_ready_cong [OF assms] wal_cfg_SegmentPath [OF assms(1)] by (simp add: wal_log_def no_segments_from_def)

lemma wal_log_seq [simp]: "wal_log e (w\<lparr>wal_seq := s\<rparr>) segs = wal_log e w segs"
  by (rule wal_log_cong) (simp_all add: wal_cfg_def)

lemma RotateIfNeeded_log:
  assumes "wal_log e w segs" "RotateIfNeeded e w n = (st, e', w')"
  shows "st = Ok" "wal_cfg w' = wal_cfg w" "wal_seq w' = wal_seq w" "\<exists>segs'. wal_log e' w' segs' \<and> concat segs' = concat segs"
    "wal_only w e e'"
  using RotateIfNeeded_ok [of e w segs n st e' w'] assms by (auto simp: wal_log_def)

lemma wal_files_write:
  assumes "wal_files e w segs" "segs \<noteq> []"
    "ev_files e' = (ev_files e)(SegmentPath w (length segs - 1) \<mapsto> wal_header @ concat (map frame (last segs)) @ concat (map frame bs))"
  shows "wal_files e' w (butlast segs @ [last segs @ bs])"
  using assms by (cases segs rule: rev_cases) (auto simp: wal_files_def nth_append less_Suc_eq)

lemma concat_write: "segs \<noteq> [] \<Longrightarrow> concat (butlast segs @ [last segs @ bs]) = concat segs @ bs"
  by (cases segs rule: rev_cases) simp_all

lemma write_iovecs_log:
  assumes log: "wal_log e w segs" and io: "concat iovecs = concat (map frame bs)" "tot = length (concat iovecs)"
    and r: "write_iovecs e w tot iovecs = (st, e', w')"
  shows "st = Ok" "wal_cfg w' = wal_cfg w" "wal_seq w' = wal_seq w" "\<exists>segs'. wal_log e' w' segs' \<and> concat segs' = concat segs @ bs"
    "wal_only w e e'"
proof -
  have rdy: "wal_ready e w segs" and c: "calls_ok e" and ns: "no_segments_from e w (length segs)"
    using log by (simp_all add: wal_log_def)
  then obtain f where f: "wal_impl w = Some f" "wf_ready e f" "wf_path f = SegmentPath w (length segs - 1)"
      and fs: "wal_files e w segs" and ne: "segs \<noteq> []" and gen: "wal_gen w = length segs - 1"
      and bis: "wal_bytes_in_seg w = length (wal_header @ concat (map frame (last segs)))"
    by (auto simp: wal_ready_def)
  have "wf_content e f = wal_header @ concat (map frame (last segs))"
    using fs ne f(3) by (simp add: wf_content_def wal_files_def last_conv_nth)
  moreover obtain s e1 f1 where a: "AppendIovecs Wf_Append e f iovecs = (s, e1, f1)"
    by (cases "AppendIovecs Wf_Append e f iovecs")
  ultimately have A: "s = Ok" "calls_ok e1" "wf_ready e1 f1" "wf_path f1 = wf_path f"
    "ev_files e1 = (ev_files e)(SegmentPath w (length segs - 1) \<mapsto> wal_header @ concat (map frame (last segs)) @ concat (map frame bs))"
    "ev_chunk e1 = ev_chunk e"
    using AppendIovecs_ok [OF c f(2) a] io f(3) by simp_all
  define w1 where "w1 = w\<lparr>wal_impl := Some f1, wal_file_off := wal_file_off w + tot,
    wal_bytes_in_seg := wal_bytes_in_seg w + tot, wal_bytes_total := wal_bytes_total w + tot\<rparr>"
  define segs' where "segs' = butlast segs @ [last segs @ bs]"
  have "wf_open f1" using A(3) by (simp add: wf_ready_def)
  then have "\<exists>t. (st, e', w') = (Ok, e1\<lparr>ev_tick := t\<rparr>, w1)"
    using r f(1) a A(1) Wf_Sync_ok [OF A(2)]
    by (auto simp: write_iovecs_def Let_def w1_def split: if_splits intro: exI [of _ "ev_tick e1"])
  then obtain t where res: "st = Ok" "e' = e1\<lparr>ev_tick := t\<rparr>" "w' = w1" by auto
  have cfg: "wal_cfg w1 = wal_cfg w" "wal_seq w1 = wal_seq w" by (simp_all add: w1_def wal_cfg_def)
  have w1: "wal_impl w1 = Some f1" "wal_gen w1 = wal_gen w" "wal_bytes_in_seg w1 = wal_bytes_in_seg w + tot"
    by (simp_all add: w1_def)
  note sp = wal_cfg_SegmentPath [OF cfg(1)]
  have ls: "length segs' = length segs" using ne by (simp add: segs'_def)
  have "wal_files e1 w segs'" unfolding segs'_def by (rule wal_files_write [OF fs ne A(5)])
  then have "wal_ready e' w1 segs'"
    using A(3,4) f(3) gen bis io ls unfolding wal_ready_def wf_ready_def res(2) wal_files_tick wal_files_cong [OF sp]
    by (simp add: sp w1 segs'_def)
  moreover have "no_segments_from e' w1 (length segs')"
    using ns ne unfolding no_segments_from_def ls sp by (cases segs) (auto simp: res(2) A(5))
  ultimately have "wal_log e' w1 segs'" using A(2) by (simp add: wal_log_def res(2))
  show "wal_only w e e'" using A(5,6) by (simp add: wal_only_def res(2))
  show "\<exists>segs'. wal_log e' w' segs' \<and> concat segs' = concat segs @ bs"
    using \<open>wal_log e' w1 segs'\<close> res(3) concat_write [OF ne] by (auto simp: segs'_def)
  show "st = Ok" "wal_cfg w' = wal_cfg w" "wal_seq w' = wal_seq w" using res cfg by simp_all
qed

subsection \<open>Sealed bodies\<close>

text \<open>What the log needs of AES-256-GCM: with a 32-byte key and a 12-byte nonce encryption
  succeeds, keeps the length, makes a 16-byte tag, and decryption undoes it.  \<open>AesGcm\<close> passes the length to OpenSSL as an \<open>int\<close>, so
  this holds of it for records of less than 2 to the power 31 bytes.\<close>

definition aes_law :: "aes_gcm \<Rightarrow> bool" where
  "aes_law aes \<longleftrightarrow> (\<forall>key nonce plain. length key = 32 \<and> length nonce = 12 \<longrightarrow>
     (\<exists>c t. aes_encrypt aes key nonce plain = (Ok, c, t) \<and> length c = length plain \<and> length t = 16 \<and>
            aes_decrypt aes key nonce c t = (Ok, plain)))"

definition key_ok :: "wal \<Rightarrow> bool" where
  "key_ok w \<longleftrightarrow> (wal_enc w \<longrightarrow> length (wal_key w) = 32)"

lemma length_MakeNonce [simp]: "length (MakeNonce s q g) = 12"
  by (simp add: MakeNonce_def Let_def)

lemma seal_unseal:
  assumes "aes_law aes" "key_ok w" "21 \<le> length plain" "length plain + 32 < 2 ^ 32"
  shows "\<exists>b. seal aes w q plain = (Ok, b) \<and> unseal aes w b = (Ok, plain) \<and> 21 \<le> length b \<and> length b + 4 < 2 ^ 32"
proof (cases "wal_enc w")
  case True
  define nonce where "nonce = MakeNonce (wal_shard_id w) q (wal_gen w)"
  have n: "length nonce = 12" by (simp add: nonce_def)
  have "length (wal_key w) = 32" using True assms(2) by (simp add: key_ok_def)
  then obtain c t where ct: "aes_encrypt aes (wal_key w) nonce plain = (Ok, c, t)" "length c = length plain" "length t = 16"
    "aes_decrypt aes (wal_key w) nonce c t = (Ok, plain)"
    using assms(1) n unfolding aes_law_def by blast
  have "seal aes w q plain = (Ok, nonce @ c @ t)" using True ct(1) by (simp add: seal_def nonce_def Let_def)
  moreover have "unseal aes w (nonce @ c @ t) = (Ok, plain)" using True ct n by (simp add: unseal_def Let_def)
  ultimately show ?thesis using assms(3,4) ct n by simp
next
  case False
  then show ?thesis using assms(3,4) by (simp add: seal_def unseal_def)
qed

lemma seal_cong: "w' = w\<lparr>wal_seq := s\<rparr> \<Longrightarrow> seal aes w' q p = seal aes w q p"
  by (simp add: seal_def)

lemma append_record_sealed:
  assumes log: "wal_log e w segs" and b: "seal aes w q plain = (Ok, b)" "length b + 4 < 2 ^ 32"
    and r: "append_record aes e w q plain = (st, e', w')"
  shows "st = Ok" "wal_cfg w' = wal_cfg w" "wal_seq w' = wal_seq w"
    "\<exists>segs'. wal_log e' w' segs' \<and> concat segs' = concat segs @ [b]" "wal_only w e e'"
proof -
  define L where "L = (word_of_nat (length b + 4) :: u32)"
  have L: "4 + unat L = length (frame b)" unfolding L_def unat_u32_of_nat [OF b(2)] by (simp add: length_frame)
  obtain s1 e1 w1 where rot: "RotateIfNeeded e w (length (frame b)) = (s1, e1, w1)"
    by (cases "RotateIfNeeded e w (length (frame b))")
  note R = RotateIfNeeded_log [OF log rot]
  obtain segs1 where s1: "wal_log e1 w1 segs1" "concat segs1 = concat segs" using R(4) by blast
  have w: "write_iovecs e1 w1 (length (frame b)) [u32_bytes L, b, u32_bytes (Crc32c b 0)] = (st, e', w')"
    using r b(1) rot R(1) L by (simp add: append_record_def Let_def L_def)
  have f: "concat [u32_bytes L, b, u32_bytes (Crc32c b 0)] = concat (map frame [b])"
    by (simp add: frame_def L_def)
  have "length (frame b) = length (concat [u32_bytes L, b, u32_bytes (Crc32c b 0)])" unfolding f by simp
  note W = write_iovecs_log [OF s1(1) f this w]
  show "st = Ok" "wal_cfg w' = wal_cfg w" "wal_seq w' = wal_seq w" using W(1-3) R(2,3) by simp_all
  show "\<exists>segs'. wal_log e' w' segs' \<and> concat segs' = concat segs @ [b]" using W(4) s1(2) by auto
  show "wal_only w e e'" using W(5) R(5) by (simp add: wal_only_def wal_cfg_SegmentPath [OF R(2)])
qed

lemma append_record_log:
  assumes log: "wal_log e w segs" and "aes_law aes" "key_ok w" "21 \<le> length plain" "length plain + 32 < 2 ^ 32"
    and r: "append_record aes e w q plain = (st, e', w')"
  shows "st = Ok" "wal_cfg w' = wal_cfg w" "wal_seq w' = wal_seq w"
    "\<exists>segs' b. wal_log e' w' segs' \<and> concat segs' = concat segs @ [b] \<and> unseal aes w b = (Ok, plain) \<and>
       21 \<le> length b \<and> length b + 4 < 2 ^ 32"
    "wal_only w e e'"
proof -
  obtain b where b: "seal aes w q plain = (Ok, b)" "unseal aes w b = (Ok, plain)" "21 \<le> length b" "length b + 4 < 2 ^ 32"
    using seal_unseal [OF assms(2-5)] by blast
  note A = append_record_sealed [OF log b(1,4) r]
  show "st = Ok" "wal_cfg w' = wal_cfg w" "wal_seq w' = wal_seq w" using A(1-3) .
  show "\<exists>segs' b. wal_log e' w' segs' \<and> concat segs' = concat segs @ [b] \<and> unseal aes w b = (Ok, plain) \<and>
       21 \<le> length b \<and> length b + 4 < 2 ^ 32"
    using A(4) b(2-4) by blast
  show "wal_only w e e'" by (rule A(5))
qed

text \<open>A log that holds the numbered records \<open>rs\<close>.\<close>

definition log_holds :: "aes_gcm \<Rightarrow> posix_env \<Rightarrow> wal \<Rightarrow> (u64 \<times> lrec) list \<Rightarrow> bool" where
  "log_holds aes e w rs \<longleftrightarrow> (\<exists>segs. wal_log e w segs \<and> list_all2 (body_ok aes w) (concat segs) rs)"

definition loggable :: "lrec \<Rightarrow> bool" where
  "loggable r \<longleftrightarrow> good_rec r \<and> length (plain_of 0 r) + 32 < 2 ^ 32"

lemma length_plain_of_seq: "length (plain_of s r) = length (plain_of 0 r)"
  by (cases r) (simp_all add: put_plain_def del_plain_def raw_plain_def Let_def)

fun append_rec :: "aes_gcm \<Rightarrow> posix_env \<Rightarrow> wal \<Rightarrow> lrec \<Rightarrow> status \<times> posix_env \<times> wal" where
  "append_rec aes e w (LPut i v m) = Wal_AppendPut aes e w i v m"
| "append_rec aes e w (LDel i) = Wal_AppendDelete aes e w i"
| "append_rec aes e w (LRaw op k v) = Wal_AppendRawKV aes e w op k v"

lemma append_rec_record:
  "append_rec aes e w r = append_record aes e (w\<lparr>wal_seq := wal_seq w + 1\<rparr>) (wal_seq w + 1) (plain_of (wal_seq w + 1) r)"
  by (cases r) (simp_all add: Wal_AppendPut_def Wal_AppendDelete_def Wal_AppendRawKV_def Let_def)

lemma key_ok_cong: "wal_cfg w' = wal_cfg w \<Longrightarrow> key_ok w' = key_ok w"
  by (simp add: key_ok_def wal_cfg_def)

lemma append_rec_log:
  assumes "log_holds aes e w rs" "aes_law aes" "key_ok w" "loggable r" "append_rec aes e w r = (st, e', w')"
  shows "st = Ok" "wal_cfg w' = wal_cfg w" "wal_seq w' = wal_seq w + 1" "log_holds aes e' w' (rs @ [(wal_seq w + 1, r)])"
    "wal_only w e e'"
proof -
  obtain segs where segs: "wal_log e w segs" "list_all2 (body_ok aes w) (concat segs) rs"
    using assms(1) by (auto simp: log_holds_def)
  let ?w = "w\<lparr>wal_seq := wal_seq w + 1\<rparr>" and ?p = "plain_of (wal_seq w + 1) r"
  have cfg: "wal_cfg ?w = wal_cfg w" by (simp add: wal_cfg_def)
  have len: "length ?p + 32 < 2 ^ 32"
    using assms(4) unfolding loggable_def length_plain_of_seq [of "wal_seq w + 1"] by blast
  have app: "append_record aes e ?w (wal_seq w + 1) ?p = (st, e', w')" using assms(5) by (simp only: append_rec_record)
  have log: "wal_log e ?w segs" using segs(1) by simp
  have key: "key_ok ?w" using assms(3) by (simp only: key_ok_cong [OF cfg])
  note A = append_record_log [OF log assms(2) key length_plain_of len app]
  show "st = Ok" "wal_cfg w' = wal_cfg w" "wal_seq w' = wal_seq w + 1" using A(1-3) cfg by simp_all
  show "wal_only w e e'" using A(5) wal_cfg_SegmentPath [OF cfg] by (simp add: wal_only_def)
  obtain segs' b where b: "wal_log e' w' segs'" "concat segs' = concat segs @ [b]" "unseal aes ?w b = (Ok, ?p)"
    "21 \<le> length b" "length b + 4 < 2 ^ 32" using A(4) by blast
  have "body_ok aes w b (wal_seq w + 1, r)"
    using b(3-5) assms(4) wal_cfg_unseal [OF cfg] by (simp only: body_ok_def loggable_def fst_conv snd_conv)
  then have "list_all2 (body_ok aes w) (concat segs') (rs @ [(wal_seq w + 1, r)])"
    using segs(2) b(2) by (simp add: list_all2_appendI)
  then show "log_holds aes e' w' (rs @ [(wal_seq w + 1, r)])"
    using b(1) wal_cfg_body_ok [of w' w aes] A(2) cfg unfolding log_holds_def by auto
qed

subsection \<open>Batches\<close>

fun batch_bodies :: "u64 \<Rightarrow> (VectorId \<times> VectorView) list \<Rightarrow> byte list list" where
  "batch_bodies q [] = []"
| "batch_bodies q ((i, v) # xs) = put_plain (q + 1) i v Metadata0 # batch_bodies (q + 1) xs"

fun batch_recs :: "u64 \<Rightarrow> (VectorId \<times> VectorView) list \<Rightarrow> (u64 \<times> lrec) list" where
  "batch_recs q [] = []"
| "batch_recs q ((i, v) # xs) = (q + 1, LPut i v Metadata0) # batch_recs (q + 1) xs"

lemma put_plain0: "put_plain q i v Metadata0 = rp_bytes q kPut i (vv_dim v) @ float_bytes v"
  by (simp add: put_plain_def has_wal_meta_def Metadata0_def)

lemma Crc32c_split: "Crc32c ys (Crc32c xs s) = Crc32c (xs @ ys) s"
  by (simp add: Crc32c_def crc_loop_append)

lemma batch_iovecs_frames: "concat (batch_iovecs q xs) = concat (map frame (batch_bodies q xs))"
  by (induction q xs rule: batch_bodies.induct)
    (simp_all add: Let_def put_plain0 frame_def Crc32c_split add.commute add.left_commute)

lemma batch_iovecs_length:
  "length ids = length vs \<Longrightarrow> length (concat (batch_iovecs q (zip ids vs))) = sum_list (map (\<lambda>v. 4 + 21 + length (float_bytes v) + 4) vs)"
  by (induction ids vs arbitrary: q rule: list_induct2) (simp_all add: Let_def)

lemma batch_bodies_ok:
  "\<not> wal_enc w \<Longrightarrow> \<forall>(i, v) \<in> set xs. loggable (LPut i v Metadata0) \<Longrightarrow>
   list_all2 (body_ok aes w) (batch_bodies q xs) (batch_recs q xs)"
proof (induction q xs rule: batch_bodies.induct)
  case (2 q i v xs)
  have "body_ok aes w (put_plain (q + 1) i v Metadata0) (q + 1, LPut i v Metadata0)"
    using 2(2,3) length_plain_of [of "q + 1" "LPut i v Metadata0"] length_plain_of_seq [of "q + 1" "LPut i v Metadata0"]
    by (auto simp: body_ok_def loggable_def unseal_def)
  then show ?case using 2 by simp
qed simp

lemma put_each_log:
  assumes "log_holds aes e w rs" "aes_law aes" "key_ok w" "\<forall>(i, v) \<in> set xs. loggable (LPut i v Metadata0)"
    "put_each aes e w xs = (st, e', w')"
  shows "st = Ok \<and> wal_cfg w' = wal_cfg w \<and> wal_seq w' = wal_seq w + word_of_nat (length xs) \<and>
    log_holds aes e' w' (rs @ batch_recs (wal_seq w) xs)"
  using assms
proof (induction xs arbitrary: e w rs)
  case (Cons x xs)
  obtain i v where x: "x = (i, v)" by (cases x)
  obtain s1 e1 w1 where a: "append_rec aes e w (LPut i v Metadata0) = (s1, e1, w1)"
    by (cases "append_rec aes e w (LPut i v Metadata0)")
  note A = append_rec_log [OF Cons.prems(1-3) _ a]
  have l: "loggable (LPut i v Metadata0)" using Cons.prems(4) x by simp
  have "put_each aes e1 w1 xs = (st, e', w')"
    using Cons.prems(5) a A(1) [OF l] by (simp add: x Wal_AppendPut0_def)
  then show ?case
    using Cons.IH [OF A(4) [OF l] Cons.prems(2)] Cons.prems(3,4) A(2,3) [OF l] key_ok_cong [of w1 w]
    by (simp add: x add.assoc)
qed simp

lemma AppendBatch_log:
  assumes log: "log_holds aes e w rs" and "aes_law aes" "key_ok w" and len: "length ids = length vs"
    and ok: "\<forall>(i, v) \<in> set (zip ids vs). loggable (LPut i v Metadata0)"
    and r: "Wal_AppendBatch aes e w ids vs = (st, e', w')"
  shows "st = Ok \<and> wal_cfg w' = wal_cfg w \<and> wal_seq w' = wal_seq w + word_of_nat (length ids) \<and>
    log_holds aes e' w' (rs @ batch_recs (wal_seq w) (zip ids vs))"
proof (cases "ids = [] \<or> wal_enc w")
  case True
  then have "put_each aes e w (zip ids vs) = (st, e', w')" using r len by (cases "ids = []") (auto simp: Wal_AppendBatch_def)
  then show ?thesis using put_each_log [OF log assms(2,3) ok] len by simp
next
  case False
  obtain segs where segs: "wal_log e w segs" "list_all2 (body_ok aes w) (concat segs) rs"
    using log by (auto simp: log_holds_def)
  define tot where "tot = sum_list (map (\<lambda>v. 4 + 21 + length (float_bytes v) + 4) vs)"
  obtain s1 e1 w1 where rot: "RotateIfNeeded e w tot = (s1, e1, w1)" by (cases "RotateIfNeeded e w tot")
  note R = RotateIfNeeded_log [OF segs(1) rot]
  obtain segs1 where s1: "wal_log e1 w1 segs1" "concat segs1 = concat segs" using R(4) by blast
  define w2 where "w2 = w1\<lparr>wal_seq := wal_seq w1 + word_of_nat (length ids)\<rparr>"
  have log2: "wal_log e1 w2 segs1" using s1(1) by (simp add: w2_def)
  have wr: "write_iovecs e1 w2 tot (batch_iovecs (wal_seq w) (zip ids vs)) = (st, e', w')"
    using r len False rot [unfolded tot_def] R(1,3) by (simp add: Wal_AppendBatch_def Let_def w2_def tot_def)
  note W = write_iovecs_log [OF log2 batch_iovecs_frames _ wr, unfolded batch_iovecs_length [OF len] tot_def, OF refl]
  have c2: "wal_cfg w2 = wal_cfg w" "wal_seq w2 = wal_seq w + word_of_nat (length ids)"
    using R(2,3) by (simp_all add: w2_def wal_cfg_def)
  obtain segs' where s': "wal_log e' w' segs'" "concat segs' = concat segs @ batch_bodies (wal_seq w) (zip ids vs)"
    using W(4) s1(2) by auto
  have "list_all2 (body_ok aes w) (concat segs') (rs @ batch_recs (wal_seq w) (zip ids vs))"
    using segs(2) False batch_bodies_ok [OF _ ok] by (simp add: s'(2) list_all2_appendI)
  then show ?thesis
    using W(1-3) c2 s'(1) wal_cfg_body_ok [of w' w aes] by (auto simp: log_holds_def)
qed

subsection \<open>Reopening\<close>

definition wal_disk :: "posix_env \<Rightarrow> wal \<Rightarrow> byte list list list \<Rightarrow> bool" where
  "wal_disk e w segs \<longleftrightarrow> calls_ok e \<and> wal_files e w segs \<and> no_segments_from e w (length segs)"

lemma wal_log_disk: "wal_log e w segs \<Longrightarrow> wal_cfg w' = wal_cfg w \<Longrightarrow> wal_disk e w' segs"
  using wal_cfg_SegmentPath [of w' w] by (simp add: wal_log_def wal_disk_def wal_ready_def wal_files_def no_segments_from_def)

text \<open>Opening a log whose segments all start with a header: the writer starts a new segment
  after them, whatever else they hold.\<close>

definition opened :: "posix_env \<Rightarrow> wal \<Rightarrow> nat \<Rightarrow> posix_env \<Rightarrow> wal \<Rightarrow> bool" where
  "opened e w n e' w' \<longleftrightarrow> calls_ok e' \<and> ev_chunk e' = ev_chunk e \<and> ev_files e' = (ev_files e)(SegmentPath w n \<mapsto> wal_header) \<and>
     wal_cfg w' = wal_cfg w \<and> wal_seq w' = wal_seq w \<and> wal_gen w' = n \<and> wal_bytes_in_seg w' = 16 \<and>
     (\<exists>f. wal_impl w' = Some f \<and> wf_ready e' f \<and> wf_path f = SegmentPath w n)"

lemma open_segment_opened:
  assumes c: "calls_ok e" and none: "ev_files e (SegmentPath w n) = None" and gen: "wal_gen w = n"
  shows "\<exists>e' w'. open_segment e w = (Ok, e', w') \<and> opened e w n e' w'"
proof -
  define p where "p = SegmentPath w n"
  obtain f t where f: "NewAppendableFile e p = (Ok, Some f, e\<lparr>ev_files := (ev_files e)(p \<mapsto> []), ev_tick := t\<rparr>)"
    "wf_path f = p" "wf_open f" "wf_off f = 0"
    using NewAppendableFile_fresh [OF c none [folded p_def]] by blast
  define e1 where "e1 = e\<lparr>ev_files := (ev_files e)(p \<mapsto> []), ev_tick := Suc t\<rparr>"
  have c1: "calls_ok e1" and r1: "wf_ready e1 f" and e1: "ev_files e1 p = Some []" using c f by (simp_all add: e1_def wf_ready_def)
  obtain s2 e2 f2 where a: "Wf_Append e1 f wal_header = (s2, e2, f2)" by (cases "Wf_Append e1 f wal_header")
  note A = Wf_Append_ok [OF c1 r1 a]
  define w2 where "w2 = w\<lparr>wal_impl := Some f2, wal_file_off := 16, wal_bytes_in_seg := 16\<rparr>"
  have res: "open_segment e w = (Ok, e2, w2)"
    using f(1) c a A(1) gen e1
    by (simp add: open_segment_def GetFileSize_def sys_ok p_def [symmetric] e1_def [symmetric] w2_def Let_def)
  have "opened e w n e2 w2"
    using A(2-6) f(2) gen by (simp add: opened_def w2_def wal_cfg_def wf_content_def e1_def p_def)
  then show ?thesis using res by blast
qed

lemma Wal_Open_opened:
  assumes c: "calls_ok e" and hd: "\<forall>g < n. \<exists>bs. ev_files e (SegmentPath w g) = Some (wal_header @ bs)"
    and none: "ev_files e (SegmentPath w n) = None"
  shows "\<exists>e' w'. Wal_Open e w = Some (Ok, e', w') \<and> opened e w n e' w'"
proof -
  obtain t1 where cd: "CreateDirIfMissing e (wal_db_path w) = (Ok, e\<lparr>ev_tick := t1\<rparr>)" using CreateDirIfMissing_ok [OF c] by blast
  have "\<exists>t. find_gen (e\<lparr>ev_tick := t1\<rparr>) w 0 = Some (n, e\<lparr>ev_tick := t1\<rparr>\<lparr>ev_tick := t\<rparr>)"
    by (rule find_gen_files) (use c hd none in auto)
  then obtain t2 where fg: "find_gen (e\<lparr>ev_tick := t1\<rparr>) w 0 = Some (n, e\<lparr>ev_tick := t2\<rparr>)" by auto
  define w1 where "w1 = w\<lparr>wal_gen := n\<rparr>"
  have cfg: "wal_cfg w1 = wal_cfg w" "wal_seq w1 = wal_seq w" by (simp_all add: w1_def wal_cfg_def)
  note sp = wal_cfg_SegmentPath [OF cfg(1)]
  have "\<exists>t. check_headers (e\<lparr>ev_tick := t2\<rparr>) w1 [0..<n] = (Ok, e\<lparr>ev_tick := t2\<rparr>\<lparr>ev_tick := t\<rparr>)"
    by (rule check_headers_ok) (use c hd in \<open>auto simp: sp\<close>)
  then obtain t3 where ch: "check_headers (e\<lparr>ev_tick := t2\<rparr>) w1 [0..<n] = (Ok, e\<lparr>ev_tick := t3\<rparr>)" by auto
  have eq: "Wal_Open e w = Some (open_segment (e\<lparr>ev_tick := t3\<rparr>) w1)"
    using cd fg ch by (simp add: Wal_Open_def w1_def [symmetric] Let_def)
  have "\<exists>e' w'. open_segment (e\<lparr>ev_tick := t3\<rparr>) w1 = (Ok, e', w') \<and> opened (e\<lparr>ev_tick := t3\<rparr>) w1 n e' w'"
    by (rule open_segment_opened) (use c none in \<open>simp_all add: sp\<close>, simp add: w1_def)
  then show ?thesis using eq cfg by (auto simp: opened_def sp)
qed

lemma Wal_Open_log:
  assumes "wal_disk e w segs"
  shows "\<exists>e' w'. Wal_Open e w = Some (Ok, e', w') \<and> wal_log e' w' (segs @ [[]]) \<and> wal_cfg w' = wal_cfg w \<and> wal_seq w' = wal_seq w \<and>
    wal_only w e e'"
proof -
  have c: "calls_ok e" and fs: "wal_files e w segs" and ns: "no_segments_from e w (length segs)"
    using assms by (simp_all add: wal_disk_def)
  have hd: "\<forall>g < length segs. \<exists>bs. ev_files e (SegmentPath w g) = Some (wal_header @ bs)"
    "ev_files e (SegmentPath w (length segs)) = None" using fs by (auto simp: wal_files_def)
  obtain e' w' where o1: "Wal_Open e w = Some (Ok, e', w')" "opened e w (length segs) e' w'"
    using Wal_Open_opened [OF c hd] by blast
  have cfg: "wal_cfg w' = wal_cfg w" using o1(2) by (simp add: opened_def)
  note sp = wal_cfg_SegmentPath [OF cfg]
  have "wal_files e' w (segs @ [[]])"
    by (rule wal_files_extend [OF fs]) (use o1(2) ns in \<open>simp_all add: opened_def no_segments_from_def\<close>)
  then have "wal_log e' w' (segs @ [[]])"
    using o1(2) ns
    by (auto simp: wal_log_def wal_ready_def wal_files_cong [OF sp] sp opened_def no_segments_from_def)
  then show ?thesis using o1 by (auto simp: opened_def wal_only_def)
qed

subsection \<open>Histories\<close>

text \<open>The calls that add records, and a run of them that stops at the first error.\<close>

datatype wal_op = OpRec lrec | OpBatch "VectorId list" "VectorView list"

fun wal_do :: "aes_gcm \<Rightarrow> posix_env \<Rightarrow> wal \<Rightarrow> wal_op \<Rightarrow> status \<times> posix_env \<times> wal" where
  "wal_do aes e w (OpRec r) = append_rec aes e w r"
| "wal_do aes e w (OpBatch ids vs) = Wal_AppendBatch aes e w ids vs"

fun wal_run :: "aes_gcm \<Rightarrow> posix_env \<Rightarrow> wal \<Rightarrow> wal_op list \<Rightarrow> status \<times> posix_env \<times> wal" where
  "wal_run aes e w [] = (Ok, e, w)"
| "wal_run aes e w (x # xs) =
     (case wal_do aes e w x of (st, e, w) \<Rightarrow> if \<not> st_ok st then (st, e, w) else wal_run aes e w xs)"

fun op_ok :: "wal_op \<Rightarrow> bool" where
  "op_ok (OpRec r) \<longleftrightarrow> loggable r"
| "op_ok (OpBatch ids vs) \<longleftrightarrow> length ids = length vs \<and> (\<forall>(i, v) \<in> set (zip ids vs). loggable (LPut i v Metadata0))"

fun op_recs :: "u64 \<Rightarrow> wal_op \<Rightarrow> (u64 \<times> lrec) list" where
  "op_recs q (OpRec r) = [(q + 1, r)]"
| "op_recs q (OpBatch ids vs) = batch_recs q (zip ids vs)"

fun op_seq :: "u64 \<Rightarrow> wal_op \<Rightarrow> u64" where
  "op_seq q (OpRec r) = q + 1"
| "op_seq q (OpBatch ids vs) = q + word_of_nat (length ids)"

fun run_recs :: "u64 \<Rightarrow> wal_op list \<Rightarrow> (u64 \<times> lrec) list" where
  "run_recs q [] = []"
| "run_recs q (x # xs) = op_recs q x @ run_recs (op_seq q x) xs"

lemma wal_do_log:
  assumes "log_holds aes e w rs" "aes_law aes" "key_ok w" "op_ok x" "wal_do aes e w x = (st, e', w')"
  shows "st = Ok \<and> wal_cfg w' = wal_cfg w \<and> wal_seq w' = op_seq (wal_seq w) x \<and>
    log_holds aes e' w' (rs @ op_recs (wal_seq w) x)"
proof (cases x)
  case (OpRec r)
  then show ?thesis using append_rec_log [OF assms(1-3), of r st e' w'] assms(4,5) by simp
next
  case (OpBatch ids vs)
  then show ?thesis using AppendBatch_log [OF assms(1-3), of ids vs st e' w'] assms(4,5) by simp
qed

lemma wal_run_log:
  assumes "log_holds aes e w rs" "aes_law aes" "key_ok w" "\<forall>x \<in> set xs. op_ok x"
  shows "\<exists>e' w'. wal_run aes e w xs = (Ok, e', w') \<and> wal_cfg w' = wal_cfg w \<and>
    log_holds aes e' w' (rs @ run_recs (wal_seq w) xs)"
  using assms
proof (induction xs arbitrary: e w rs)
  case (Cons x xs)
  obtain st e1 w1 where a: "wal_do aes e w x = (st, e1, w1)" by (cases "wal_do aes e w x")
  have A: "st = Ok" "wal_cfg w1 = wal_cfg w" "wal_seq w1 = op_seq (wal_seq w) x"
    "log_holds aes e1 w1 (rs @ op_recs (wal_seq w) x)"
    using wal_do_log [OF Cons.prems(1-3) _ a] Cons.prems(4) by simp_all
  show ?case
    using Cons.IH [OF A(4) Cons.prems(2)] Cons.prems(3,4) A(1-3) a key_ok_cong [OF A(2)] by simp
qed simp

end
