(* ===== verification/Wal_Recovery.thy ===== *)
theory Wal_Recovery
  imports Wal_Log
begin

text \<open>
  Recovery from the write-ahead log (\<open>src/storage/wal/wal.cc\<close>): what reopening and
  replaying a log gives after any history of appends, after its last segment was
  cut, and after bytes of a record were damaged; and what \<open>Reset\<close> leaves.  The
  crash modelled is the loss of the process: what was written stays in the file.
\<close>

subsection \<open>The effect of a replay on the memtable\<close>

definition logged_meta :: "u64 \<Rightarrow> Metadata \<Rightarrow> Metadata option" where
  "logged_meta s m =
     (let m' = (if md_tenant m = '''' then Metadata0 else m)\<lparr>md_lsn := s\<rparr> in if has_meta m' then Some m' else None)"

fun rec_effect :: "ieee \<Rightarrow> memtable \<Rightarrow> u64 \<times> lrec \<Rightarrow> (VectorId \<rightharpoonup> (VectorView option \<times> Metadata option) option)
    \<Rightarrow> VectorId \<rightharpoonup> (VectorView option \<times> Metadata option) option" where
  "rec_effect fp mt (s, LPut i v m) view = view(i \<mapsto> Some (Some (stored_vec fp mt v), logged_meta s m))"
| "rec_effect fp mt (s, LDel i) view = view(i \<mapsto> None)"
| "rec_effect fp mt (s, LRaw op k v) view = view"

fun rec_fits :: "memtable \<Rightarrow> lrec \<Rightarrow> bool" where
  "rec_fits mt (LPut i v m) \<longleftrightarrow> i \<noteq> sentinel \<and> length v = unat (mt_dim mt)"
| "rec_fits mt (LDel i) \<longleftrightarrow> i \<noteq> sentinel"
| "rec_fits mt (LRaw op k v) \<longleftrightarrow> True"

lemma stored_vec_cong: "mt_dim mt' = mt_dim mt \<Longrightarrow> mt_quant mt' = mt_quant mt \<Longrightarrow> stored_vec fp mt' = stored_vec fp mt"
  by (simp add: stored_vec_def fun_eq_iff)

lemma apply_rec_view:
  assumes "mt_inv hash mt" "rec_fits mt r" "apply_rec fp hash s r mt = (st, mt')"
  shows "st = Ok" "mt_inv hash mt'" "mt_view fp mt' = rec_effect fp mt (s, r) (mt_view fp mt)"
    "mt_dim mt' = mt_dim mt" "mt_quant mt' = mt_quant mt"
proof -
  have "st = Ok \<and> mt_inv hash mt' \<and> mt_view fp mt' = rec_effect fp mt (s, r) (mt_view fp mt) \<and>
    mt_dim mt' = mt_dim mt \<and> mt_quant mt' = mt_quant mt"
  proof (cases r)
    case (LPut i v m)
    then show ?thesis
      using mt_Put_correct [OF assms(1), of i v fp _ st mt'] assms(2,3) by (simp add: logged_meta_def Let_def)
  next
    case (LDel i)
    then show ?thesis
      using mt_Delete_correct [OF assms(1), of i fp st mt'] assms(2,3) by simp
  next
    case (LRaw op k v)
    then show ?thesis using assms by simp
  qed
  then show "st = Ok" "mt_inv hash mt'" "mt_view fp mt' = rec_effect fp mt (s, r) (mt_view fp mt)"
    "mt_dim mt' = mt_dim mt" "mt_quant mt' = mt_quant mt" by simp_all
qed

lemma rec_effect_cong:
  "mt_dim mt' = mt_dim mt \<Longrightarrow> mt_quant mt' = mt_quant mt \<Longrightarrow> rec_effect fp mt' = rec_effect fp mt"
proof (intro ext)
  fix sr view i
  assume "mt_dim mt' = mt_dim mt" "mt_quant mt' = mt_quant mt"
  then have "stored_vec fp mt' = stored_vec fp mt" by (rule stored_vec_cong)
  then show "rec_effect fp mt' sr view i = rec_effect fp mt sr view i"
    by (cases "(fp, mt, sr, view)" rule: rec_effect.cases) simp_all
qed

lemma rec_fits_cong: "mt_dim mt' = mt_dim mt \<Longrightarrow> rec_fits mt' r = rec_fits mt r"
  by (cases r) simp_all

definition top_seq :: "u64 \<Rightarrow> (u64 \<times> lrec) list \<Rightarrow> u64" where
  "top_seq q rs = fold max (map fst rs) q"

lemma replay_recs_view:
  assumes "mt_inv hash mt" "\<forall>sr \<in> set rs. rec_fits mt (snd sr)"
  shows "\<exists>w' mt'. replay_recs fp hash w rs mt = (Ok, w', mt') \<and> mt_inv hash mt' \<and>
    mt_view fp mt' = fold (rec_effect fp mt) rs (mt_view fp mt) \<and> wal_seq w' = top_seq (wal_seq w) rs"
  using assms
proof (induction rs arbitrary: w mt)
  case Nil
  then show ?case by (simp add: top_seq_def)
next
  case (Cons sr rs)
  obtain s r where sr: "sr = (s, r)" by (cases sr)
  obtain st mt1 where a: "apply_rec fp hash s r mt = (st, mt1)" by (cases "apply_rec fp hash s r mt")
  note A = apply_rec_view [OF Cons.prems(1) _ a]
  have f: "rec_fits mt r" using Cons.prems(2) sr by simp
  have n: "wal_seq (note_seq w s) = max s (wal_seq w)" by (auto simp: note_seq_def max_def)
  have re: "rec_effect fp mt1 = rec_effect fp mt" by (rule rec_effect_cong [OF A(4,5) [OF f]])
  have "\<forall>sr \<in> set rs. rec_fits mt1 (snd sr)" using Cons.prems(2) by (simp add: rec_fits_cong [OF A(4) [OF f]])
  then show ?case
    using Cons.IH [OF A(2) [OF f], of "note_seq w s"] A(1,3) [OF f] a
    by (simp add: sr n top_seq_def re)
qed

lemma list_all2_concat:
  "list_all2 P (concat xss) rs \<Longrightarrow> \<exists>recs. concat recs = rs \<and> list_all2 (list_all2 P) xss recs"
proof (induction xss arbitrary: rs)
  case (Cons xs xss)
  then obtain us vs where uv: "rs = us @ vs" "list_all2 P xs us" "list_all2 P (concat xss) vs"
    by (auto simp: list_all2_append1)
  then obtain recs where "concat recs = vs" "list_all2 (list_all2 P) xss recs" using Cons.IH by blast
  then show ?case using uv by (intro exI [of _ "us # recs"]) simp
qed simp

lemma replay_log_holds:
  assumes "log_holds aes e w rs"
  shows "\<exists>n. Wal_ReplayInto fp hash aes e w mem =
    Some (case replay_recs fp hash w rs mem of (st, w2, mem2) \<Rightarrow> (st, e\<lparr>ev_tick := n\<rparr>, w2, mem2))"
proof -
  obtain segs where segs: "wal_log e w segs" "list_all2 (body_ok aes w) (concat segs) rs"
    using assms by (auto simp: log_holds_def)
  obtain recs where recs: "concat recs = rs" "list_all2 (list_all2 (body_ok aes w)) segs recs"
    using list_all2_concat [OF segs(2)] by blast
  have "\<exists>n. replay_from (replay_frame fp hash aes) e w 0 mem =
    Some (case replay_recs fp hash w (concat recs) mem of (st, w2, mem2) \<Rightarrow> (st, e\<lparr>ev_tick := n\<rparr>, w2, mem2))"
    by (rule replay_from_recs [where ts = "replicate (length segs) []"])
      (use segs(1) recs(2) in \<open>auto simp: wal_log_def wal_ready_def wal_files_def\<close>)
  then show ?thesis by (auto simp: Wal_ReplayInto_def recs(1))
qed

lemma length_parse_hex: "parse_hex h = Some k \<Longrightarrow> length k = length h div 2"
  by (induction h arbitrary: k rule: parse_hex.induct) (auto split: if_splits)

lemma key_ok_new: "key_ok (Wal_new p sh sg fs enc hex)"
  by (auto simp: key_ok_def Wal_new_def Let_def ParseKeyHex_def dest: length_parse_hex split: if_splits option.splits)

lemma log_holds_open:
  assumes "log_holds aes e w rs" "wal_cfg w0 = wal_cfg w"
  shows "\<exists>e' w'. Wal_Open e w0 = Some (Ok, e', w') \<and> wal_cfg w' = wal_cfg w0 \<and> wal_seq w' = wal_seq w0 \<and> log_holds aes e' w' rs \<and> wal_only w e e'"
proof -
  obtain segs where segs: "wal_log e w segs" "list_all2 (body_ok aes w) (concat segs) rs"
    using assms(1) by (auto simp: log_holds_def)
  obtain e' w' where o1: "Wal_Open e w0 = Some (Ok, e', w')" "wal_log e' w' (segs @ [[]])" "wal_cfg w' = wal_cfg w0" "wal_seq w' = wal_seq w0"
      "wal_only w e e'"
    using Wal_Open_log [OF wal_log_disk [OF segs(1) assms(2)]] wal_cfg_SegmentPath [OF assms(2)] by (auto simp: wal_only_def)
  have "body_ok aes w' = body_ok aes w" by (rule wal_cfg_body_ok) (simp add: o1(3) assms(2))
  then have "log_holds aes e' w' rs" using segs(2) o1(2) unfolding log_holds_def by (intro exI [of _ "segs @ [[]]"]) simp
  then show ?thesis using o1 by blast
qed

lemma log_holds_empty:
  assumes "calls_ok e" "no_segments_from e w 0"
  shows "\<exists>e' w'. Wal_Open e w = Some (Ok, e', w') \<and> wal_cfg w' = wal_cfg w \<and> wal_seq w' = wal_seq w \<and>
    wal_log e' w' [[]] \<and> log_holds aes e' w' [] \<and> wal_only w e e'"
proof -
  have "wal_disk e w []" using assms by (simp add: wal_disk_def wal_files_def no_segments_from_def)
  from Wal_Open_log [OF this] show ?thesis by (fastforce simp: log_holds_def)
qed

text \<open>C1: durability of the log. On a file system whose calls succeed (writes may be
  short), open a new log, append any run of representable records (vectors with
  or without metadata, deletions, raw records, batches), through any number of
  segment rotations and with or without encryption, lose the process, open again
  and replay: every call returns \<open>Ok\<close>, and the memtable ends with exactly the logged
  updates applied in the order they were made, each once, with the sequence
  number as the LSN.\<close>

theorem Wal_durable:
  assumes "calls_ok e" and w: "w = Wal_new path shard seg fs enc hex" and "no_segments_from e w 0" and aes: "aes_law aes"
    and ok: "\<forall>x \<in> set xs. op_ok x" and mt: "mt_inv hash mt" and fit: "\<forall>sr \<in> set (run_recs 0 xs). rec_fits mt (snd sr)"
  shows "\<exists>e1 w1 e2 w2 e3 w3 e4 w4 mt'.
    Wal_Open e w = Some (Ok, e1, w1) \<and> wal_run aes e1 w1 xs = (Ok, e2, w2) \<and>
    Wal_Open e2 w = Some (Ok, e3, w3) \<and> Wal_ReplayInto fp hash aes e3 w3 mt = Some (Ok, e4, w4, mt') \<and>
    mt_inv hash mt' \<and> mt_view fp mt' = fold (rec_effect fp mt) (run_recs 0 xs) (mt_view fp mt) \<and>
    wal_seq w4 = top_seq 0 (run_recs 0 xs)"
proof -
  have key: "key_ok w" and q: "wal_seq w = 0" using key_ok_new by (simp_all add: w Wal_new_def Let_def)
  obtain e1 w1 where o1: "Wal_Open e w = Some (Ok, e1, w1)" "wal_cfg w1 = wal_cfg w" "wal_seq w1 = 0" "log_holds aes e1 w1 []"
    using log_holds_empty [OF assms(1,3), of aes] q by auto
  have "key_ok w1" using key by (simp add: key_ok_cong [OF o1(2)])
  from wal_run_log [OF o1(4) aes this ok]
  obtain e2 w2 where r: "wal_run aes e1 w1 xs = (Ok, e2, w2)" "wal_cfg w = wal_cfg w2" "log_holds aes e2 w2 (run_recs 0 xs)"
    by (auto simp: o1)
  obtain e3 w3 where o3: "Wal_Open e2 w = Some (Ok, e3, w3)" "wal_seq w3 = 0" "log_holds aes e3 w3 (run_recs 0 xs)"
    using log_holds_open [OF r(3,2)] q by auto
  obtain w4 mt' where p: "replay_recs fp hash w3 (run_recs 0 xs) mt = (Ok, w4, mt')" "mt_inv hash mt'"
    "mt_view fp mt' = fold (rec_effect fp mt) (run_recs 0 xs) (mt_view fp mt)" "wal_seq w4 = top_seq 0 (run_recs 0 xs)"
    using replay_recs_view [OF mt fit, of fp w3] o3(2) by auto
  obtain e4 where "Wal_ReplayInto fp hash aes e3 w3 mt = Some (Ok, e4, w4, mt')"
    using replay_log_holds [OF o3(3), of fp hash mt] p(1) by auto
  then show ?thesis using o1(1) r(1) o3(1) p(2-4) by blast
qed

definition env0 :: posix_env where
  "env0 = \<lparr>ev_files = Map.empty, ev_tick = 0, ev_err = (\<lambda>_. None), ev_chunk = (\<lambda>_. 1)\<rparr>"

definition aes_id :: aes_gcm where
  "aes_id = \<lparr>aes_encrypt = (\<lambda>k n p. (Ok, p, replicate 16 0)), aes_decrypt = (\<lambda>k n c t. (Ok, c))\<rparr>"

lemma env0_ok [simp]: "calls_ok env0" "no_segments_from env0 w n"
  by (simp_all add: env0_def calls_ok_def no_segments_from_def)

lemma aes_id_law [simp]: "aes_law aes_id"
  by (simp add: aes_law_def aes_id_def)

theorem Wal_durable_witness:
  "\<forall>fp. \<exists>e1 w1 e2 w2 e3 w3 e4 w4 mt'.
    Wal_Open env0 (Wal_new ''db'' 3 40 kAlways True (replicate 64 (CHR ''a''))) = Some (Ok, e1, w1) \<and>
    wal_run aes_id e1 w1 [OpRec (LPut 7 [5] (Metadata0\<lparr>md_tenant := ''t''\<rparr>)), OpBatch [1, 2] [[8], [9]], OpRec (LDel 2)] = (Ok, e2, w2) \<and>
    Wal_Open e2 (Wal_new ''db'' 3 40 kAlways True (replicate 64 (CHR ''a''))) = Some (Ok, e3, w3) \<and>
    Wal_ReplayInto fp (\<lambda>x. x) aes_id e3 w3 (MemTable_new 1 64 False) = Some (Ok, e4, w4, mt') \<and>
    mt_view fp mt' = [7 \<mapsto> Some (Some [5], Some (Metadata0\<lparr>md_tenant := ''t'', md_lsn := 1\<rparr>)),
                      1 \<mapsto> Some (Some [8], None), 2 \<mapsto> None] \<and> wal_seq w4 = 4"
proof
  fix fp
  let ?xs = "[OpRec (LPut 7 [5] (Metadata0\<lparr>md_tenant := ''t''\<rparr>)), OpBatch [1, 2] [[8], [9]], OpRec (LDel 2)]"
  let ?mt = "MemTable_new 1 64 False"
  have ok: "\<forall>x \<in> set ?xs. op_ok x"
    by (simp add: loggable_def meta_small_def Metadata0_def has_wal_meta_def put_plain_def meta_bytes_def
        length_AppendString del_plain_def)
  have rs: "run_recs 0 ?xs = [(1, LPut 7 [5] (Metadata0\<lparr>md_tenant := ''t''\<rparr>)), (2, LPut 1 [8] Metadata0),
      (3, LPut 2 [9] Metadata0), (4, LDel 2)]" by simp
  have sv: "stored_vec fp ?mt v = v" for v by (simp add: stored_vec_def MemTable_new_def)
  have fit: "\<forall>sr \<in> set (run_recs 0 ?xs). rec_fits ?mt (snd sr)"
    unfolding rs by (simp add: sentinel_def small_table_inv)
  have view: "fold (rec_effect fp ?mt) (run_recs 0 ?xs) (mt_view fp ?mt) =
      [7 \<mapsto> Some (Some [5], Some (Metadata0\<lparr>md_tenant := ''t'', md_lsn := 1\<rparr>)), 1 \<mapsto> Some (Some [8], None), 2 \<mapsto> None]"
    unfolding rs by (simp add: sv logged_meta_def has_meta_def Metadata0_def mt_new_inv(2) Let_def)
  have top: "top_seq 0 (run_recs 0 ?xs) = 4" unfolding rs by (simp add: top_seq_def max_def word_le_nat_alt)
  show "\<exists>e1 w1 e2 w2 e3 w3 e4 w4 mt'.
    Wal_Open env0 (Wal_new ''db'' 3 40 kAlways True (replicate 64 (CHR ''a''))) = Some (Ok, e1, w1) \<and>
    wal_run aes_id e1 w1 ?xs = (Ok, e2, w2) \<and>
    Wal_Open e2 (Wal_new ''db'' 3 40 kAlways True (replicate 64 (CHR ''a''))) = Some (Ok, e3, w3) \<and>
    Wal_ReplayInto fp (\<lambda>x. x) aes_id e3 w3 ?mt = Some (Ok, e4, w4, mt') \<and>
    mt_view fp mt' = [7 \<mapsto> Some (Some [5], Some (Metadata0\<lparr>md_tenant := ''t'', md_lsn := 1\<rparr>)),
                      1 \<mapsto> Some (Some [8], None), 2 \<mapsto> None] \<and> wal_seq w4 = 4"
    using Wal_durable [OF env0_ok(1) refl env0_ok(2) aes_id_law ok small_table_inv(1) fit, where fp = fp] view top
    by metis
qed

subsection \<open>A cut segment\<close>

lemma torn_take_frame:
  assumes "n < length (frame b)" "length b + 4 < 2 ^ 32"
  shows "torn (take n (frame b @ rest))"
proof (cases "n < 4")
  case False
  define L where "L = (word_of_nat (length b + 4) :: u32)"
  have L: "unat L = length b + 4" unfolding L_def by (rule unat_u32_of_nat [OF assms(2)])
  have "take n (frame b @ rest) = u32_bytes L @ take (n - 4) (b @ u32_bytes (Crc32c b 0) @ rest)"
    using False by (simp add: frame_def L_def)
  moreover have "length (take n (frame b @ rest)) < 4 + unat L" using assms(1) by (simp add: L length_frame)
  ultimately show ?thesis unfolding torn_def by (simp add: bytes_u32_u32)
qed (simp add: torn_def min_def del: take_append)

lemma take_frames:
  assumes "\<forall>b \<in> set bs. length b + 4 < 2 ^ 32"
  shows "\<exists>k t. take n (concat (map frame bs)) = concat (map frame (take k bs)) @ t \<and> torn t \<and> k \<le> length bs \<and>
    length (concat (map frame (take k bs))) \<le> n \<and> (k < length bs \<longrightarrow> n < length (concat (map frame (take (Suc k) bs))))"
  using assms
proof (induction bs arbitrary: n)
  case (Cons b bs)
  have b: "length b + 4 < 2 ^ 32" using Cons.prems by simp
  show ?case
  proof (cases "n < length (frame b)")
    case True
    then show ?thesis
      using torn_take_frame [OF True b, of "concat (map frame bs)"]
      by (intro exI [of _ 0] exI [of _ "take n (frame b)"]) simp
  next
    case False
    obtain k t where k: "take (n - length (frame b)) (concat (map frame bs)) = concat (map frame (take k bs)) @ t" "torn t"
      "k \<le> length bs" "length (concat (map frame (take k bs))) \<le> n - length (frame b)"
      "k < length bs \<longrightarrow> n - length (frame b) < length (concat (map frame (take (Suc k) bs)))"
      using Cons.IH Cons.prems by (meson list.set_intros(2))
    then show ?thesis using False by (intro exI [of _ "Suc k"] exI [of _ t]) auto
  qed
qed simp

text \<open>The environment in which segment \<open>g\<close> has been cut to its first \<open>n\<close> bytes.\<close>

definition cut_segment :: "posix_env \<Rightarrow> wal \<Rightarrow> nat \<Rightarrow> nat \<Rightarrow> posix_env" where
  "cut_segment e w g n = e\<lparr>ev_files := (ev_files e)(SegmentPath w g := map_option (take n) (ev_files e (SegmentPath w g)))\<rparr>"

lemma list_all2_take: "list_all2 P xs ys \<Longrightarrow> list_all2 P (take k xs) (take k ys)"
  by (simp add: list_all2_conv_all_nth)

text \<open>C9: a torn tail costs only the records it cuts. If a crash leaves the last segment
  of a log cut at any byte after its header, opening succeeds and replay applies
  all records of the earlier segments and exactly those of the last segment
  whose frames are complete; the incomplete frame is ignored, not reported.\<close>

theorem Wal_torn_tail:
  assumes disk: "wal_disk e w segs" and "segs \<noteq> []" and recs: "list_all2 (list_all2 (body_ok aes w)) segs recs" and n: "16 \<le> n"
  shows "\<exists>k e1 w1 e2. Wal_Open (cut_segment e w (length segs - 1) n) w = Some (Ok, e1, w1) \<and>
    k \<le> length (last segs) \<and> 16 + length (concat (map frame (take k (last segs)))) \<le> n \<and>
    (k < length (last segs) \<longrightarrow> n < 16 + length (concat (map frame (take (Suc k) (last segs))))) \<and>
    Wal_ReplayInto fp hash aes e1 w1 mem =
      Some (case replay_recs fp hash w1 (concat (butlast recs) @ take k (last recs)) mem of
        (st, w2, mem2) \<Rightarrow> (st, e2, w2, mem2))"
proof -
  obtain ss bs where ss: "segs = ss @ [bs]" using assms(2) by (cases segs rule: rev_cases) auto
  obtain rr rs where rr: "recs = rr @ [rs]" "list_all2 (list_all2 (body_ok aes w)) ss rr" "list_all2 (body_ok aes w) bs rs"
    using recs by (auto simp: ss list_all2_append1 list_all2_Cons1)
  have bl: "\<forall>b \<in> set bs. length b + 4 < 2 ^ 32"
    using rr(3) unfolding body_ok_def by (auto simp: list_all2_conv_all_nth in_set_conv_nth)
  obtain k t where k: "take (n - 16) (concat (map frame bs)) = concat (map frame (take k bs)) @ t" "torn t" "k \<le> length bs"
    "length (concat (map frame (take k bs))) \<le> n - 16" "k < length bs \<longrightarrow> n - 16 < length (concat (map frame (take (Suc k) bs)))"
    using take_frames [OF bl, of "n - 16"] by blast
  define m where "m = length ss"
  define e0 where "e0 = cut_segment e w m n"
  have fs: "\<forall>g < m. ev_files e0 (SegmentPath w g) = Some (wal_header @ concat (map frame (ss ! g)))"
    "ev_files e0 (SegmentPath w m) = Some (wal_header @ concat (map frame (take k bs)) @ t)"
    "ev_files e0 (SegmentPath w (Suc m)) = None" "ev_files e0 (SegmentPath w (Suc (Suc m))) = None" "calls_ok e0"
    using disk k(1) n
    by (simp_all add: e0_def cut_segment_def wal_disk_def wal_files_def ss m_def nth_append no_segments_from_def)
  have hd: "\<forall>g < Suc m. \<exists>cs. ev_files e0 (SegmentPath w g) = Some (wal_header @ cs)"
    using fs(1,2) by (auto simp: less_Suc_eq)
  obtain e1 w1 where o1: "Wal_Open e0 w = Some (Ok, e1, w1)" "opened e0 w (Suc m) e1 w1"
    using Wal_Open_opened [OF fs(5) hd fs(3)] by blast
  have cfg: "wal_cfg w1 = wal_cfg w" and fe: "ev_files e1 = (ev_files e0)(SegmentPath w (Suc m) \<mapsto> wal_header)" and c1: "calls_ok e1"
    using o1(2) by (simp_all add: opened_def)
  note sp = wal_cfg_SegmentPath [OF cfg]
  let ?segs = "ss @ [take k bs, []]" and ?ts = "replicate m [] @ [t, []]" and ?recs = "rr @ [take k rs, []]"
  have ok: "list_all2 (list_all2 (body_ok aes w1)) ?segs ?recs"
    unfolding wal_cfg_body_ok [OF cfg] using rr(2) list_all2_take [OF rr(3)] by (simp add: list_all2_appendI)
  have files: "\<forall>g < length ?segs. ev_files e1 (SegmentPath w1 (0 + g)) = Some (wal_header @ concat (map frame (?segs ! g)) @ ?ts ! g)"
    using fs(1,2) by (auto simp: sp fe m_def nth_append less_Suc_eq)
  have "\<exists>q. replay_from (replay_frame fp hash aes) e1 w1 0 mem =
    Some (case replay_recs fp hash w1 (concat ?recs) mem of (st, w2, mem2) \<Rightarrow> (st, e1\<lparr>ev_tick := q\<rparr>, w2, mem2))"
    by (rule replay_from_recs [OF c1 files _ _ _ ok]) (use k(2) fs(4) in \<open>auto simp: m_def sp fe\<close>)
  then obtain q where "replay_from (replay_frame fp hash aes) e1 w1 0 mem =
    Some (case replay_recs fp hash w1 (concat ?recs) mem of (st, w2, mem2) \<Rightarrow> (st, e1\<lparr>ev_tick := q\<rparr>, w2, mem2))" ..
  then show ?thesis
    using o1(1) k(3-5) n unfolding Wal_ReplayInto_def ss rr(1)
    by (intro exI [of _ k] exI [of _ e1] exI [of _ w1] exI [of _ "e1\<lparr>ev_tick := q\<rparr>"]) (auto simp: e0_def m_def)
qed

definition wal1 :: wal where
  "wal1 = Wal_new ''db'' 0 1000 kNever False ''''"

definition env1 :: posix_env where
  "env1 = env0\<lparr>ev_files := [SegmentPath wal1 0 \<mapsto> wal_header @ frame (del_plain 1 7)]\<rparr>"

lemma env1_log: "wal_disk env1 wal1 [[del_plain 1 7]]"
  by (simp add: wal_disk_def wal_files_def no_segments_from_def env1_def)

lemma env1_recs: "list_all2 (list_all2 (body_ok aes wal1)) [[del_plain 1 7]] [[(1, LDel 7)]]"
  by (simp add: body_ok_def unseal_def wal1_def Wal_new_def del_plain_def Let_def)

theorem Wal_torn_tail_witness:
  "\<forall>fp. \<exists>e1 w1 e2. Wal_Open (cut_segment env1 wal1 0 30) wal1 = Some (Ok, e1, w1) \<and>
    Wal_ReplayInto fp (\<lambda>x. x) aes_id e1 w1 (MemTable_new 1 64 False) = Some (Ok, e2, w1, MemTable_new 1 64 False)"
proof
  fix fp
  have "length (frame (del_plain 1 7)) = 29" by (simp add: length_frame del_plain_def)
  then show "\<exists>e1 w1 e2. Wal_Open (cut_segment env1 wal1 0 30) wal1 = Some (Ok, e1, w1) \<and>
    Wal_ReplayInto fp (\<lambda>x. x) aes_id e1 w1 (MemTable_new 1 64 False) = Some (Ok, e2, w1, MemTable_new 1 64 False)"
    using Wal_torn_tail [OF env1_log _ env1_recs, where n = 30 and fp = fp and hash = "\<lambda>x. x" and aes = aes_id
        and mem = "MemTable_new 1 64 False"]
    by (auto simp: le_Suc_eq)
qed

subsection \<open>Damaged bytes\<close>

text \<open>Replay stops at the first frame that fails, with the effect of those before it.\<close>

definition raw_frame :: "byte list \<Rightarrow> byte list" where
  "raw_frame body = u32_bytes (word_of_nat (length body)) @ body"

lemma replay_loop_fails:
  assumes c: "calls_ok e" and fil: "ev_files e path = Some (pre @ concat (map frame bs) @ raw_frame body @ rest)"
    and ok: "list_all2 (body_ok aes w) bs rs" and l: "length body < 2 ^ 32"
    and rep: "replay_recs fp hash w rs mem = (Ok, w', mem')"
    and bad: "replay_frame fp hash aes w' body mem' = (st, w'', mem'')" "\<not> st_ok st"
    and sz: "fsize = length (pre @ concat (map frame bs) @ raw_frame body @ rest)" and off: "off = length pre"
  shows "\<exists>n. replay_loop (replay_frame fp hash aes) e w path fsize off mem = (st, e\<lparr>ev_tick := n\<rparr>, w'', mem'')"
  using c fil ok rep sz off
proof (induction bs arbitrary: e w pre rs off mem)
  case Nil
  define L where "L = (word_of_nat (length body) :: u32)"
  have n: "unat L = length body" unfolding L_def using l by (rule unat_u32_of_nat)
  have fil: "ev_files e path = Some (pre @ u32_bytes L @ body @ rest)" using Nil(2) by (simp add: raw_frame_def L_def)
  have rf: "replay_frame fp hash aes w body mem = (st, w'', mem'')" using Nil(3,4) bad(1) by simp
  define e1 where "e1 = e\<lparr>ev_tick := ev_tick e + 1\<rparr>"
  have r1: "Raf_Read e path off 4 = (Ok, u32_bytes L, e1)"
    using fil Nil(1,6) by (simp add: Raf_Read_def sys_ok e1_def)
  have r2: "Raf_Read e1 path (off + 4) (length body) = (Ok, body, e1\<lparr>ev_tick := ev_tick e + 2\<rparr>)"
    using fil Nil(1,6) by (simp add: Raf_Read_def sys_ok e1_def)
  have "off + 4 \<le> fsize" "off + 4 + length body \<le> fsize" using Nil(5,6) by (simp_all add: raw_frame_def)
  then have "replay_loop (replay_frame fp hash aes) e w path fsize off mem = (st, e1\<lparr>ev_tick := ev_tick e + 2\<rparr>, w'', mem'')"
    using bad(2) by (subst replay_loop.simps) (simp add: r1 r2 n rf bytes_u32_u32' Let_def)
  then show ?case by (auto simp: e1_def)
next
  case (Cons a bs)
  obtain s r rs' where rs: "rs = (s, r) # rs'" using Cons.prems(3) by (auto simp: list_all2_Cons1)
  have a: "body_ok aes w a (s, r)" and bs: "list_all2 (body_ok aes w) bs rs'" using Cons.prems(3) rs by simp_all
  have al: "length a + 4 < 2 ^ 32" using a by (simp only: body_ok_def)
  let ?e = "e\<lparr>ev_tick := ev_tick e + 2\<rparr>"
  obtain st1 mem1 where ap: "apply_rec fp hash s r mem = (st1, mem1)" by (cases "apply_rec fp hash s r mem")
  have st: "st_ok st1" and rep1: "replay_recs fp hash (note_seq w s) rs' mem1 = (Ok, w', mem')"
    using Cons.prems(4) ap by (auto simp: rs split: if_splits)
  have step: "replay_loop (replay_frame fp hash aes) e w path fsize off mem =
      replay_loop (replay_frame fp hash aes) ?e (note_seq w s) path fsize (off + length (frame a)) mem1"
    using replay_loop_step [OF Cons.prems(1) _ al, of path pre "concat (map frame bs) @ raw_frame body @ rest" fsize off "replay_frame fp hash aes" w mem]
      Cons.prems(2,5,6) replay_frame_body [OF a, of fp hash mem] ap st by simp
  have "\<exists>n. replay_loop (replay_frame fp hash aes) ?e (note_seq w s) path fsize (off + length (frame a)) mem1 = (st, ?e\<lparr>ev_tick := n\<rparr>, w'', mem'')"
    by (rule Cons.IH [where pre = "pre @ frame a", OF _ _ _ rep1]) (use Cons.prems bs in simp_all)
  then show ?case using step by simp
qed

lemma replay_from_steps:
  assumes "calls_ok e" "\<forall>g < length segs. ev_files e (SegmentPath w (k + g)) = Some (wal_header @ concat (map frame (segs ! g)))"
    "list_all2 (list_all2 (body_ok aes w)) segs recs" "replay_recs fp hash w (concat recs) mem = (Ok, w', mem')"
  shows "\<exists>n. replay_from (replay_frame fp hash aes) e w k mem = replay_from (replay_frame fp hash aes) (e\<lparr>ev_tick := n\<rparr>) w' (k + length segs) mem'"
  using assms
proof (induction segs arbitrary: e w k recs mem)
  case Nil
  then show ?case by (auto intro: exI [of _ "ev_tick e"])
next
  case (Cons bs segs)
  obtain rs recs' where recs: "recs = rs # recs'" "list_all2 (body_ok aes w) bs rs" "list_all2 (list_all2 (body_ok aes w)) segs recs'"
    using Cons.prems(3) by (auto simp: list_all2_Cons1)
  obtain st w2 mem2 where rr: "replay_recs fp hash w rs mem = (st, w2, mem2)" by (cases "replay_recs fp hash w rs mem")
  have st: "st_ok st" and rr2: "replay_recs fp hash w2 (concat recs') mem2 = (Ok, w', mem')"
    using Cons.prems(4) rr by (auto simp: recs(1) replay_recs_append split: if_splits)
  have f0: "ev_files e (SegmentPath w k) = Some (wal_header @ concat (map frame bs) @ [])"
    using Cons.prems(2) [rule_format, of 0] by simp
  define e1 where "e1 = e\<lparr>ev_tick := ev_tick e + 1\<rparr>"
  have fe: "FileExists e (SegmentPath w k) = (Ok, e1)" using Cons.prems(1) f0 by (simp add: FileExists_def sys_ok e1_def)
  have "\<exists>n. replay_segment (replay_frame fp hash aes) e1 w k mem = (st, e1\<lparr>ev_tick := n\<rparr>, w2, mem2)"
    using replay_segment_recs [of e1 w k bs "[]" aes rs fp hash mem] Cons.prems(1) f0 recs(2) rr by (simp add: e1_def)
  then obtain n where seg: "replay_segment (replay_frame fp hash aes) e1 w k mem = (st, e\<lparr>ev_tick := n\<rparr>, w2, mem2)" by (auto simp: e1_def)
  note W = SegmentPath_replay_recs [OF rr]
  have eq: "replay_from (replay_frame fp hash aes) e w k mem = replay_from (replay_frame fp hash aes) (e\<lparr>ev_tick := n\<rparr>) w2 (Suc k) mem2"
    by (subst replay_from.simps) (simp add: fe seg st)
  have "\<exists>m. replay_from (replay_frame fp hash aes) (e\<lparr>ev_tick := n\<rparr>) w2 (Suc k) mem2 =
    replay_from (replay_frame fp hash aes) (e\<lparr>ev_tick := n\<rparr>\<lparr>ev_tick := m\<rparr>) w' (Suc k + length segs) mem'"
  proof (rule Cons.IH [OF _ _ _ rr2])
    show "\<forall>g < length segs. ev_files (e\<lparr>ev_tick := n\<rparr>) (SegmentPath w2 (Suc k + g)) = Some (wal_header @ concat (map frame (segs ! g)))"
      using Cons.prems(2) W by (auto dest: spec [of _ "Suc _"])
    have "body_ok aes w2 = body_ok aes w" using W by (intro body_ok_cong) simp_all
    then show "list_all2 (list_all2 (body_ok aes w2)) segs recs'" using recs(3) by simp
  qed (use Cons.prems in simp)
  then show ?case using eq by simp
qed

lemma replay_recs_Ok: "replay_recs fp hash w rs mem = (st, w', mem') \<Longrightarrow> st_ok st \<Longrightarrow> st = Ok"
  by (induction fp hash w rs mem rule: replay_recs.induct) (auto split: prod.splits if_splits)

lemma Crc32c_damaged:
  "length us = length vs \<Longrightarrow> length us \<le> 4 \<Longrightarrow> us \<noteq> vs \<Longrightarrow> Crc32c (pre @ us @ post) s \<noteq> Crc32c (pre @ vs @ post) s"
  using crc_loop_burst by (simp add: Crc32c_def crc_loop_append)

lemma replay_fails:
  assumes c: "calls_ok e" and files: "\<forall>g < length ss. ev_files e (SegmentPath w g) = Some (wal_header @ concat (map frame (ss ! g)))"
    and fil: "ev_files e (SegmentPath w (length ss)) = Some (wal_header @ concat (map frame bs) @ raw_frame body @ rest)"
    and recs: "list_all2 (list_all2 (body_ok aes w)) ss rr" "list_all2 (body_ok aes w) bs rs" and l: "length body < 2 ^ 32"
    and rep: "replay_recs fp hash w (concat rr @ rs) mem = (Ok, w', mem')"
    and bad: "replay_frame fp hash aes w' body mem' = (st, w'', mem'')" "\<not> st_ok st"
  shows "\<exists>e1. Wal_ReplayInto fp hash aes e w mem = Some (st, e1, w'', mem'')"
proof -
  define n where "n = length ss"
  obtain w1 mem1 where r1: "replay_recs fp hash w (concat rr) mem = (Ok, w1, mem1)" "replay_recs fp hash w1 rs mem1 = (Ok, w', mem')"
    using rep by (auto simp: replay_recs_append dest: replay_recs_Ok split: prod.splits if_splits)
  have "\<forall>g < length ss. ev_files e (SegmentPath w (0 + g)) = Some (wal_header @ concat (map frame (ss ! g)))" using files by simp
  from replay_from_steps [OF c this recs(1) r1(1)]
  obtain t where st: "replay_from (replay_frame fp hash aes) e w 0 mem = replay_from (replay_frame fp hash aes) (e\<lparr>ev_tick := t\<rparr>) w1 n mem1"
    by (auto simp: n_def)
  note W = SegmentPath_replay_recs [OF r1(1)]
  let ?c = "wal_header @ concat (map frame bs) @ raw_frame body @ rest"
  have f: "ev_files e (SegmentPath w1 n) = Some ?c" using W fil by (simp add: n_def)
  have ok: "list_all2 (body_ok aes w1) bs rs" using recs(2) W by (simp add: body_ok_cong [of w1 w])
  define e2 where "e2 = e\<lparr>ev_tick := Suc (Suc (Suc (Suc t)))\<rparr>"
  have "\<exists>m. replay_loop (replay_frame fp hash aes) e2 w1 (SegmentPath w1 n) (length ?c) 16 mem1 = (st, e2\<lparr>ev_tick := m\<rparr>, w'', mem'')"
    by (rule replay_loop_fails [OF _ _ ok l r1(2) bad, where pre = wal_header]) (use c f in \<open>simp_all add: e2_def\<close>)
  moreover have "replay_segment (replay_frame fp hash aes) (e\<lparr>ev_tick := Suc t\<rparr>) w1 n mem1 =
      replay_loop (replay_frame fp hash aes) e2 w1 (SegmentPath w1 n) (length ?c) 16 mem1"
    using c f by (simp add: replay_segment_def NewRandomAccessFile_def GetFileSize_def segment_start_def Raf_Read_def sys_ok
        wal_header_fields e2_def)
  ultimately obtain m where seg: "replay_segment (replay_frame fp hash aes) (e\<lparr>ev_tick := Suc t\<rparr>) w1 n mem1 = (st, e2\<lparr>ev_tick := m\<rparr>, w'', mem'')"
    by auto
  have "FileExists (e\<lparr>ev_tick := t\<rparr>) (SegmentPath w1 n) = (Ok, e\<lparr>ev_tick := Suc t\<rparr>)"
    using c f by (simp add: FileExists_def sys_ok)
  then have "replay_from (replay_frame fp hash aes) (e\<lparr>ev_tick := t\<rparr>) w1 n mem1 = Some (st, e2\<lparr>ev_tick := m\<rparr>, w'', mem'')"
    using bad(2) by (subst replay_from.simps) (simp add: seg)
  then show ?thesis using st by (simp add: Wal_ReplayInto_def)
qed

text \<open>C19: damage is reported, not replayed. If up to four adjacent bytes of a logged
  record body change in any segment (and the length fields are intact), replay
  returns \<open>Corruption\<close> at that frame; the memtable holds the updates of exactly
  the records before it.\<close>

theorem Wal_damage_detected:
  assumes disk: "wal_disk e w (ss @ [bs1 @ b # bs2] @ ss')"
    and recs: "list_all2 (list_all2 (body_ok aes w)) ss rr" "list_all2 (body_ok aes w) bs1 rs" "21 \<le> length b" "length b + 4 < 2 ^ 32"
    and b: "b = pre @ us @ post" "length us = length vs" "length us \<le> 4" "us \<noteq> vs"
    and e': "e' = e\<lparr>ev_files := (ev_files e)(SegmentPath w (length ss) \<mapsto>
      wal_header @ concat (map frame bs1) @ u32_bytes (word_of_nat (length b + 4)) @ (pre @ vs @ post) @
      u32_bytes (Crc32c b 0) @ concat (map frame bs2))\<rparr>"
    and rep: "replay_recs fp hash w (concat rr @ rs) mem = (Ok, w', mem')"
  shows "\<exists>e1. Wal_ReplayInto fp hash aes e' w mem = Some (Corruption ''wal crc mismatch'', e1, w', mem')"
proof -
  define b' where "b' = pre @ vs @ post"
  define body where "body = b' @ u32_bytes (Crc32c b 0)"
  have len: "length b' = length b" by (simp add: b'_def b(1,2))
  have "Crc32c b 0 \<noteq> Crc32c b' 0" unfolding b(1) b'_def by (rule Crc32c_damaged [OF b(2-4)])
  then have bad: "replay_frame fp hash aes w' body mem' = (Corruption ''wal crc mismatch'', w', mem')"
    using recs(3) len by (simp add: replay_frame_def Let_def body_def bytes_u32_u32')
  have lb: "length body < 2 ^ 32" using recs(4) len by (simp add: body_def)
  have c: "calls_ok e'" using disk by (simp add: e' wal_disk_def)
  have files: "\<forall>g < length ss. ev_files e' (SegmentPath w g) = Some (wal_header @ concat (map frame (ss ! g)))"
    using disk by (auto simp: e' wal_disk_def wal_files_def nth_append)
  have fil: "ev_files e' (SegmentPath w (length ss)) = Some (wal_header @ concat (map frame bs1) @ raw_frame body @ concat (map frame bs2))"
    using len by (simp add: e' raw_frame_def body_def b'_def [symmetric])
  show ?thesis by (rule replay_fails [OF c files fil recs(1,2) lb rep bad]) simp
qed

theorem Wal_damage_detected_witness:
  "\<forall>fp. \<exists>e1. Wal_ReplayInto fp (\<lambda>x. x) aes_id
     (env1\<lparr>ev_files := [SegmentPath wal1 0 \<mapsto> wal_header @ u32_bytes 25 @ rp_bytes 1 kDel 7 9 @ u32_bytes (Crc32c (del_plain 1 7) 0)]\<rparr>)
     wal1 (MemTable_new 1 64 False) = Some (Corruption ''wal crc mismatch'', e1, wal1, MemTable_new 1 64 False)"
proof
  fix fp
  have disk: "wal_disk env1 wal1 ([] @ [[] @ del_plain 1 7 # []] @ [])" using env1_log by simp
  have b: "del_plain 1 7 = (u64_bytes 1 @ [kDel] @ u64_bytes 7) @ u32_bytes 0 @ []"
    "rp_bytes 1 kDel 7 9 = (u64_bytes 1 @ [kDel] @ u64_bytes 7) @ u32_bytes 9 @ []"
    by (simp_all add: del_plain_def rp_bytes_def)
  have "bytes_u32 (u32_bytes 0) \<noteq> bytes_u32 (u32_bytes 9)" by (simp only: bytes_u32_u32') simp
  then have "u32_bytes 0 \<noteq> u32_bytes 9" by (rule contrapos_nn) (rule arg_cong)
  then show "\<exists>e1. Wal_ReplayInto fp (\<lambda>x. x) aes_id
     (env1\<lparr>ev_files := [SegmentPath wal1 0 \<mapsto> wal_header @ u32_bytes 25 @ rp_bytes 1 kDel 7 9 @ u32_bytes (Crc32c (del_plain 1 7) 0)]\<rparr>)
     wal1 (MemTable_new 1 64 False) = Some (Corruption ''wal crc mismatch'', e1, wal1, MemTable_new 1 64 False)"
    using Wal_damage_detected [OF disk _ _ _ _ b(1), where vs = "u32_bytes 9" and rr = "[]" and rs = "[]" and fp = fp
        and hash = "\<lambda>x. x" and mem = "MemTable_new 1 64 False" and aes = aes_id, OF _ _ _ _ _ _ _ refl]
    unfolding b(2) by (simp add: env1_def del_plain_def)
qed

subsection \<open>What breaks recovery\<close>

lemma check_headers_append:
  "check_headers e w (xs @ ys) = (case check_headers e w xs of (st, e1) \<Rightarrow> if st_ok st then check_headers e1 w ys else (st, e1))"
  by (induction xs arbitrary: e) (auto split: prod.splits)

text \<open>A crash between the creation of a segment file and the write of its header
  makes the log unopenable. If the last segment is shorter than the 16-byte
  header (for example empty), \<open>Open\<close> returns \<open>Aborted\<close> and changes no file, although
  replay takes incomplete data at the end of a segment as its end.\<close>

theorem Wal_Open_torn_header:
  assumes "calls_ok e" "\<forall>g < n. \<exists>bs. ev_files e (SegmentPath w g) = Some (wal_header @ bs)"
    "ev_files e (SegmentPath w n) = Some short" "length short < 16" "ev_files e (SegmentPath w (Suc n)) = None"
  shows "\<exists>e' w'. Wal_Open e w = Some (Aborted ''wal header short'', e', w') \<and> ev_files e' = ev_files e"
proof -
  obtain t1 where cd: "CreateDirIfMissing e (wal_db_path w) = (Ok, e\<lparr>ev_tick := t1\<rparr>)"
    using CreateDirIfMissing_ok [OF assms(1)] by blast
  have "\<exists>t. find_gen (e\<lparr>ev_tick := t1\<rparr>) w 0 = Some (Suc n, e\<lparr>ev_tick := t1\<rparr>\<lparr>ev_tick := t\<rparr>)"
    by (rule find_gen_files) (use assms in \<open>auto simp: less_Suc_eq\<close>)
  then obtain t2 where fg: "find_gen (e\<lparr>ev_tick := t1\<rparr>) w 0 = Some (Suc n, e\<lparr>ev_tick := t2\<rparr>)" by auto
  define w1 where "w1 = w\<lparr>wal_gen := Suc n\<rparr>"
  have sp: "SegmentPath w1 = SegmentPath w" by (rule wal_cfg_SegmentPath) (simp add: w1_def wal_cfg_def)
  have "\<exists>t. check_headers (e\<lparr>ev_tick := t2\<rparr>) w1 [0..<n] = (Ok, e\<lparr>ev_tick := t2\<rparr>\<lparr>ev_tick := t\<rparr>)"
    by (rule check_headers_ok) (use assms in \<open>auto simp: sp\<close>)
  then obtain t3 where ch: "check_headers (e\<lparr>ev_tick := t2\<rparr>) w1 [0..<n] = (Ok, e\<lparr>ev_tick := t3\<rparr>)" by auto
  have "check_headers (e\<lparr>ev_tick := t3\<rparr>) w1 [n] = (Aborted ''wal header short'', e\<lparr>ev_tick := Suc (Suc t3)\<rparr>)"
    using assms(1,3,4) by (simp add: NewRandomAccessFile_def Raf_Read_def sys_ok sp)
  then have "check_headers (e\<lparr>ev_tick := t2\<rparr>) w1 [0..<Suc n] = (Aborted ''wal header short'', e\<lparr>ev_tick := Suc (Suc t3)\<rparr>)"
    using ch by (simp add: check_headers_append)
  then show ?thesis using cd fg by (simp add: Wal_Open_def w1_def [symmetric] Let_def)
qed

theorem Wal_Open_torn_header_witness:
  "\<exists>e' w'. Wal_Open (env0\<lparr>ev_files := [SegmentPath wal1 0 \<mapsto> []]\<rparr>) wal1 = Some (Aborted ''wal header short'', e', w') \<and>
     ev_files e' = [SegmentPath wal1 0 \<mapsto> []]"
  using Wal_Open_torn_header [of "env0\<lparr>ev_files := [SegmentPath wal1 0 \<mapsto> []]\<rparr>" 0 wal1 "[]"] by simp

lemma concat_singleton: "concat xss = [x] \<Longrightarrow> \<exists>ys zs. xss = ys @ [x] # zs \<and> concat ys = []"
proof (induction xss)
  case (Cons xs xss)
  then show ?case
  proof (cases xs)
    case Nil
    then obtain ys zs where "xss = ys @ [x] # zs" "concat ys = []" using Cons by auto
    then show ?thesis using Nil by (intro exI [of _ "[] # ys"] exI [of _ zs]) simp
  next
    case (Cons y ys)
    then show ?thesis using Cons.prems by (intro exI [of _ "[]"] exI [of _ xss]) simp
  qed
qed simp

text \<open>Metadata without a tenant makes the log unreadable. \<open>AppendPut\<close> on an
  unencrypted log accepts a vector whose metadata has a device, a location, a
  timestamp or a source id but no tenant, and returns \<open>Ok\<close>; it logs the metadata
  under the operation code of a bare vector, and every later replay of the log
  stops there with \<open>Corruption\<close>, before this record and all that follow it.\<close>

theorem Wal_meta_without_tenant:
  assumes "calls_ok e" and w: "w = Wal_new path shard seg fs False hex" and "no_segments_from e w 0"
    and m: "md_tenant m = ''''" "has_wal_meta m" "length v < 2 ^ 24" "length (meta_bytes m) < 2 ^ 24"
  shows "\<exists>e1 w1 e2 w2 e3 w3 e4. Wal_Open e w = Some (Ok, e1, w1) \<and> Wal_AppendPut aes e1 w1 i v m = (Ok, e2, w2) \<and>
    Wal_Open e2 w = Some (Ok, e3, w3) \<and>
    Wal_ReplayInto fp hash aes e3 w3 mem = Some (Corruption ''wal put length mismatch'', e4, w3, mem)"
proof -
  have w0: "wal_seq w = 0" "\<not> wal_enc w" by (simp_all add: w Wal_new_def Let_def)
  obtain e1 w1 where o1: "Wal_Open e w = Some (Ok, e1, w1)" "wal_cfg w1 = wal_cfg w" "wal_seq w1 = 0" "wal_log e1 w1 [[]]"
    using log_holds_empty [OF assms(1,3), of undefined] w0 by auto
  define p where "p = put_plain 1 i v m"
  have p: "p = rp_bytes 1 kPut i (vv_dim v) @ float_bytes v @ meta_bytes m" using m by (simp add: p_def put_plain_def)
  have pl: "21 \<le> length p" "length p + 4 < 2 ^ 32" using m by (simp_all add: p)
  define w1' where "w1' = w1\<lparr>wal_seq := 1\<rparr>"
  have c1: "wal_cfg w1' = wal_cfg w" "wal_log e1 w1' [[]]" using o1(2,4) by (simp_all add: w1'_def wal_cfg_def)
  obtain st e2 w2 where a: "append_record aes e1 w1' 1 p = (st, e2, w2)" by (cases "append_record aes e1 w1' 1 p")
  have "seal aes w1' 1 p = (Ok, p)" using c1(1) w0 by (simp add: seal_def wal_cfg_def)
  note A = append_record_sealed [OF c1(2) this pl(2) a]
  have app: "Wal_AppendPut aes e1 w1 i v m = (Ok, e2, w2)" using a A(1) o1(3) by (simp add: Wal_AppendPut_def p_def w1'_def Let_def)
  obtain segs where segs: "wal_log e2 w2 segs" "concat segs = [p]" using A(4) by auto
  have "wal_cfg w = wal_cfg w2" using A(2) c1 by simp
  from Wal_Open_log [OF wal_log_disk [OF segs(1) this]]
  obtain e3 w3 where o3: "Wal_Open e2 w = Some (Ok, e3, w3)" "wal_log e3 w3 (segs @ [[]])" "wal_cfg w3 = wal_cfg w" by blast
  obtain ss ss' where ss: "segs @ [[]] = ss @ [p] # ss'" "concat ss = []"
    using concat_singleton [OF segs(2)] by auto
  have all: "\<forall>g < length (ss @ [p] # ss'). ev_files e3 (SegmentPath w3 g) = Some (wal_header @ concat (map frame ((ss @ [p] # ss') ! g)))"
    and c3: "calls_ok e3"
    using o3(2) unfolding ss(1) wal_log_def wal_ready_def wal_files_def by blast+
  have f1: "\<forall>g < length ss. ev_files e3 (SegmentPath w3 g) = Some (wal_header @ concat (map frame (ss ! g)))"
    using all by (simp add: nth_append)
  have f2: "ev_files e3 (SegmentPath w3 (length ss)) = Some (wal_header @ concat (map frame []) @ raw_frame (p @ u32_bytes (Crc32c p 0)) @ [])"
    using all [rule_format, of "length ss"] by (simp add: raw_frame_def frame_def)
  have enc: "\<not> wal_enc w3" using o3(3) w0 by (simp add: wal_cfg_def)
  have "unat (vv_dim v) = length v" "meta_bytes m \<noteq> []" using m(3) length_meta_bytes [of m] by (auto simp: unat_vv_dim)
  then have "replay_payload fp hash w3 (length p + 4) p mem = (Corruption ''wal put length mismatch'', w3, mem)"
    using enc by (simp add: replay_payload_def p Let_def)
  then have bad: "replay_frame fp hash aes w3 (p @ u32_bytes (Crc32c p 0)) mem = (Corruption ''wal put length mismatch'', w3, mem)"
    using pl(1) enc by (simp add: replay_frame_def unseal_def bytes_u32_u32' Let_def)
  have "\<forall>s \<in> set ss. s = []" using ss(2) by simp
  then have "list_all2 (list_all2 (body_ok aes w3)) ss (replicate (length ss) [])"
    by (induction ss) simp_all
  from replay_fails [OF c3 f1 f2 this _ _ _ bad, of "[]"]
  show ?thesis using o1(1) app o3(1) pl(2) by auto
qed

theorem Wal_meta_without_tenant_witness:
  "\<forall>fp. \<exists>e1 w1 e2 w2 e3 w3 e4. Wal_Open env0 wal1 = Some (Ok, e1, w1) \<and>
    Wal_AppendPut aes_id e1 w1 7 [5] (Metadata0\<lparr>md_timestamp := 1700000000\<rparr>) = (Ok, e2, w2) \<and>
    Wal_Open e2 wal1 = Some (Ok, e3, w3) \<and>
    Wal_ReplayInto fp (\<lambda>x. x) aes_id e3 w3 (MemTable_new 1 64 False) =
      Some (Corruption ''wal put length mismatch'', e4, w3, MemTable_new 1 64 False)"
  using Wal_meta_without_tenant [OF env0_ok(1) wal1_def env0_ok(2), of "Metadata0\<lparr>md_timestamp := 1700000000\<rparr>" "[5]"]
  by (simp add: Metadata0_def has_wal_meta_def meta_bytes_def length_AppendString)

subsection \<open>Reset\<close>

lemma delete_segments_all:
  assumes "calls_ok e" "\<forall>g. k \<le> g \<and> g < n \<longrightarrow> ev_files e (SegmentPath w g) \<noteq> None" "ev_files e (SegmentPath w n) = None" "k \<le> n"
  shows "\<exists>t. delete_segments e w k = Some (e\<lparr>ev_files := (\<lambda>p. if \<exists>g. k \<le> g \<and> g < n \<and> p = SegmentPath w g then None else ev_files e p), ev_tick := t\<rparr>)"
  using assms
proof (induction "n - k" arbitrary: e k)
  case 0
  then have eq: "(\<lambda>p. if \<exists>g. k \<le> g \<and> g < n \<and> p = SegmentPath w g then None else ev_files e p) = ev_files e"
    by (auto simp: fun_eq_iff)
  show ?case
    unfolding eq using 0 by (subst delete_segments.simps) (auto simp: FileExists_def sys_ok intro: exI [of _ "Suc (ev_tick e)"])
next
  case (Suc d)
  obtain y where y: "ev_files e (SegmentPath w k) = Some y" using Suc.prems(2) Suc.hyps(2) by fastforce
  define e1 where "e1 = e\<lparr>ev_tick := ev_tick e + 2, ev_files := (ev_files e)(SegmentPath w k := None)\<rparr>"
  have step: "delete_segments e w k = delete_segments e1 w (Suc k)"
    using Suc.prems(1) y by (subst delete_segments.simps) (simp add: FileExists_def DeleteFile_def sys_ok e1_def)
  have IH: "\<exists>t. delete_segments e1 w (Suc k) = Some (e1\<lparr>ev_files := (\<lambda>p. if \<exists>g. Suc k \<le> g \<and> g < n \<and> p = SegmentPath w g then None else ev_files e1 p), ev_tick := t\<rparr>)"
    by (rule Suc.hyps(1)) (use Suc.prems Suc.hyps(2) in \<open>auto simp: e1_def\<close>)
  have ex: "(\<exists>g. k \<le> g \<and> g < n \<and> p = SegmentPath w g) \<longleftrightarrow>
      p = SegmentPath w k \<or> (\<exists>g. Suc k \<le> g \<and> g < n \<and> p = SegmentPath w g)" for p
    using Suc.hyps(2) by (auto simp: Suc_le_eq le_less)
  have eq: "(\<lambda>p. if \<exists>g. Suc k \<le> g \<and> g < n \<and> p = SegmentPath w g then None else ev_files e1 p) =
      (\<lambda>p. if \<exists>g. k \<le> g \<and> g < n \<and> p = SegmentPath w g then None else ev_files e p)"
    by (intro ext) (auto simp: ex e1_def)
  show ?case using IH [unfolded eq] step by (simp add: e1_def)
qed

text \<open>\<open>Reset\<close> empties the log. On an open log it deletes every segment, opens segment
  0 with a bare header, leaves every other file as it was, and starts the
  sequence again at 0. Because it also starts the segment numbers again at 0, the
  nonce of the next encrypted record is the one the first record of the log
  had, under the same key.\<close>

theorem Wal_Reset_empties:
  assumes log: "wal_log e w segs"
  shows "\<exists>e' w'. Wal_Reset e w = Some (Ok, e', w') \<and> wal_log e' w' [[]] \<and> wal_seq w' = 0 \<and> wal_cfg w' = wal_cfg w \<and> wal_only w e e' \<and>
    MakeNonce (wal_shard_id w') (wal_seq w' + 1) (wal_gen w') = MakeNonce (wal_shard_id w) 1 0 \<and> wal_key w' = wal_key w"
proof -
  obtain f where f: "wal_impl w = Some f" "wf_ready e f" using log by (auto simp: wal_log_def wal_ready_def)
  have c: "calls_ok e" and fs: "wal_files e w segs" and ns: "no_segments_from e w (length segs)"
    using log by (simp_all add: wal_log_def wal_ready_def)
  define e1 where "e1 = fst (snd (Wf_Close e f))"
  have e1: "calls_ok e1" "ev_files e1 = ev_files e" "ev_chunk e1 = ev_chunk e" using c f(2) by (simp_all add: e1_def Wf_Close_def sys_ok wf_ready_def)
  define F where "F = (\<lambda>p. if \<exists>g. 0 \<le> g \<and> g < length segs \<and> p = SegmentPath w g then None else ev_files e1 p)"
  have "\<exists>t. delete_segments e1 w 0 = Some (e1\<lparr>ev_files := F, ev_tick := t\<rparr>)"
    unfolding F_def by (rule delete_segments_all) (use e1 fs in \<open>auto simp: wal_files_def\<close>)
  then obtain t where d: "delete_segments e1 w 0 = Some (e1\<lparr>ev_files := F, ev_tick := t\<rparr>)" ..
  define w1 where "w1 = w\<lparr>wal_impl := None, wal_gen := 0, wal_seq := 0, wal_file_off := 0, wal_bytes_in_seg := 0, wal_bytes_total := 0\<rparr>"
  have cfg: "wal_cfg w1 = wal_cfg w" "wal_seq w1 = 0" by (simp_all add: w1_def wal_cfg_def)
  note sp = wal_cfg_SegmentPath [OF cfg(1)]
  have none: "F (SegmentPath w g) = None" for g
    using ns e1(2) by (cases "g < length segs") (simp_all add: F_def no_segments_from_def)
  have r: "Wal_Reset e w = Wal_Open (e1\<lparr>ev_files := F, ev_tick := t\<rparr>) w1"
    using f(1) d by (simp add: Wal_Reset_def e1_def [symmetric] w1_def)
  have "\<exists>e' w'. Wal_Open (e1\<lparr>ev_files := F, ev_tick := t\<rparr>) w1 = Some (Ok, e', w') \<and> opened (e1\<lparr>ev_files := F, ev_tick := t\<rparr>) w1 0 e' w'"
    by (rule Wal_Open_opened) (use e1 none in \<open>simp_all add: sp\<close>)
  then obtain e' w' where o1: "Wal_Reset e w = Some (Ok, e', w')" "opened (e1\<lparr>ev_files := F, ev_tick := t\<rparr>) w1 0 e' w'"
    using r by auto
  have c': "wal_cfg w' = wal_cfg w" using o1(2) cfg by (simp add: opened_def)
  note sp' = wal_cfg_SegmentPath [OF c']
  have fe: "ev_files e' = F(SegmentPath w 0 \<mapsto> wal_header)" using o1(2) by (simp add: opened_def sp)
  have l: "wal_log e' w' [[]]"
    using o1(2) none by (auto simp: wal_log_def wal_ready_def wal_files_def no_segments_from_def sp' sp fe opened_def)
  have "wal_seq w' = 0" "wal_gen w' = 0" using o1(2) cfg by (simp_all add: opened_def)
  moreover have "wal_shard_id w' = wal_shard_id w" "wal_key w' = wal_key w" using c' by (simp_all add: wal_cfg_def)
  moreover have "ev_chunk e' = ev_chunk e" using o1(2) e1(3) by (simp add: opened_def)
  moreover from this have "wal_only w e e'" by (auto simp: wal_only_def fe F_def e1(2))
  ultimately show ?thesis using o1(1) l c' by auto
qed

lemma env1_open: "\<exists>e1 w1. Wal_Open env1 wal1 = Some (Ok, e1, w1) \<and> wal_log e1 w1 [[del_plain 1 7], []]"
  using Wal_Open_log [OF env1_log] by auto

theorem Wal_Reset_empties_witness:
  "\<exists>e1 w1 e2 w2. Wal_Open env1 wal1 = Some (Ok, e1, w1) \<and> Wal_Reset e1 w1 = Some (Ok, e2, w2) \<and>
     wal_log e2 w2 [[]] \<and> wal_seq w2 = 0"
proof -
  obtain e1 w1 where o1: "Wal_Open env1 wal1 = Some (Ok, e1, w1)" "wal_log e1 w1 [[del_plain 1 7], []]" using env1_open by blast
  show ?thesis using Wal_Reset_empties [OF o1(2)] o1(1) by blast
qed

end
