(* ===== verification/Posix_File.thy ===== *)
theory Posix_File
  imports Env
begin

text \<open>
  The two other layers over system calls: the stream classes of
  \<open>src/core/storage/io_provider.h\<close>, whose \<open>Append\<close> is one \<open>write\<close> that may be short,
  and \<open>PosixFile\<close> of \<open>src/util/posix_file.cc\<close>, whose \<open>PWrite\<close> and \<open>ReadAt\<close> loop until
  done; and what the sources use of \<open>std::filesystem\<close>.  System calls are those of
  the environment: a failing one has an error message, a short write or read a
  length.  An exception thrown by \<open>std::filesystem\<close> is the status \<open>Thrown\<close>.
\<close>

subsection \<open>The stream classes\<close>

record iofile =
  io_open :: bool
  io_path :: string
  io_pos :: nat
  io_written :: nat

definition put_bytes :: "posix_env \<Rightarrow> string \<Rightarrow> nat \<Rightarrow> byte list \<Rightarrow> posix_env" where
  "put_bytes e p off bs = e\<lparr>ev_files := (ev_files e)(p := map_option (\<lambda>c. pwrite_at c off bs) (ev_files e p))\<rparr>"

definition content_of :: "posix_env \<Rightarrow> string \<Rightarrow> byte list" where
  "content_of e p = (case ev_files e p of Some c \<Rightarrow> c | None \<Rightarrow> [])"

definition iop_NewSequentialFile :: "posix_env \<Rightarrow> string \<Rightarrow> status \<times> iofile option \<times> posix_env" where
  "iop_NewSequentialFile e path =
     (case sys e of
        (Some msg, e) \<Rightarrow> (IOError (''open failed: '' @ path), None, e)
      | (None, e) \<Rightarrow> (if ev_files e path = None then (IOError (''open failed: '' @ path), None, e)
                      else (Ok, Some \<lparr>io_open = True, io_path = path, io_pos = 0, io_written = 0\<rparr>, e)))"

definition iop_SeqRead :: "posix_env \<Rightarrow> iofile \<Rightarrow> nat \<Rightarrow> status \<times> byte list \<times> posix_env \<times> iofile" where
  "iop_SeqRead e f n =
     (case sys e of
        (Some msg, e) \<Rightarrow> (IOError ''Sequential Read failed'', [], e, f)
      | (None, e) \<Rightarrow>
          let d = take n (drop (io_pos f) (content_of e (io_path f)))
          in (Ok, d, e, f\<lparr>io_pos := io_pos f + length d\<rparr>))"

definition iop_Skip :: "posix_env \<Rightarrow> iofile \<Rightarrow> nat \<Rightarrow> status \<times> posix_env \<times> iofile" where
  "iop_Skip e f n =
     (case sys e of
        (Some msg, e) \<Rightarrow> (IOError ''Skip failed'', e, f)
      | (None, e) \<Rightarrow> (Ok, e, f\<lparr>io_pos := io_pos f + n\<rparr>))"

definition iop_NewRandomAccessFile :: "posix_env \<Rightarrow> string \<Rightarrow> status \<times> posix_env" where
  "iop_NewRandomAccessFile e path =
     (case sys e of
        (Some msg, e) \<Rightarrow> (IOError (''open failed: '' @ path), e)
      | (None, e) \<Rightarrow> (if ev_files e path = None then IOError (''open failed: '' @ path) else Ok, e))"

definition iop_Read :: "posix_env \<Rightarrow> string \<Rightarrow> nat \<Rightarrow> nat \<Rightarrow> status \<times> byte list \<times> posix_env" where
  "iop_Read e path off n =
     (case sys e of
        (Some msg, e) \<Rightarrow> (IOError ''Random Read failed'', [], e)
      | (None, e) \<Rightarrow> (Ok, take n (drop off (content_of e path)), e))"

definition iop_NewWritableFile :: "posix_env \<Rightarrow> string \<Rightarrow> status \<times> iofile option \<times> posix_env" where
  "iop_NewWritableFile e path =
     (case sys e of
        (Some msg, e) \<Rightarrow> (IOError (''open failed: '' @ path), None, e)
      | (None, e) \<Rightarrow> (Ok, Some \<lparr>io_open = True, io_path = path, io_pos = 0, io_written = 0\<rparr>,
                        e\<lparr>ev_files := (ev_files e)(path \<mapsto> [])\<rparr>))"

text \<open>One \<open>write\<close>: what it wrote is not compared with what was asked for.\<close>

definition iop_Append :: "posix_env \<Rightarrow> iofile \<Rightarrow> byte list \<Rightarrow> status \<times> posix_env \<times> iofile" where
  "iop_Append e f data =
     (let w = min (length data) (ev_chunk e (ev_tick e) + 1) in
      case sys e of
        (Some msg, e) \<Rightarrow> (IOError ''Append failed'', e, f)
      | (None, e) \<Rightarrow>
          if \<not> io_open f then (IOError ''Append failed'', e, f)
          else (Ok, put_bytes e (io_path f) (io_pos f) (take w data),
                f\<lparr>io_pos := io_pos f + w, io_written := io_written f + w\<rparr>))"

definition iop_Pwrite :: "posix_env \<Rightarrow> iofile \<Rightarrow> nat \<Rightarrow> byte list \<Rightarrow> status \<times> posix_env \<times> iofile" where
  "iop_Pwrite e f off data =
     (let w = min (length data) (ev_chunk e (ev_tick e) + 1) in
      case sys e of
        (Some msg, e) \<Rightarrow> (IOError ''Pwrite failed'', e, f)
      | (None, e) \<Rightarrow>
          if \<not> io_open f then (IOError ''Pwrite failed'', e, f)
          else (Ok, put_bytes e (io_path f) off (take w data), f\<lparr>io_written := io_written f + w\<rparr>))"

definition iop_Sync :: "posix_env \<Rightarrow> iofile \<Rightarrow> status \<times> posix_env" where
  "iop_Sync e f =
     (case sys e of
        (Some msg, e) \<Rightarrow> (IOError ''Sync failed'', e)
      | (None, e) \<Rightarrow> (if io_open f then Ok else IOError ''Sync failed'', e))"

definition iop_Close :: "posix_env \<Rightarrow> iofile \<Rightarrow> status \<times> posix_env \<times> iofile" where
  "iop_Close e f =
     (case sys e of
        (Some msg, e) \<Rightarrow> (IOError ''Close failed'', e, f\<lparr>io_open := False\<rparr>)
      | (None, e) \<Rightarrow> (if io_open f then Ok else IOError ''Close failed'', e, f\<lparr>io_open := False\<rparr>))"

text \<open>\<open>SectorAlignedWritableFile\<close>: its own offset counts the bytes it was asked to append,
  and \<open>Sync\<close> first pads to the next multiple of the sector size.\<close>

definition SECTOR_SIZE :: nat where "SECTOR_SIZE = 4096"

definition sa_Append :: "posix_env \<Rightarrow> iofile \<times> nat \<Rightarrow> byte list \<Rightarrow> status \<times> posix_env \<times> iofile \<times> nat" where
  "sa_Append e fo data =
     (case iop_Append e (fst fo) data of (s, e, f) \<Rightarrow> (s, e, f, if st_ok s then snd fo + length data else snd fo))"

definition sa_Sync :: "posix_env \<Rightarrow> iofile \<times> nat \<Rightarrow> status \<times> posix_env \<times> iofile \<times> nat" where
  "sa_Sync e fo =
     (let padding = SECTOR_SIZE - snd fo mod SECTOR_SIZE in
      if padding \<noteq> SECTOR_SIZE then
        (case sa_Append e fo (replicate padding 0) of (s, e, fo) \<Rightarrow>
         if \<not> st_ok s then (s, e, fo) else (case iop_Sync e (fst fo) of (s, e) \<Rightarrow> (s, e, fo)))
      else (case iop_Sync e (fst fo) of (s, e) \<Rightarrow> (s, e, fo)))"

text \<open>Mapping an empty file fails: \<open>mmap\<close> of length zero is an error.\<close>

definition iop_NewMemoryMappedFile :: "posix_env \<Rightarrow> string \<Rightarrow> status \<times> byte list option \<times> posix_env" where
  "iop_NewMemoryMappedFile e path =
     (case sys e of
        (Some msg, e) \<Rightarrow> (IOError (''open failed: '' @ path), None, e)
      | (None, e) \<Rightarrow>
          (case ev_files e path of
             None \<Rightarrow> (IOError (''open failed: '' @ path), None, e)
           | Some c \<Rightarrow>
               (case sys e of
                  (Some msg, e) \<Rightarrow> (IOError (''fstat failed: '' @ path), None, e)
                | (None, e) \<Rightarrow>
                    (case sys e of
                       (Some msg, e) \<Rightarrow> (IOError (''mmap failed: '' @ path), None, e)
                     | (None, e) \<Rightarrow> if c = [] then (IOError (''mmap failed: '' @ path), None, e) else (Ok, Some c, e)))))"

subsection \<open>\<open>PosixFile\<close>\<close>

text \<open>\<open>pf_map\<close> is the size of the shared mapping, if there is one.\<close>

record pfile =
  pf_open :: bool
  pf_path :: string
  pf_map :: "nat option"

definition pf_at :: "string \<Rightarrow> pfile" where
  "pf_at path = \<lparr>pf_open = True, pf_path = path, pf_map = None\<rparr>"

definition pf_OpenAppend :: "posix_env \<Rightarrow> string \<Rightarrow> status \<times> pfile option \<times> posix_env" where
  "pf_OpenAppend e path =
     (case sys e of
        (Some msg, e) \<Rightarrow> (ErrnoStatus ''open'' msg, None, e)
      | (None, e) \<Rightarrow> (Ok, Some (pf_at path), e\<lparr>ev_files := (ev_files e)(path \<mapsto> content_of e path)\<rparr>))"

definition pf_OpenRead :: "posix_env \<Rightarrow> string \<Rightarrow> status \<times> pfile option \<times> posix_env" where
  "pf_OpenRead e path =
     (case sys e of
        (Some msg, e) \<Rightarrow> (ErrnoStatus ''open'' msg, None, e)
      | (None, e) \<Rightarrow> (if ev_files e path = None then (ErrnoStatus ''open'' ENOENT, None, e) else (Ok, Some (pf_at path), e)))"

definition pf_CreateTrunc :: "posix_env \<Rightarrow> string \<Rightarrow> status \<times> pfile option \<times> posix_env" where
  "pf_CreateTrunc e path =
     (case sys e of
        (Some msg, e) \<Rightarrow> (ErrnoStatus ''open'' msg, None, e)
      | (None, e) \<Rightarrow> (Ok, Some (pf_at path), e\<lparr>ev_files := (ev_files e)(path \<mapsto> [])\<rparr>))"

function pf_PWrite :: "posix_env \<Rightarrow> pfile \<Rightarrow> nat \<Rightarrow> byte list \<Rightarrow> status \<times> posix_env" where
  "pf_PWrite e f off data =
     (if data = [] then (Ok, e) else
      let w = min (length data) (ev_chunk e (ev_tick e) + 1) in
      case sys e of
        (Some msg, e) \<Rightarrow> (ErrnoStatus ''pwrite'' msg, e)
      | (None, e) \<Rightarrow> pf_PWrite (put_bytes e (pf_path f) off (take w data)) f (off + w) (drop w data))"
  by pat_completeness auto
termination
  by (relation "measure (\<lambda>(e, f, off, data). length data)") auto

declare pf_PWrite.simps [simp del]

text \<open>\<open>ReadAt\<close> accumulates reads of any positive length until \<open>n\<close> bytes or the end of file.\<close>

function read_at_loop :: "posix_env \<Rightarrow> pfile \<Rightarrow> nat \<Rightarrow> nat \<Rightarrow> byte list \<Rightarrow> status \<times> byte list \<times> posix_env" where
  "read_at_loop e f off n done =
     (if n \<le> length done then (Ok, done, e) else
      let r = take (min (n - length done) (ev_chunk e (ev_tick e) + 1)) (drop (off + length done) (content_of e (pf_path f))) in
      case sys e of
        (Some msg, e) \<Rightarrow> (ErrnoStatus ''pread'' msg, done, e)
      | (None, e) \<Rightarrow> if r = [] then (Ok, done, e) else read_at_loop e f off n (done @ r))"
  by pat_completeness auto
termination
  by (relation "measure (\<lambda>(e, f, off, n, done). n - length done)") (auto simp: neq_Nil_conv)

declare read_at_loop.simps [simp del]

definition pf_ReadAt :: "posix_env \<Rightarrow> pfile \<Rightarrow> nat \<Rightarrow> nat \<Rightarrow> status \<times> byte list \<times> posix_env" where
  "pf_ReadAt e f off n = read_at_loop e f off n []"

definition pf_SyncData :: "posix_env \<Rightarrow> pfile \<Rightarrow> status \<times> posix_env" where
  "pf_SyncData e f = (case sys e of (Some msg, e) \<Rightarrow> (ErrnoStatus ''fdatasync'' msg, e) | (None, e) \<Rightarrow> (Ok, e))"

definition pf_SyncAll :: "posix_env \<Rightarrow> pfile \<Rightarrow> status \<times> posix_env" where
  "pf_SyncAll e f = (case sys e of (Some msg, e) \<Rightarrow> (ErrnoStatus ''fsync'' msg, e) | (None, e) \<Rightarrow> (Ok, e))"

definition pf_Map :: "posix_env \<Rightarrow> pfile \<Rightarrow> status \<times> byte list \<times> posix_env \<times> pfile" where
  "pf_Map e f =
     (if \<not> pf_open f then (InvalidArgument ''file not open'', [], e, f)
      else case pf_map f of
        Some n \<Rightarrow> (Ok, take n (content_of e (pf_path f)), e, f)
      | None \<Rightarrow>
          (case sys e of
             (Some msg, e) \<Rightarrow> (ErrnoStatus ''fstat'' msg, [], e, f)
           | (None, e) \<Rightarrow>
               let c = content_of e (pf_path f) in
               if c = [] then (Ok, [], e, f)
               else (case sys e of
                       (Some msg, e) \<Rightarrow> (ErrnoStatus ''mmap'' msg, [], e, f)
                     | (None, e) \<Rightarrow> (Ok, c, e, f\<lparr>pf_map := Some (length c)\<rparr>))))"

definition pf_Close :: "posix_env \<Rightarrow> pfile \<Rightarrow> status \<times> posix_env \<times> pfile" where
  "pf_Close e f =
     (let g = f\<lparr>pf_map := None, pf_open := False\<rparr> in
      if pf_open f then (case sys e of (Some msg, e) \<Rightarrow> (ErrnoStatus ''close'' msg, e, g) | (None, e) \<Rightarrow> (Ok, e, g))
      else (Ok, e, g))"

definition FsyncDir :: "posix_env \<Rightarrow> string \<Rightarrow> status \<times> posix_env" where
  "FsyncDir e dir =
     (case sys e of
        (Some msg, e) \<Rightarrow> (ErrnoStatus ''open dir'' msg, e)
      | (None, e) \<Rightarrow> (case sys e of (Some msg, e) \<Rightarrow> (ErrnoStatus ''fsync dir'' msg, e) | (None, e) \<Rightarrow> (Ok, e)))"

subsection \<open>\<open>std::filesystem\<close>\<close>

definition Thrown :: status where
  "Thrown = Status kUnknown ''filesystem_error''"

definition path_join :: "string \<Rightarrow> string \<Rightarrow> string" where
  "path_join a b = (if a = [] \<or> last a = CHR ''/'' then a @ b else a @ ''/'' @ b)"

text \<open>\<open>parent_path\<close>: up to the last separator, separators before it removed.\<close>

definition parent_path :: "string \<Rightarrow> string" where
  "parent_path p =
     (let d = rev (dropWhile (\<lambda>c. c = CHR ''/'') (dropWhile (\<lambda>c. c \<noteq> CHR ''/'') (rev p)))
      in if d = [] \<and> p \<noteq> [] \<and> hd p = CHR ''/'' then ''/'' else d)"

definition fs_exists :: "posix_env \<Rightarrow> string \<Rightarrow> bool option \<times> posix_env" where
  "fs_exists e p = (case sys e of (Some msg, e) \<Rightarrow> (None, e) | (None, e) \<Rightarrow> (Some (ev_files e p \<noteq> None), e))"

text \<open>\<open>rename\<close> with an error code: whether it failed.\<close>

definition fs_rename :: "posix_env \<Rightarrow> string \<Rightarrow> string \<Rightarrow> bool \<times> posix_env" where
  "fs_rename e src dst = (case RenameFile e src dst of (st, e) \<Rightarrow> (\<not> st_ok st, e))"

definition fs_create_directories :: "posix_env \<Rightarrow> string \<Rightarrow> bool \<times> posix_env" where
  "fs_create_directories e p = (case sys e of (Some msg, e) \<Rightarrow> (True, e) | (None, e) \<Rightarrow> (False, e))"

text \<open>\<open>remove_all\<close> of a directory: every file below it. A call that fails is taken to have
  removed nothing.\<close>

definition fs_remove_all :: "posix_env \<Rightarrow> string \<Rightarrow> posix_env" where
  "fs_remove_all e d =
     (case sys e of
        (Some msg, e) \<Rightarrow> e
      | (None, e) \<Rightarrow> e\<lparr>ev_files := (\<lambda>p. if take (length d + 1) p = d @ ''/'' then None else ev_files e p)\<rparr>)"

subsection \<open>Facts\<close>

lemma path_join_inject [simp]: "path_join d a = path_join d b \<longleftrightarrow> a = b"
  by (simp add: path_join_def)

lemma sys_unfold: "sys e = (ev_err e (ev_tick e), e\<lparr>ev_tick := Suc (ev_tick e)\<rparr>)"
  by (simp add: sys_def)

lemma content_of_tick [simp]: "content_of (e\<lparr>ev_tick := n\<rparr>) path = content_of e path"
  by (simp add: content_of_def)

lemma not_ok_Thrown [simp]: "\<not> st_ok Thrown"
  by (simp add: Thrown_def st_ok_def)

text \<open>The environment once the failing conditions are gone.\<close>

definition healthy :: "posix_env \<Rightarrow> posix_env" where
  "healthy e = e\<lparr>ev_err := (\<lambda>_. None)\<rparr>"

lemma healthy_simps [simp]: "calls_ok (healthy e)" "ev_files (healthy e) = ev_files e"
  by (simp_all add: healthy_def calls_ok_def)

lemma put_bytes_simps [simp]:
  "ev_err (put_bytes e p off bs) = ev_err e" "ev_chunk (put_bytes e p off bs) = ev_chunk e"
  "ev_tick (put_bytes e p off bs) = ev_tick e" "calls_ok (put_bytes e p off bs) = calls_ok e"
  by (simp_all add: put_bytes_def)

text \<open>\<open>PWrite\<close> at the end of a file: whatever the lengths of the single writes, \<open>Ok\<close> means
  that all the bytes are appended; an error leaves the other files as they were.\<close>

lemma pf_PWrite_result:
  assumes "pf_PWrite e f off data = (st, e')" "ev_files e (pf_path f) = Some c" "off = length c"
  shows "(\<forall>q. q \<noteq> pf_path f \<longrightarrow> ev_files e' q = ev_files e q) \<and> ev_err e' = ev_err e \<and> ev_chunk e' = ev_chunk e \<and>
    (st_ok st \<longrightarrow> st = Ok \<and> ev_files e' (pf_path f) = Some (c @ data)) \<and> (calls_ok e \<longrightarrow> st = Ok)"
  using assms
proof (induction e f off data arbitrary: c rule: pf_PWrite.induct)
  case (1 e f off data)
  define w where "w = min (length data) (ev_chunk e (ev_tick e) + 1)"
  define e1 where "e1 = e\<lparr>ev_tick := Suc (ev_tick e)\<rparr>"
  show ?case
  proof (cases "data = []")
    case True
    then show ?thesis using "1.prems" by (subst (asm) pf_PWrite.simps) auto
  next
    case False
    show ?thesis
    proof (cases "ev_err e (ev_tick e)")
      case (Some msg)
      then show ?thesis
        using "1.prems" False by (subst (asm) pf_PWrite.simps) (auto simp: sys_unfold ErrnoStatus_def calls_ok_def)
    next
      case None
      then have s: "sys e = (None, e1)" by (simp add: sys_unfold e1_def)
      have r: "pf_PWrite (put_bytes e1 (pf_path f) off (take w data)) f (off + w) (drop w data) = (st, e')"
        using "1.prems"(1) False by (subst (asm) pf_PWrite.simps) (simp add: s w_def Let_def)
      have "ev_files (put_bytes e1 (pf_path f) off (take w data)) (pf_path f) = Some (c @ take w data)"
        using "1.prems"(2,3) by (simp add: put_bytes_def e1_def pwrite_at_end)
      moreover have "off + w = length (c @ take w data)" using "1.prems"(3) by (simp add: w_def)
      ultimately show ?thesis
        using "1.IH" [OF False w_def s [symmetric] refl r] by (simp add: e1_def put_bytes_def)
    qed
  qed
qed

text \<open>\<open>ReadAt\<close> returns what is there, however short the single reads are.\<close>

lemma read_at_loop_ok:
  "calls_ok e \<Longrightarrow> ev_files e (pf_path f) = Some c \<Longrightarrow> got = take (length got) (drop off c) \<Longrightarrow> length got \<le> n \<Longrightarrow>
   \<exists>t. read_at_loop e f off n got = (Ok, take n (drop off c), e\<lparr>ev_tick := t\<rparr>)"
proof (induction e f off n got rule: read_at_loop.induct)
  case (1 e f off n got)
  define r where "r = take (min (n - length got) (ev_chunk e (ev_tick e) + 1)) (drop (off + length got) c)"
  define e1 where "e1 = e\<lparr>ev_tick := ev_tick e + 1\<rparr>"
  have s: "sys e = (None, e1)" using "1.prems"(1) by (simp add: sys_ok e1_def)
  have r: "r = take (min (n - length got) (ev_chunk e (ev_tick e) + 1)) (drop (off + length got) (content_of e (pf_path f)))"
    using "1.prems"(2) by (simp add: r_def content_of_def)
  show ?case
  proof (cases "n \<le> length got")
    case True
    then have "n = length got" using "1.prems"(4) by simp
    then show ?thesis
      using "1.prems"(3) by (subst read_at_loop.simps) (auto intro: exI [of _ "ev_tick e"])
  next
    case False
    have st: "read_at_loop e f off n got = (if r = [] then (Ok, got, e1) else read_at_loop e1 f off n (got @ r))"
      by (subst read_at_loop.simps) (simp only: False if_False s prod.case option.case Let_def r [symmetric])
    show ?thesis
    proof (cases "r = []")
      case True
      then have "length c \<le> off + length got" using False by (auto simp: r_def)
      then have "take n (drop off c) = got" using "1.prems"(3) False by simp
      then show ?thesis using st True by (auto simp: e1_def)
    next
      case ne: False
      have g: "got @ r = take (length (got @ r)) (drop off c)"
      proof -
        let ?k = "min (n - length got) (ev_chunk e (ev_tick e) + 1)" and ?D = "drop off c"
        have "r = take ?k (drop (length got) ?D)" by (simp add: r_def add.commute)
        then have "got @ r = take (length got + ?k) ?D" unfolding take_add using "1.prems"(3) by metis
        then show ?thesis by (metis append_eq_conv_conj append_take_drop_id)
      qed
      have "length (got @ r) \<le> n" using False by (auto simp: r_def)
      from "1.IH" [OF False r s [symmetric] refl ne _ _ g this] have "\<exists>t. read_at_loop e1 f off n (got @ r) = (Ok, take n (drop off c), e1\<lparr>ev_tick := t\<rparr>)"
        using "1.prems"(1,2) by (simp add: e1_def)
      then show ?thesis using st ne by (simp add: e1_def)
    qed
  qed
qed

end
