(* ===== verification/Text_Lines.thy ===== *)
theory Text_Lines
  imports Prelude
begin

text \<open>
  Text files read line by line: \<open>find\<close> of a newline in a \<open>string_view\<close>, and the
  facts that lines written one after the other are read back.
\<close>

definition nl :: char where "nl = CHR 0x0A"

text \<open>The text before the first newline and the text after it, if there is one.\<close>

definition split_nl :: "string \<Rightarrow> (string \<times> string) option" where
  "split_nl s = (if nl \<in> set s then Some (takeWhile (\<lambda>c. c \<noteq> nl) s, tl (dropWhile (\<lambda>c. c \<noteq> nl) s)) else None)"

lemma split_nl_length: "split_nl s = Some (l, r) \<Longrightarrow> length r < length s"
proof -
  assume "split_nl s = Some (l, r)"
  then have "nl \<in> set s" and r: "r = tl (dropWhile (\<lambda>c. c \<noteq> nl) s)" by (auto simp: split_nl_def split: if_splits)
  then have "dropWhile (\<lambda>c. c \<noteq> nl) s \<noteq> []" by (auto simp: dropWhile_eq_Nil_conv)
  moreover have "length (dropWhile (\<lambda>c. c \<noteq> nl) s) \<le> length s" by (rule length_dropWhile_le)
  ultimately show ?thesis unfolding r by (cases "dropWhile (\<lambda>c. c \<noteq> nl) s") auto
qed

lemma split_nl_line [simp]: "nl \<notin> set l \<Longrightarrow> split_nl (l @ nl # r) = Some (l, r)"
  by (induction l) (auto simp: split_nl_def)

lemma split_nl_Nil [simp]: "split_nl [] = None"
  by (simp add: split_nl_def)

lemma split_nl_None: "nl \<notin> set s \<Longrightarrow> split_nl s = None"
  by (simp add: split_nl_def)

text \<open>A line for each string.\<close>

definition lines :: "string list \<Rightarrow> string" where
  "lines ls = concat (map (\<lambda>l. l @ [nl]) ls)"

lemma lines_simps [simp]: "lines [] = []" "lines (l # ls) = l @ nl # lines ls"
  by (simp_all add: lines_def)

lemma lines_append [simp]: "lines (ls @ ms) = lines ls @ lines ms"
  by (simp add: lines_def)

text \<open>The loop over the lines of a text; a last line need not end in a newline.\<close>

function text_lines :: "string \<Rightarrow> string list" where
  "text_lines sv =
     (if sv = [] then []
      else case split_nl sv of None \<Rightarrow> [sv] | Some (line, rest) \<Rightarrow> line # text_lines rest)"
  by pat_completeness auto
termination
  by (relation "measure length") (auto dest: split_nl_length)

declare text_lines.simps [simp del]

lemma text_lines_lines: "\<forall>l \<in> set ls. nl \<notin> set l \<Longrightarrow> text_lines (lines ls) = ls"
proof (induction ls)
  case Nil
  then show ?case by (simp add: text_lines.simps)
next
  case (Cons l ls)
  then show ?case by (subst text_lines.simps) simp
qed

subsection \<open>Words of a line\<close>

definition is_ws :: "char \<Rightarrow> bool" where
  "is_ws c \<longleftrightarrow> c = CHR '' '' \<or> c = CHR 0x09 \<or> c = CHR 0x0D"

function SplitWs :: "string \<Rightarrow> string list" where
  "SplitWs line =
     (let s = dropWhile is_ws line in
      if s = [] then [] else takeWhile (\<lambda>c. \<not> is_ws c) s # SplitWs (dropWhile (\<lambda>c. \<not> is_ws c) s))"
  by pat_completeness auto
termination
proof (relation "measure length")
  fix line s :: string
  assume s: "s = dropWhile is_ws line" "s \<noteq> []"
  then have "\<not> is_ws (hd s)" by (metis hd_dropWhile)
  then have "length (dropWhile (\<lambda>c. \<not> is_ws c) s) < length s"
    using s(2) length_dropWhile_le [of "\<lambda>c. \<not> is_ws c" "tl s"] by (cases s) auto
  moreover have "length s \<le> length line" unfolding s(1) by (rule length_dropWhile_le)
  ultimately show "(dropWhile (\<lambda>c. \<not> is_ws c) s, line) \<in> measure length" by simp
qed simp

declare SplitWs.simps [simp del]

definition word_str :: "string \<Rightarrow> bool" where
  "word_str w \<longleftrightarrow> w \<noteq> [] \<and> (\<forall>c \<in> set w. \<not> is_ws c)"

lemma SplitWs_Nil [simp]: "SplitWs [] = []"
  by (simp add: SplitWs.simps)

lemma SplitWs_skip: "SplitWs (CHR '' '' # s) = SplitWs s"
  by (subst (1 2) SplitWs.simps) (simp add: is_ws_def)

lemma SplitWs_word: "word_str w \<Longrightarrow> SplitWs w = [w]"
proof -
  assume "word_str w"
  then obtain a v where a: "w = a # v" "\<not> is_ws a" "\<forall>c \<in> set v. \<not> is_ws c" by (auto simp: word_str_def neq_Nil_conv)
  have dw: "dropWhile (\<lambda>c. \<not> is_ws c) v = []" "takeWhile (\<lambda>c. \<not> is_ws c) v = v"
    using a(3) by (simp_all add: dropWhile_eq_Nil_conv takeWhile_eq_all_conv)
  show ?thesis using a(1,2) by (subst SplitWs.simps) (simp add: dw)
qed

lemma SplitWs_Cons: "word_str w \<Longrightarrow> SplitWs (w @ CHR '' '' # s) = w # SplitWs s"
proof -
  assume w: "word_str w"
  then obtain a v where a: "w = a # v" "\<not> is_ws a" "\<forall>c \<in> set v. \<not> is_ws c" by (auto simp: word_str_def neq_Nil_conv)
  have "SplitWs (w @ CHR '' '' # s) = w # SplitWs (CHR '' '' # s)"
    using a by (subst SplitWs.simps) (simp add: is_ws_def)
  then show ?thesis by (simp add: SplitWs_skip)
qed

end
