(* ===== verification/Segment_Manifest.thy ===== *)
theory Segment_Manifest
  imports Posix_File Crc32c Text_Lines
begin

text \<open>
  The list of segment files of a vector directory
  (\<open>src/core/shard/manifest.cc\<close>): a text file with a header line, one name per
  line and a trailing CRC-32C, replaced by writing \<open>manifest.tmp\<close> and renaming.
  An output list that the source leaves untouched is \<open>None\<close>.
\<close>

definition kManifestHeader :: string where "kManifestHeader = ''pomai.manifest.v2''"
definition kManifestHeaderAlt :: string where "kManifestHeaderAlt = ''pomai.shard_manifest.v2''"

definition kStreamReadChunkSize :: nat where "kStreamReadChunkSize = 1024 * 1024"

definition starts_with :: "string \<Rightarrow> string \<Rightarrow> bool" where
  "starts_with s p \<longleftrightarrow> take (length p) s = p"

text \<open>\<open>ReadFileStreaming\<close>: \<open>read\<close> in chunks until it returns nothing.\<close>

function stream_loop :: "posix_env \<Rightarrow> string \<Rightarrow> byte list \<Rightarrow> byte list option \<times> posix_env" where
  "stream_loop e path out =
     (let chunk = take (min kStreamReadChunkSize (ev_chunk e (ev_tick e) + 1)) (drop (length out) (content_of e path)) in
      case sys e of
        (Some msg, e) \<Rightarrow> (None, e)
      | (None, e) \<Rightarrow> if chunk = [] then (Some out, e) else stream_loop e path (out @ chunk))"
  by pat_completeness auto
termination
  by (relation "measure (\<lambda>(e, path, out). length (content_of e path) - length out)")
    (auto simp: sys_def content_of_def kStreamReadChunkSize_def split: option.splits)

declare stream_loop.simps [simp del]

definition ReadFileStreaming :: "posix_env \<Rightarrow> string \<Rightarrow> byte list option \<times> posix_env" where
  "ReadFileStreaming e path =
     (case sys e of
        (Some msg, e) \<Rightarrow> (None, e)
      | (None, e) \<Rightarrow> if ev_files e path = None then (None, e) else stream_loop e path [])"

function ParseSegmentLines :: "string \<Rightarrow> string list" where
  "ParseSegmentLines payload =
     (case split_nl payload of
        None \<Rightarrow> []
      | Some (line, rest) \<Rightarrow> (if line \<noteq> [] then [line] else []) @ ParseSegmentLines rest)"
  by pat_completeness auto
termination
  by (relation "measure length") (auto dest: split_nl_length)

declare ParseSegmentLines.simps [simp del]

definition parse_manifest :: "byte list \<Rightarrow> status \<times> string list option" where
  "parse_manifest raw =
     (if raw = [] then (Ok, Some [])
      else if length raw < 4 \<or> (\<not> starts_with (string_of raw) kManifestHeader \<and> \<not> starts_with (string_of raw) kManifestHeaderAlt)
      then (Ok, Some (ParseSegmentLines (string_of raw)))
      else
        let content_len = length raw - 4 in
        if Crc32c (take content_len raw) 0 \<noteq> bytes_u32 (drop content_len raw)
        then (Corruption ''segment manifest CRC mismatch'', None)
        else case split_nl (string_of (take content_len raw)) of
          None \<Rightarrow> (Corruption ''segment manifest truncated'', None)
        | Some (_, payload) \<Rightarrow> (Ok, Some (ParseSegmentLines payload)))"

definition TryLoadOne :: "posix_env \<Rightarrow> string \<Rightarrow> status \<times> string list option \<times> posix_env" where
  "TryLoadOne e path =
     (case ReadFileStreaming e path of
        (None, e) \<Rightarrow> (IOError ''segment manifest read failed'', None, e)
      | (Some raw, e) \<Rightarrow> (case parse_manifest raw of (st, out) \<Rightarrow> (st, out, e)))"

definition curr_path :: "string \<Rightarrow> string" where "curr_path d = path_join d ''manifest.current''"
definition prev_path :: "string \<Rightarrow> string" where "prev_path d = path_join d ''manifest.prev''"
definition tmp_path :: "string \<Rightarrow> string" where "tmp_path d = path_join d ''manifest.tmp''"

definition sm_Load :: "posix_env \<Rightarrow> string \<Rightarrow> status \<times> string list option \<times> posix_env" where
  "sm_Load e d =
     (case fs_exists e (curr_path d) of
        (None, e) \<Rightarrow> (Thrown, None, e)
      | (Some False, e) \<Rightarrow> (Ok, Some [], e)
      | (Some True, e) \<Rightarrow>
          (case TryLoadOne e (curr_path d) of (st, out, e) \<Rightarrow>
           if st_ok st then (st, out, e)
           else case fs_exists e (prev_path d) of
             (None, e) \<Rightarrow> (Thrown, None, e)
           | (Some False, e) \<Rightarrow> (st, out, e)
           | (Some True, e) \<Rightarrow> TryLoadOne e (prev_path d)))"

definition manifest_bytes :: "string list \<Rightarrow> byte list" where
  "manifest_bytes segs =
     (let buffer = bytes_of (kManifestHeader @ [nl] @ concat (map (\<lambda>s. s @ [nl]) segs))
      in buffer @ u32_bytes (Crc32c buffer 0))"

text \<open>The last steps of \<open>Commit\<close>: the two renames and the directory sync, whose result is
  ignored.\<close>

definition commit_swap :: "posix_env \<Rightarrow> string \<Rightarrow> status \<times> posix_env" where
  "commit_swap e d =
     (case fs_rename e (tmp_path d) (curr_path d) of (failed, e) \<Rightarrow>
      if failed then (IOError ''Manifest rename failed'', e)
      else (Ok, snd (FsyncDir e d)))"

definition sm_Commit :: "posix_env \<Rightarrow> string \<Rightarrow> string list \<Rightarrow> status \<times> posix_env" where
  "sm_Commit e d segs =
     (case iop_NewWritableFile e (tmp_path d) of
        (st, None, e) \<Rightarrow> (st, e)
      | (st, Some f, e) \<Rightarrow>
          (case iop_Append e f (manifest_bytes segs) of (st, e, f) \<Rightarrow>
           if \<not> st_ok st then (st, e) else
           case iop_Sync e f of (st, e) \<Rightarrow>
           if \<not> st_ok st then (st, e) else
           case iop_Close e f of (st, e, f) \<Rightarrow>
           if \<not> st_ok st then (st, e) else
           case fs_exists e (curr_path d) of
             (None, e) \<Rightarrow> (Thrown, e)
           | (Some False, e) \<Rightarrow> commit_swap e d
           | (Some True, e) \<Rightarrow>
               (case fs_rename e (curr_path d) (prev_path d) of (failed, e) \<Rightarrow>
                if failed then (IOError ''Manifest prev rename failed'', e) else commit_swap e d)))"

subsection \<open>Reading back\<close>

lemma stream_loop_ok:
  "calls_ok e \<Longrightarrow> ev_files e path = Some (out @ rest) \<Longrightarrow>
   \<exists>t. stream_loop e path out = (Some (out @ rest), e\<lparr>ev_tick := t\<rparr>)"
proof (induction "length rest" arbitrary: e out rest rule: less_induct)
  case less
  define r where "r = take (min kStreamReadChunkSize (ev_chunk e (ev_tick e) + 1)) rest"
  define e1 where "e1 = e\<lparr>ev_tick := ev_tick e + 1\<rparr>"
  have ch: "take (min kStreamReadChunkSize (ev_chunk e (ev_tick e) + 1)) (drop (length out) (content_of e path)) = r"
    using less.prems(2) by (simp add: content_of_def r_def)
  have step: "stream_loop e path out = (if r = [] then (Some out, e1) else stream_loop e1 path (out @ r))"
    by (subst stream_loop.simps) (simp only: ch sys_ok [OF less.prems(1)] Let_def prod.case option.case e1_def)
  show ?case
  proof (cases "r = []")
    case True
    then have "rest = []" by (auto simp: r_def kStreamReadChunkSize_def)
    then show ?thesis using step True by (auto simp: e1_def)
  next
    case False
    define rest' where "rest' = drop (min kStreamReadChunkSize (ev_chunk e (ev_tick e) + 1)) rest"
    have rr: "rest = r @ rest'" by (simp add: r_def rest'_def)
    have "\<exists>t. stream_loop e1 path (out @ r) = (Some ((out @ r) @ rest'), e1\<lparr>ev_tick := t\<rparr>)"
      by (rule less.hyps) (use less.prems False rr in \<open>simp_all add: e1_def\<close>)
    then show ?thesis using step False rr by (simp add: e1_def)
  qed
qed

lemma TryLoadOne_ok:
  assumes "calls_ok e" "ev_files e path = Some c"
  shows "\<exists>t. TryLoadOne e path = (fst (parse_manifest c), snd (parse_manifest c), e\<lparr>ev_tick := t\<rparr>)"
proof -
  have "\<exists>t. stream_loop (e\<lparr>ev_tick := Suc (ev_tick e)\<rparr>) path [] = (Some c, e\<lparr>ev_tick := t\<rparr>)"
    using stream_loop_ok [of "e\<lparr>ev_tick := Suc (ev_tick e)\<rparr>" path "[]" c] assms by simp
  then show ?thesis
    using assms by (auto simp: TryLoadOne_def ReadFileStreaming_def sys_ok split: prod.split)
qed

text \<open>A list of names a manifest can hold: not empty, no newline.\<close>

definition names_ok :: "string list \<Rightarrow> bool" where
  "names_ok segs \<longleftrightarrow> (\<forall>s \<in> set segs. s \<noteq> [] \<and> nl \<notin> set s)"

lemma ParseSegmentLines_lines: "names_ok segs \<Longrightarrow> ParseSegmentLines (lines segs) = segs"
proof (induction segs)
  case (Cons s segs)
  then show ?case
    by (subst ParseSegmentLines.simps) (simp add: names_ok_def)
qed (simp add: ParseSegmentLines.simps)

lemma manifest_bytes_split:
  "manifest_bytes segs = bytes_of (kManifestHeader @ nl # lines segs) @ u32_bytes (Crc32c (bytes_of (kManifestHeader @ nl # lines segs)) 0)"
  by (simp add: manifest_bytes_def lines_def Let_def)

lemma parse_manifest_bytes:
  assumes "names_ok segs"
  shows "parse_manifest (manifest_bytes segs) = (Ok, Some segs)"
proof -
  define b where "b = bytes_of (kManifestHeader @ nl # lines segs)"
  have m: "manifest_bytes segs = b @ u32_bytes (Crc32c b 0)" by (simp add: manifest_bytes_split b_def)
  have sw: "starts_with (string_of (b @ xs)) kManifestHeader" for xs
    by (simp add: b_def string_of_def bytes_of_def comp_def starts_with_def)
  have "nl \<notin> set kManifestHeader" by (simp add: kManifestHeader_def nl_def)
  then have "split_nl (string_of b) = Some (kManifestHeader, lines segs)" by (simp add: b_def)
  moreover have "4 \<le> length (b @ u32_bytes (Crc32c b 0))" "b \<noteq> []" by (simp_all add: b_def bytes_of_def)
  ultimately show ?thesis
    using sw [of "u32_bytes (Crc32c b 0)"] assms
    by (simp add: parse_manifest_def m Let_def bytes_u32_u32' ParseSegmentLines_lines)
qed

lemma manifest_paths [simp]:
  "tmp_path d \<noteq> curr_path d" "curr_path d \<noteq> tmp_path d" "tmp_path d \<noteq> prev_path d" "prev_path d \<noteq> tmp_path d"
  "curr_path d \<noteq> prev_path d" "prev_path d \<noteq> curr_path d"
  by (simp_all add: tmp_path_def curr_path_def prev_path_def)

lemma sm_Load_parse:
  assumes "calls_ok e" "ev_files e (curr_path d) = Some c" "parse_manifest c = (Ok, Some segs)"
  shows "\<exists>t. sm_Load e d = (Ok, Some segs, e\<lparr>ev_tick := t\<rparr>)"
  using TryLoadOne_ok [of "e\<lparr>ev_tick := Suc (ev_tick e)\<rparr>" "curr_path d" c] assms
  by (auto simp: sm_Load_def fs_exists_def sys_ok)

lemma sm_Load_missing:
  "calls_ok e \<Longrightarrow> ev_files e (curr_path d) = None \<Longrightarrow> \<exists>t. sm_Load e d = (Ok, Some [], e\<lparr>ev_tick := t\<rparr>)"
  by (auto simp: sm_Load_def fs_exists_def sys_ok)

subsection \<open>Committing\<close>

text \<open>What \<open>Commit\<close> leaves in place of the current manifest, whichever system call fails:
  the first \<open>k\<close> bytes of the new one, with the old one kept; the old one; or
  nothing, if the second rename failed after the first.\<close>

definition commit_result :: "posix_env \<Rightarrow> string \<Rightarrow> byte list \<Rightarrow> byte list \<Rightarrow> status \<Rightarrow> posix_env \<Rightarrow> bool" where
  "commit_result e d old written st e' \<longleftrightarrow>
     ev_chunk e' = ev_chunk e \<and> ev_err e' = ev_err e \<and>
     (if st_ok st then ev_files e' (curr_path d) = Some written \<and> ev_files e' (prev_path d) = Some old
      else ev_files e' (curr_path d) = Some old \<or>
           (ev_files e' (curr_path d) = None \<and> ev_files e' (prev_path d) = Some old \<and>
            ev_files e' (tmp_path d) = Some written))"

lemma commit_swap_result:
  assumes "ev_files e (tmp_path d) = Some written" "ev_files e (curr_path d) = None" "ev_files e (prev_path d) = Some old"
    "commit_swap e d = (st, e')"
  shows "commit_result e d old written st e'"
  using assms
  by (cases "ev_err e (ev_tick e)")
    (auto simp: commit_swap_def fs_rename_def RenameFile_def FsyncDir_def sys_unfold commit_result_def ErrnoStatus_def
      split: option.splits if_splits)

lemma commit_result_cong:
  "commit_result e1 d old written st e' \<Longrightarrow> ev_chunk e1 = ev_chunk e \<Longrightarrow> ev_err e1 = ev_err e \<Longrightarrow> commit_result e d old written st e'"
  by (simp add: commit_result_def)

lemma sm_Commit_result:
  assumes old: "ev_files e (curr_path d) = Some old" and r: "sm_Commit e d segs = (st, e')"
  shows "commit_result e d old (take (ev_chunk e (ev_tick e + 1) + 1) (manifest_bytes segs)) st e'"
proof -
  let ?t = "ev_tick e" and ?B = "manifest_bytes segs"
  let ?W = "take (ev_chunk e (?t + 1) + 1) ?B"
  let ?fs = "(ev_files e)(tmp_path d \<mapsto> ?W)"
  have w: "take (min (length ?B) (Suc (ev_chunk e (Suc ?t)))) ?B = ?W" by (simp add: min_def)
  note defs = sm_Commit_def iop_NewWritableFile_def iop_Append_def iop_Sync_def iop_Close_def put_bytes_def pwrite_at_def
    sys_unfold Let_def
  consider (early) "\<exists>i < 5. ev_err e (?t + i) \<noteq> None" | (late) "\<forall>i < 5. ev_err e (?t + i) = None" by blast
  then show ?thesis
  proof cases
    case early
    then have "ev_err e ?t \<noteq> None \<or> ev_err e (Suc ?t) \<noteq> None \<or> ev_err e (Suc (Suc ?t)) \<noteq> None \<or>
        ev_err e (Suc (Suc (Suc ?t))) \<noteq> None \<or> ev_err e (Suc (Suc (Suc (Suc ?t)))) \<noteq> None"
      by (auto simp: less_Suc_eq numeral_eq_Suc)
    then show ?thesis
      using r old by (auto simp: defs commit_result_def fs_exists_def split: option.splits if_splits)
  next
    case late
    then have n: "ev_err e ?t = None" "ev_err e (Suc ?t) = None" "ev_err e (Suc (Suc ?t)) = None"
        "ev_err e (Suc (Suc (Suc ?t))) = None" "ev_err e (Suc (Suc (Suc (Suc ?t)))) = None"
      by (auto simp: less_Suc_eq numeral_eq_Suc dest: spec)
    define e5 where "e5 = e\<lparr>ev_files := ?fs, ev_tick := Suc (Suc (Suc (Suc (Suc ?t))))\<rparr>"
    have c: "sm_Commit e d segs = (case fs_rename e5 (curr_path d) (prev_path d) of (failed, e) \<Rightarrow>
                if failed then (IOError ''Manifest prev rename failed'', e) else commit_swap e d)"
      using old n by (simp add: defs fs_exists_def e5_def w)
    define e6 where "e6 = e5\<lparr>ev_tick := Suc (ev_tick e5), ev_files := (?fs(curr_path d := None))(prev_path d \<mapsto> old)\<rparr>"
    show ?thesis
    proof (cases "ev_err e (ev_tick e5)")
      case None
      then have "fs_rename e5 (curr_path d) (prev_path d) = (False, e6)"
        using old by (simp add: fs_rename_def RenameFile_def sys_unfold e5_def e6_def)
      then have "commit_swap e6 d = (st, e')" using r c by simp
      then have "commit_result e6 d old ?W st e'"
        by (rule commit_swap_result [rotated 3]) (simp_all add: e6_def)
      then show ?thesis by (rule commit_result_cong) (simp_all add: e6_def e5_def)
    next
      case (Some msg)
      then have "fs_rename e5 (curr_path d) (prev_path d) = (True, e5\<lparr>ev_tick := Suc (ev_tick e5)\<rparr>)"
        by (simp add: fs_rename_def RenameFile_def sys_unfold e5_def ErrnoStatus_def)
      then show ?thesis using r c old by (auto simp: commit_result_def e5_def)
    qed
  qed
qed

text \<open>C20: a commit is all or nothing, but for one window. With a valid manifest in place
  and writes that are not short, whatever system calls fail during \<open>Commit\<close>, a
  later \<open>Load\<close> returns the new list if \<open>Commit\<close> reported \<open>Ok\<close>; otherwise it returns the
  old list or, when only the second rename failed, the empty list, with the old
  manifest intact under its other name.\<close>

theorem sm_Commit_outcomes:
  assumes old: "ev_files e (curr_path d) = Some (manifest_bytes old)" and "names_ok old" "names_ok new"
    and full: "length (manifest_bytes new) \<le> ev_chunk e (ev_tick e + 1)"
    and r: "sm_Commit e d new = (st, e')"
  shows "\<exists>out e2. sm_Load (healthy e') d = (Ok, Some out, e2) \<and> (st_ok st \<longrightarrow> out = new) \<and>
    (\<not> st_ok st \<longrightarrow> out = old \<or> (out = [] \<and> ev_files e' (prev_path d) = Some (manifest_bytes old)))"
proof -
  have "take (ev_chunk e (ev_tick e + 1) + 1) (manifest_bytes new) = manifest_bytes new" using full by simp
  then have R: "commit_result e d (manifest_bytes old) (manifest_bytes new) st e'"
    using sm_Commit_result [OF old r] by simp
  have load: "ev_files e' (curr_path d) = Some (manifest_bytes segs) \<Longrightarrow> names_ok segs \<Longrightarrow>
      \<exists>t. sm_Load (healthy e') d = (Ok, Some segs, healthy e'\<lparr>ev_tick := t\<rparr>)" for segs
    using sm_Load_parse [of "healthy e'" d] parse_manifest_bytes by simp
  show ?thesis
  proof (cases "ev_files e' (curr_path d)")
    case None
    then show ?thesis
      using sm_Load_missing [of "healthy e'" d] R by (fastforce simp: commit_result_def split: if_splits)
  next
    case (Some c)
    then show ?thesis using R load assms(2,3) by (fastforce simp: commit_result_def split: if_splits)
  qed
qed

definition envA :: posix_env where
  "envA = \<lparr>ev_files = [curr_path ''d'' \<mapsto> manifest_bytes [''seg1'']], ev_tick = 0,
     ev_err = (\<lambda>n. if n = 6 then Some ''EIO'' else None), ev_chunk = (\<lambda>_. 1000)\<rparr>"

lemma length_manifest_bytes: "length (manifest_bytes segs) = 22 + sum_list (map (\<lambda>s. length s + 1) segs)"
  by (simp add: manifest_bytes_def Let_def kManifestHeader_def length_concat comp_def)

theorem sm_Commit_outcomes_witness:
  "\<exists>st e' out e2. sm_Commit envA ''d'' [''seg1'', ''seg2''] = (st, e') \<and> sm_Load (healthy e') ''d'' = (Ok, Some out, e2) \<and>
     out \<in> {[''seg1'', ''seg2''], [''seg1''], []}"
proof -
  obtain st e' where r: "sm_Commit envA ''d'' [''seg1'', ''seg2''] = (st, e')" by (cases "sm_Commit envA ''d'' [''seg1'', ''seg2'']")
  have n: "names_ok [''seg1'']" "names_ok [''seg1'', ''seg2'']" by (simp_all add: names_ok_def nl_def)
  have "ev_files envA (curr_path ''d'') = Some (manifest_bytes [''seg1''])"
    "length (manifest_bytes [''seg1'', ''seg2'']) \<le> ev_chunk envA (ev_tick envA + 1)"
    by (simp_all add: envA_def length_manifest_bytes)
  from sm_Commit_outcomes [OF this(1) n this(2) r] show ?thesis using r by auto
qed

text \<open>C35: the window loses the list. If the system call of the second rename is the one
  that fails (or the process dies before it), \<open>Commit\<close> reports an error, but the
  next \<open>Load\<close> returns \<open>Ok\<close> with no segments: the old manifest is intact as
  \<open>manifest.prev\<close> and is not looked at, because \<open>manifest.current\<close> is missing.\<close>

theorem sm_Commit_loses_list:
  assumes old: "ev_files e (curr_path d) = Some (manifest_bytes old)"
    and err: "\<forall>n. ev_err e n = (if n = ev_tick e + 6 then Some msg else None)"
  shows "\<exists>e' e2. sm_Commit e d new = (IOError ''Manifest rename failed'', e') \<and>
    sm_Load (healthy e') d = (Ok, Some [], e2) \<and> ev_files e' (prev_path d) = Some (manifest_bytes old)"
proof -
  have n: "ev_err e (ev_tick e) = None" "ev_err e (Suc (ev_tick e)) = None" "ev_err e (Suc (Suc (ev_tick e))) = None"
    "ev_err e (Suc (Suc (Suc (ev_tick e)))) = None" "ev_err e (Suc (Suc (Suc (Suc (ev_tick e))))) = None"
    "ev_err e (Suc (Suc (Suc (Suc (Suc (ev_tick e)))))) = None"
    "ev_err e (Suc (Suc (Suc (Suc (Suc (Suc (ev_tick e))))))) = Some msg"
    using err by simp_all
  obtain e' where c: "sm_Commit e d new = (IOError ''Manifest rename failed'', e')"
      "ev_files e' (curr_path d) = None" "ev_files e' (prev_path d) = Some (manifest_bytes old)"
    using old n
    by (simp add: sm_Commit_def iop_NewWritableFile_def iop_Append_def iop_Sync_def iop_Close_def put_bytes_def
        fs_exists_def fs_rename_def RenameFile_def commit_swap_def sys_unfold Let_def ErrnoStatus_def)
  then show ?thesis using sm_Load_missing [of "healthy e'" d] by auto
qed

theorem sm_Commit_loses_list_witness:
  "\<exists>e' e2. sm_Commit envA ''d'' [''seg1'', ''seg2''] = (IOError ''Manifest rename failed'', e') \<and>
     sm_Load (healthy e') ''d'' = (Ok, Some [], e2)"
  using sm_Commit_loses_list [of envA "''d''" "[''seg1'']" "''EIO''" "[''seg1'', ''seg2'']"]
  by (fastforce simp: envA_def)

lemma header_prefix_parse:
  assumes "k < 17"
  shows "parse_manifest (take k (manifest_bytes segs)) = (Ok, Some [])"
proof -
  have len: "length kManifestHeader = 17" by (simp add: kManifestHeader_def)
  have t: "take k (manifest_bytes segs) = bytes_of (take k kManifestHeader)"
    using assms by (simp add: manifest_bytes_split bytes_of_def len take_map)
  have "set (take k kManifestHeader) \<subseteq> set kManifestHeader" by (rule set_take_subset)
  moreover have "nl \<notin> set kManifestHeader" by (simp add: kManifestHeader_def nl_def)
  ultimately have "split_nl (take k kManifestHeader) = None" by (intro split_nl_None) blast
  then have "ParseSegmentLines (take k kManifestHeader) = []" by (subst ParseSegmentLines.simps) simp
  moreover have "\<not> starts_with (take k kManifestHeader) kManifestHeader" "\<not> starts_with (take k kManifestHeader) kManifestHeaderAlt"
    using assms by (auto simp: starts_with_def kManifestHeader_def kManifestHeaderAlt_def dest!: arg_cong [where f = length])
  ultimately show ?thesis by (simp add: parse_manifest_def t)
qed

text \<open>A short write is committed. The stream class behind \<open>Commit\<close> issues one \<open>write\<close>
  and ignores how much of it was done. If that write stops inside the header line
  (a full disk), every call succeeds, \<open>Commit\<close> returns \<open>Ok\<close>, and the next \<open>Load\<close>
  takes the stub for the headerless old format and returns \<open>Ok\<close> with no segments.\<close>

theorem sm_Commit_short_write:
  assumes c: "calls_ok e" and k: "ev_chunk e (ev_tick e + 1) + 1 < 17"
  shows "\<exists>e' e2. sm_Commit e d segs = (Ok, e') \<and> sm_Load e' d = (Ok, Some [], e2)"
proof -
  let ?W = "take (Suc (ev_chunk e (Suc (ev_tick e)))) (manifest_bytes segs)"
  have w: "take (min (length (manifest_bytes segs)) (Suc (ev_chunk e (Suc (ev_tick e))))) (manifest_bytes segs) = ?W"
    by (simp add: min_def)
  obtain e' where e': "sm_Commit e d segs = (Ok, e')" "ev_files e' (curr_path d) = Some ?W" "calls_ok e'"
    using c
    by (cases "ev_files e (curr_path d)")
      (simp_all add: sm_Commit_def iop_NewWritableFile_def iop_Append_def iop_Sync_def iop_Close_def put_bytes_def pwrite_at_def
        fs_exists_def fs_rename_def RenameFile_def commit_swap_def FsyncDir_def sys_ok Let_def w)
  then show ?thesis
    using sm_Load_parse [OF e'(3,2)] header_prefix_parse [of "Suc (ev_chunk e (Suc (ev_tick e)))" segs] k by auto
qed

theorem sm_Commit_short_write_witness:
  "\<exists>e' e2. sm_Commit \<lparr>ev_files = Map.empty, ev_tick = 0, ev_err = (\<lambda>_. None), ev_chunk = (\<lambda>_. 9)\<rparr> ''d'' [''seg1''] = (Ok, e') \<and>
     sm_Load e' ''d'' = (Ok, Some [], e2)"
  by (rule sm_Commit_short_write) (simp_all add: calls_ok_def)

end
