(* ===== verification/Manifest.thy ===== *)
theory Manifest
  imports Posix_File Crc32c Text_Lines "HOL-Library.Char_ord" "HOL-Library.List_Lexorder" "HOL-Library.Multiset"
begin

text \<open>
  The database manifest (\<open>src/storage/manifest/manifest.cc\<close>): a root file that lists
  the membranes and one file per membrane with its specification, both text with
  a trailing CRC-32C and both replaced by write-and-rename.  Names are compared
  and sorted as byte strings.  Null output arguments, which the operations reject,
  are not represented.
\<close>

subsection \<open>Specifications (\<open>include/pomai/options.h\<close>)\<close>

datatype MetricType = kL2 | kInnerProduct | kCosine

datatype MembraneKind = kVector | kRag | kGraph | kText | kTimeSeries | kKeyValue | kSketch | kBlob
  | kSpatial | kMesh | kSparse | kBitset | kMeta | kAudio | kBloom | kDocument

datatype IndexType = kIvfFlat | kHnsw

datatype QuantizationType = kNone | kSq8 | kFp16 | kBit | kPq8

record IndexParams =
  ip_type :: IndexType
  ip_nlist :: u32
  ip_nprobe :: u32
  ip_hnsw_m :: u32
  ip_hnsw_ef_construction :: u32
  ip_hnsw_ef_search :: u32
  ip_adaptive_threshold :: u32
  ip_quant_type :: QuantizationType
  ip_pq_m :: u32
  ip_hnsw_no_vector_pool :: bool

definition IndexParams_Default :: IndexParams where
  "IndexParams_Default = \<lparr>ip_type = kIvfFlat, ip_nlist = 64, ip_nprobe = 16, ip_hnsw_m = 32,
     ip_hnsw_ef_construction = 200, ip_hnsw_ef_search = 64, ip_adaptive_threshold = 5000,
     ip_quant_type = kNone, ip_pq_m = 8, ip_hnsw_no_vector_pool = False\<rparr>"

definition IndexParams_ForEdge :: IndexParams where
  "IndexParams_ForEdge = \<lparr>ip_type = kIvfFlat, ip_nlist = 16, ip_nprobe = 4, ip_hnsw_m = 16,
     ip_hnsw_ef_construction = 100, ip_hnsw_ef_search = 32, ip_adaptive_threshold = 2000,
     ip_quant_type = kNone, ip_pq_m = 4, ip_hnsw_no_vector_pool = True\<rparr>"

record MembraneSpec =
  sp_name :: string
  sp_shard_count :: u32
  sp_dim :: u32
  sp_metric :: MetricType
  sp_index :: IndexParams
  sp_kind :: MembraneKind
  sp_sync_lsn :: u64
  sp_ttl_sec :: u32
  sp_max_count :: u32
  sp_max_bytes :: u64

definition MembraneSpec0 :: MembraneSpec where
  "MembraneSpec0 = \<lparr>sp_name = '''', sp_shard_count = 0, sp_dim = 0, sp_metric = kL2, sp_index = IndexParams_Default,
     sp_kind = kVector, sp_sync_lsn = 0, sp_ttl_sec = 0, sp_max_count = 0, sp_max_bytes = 0\<rparr>"

subsection \<open>Names and paths\<close>

definition name_char :: "char \<Rightarrow> bool" where
  "name_char c \<longleftrightarrow> (let n = (of_char c :: nat) in
     (97 \<le> n \<and> n \<le> 122) \<or> (65 \<le> n \<and> n \<le> 90) \<or> (48 \<le> n \<and> n \<le> 57) \<or>
     c = CHR ''_'' \<or> c = CHR ''-'' \<or> c = CHR ''.'')"

definition IsValidName :: "string \<Rightarrow> bool" where
  "IsValidName s \<longleftrightarrow> \<not> (s = [] \<or> length s > 64) \<and> \<not> (s = ''.'' \<or> s = ''..'') \<and> list_all name_char s"

definition RootManifestPath :: "string \<Rightarrow> string" where
  "RootManifestPath root = path_join root ''MANIFEST''"

definition MembraneDir :: "string \<Rightarrow> string \<Rightarrow> string" where
  "MembraneDir root name = path_join (path_join root ''membranes'') name"

definition MembraneManifestPath :: "string \<Rightarrow> string \<Rightarrow> string" where
  "MembraneManifestPath root name = path_join (path_join (path_join root ''membranes'') name) ''MANIFEST''"

subsection \<open>Checked files\<close>

text \<open>The stream's open, and its seek and read, each may fail.\<close>

definition ReadAll :: "posix_env \<Rightarrow> string \<Rightarrow> status \<times> string \<times> posix_env" where
  "ReadAll e path =
     (case sys e of
        (Some msg, e) \<Rightarrow> (IOError ''read failed: open'', [], e)
      | (None, e) \<Rightarrow>
          (case ev_files e path of
             None \<Rightarrow> (IOError ''read failed: open'', [], e)
           | Some buf \<Rightarrow>
               (case sys e of
                  (Some msg, e) \<Rightarrow> (IOError ''read failed'', [], e)
                | (None, e) \<Rightarrow>
                    if length buf < 4 then (Aborted ''file too short for CRC'', [], e)
                    else
                      let content_len = length buf - 4 in
                      if Crc32c (take content_len buf) 0 \<noteq> bytes_u32 (drop content_len buf)
                      then (Aborted ''CRC mismatch'', [], e)
                      else (Ok, string_of (take content_len buf), e))))"

definition AtomicWriteFile :: "posix_env \<Rightarrow> string \<Rightarrow> string \<Rightarrow> status \<times> posix_env" where
  "AtomicWriteFile e final_path content =
     (let tmp = final_path @ ''.tmp''; bs = bytes_of content in
      case pf_CreateTrunc e tmp of
        (st, None, e) \<Rightarrow> (st, e)
      | (st, Some pf, e) \<Rightarrow>
          (case pf_PWrite e pf 0 bs of (st, e) \<Rightarrow>
           if \<not> st_ok st then (st, e) else
           case pf_PWrite e pf (length bs) (u32_bytes (Crc32c bs 0)) of (st, e) \<Rightarrow>
           if \<not> st_ok st then (st, e) else
           case pf_SyncData e pf of (st, e) \<Rightarrow>
           if \<not> st_ok st then (st, e) else
           case pf_Close e pf of (st, e, pf) \<Rightarrow>
           if \<not> st_ok st then (st, e) else
           case fs_rename e tmp final_path of (failed, e) \<Rightarrow>
           if failed then (IOError ''rename failed'', e)
           else FsyncDir e (parent_path final_path)))"

subsection \<open>Numbers\<close>

fun pu_loop :: "nat \<Rightarrow> string \<Rightarrow> status + u32" where
  "pu_loop v [] = Inr (word_of_nat v)"
| "pu_loop v (ch # cs) =
     (let n = of_char ch :: nat in
      if n < 48 \<or> n > 57 then Inl (InvalidArgument ''invalid number'')
      else let v = v * 10 + (n - 48) in
        if v > 0xFFFFFFFF then Inl (InvalidArgument ''number too large'') else pu_loop v cs)"

definition ParseU32 :: "string \<Rightarrow> status + u32" where
  "ParseU32 tok = (if tok = [] then Inl (InvalidArgument ''empty number'') else pu_loop 0 tok)"

text \<open>\<open>(void) ParseU32(tok, &field)\<close>: the field keeps its value if the token does not parse.\<close>

definition u32_or :: "u32 \<Rightarrow> string \<Rightarrow> u32" where
  "u32_or old tok = (case ParseU32 tok of Inl _ \<Rightarrow> old | Inr v \<Rightarrow> v)"

text \<open>\<open>std::stoull\<close>: leading white space, a sign, and as many digits as there are; it
  throws without digits or beyond 64 bits.\<close>

definition is_digit :: "char \<Rightarrow> bool" where
  "is_digit c \<longleftrightarrow> 48 \<le> (of_char c :: nat) \<and> (of_char c :: nat) \<le> 57"

definition stoull :: "string \<Rightarrow> u64 option" where
  "stoull s =
     (let s = dropWhile (\<lambda>c. c = CHR '' '' \<or> 9 \<le> (of_char c :: nat) \<and> (of_char c :: nat) \<le> 13) s;
          neg = (s \<noteq> [] \<and> hd s = CHR ''-'');
          s = (if s \<noteq> [] \<and> (hd s = CHR ''-'' \<or> hd s = CHR ''+'') then tl s else s);
          ds = takeWhile is_digit s
      in if ds = [] \<or> dec_value ds \<ge> 2 ^ 64 then None
         else Some (if neg then - word_of_nat (dec_value ds) else word_of_nat (dec_value ds)))"

definition u64_or :: "u64 \<Rightarrow> string \<Rightarrow> u64" where
  "u64_or old tok = (case stoull tok of None \<Rightarrow> old | Some v \<Rightarrow> v)"

subsection \<open>The root file\<close>

fun root_loop :: "string list \<Rightarrow> string list \<Rightarrow> status + string list" where
  "root_loop [] entries = Inr entries"
| "root_loop (line # ls) entries =
     (let toks = SplitWs line in
      if line = [] \<or> toks = [] then root_loop ls entries
      else if toks ! 0 = ''version'' then root_loop ls entries
      else if toks ! 0 = ''membrane'' then
        (if length toks < 2 then Inl (Corruption ''bad membrane line'')
         else if \<not> IsValidName (toks ! 1) then Inl (Corruption ''invalid membrane name'')
         else root_loop ls (entries @ [toks ! 1]))
      else root_loop ls entries)"

definition header_of :: "string \<Rightarrow> string" where
  "header_of sv = (case split_nl sv of None \<Rightarrow> sv | Some (h, _) \<Rightarrow> h)"

definition body_of :: "string \<Rightarrow> string" where
  "body_of sv = (case split_nl sv of None \<Rightarrow> [] | Some (_, r) \<Rightarrow> r)"

definition parse_root :: "string \<Rightarrow> status + string list" where
  "parse_root content =
     (if header_of content \<noteq> ''pomai.manifest.v3'' then Inl (Aborted ''bad manifest header: expected v3'')
      else map_sum (\<lambda>st. st) sort (root_loop (text_lines (body_of content)) []))"

definition LoadRoot :: "posix_env \<Rightarrow> string \<Rightarrow> (status + string list) \<times> posix_env" where
  "LoadRoot e root =
     (case ReadAll e (RootManifestPath root) of (st, content, e) \<Rightarrow>
      if \<not> st_ok st then (Inl st, e) else (parse_root content, e))"

definition SerializeRoot :: "string list \<Rightarrow> string" where
  "SerializeRoot entries =
     ''pomai.manifest.v3'' @ [nl] @ ''version 1'' @ [nl] @ concat (map (\<lambda>n. ''membrane '' @ n @ [nl]) entries)"

subsection \<open>Membrane files\<close>

fun MembraneKindToString :: "MembraneKind \<Rightarrow> string" where
  "MembraneKindToString kVector = ''VECTOR''"
| "MembraneKindToString kRag = ''RAG''"
| "MembraneKindToString kGraph = ''GRAPH''"
| "MembraneKindToString kText = ''TEXT''"
| "MembraneKindToString kTimeSeries = ''TIMESERIES''"
| "MembraneKindToString kKeyValue = ''KEYVALUE''"
| "MembraneKindToString kMeta = ''META''"
| "MembraneKindToString kSketch = ''SKETCH''"
| "MembraneKindToString kBlob = ''BLOB''"
| "MembraneKindToString kSpatial = ''SPATIAL''"
| "MembraneKindToString kMesh = ''MESH''"
| "MembraneKindToString kSparse = ''SPARSE''"
| "MembraneKindToString kBitset = ''BITSET''"
| "MembraneKindToString _ = ''VECTOR''"

definition ParseMembraneKind :: "string \<Rightarrow> MembraneKind" where
  "ParseMembraneKind tok =
     (if tok = ''RAG'' then kRag
      else if tok = ''GRAPH'' then kGraph
      else if tok = ''TEXT'' then kText
      else if tok = ''TIMESERIES'' then kTimeSeries
      else if tok = ''KEYVALUE'' then kKeyValue
      else if tok = ''META'' then kMeta
      else if tok = ''SKETCH'' then kSketch
      else if tok = ''BLOB'' then kBlob
      else if tok = ''SPATIAL'' then kSpatial
      else if tok = ''MESH'' then kMesh
      else if tok = ''SPARSE'' then kSparse
      else if tok = ''BITSET'' then kBitset
      else kVector)"

definition metric_str :: "MetricType \<Rightarrow> string" where
  "metric_str m = (if m = kInnerProduct then ''IP'' else if m = kCosine then ''COS'' else ''L2'')"

definition index_type_num :: "IndexType \<Rightarrow> nat" where
  "index_type_num t = (case t of kIvfFlat \<Rightarrow> 0 | kHnsw \<Rightarrow> 1)"

definition membrane_text :: "MembraneSpec \<Rightarrow> string" where
  "membrane_text sp =
     ''pomai.membrane.v3'' @ [nl] @
     ''name '' @ sp_name sp @ [nl] @
     ''shards '' @ to_string (unat (sp_shard_count sp)) @ [nl] @
     ''dim '' @ to_string (unat (sp_dim sp)) @ [nl] @
     ''kind '' @ MembraneKindToString (sp_kind sp) @ [nl] @
     ''metric '' @ metric_str (sp_metric sp) @ [nl] @
     ''index_params '' @ to_string (index_type_num (ip_type (sp_index sp))) @ '' '' @
       to_string (unat (ip_nlist (sp_index sp))) @ '' '' @ to_string (unat (ip_nprobe (sp_index sp))) @ '' '' @
       to_string (unat (ip_hnsw_m (sp_index sp))) @ '' '' @ to_string (unat (ip_hnsw_ef_construction (sp_index sp))) @ '' '' @
       to_string (unat (ip_hnsw_ef_search (sp_index sp))) @ [nl] @
     ''sync_lsn '' @ to_string (unat (sp_sync_lsn sp)) @ [nl] @
     ''ttl_sec '' @ to_string (unat (sp_ttl_sec sp)) @ [nl] @
     ''retention_max_count '' @ to_string (unat (sp_max_count sp)) @ [nl] @
     ''retention_max_bytes '' @ to_string (unat (sp_max_bytes sp)) @ [nl]"

definition WriteMembraneManifest :: "posix_env \<Rightarrow> string \<Rightarrow> MembraneSpec \<Rightarrow> status \<times> posix_env" where
  "WriteMembraneManifest e root sp = AtomicWriteFile e (MembraneManifestPath root (sp_name sp)) (membrane_text sp)"

definition index_params_toks :: "string list \<Rightarrow> IndexParams \<Rightarrow> IndexParams" where
  "index_params_toks toks ip =
     (if length toks = 3 then
        ip\<lparr>ip_type := kIvfFlat, ip_nlist := u32_or (ip_nlist ip) (toks ! 1), ip_nprobe := u32_or (ip_nprobe ip) (toks ! 2)\<rparr>
      else if length toks \<ge> 7 then
        ip\<lparr>ip_type := (if u32_or 0 (toks ! 1) = 1 then kHnsw else kIvfFlat),
           ip_nlist := u32_or (ip_nlist ip) (toks ! 2), ip_nprobe := u32_or (ip_nprobe ip) (toks ! 3),
           ip_hnsw_m := u32_or (ip_hnsw_m ip) (toks ! 4),
           ip_hnsw_ef_construction := u32_or (ip_hnsw_ef_construction ip) (toks ! 5),
           ip_hnsw_ef_search := u32_or (ip_hnsw_ef_search ip) (toks ! 6)\<rparr>
      else ip)"

definition membrane_line :: "string \<Rightarrow> MembraneSpec \<Rightarrow> MembraneSpec" where
  "membrane_line line sp =
     (let toks = SplitWs line; more = length toks > 1 in
      if line = [] \<or> toks = [] then sp
      else if toks ! 0 = ''name'' then sp
      else if toks ! 0 = ''shards'' then (if more then sp\<lparr>sp_shard_count := u32_or (sp_shard_count sp) (toks ! 1)\<rparr> else sp)
      else if toks ! 0 = ''dim'' then (if more then sp\<lparr>sp_dim := u32_or (sp_dim sp) (toks ! 1)\<rparr> else sp)
      else if toks ! 0 = ''metric'' then
        (if more then sp\<lparr>sp_metric := (if toks ! 1 = ''IP'' then kInnerProduct
                                       else if toks ! 1 = ''COS'' then kCosine else kL2)\<rparr> else sp)
      else if toks ! 0 = ''kind'' then (if more then sp\<lparr>sp_kind := ParseMembraneKind (toks ! 1)\<rparr> else sp)
      else if toks ! 0 = ''index_params'' then sp\<lparr>sp_index := index_params_toks toks (sp_index sp)\<rparr>
      else if toks ! 0 = ''sync_lsn'' then (if more then sp\<lparr>sp_sync_lsn := u64_or (sp_sync_lsn sp) (toks ! 1)\<rparr> else sp)
      else if toks ! 0 = ''ttl_sec'' then (if more then sp\<lparr>sp_ttl_sec := u32_or (sp_ttl_sec sp) (toks ! 1)\<rparr> else sp)
      else if toks ! 0 = ''retention_max_count'' then
        (if more then sp\<lparr>sp_max_count := u32_or (sp_max_count sp) (toks ! 1)\<rparr> else sp)
      else if toks ! 0 = ''retention_max_bytes'' then
        (if more then sp\<lparr>sp_max_bytes := u64_or (sp_max_bytes sp) (toks ! 1)\<rparr> else sp)
      else sp)"

definition parse_membrane :: "string \<Rightarrow> string \<Rightarrow> MembraneSpec \<Rightarrow> status \<times> MembraneSpec" where
  "parse_membrane content name sp =
     (if header_of content \<noteq> ''pomai.membrane.v2'' \<and> header_of content \<noteq> ''pomai.membrane.v3''
      then (Corruption ''bad membrane manifest header: expected v2/v3'', sp)
      else
        let sp = sp\<lparr>sp_name := name, sp_shard_count := 0, sp_dim := 0, sp_metric := kL2, sp_kind := kVector,
                    sp_ttl_sec := 0, sp_max_count := 0, sp_max_bytes := 0\<rparr>
        in (Ok, fold membrane_line (text_lines (body_of content)) sp))"

definition LoadMembraneManifest :: "posix_env \<Rightarrow> string \<Rightarrow> string \<Rightarrow> MembraneSpec \<Rightarrow> status \<times> MembraneSpec \<times> posix_env" where
  "LoadMembraneManifest e root name sp =
     (case ReadAll e (MembraneManifestPath root name) of (st, content, e) \<Rightarrow>
      if \<not> st_ok st then (st, sp, e)
      else case parse_membrane content name sp of (st, sp) \<Rightarrow> (st, sp, e))"

subsection \<open>Operations\<close>

text \<open>\<open>exists\<close> with an error code: an error counts as absence.\<close>

definition EnsureInitialized :: "posix_env \<Rightarrow> string \<Rightarrow> status \<times> posix_env" where
  "EnsureInitialized e root =
     (case fs_create_directories e root of (failed, e) \<Rightarrow>
      if failed then (IOError ''create_directories root failed'', e) else
      case fs_create_directories e (path_join root ''membranes'') of (failed, e) \<Rightarrow>
      if failed then (IOError ''create_directories membranes failed'', e) else
      case fs_exists e (RootManifestPath root) of (there, e) \<Rightarrow>
      if there = Some True then (Ok, e)
      else AtomicWriteFile e (RootManifestPath root) (''pomai.manifest.v3'' @ [nl] @ ''version 1'' @ [nl]))"

definition dim_required :: "MembraneKind \<Rightarrow> bool" where
  "dim_required k \<longleftrightarrow> k = kVector \<or> k = kRag \<or> k = kGraph \<or> k = kText"

definition CreateMembrane :: "posix_env \<Rightarrow> string \<Rightarrow> MembraneSpec \<Rightarrow> status \<times> posix_env" where
  "CreateMembrane e root sp =
     (if \<not> IsValidName (sp_name sp) then (InvalidArgument ''invalid membrane name'', e)
      else if dim_required (sp_kind sp) \<and> sp_dim sp = 0 then (InvalidArgument ''dim must be > 0'', e)
      else if sp_shard_count sp = 0 then (InvalidArgument ''shard_count must be > 0'', e)
      else case EnsureInitialized e root of (st, e) \<Rightarrow>
        if \<not> st_ok st then (st, e) else
        case LoadRoot e root of
          (Inl st, e) \<Rightarrow> (st, e)
        | (Inr entries, e) \<Rightarrow>
            if sp_name sp \<in> set entries then (AlreadyExists ''membrane already exists'', e) else
            case fs_create_directories e (MembraneDir root (sp_name sp)) of (failed, e) \<Rightarrow>
            if failed then (IOError ''create_directories membrane failed'', e) else
            case WriteMembraneManifest e root sp of (st, e) \<Rightarrow>
            if \<not> st_ok st then (st, e)
            else AtomicWriteFile e (RootManifestPath root) (SerializeRoot (sort (entries @ [sp_name sp]))))"

definition DropMembrane :: "posix_env \<Rightarrow> string \<Rightarrow> string \<Rightarrow> status \<times> posix_env" where
  "DropMembrane e root name =
     (if \<not> IsValidName name then (InvalidArgument ''invalid membrane name'', e)
      else case EnsureInitialized e root of (st, e) \<Rightarrow>
        if \<not> st_ok st then (st, e) else
        case LoadRoot e root of
          (Inl st, e) \<Rightarrow> (st, e)
        | (Inr entries, e) \<Rightarrow>
            if name \<notin> set entries then (NotFound ''membrane not found'', e) else
            case AtomicWriteFile e (RootManifestPath root) (SerializeRoot (remove1 name entries)) of (st, e) \<Rightarrow>
            if \<not> st_ok st then (st, e)
            else (Ok, fs_remove_all e (MembraneDir root name)))"

definition ListMembranes :: "posix_env \<Rightarrow> string \<Rightarrow> (status + string list) \<times> posix_env" where
  "ListMembranes e root =
     (case EnsureInitialized e root of (st, e) \<Rightarrow> if \<not> st_ok st then (Inl st, e) else LoadRoot e root)"

definition GetMembrane :: "posix_env \<Rightarrow> string \<Rightarrow> string \<Rightarrow> MembraneSpec \<Rightarrow> status \<times> MembraneSpec \<times> posix_env" where
  "GetMembrane e root name out =
     (if \<not> IsValidName name then (InvalidArgument ''invalid membrane name'', out, e)
      else case LoadRoot e root of
        (Inl st, e) \<Rightarrow> (st, out, e)
      | (Inr entries, e) \<Rightarrow>
          if name \<notin> set entries then (NotFound ''membrane not found in root'', out, e)
          else LoadMembraneManifest e root name out)"

definition UpdateSyncLSN :: "posix_env \<Rightarrow> string \<Rightarrow> string \<Rightarrow> u64 \<Rightarrow> status \<times> posix_env" where
  "UpdateSyncLSN e root name lsn =
     (case GetMembrane e root name MembraneSpec0 of (st, sp, e) \<Rightarrow>
      if \<not> st_ok st then (st, e)
      else if sp_sync_lsn sp = lsn then (Ok, e)
      else WriteMembraneManifest e root (sp\<lparr>sp_sync_lsn := lsn\<rparr>))"

definition UpdateRetentionPolicy :: "posix_env \<Rightarrow> string \<Rightarrow> string \<Rightarrow> u32 \<Rightarrow> u32 \<Rightarrow> u64 \<Rightarrow> status \<times> posix_env" where
  "UpdateRetentionPolicy e root name ttl cnt bytes =
     (case GetMembrane e root name MembraneSpec0 of (st, sp, e) \<Rightarrow>
      if \<not> st_ok st then (st, e)
      else WriteMembraneManifest e root (sp\<lparr>sp_ttl_sec := ttl, sp_max_count := cnt, sp_max_bytes := bytes\<rparr>))"

definition CheckCompatibility :: "posix_env \<Rightarrow> string \<Rightarrow> status \<times> posix_env" where
  "CheckCompatibility e root =
     (case ReadAll e (RootManifestPath root) of (st, content, e) \<Rightarrow>
      if \<not> st_ok st then (st, e)
      else if header_of content \<noteq> ''pomai.manifest.v3'' then (Aborted ''manifest compatibility check failed'', e)
      else (Ok, e))"

subsection \<open>Replacing a file\<close>

definition checked_file :: "string \<Rightarrow> byte list" where
  "checked_file content = bytes_of content @ u32_bytes (Crc32c (bytes_of content) 0)"

lemma ReadAll_checked:
  "calls_ok e \<Longrightarrow> ev_files e p = Some (checked_file c) \<Longrightarrow> \<exists>t. ReadAll e p = (Ok, c, e\<lparr>ev_tick := t\<rparr>)"
  by (auto simp: ReadAll_def sys_ok checked_file_def Let_def bytes_u32_u32')

lemma AtomicWriteFile_result:
  assumes "AtomicWriteFile e p content = (st, e')"
  shows "(\<forall>q. q \<noteq> p \<and> q \<noteq> p @ ''.tmp'' \<longrightarrow> ev_files e' q = ev_files e q) \<and> ev_err e' = ev_err e \<and>
    (ev_files e' p = ev_files e p \<or> ev_files e' p = Some (checked_file content)) \<and>
    (st_ok st \<longrightarrow> st = Ok \<and> ev_files e' p = Some (checked_file content)) \<and> (calls_ok e \<longrightarrow> st = Ok)"
proof -
  define tmp where "tmp = p @ ''.tmp''"
  define e1 where "e1 = e\<lparr>ev_tick := Suc (ev_tick e), ev_files := (ev_files e)(tmp \<mapsto> [])\<rparr>"
  define bs where "bs = bytes_of content"
  have ne: "tmp \<noteq> p" "p \<noteq> tmp" by (simp_all add: tmp_def)
  obtain s1 e2 where w1: "pf_PWrite e1 (pf_at tmp) 0 bs = (s1, e2)" by (cases "pf_PWrite e1 (pf_at tmp) 0 bs")
  obtain s2 e3 where w2: "pf_PWrite e2 (pf_at tmp) (length bs) (u32_bytes (Crc32c bs 0)) = (s2, e3)"
    by (cases "pf_PWrite e2 (pf_at tmp) (length bs) (u32_bytes (Crc32c bs 0))")
  have r1: "(\<forall>q. q \<noteq> tmp \<longrightarrow> ev_files e2 q = ev_files e q) \<and> ev_err e2 = ev_err e \<and>
      (st_ok s1 \<longrightarrow> s1 = Ok \<and> ev_files e2 tmp = Some bs) \<and> (calls_ok e \<longrightarrow> s1 = Ok)"
    using pf_PWrite_result [OF w1, of "[]"] by (simp add: e1_def pf_at_def)
  have r2: "st_ok s1 \<Longrightarrow> (\<forall>q. q \<noteq> tmp \<longrightarrow> ev_files e3 q = ev_files e q) \<and> ev_err e3 = ev_err e \<and>
      (st_ok s2 \<longrightarrow> s2 = Ok \<and> ev_files e3 tmp = Some (checked_file content)) \<and> (calls_ok e \<longrightarrow> s2 = Ok)"
    using pf_PWrite_result [OF w2, of bs] r1 by (simp add: pf_at_def checked_file_def bs_def calls_ok_def)
  note defs = AtomicWriteFile_def pf_CreateTrunc_def pf_SyncData_def pf_Close_def fs_rename_def RenameFile_def FsyncDir_def
  show ?thesis
  proof (cases "ev_err e (ev_tick e) = None \<and> st_ok s1 \<and> st_ok s2")
    case False
    then show ?thesis
      using assms w1 w2 r1 r2 ne
      by (auto simp: defs sys_unfold Let_def tmp_def [symmetric] bs_def [symmetric] e1_def ErrnoStatus_def calls_ok_def
          split: option.splits if_splits prod.splits)
  next
    case True
    then show ?thesis
      using assms w1 w2 r1 r2 ne
      by (auto simp: defs sys_unfold Let_def tmp_def [symmetric] bs_def [symmetric] e1_def ErrnoStatus_def calls_ok_def pf_at_def
          split: option.splits if_splits prod.splits)
  qed
qed

lemma AtomicWriteFile_ok:
  assumes "calls_ok e"
  shows "\<exists>e'. AtomicWriteFile e p content = (Ok, e') \<and> calls_ok e' \<and> ev_files e' p = Some (checked_file content) \<and>
    (\<forall>q. q \<noteq> p \<and> q \<noteq> p @ ''.tmp'' \<longrightarrow> ev_files e' q = ev_files e q)"
proof -
  obtain st e' where r: "AtomicWriteFile e p content = (st, e')" by (cases "AtomicWriteFile e p content")
  show ?thesis using AtomicWriteFile_result [OF r] assms r by (auto simp: calls_ok_def)
qed

subsection \<open>Numbers and words read back\<close>

lemma foldl_dec_mono: "(v :: nat) \<le> foldl (\<lambda>v c. 10 * v + (of_char c - 48)) v (ds :: string)"
proof (induction ds arbitrary: v)
  case (Cons d ds)
  have "v \<le> 10 * v + (of_char d - 48)" by simp
  also have "\<dots> \<le> foldl (\<lambda>v c. 10 * v + (of_char c - 48)) (10 * v + (of_char d - 48)) ds" by (rule Cons.IH)
  finally show ?case by simp
qed simp

lemma pu_loop_digits:
  "\<forall>c \<in> set ds. is_digit c \<Longrightarrow> foldl (\<lambda>v c. 10 * v + (of_char c - 48)) v ds \<le> 0xFFFFFFFF \<Longrightarrow>
   pu_loop v ds = Inr (word_of_nat (foldl (\<lambda>v c. 10 * v + (of_char c - 48)) v ds))"
proof (induction ds arbitrary: v)
  case (Cons d ds)
  have "10 * v + (of_char d - 48) \<le> 0xFFFFFFFF"
    using foldl_dec_mono [of "10 * v + (of_char d - 48)" ds] Cons.prems(2) by simp
  then show ?case using Cons by (auto simp: Let_def is_digit_def mult.commute)
qed simp

lemma to_string_is_digit: "\<forall>c \<in> set (to_string n). is_digit c"
  using to_string_digits by (auto simp: is_digit_def)

lemma u32_or_to_string [simp]: "u32_or old (to_string (unat (x :: u32))) = x"
proof -
  have "unat x < 2 ^ 32" using unsigned_less [of x, where 'a = nat] by simp
  then have "pu_loop 0 (to_string (unat x)) = Inr (word_of_nat (dec_value (to_string (unat x))))"
    using pu_loop_digits [OF to_string_is_digit, of 0 "unat x"] dec_value_to_string [of "unat x"] by (simp add: dec_value_def)
  then show ?thesis by (simp add: u32_or_def ParseU32_def dec_value_to_string)
qed

lemma u32_or_index_type [simp]: "u32_or old (to_string (index_type_num t)) = word_of_nat (index_type_num t)"
  using u32_or_to_string [of old "word_of_nat (index_type_num t)"] by (cases t) (simp_all add: index_type_num_def)

lemma u64_or_to_string [simp]: "u64_or old (to_string (unat (x :: u64))) = x"
proof -
  define s where "s = to_string (unat x)"
  have d: "\<forall>c \<in> set s. is_digit c" unfolding s_def by (rule to_string_is_digit)
  obtain a r where ar: "s = a # r" by (metis s_def to_string_nonempty list.exhaust)
  then have a: "48 \<le> (of_char a :: nat)" "(of_char a :: nat) \<le> 57" using d by (auto simp: is_digit_def)
  then have "a \<noteq> CHR ''-''" "a \<noteq> CHR ''+''" "a \<noteq> CHR '' ''" by auto
  moreover have "takeWhile is_digit s = s" using d by (simp add: takeWhile_eq_all_conv)
  moreover have "dec_value s = unat x" by (simp add: s_def dec_value_to_string)
  moreover have "unat x < 2 ^ 64" using unsigned_less [of x, where 'a = nat] by simp
  ultimately have "stoull s = Some x" using ar a by (simp add: stoull_def Let_def)
  then show ?thesis by (simp add: u64_or_def s_def)
qed

lemma digit_not_ws: "is_digit c \<Longrightarrow> \<not> is_ws c \<and> c \<noteq> nl"
  by (auto simp: is_digit_def is_ws_def nl_def)

lemma word_to_string [simp]: "word_str (to_string n)"
  using digit_not_ws to_string_is_digit by (auto simp: word_str_def)

lemma nl_to_string [simp]: "nl \<notin> set (to_string n)"
  using digit_not_ws to_string_is_digit by blast

lemma name_char_not_ws: "name_char c \<Longrightarrow> \<not> is_ws c \<and> c \<noteq> nl \<and> c \<noteq> CHR ''/''"
  by (auto simp: name_char_def is_ws_def nl_def Let_def)

lemma valid_name_word: "IsValidName n \<Longrightarrow> word_str n" "IsValidName n \<Longrightarrow> nl \<notin> set n" "IsValidName n \<Longrightarrow> CHR ''/'' \<notin> set n"
  "IsValidName n \<Longrightarrow> n \<noteq> []"
  using name_char_not_ws by (auto simp: IsValidName_def word_str_def list_all_iff)

lemma SplitWs_pair: "word_str k \<Longrightarrow> word_str v \<Longrightarrow> SplitWs (k @ CHR '' '' # v) = [k, v]"
  by (simp add: SplitWs_Cons SplitWs_word)

subsection \<open>The root file read back\<close>

lemma root_loop_lines:
  "\<forall>n \<in> set ns. IsValidName n \<Longrightarrow> root_loop (map (\<lambda>n. ''membrane '' @ n) ns) acc = Inr (acc @ ns)"
proof (induction ns arbitrary: acc)
  case (Cons n ns)
  have "SplitWs (''membrane '' @ n) = [''membrane'', n]"
    using SplitWs_pair [of "''membrane''" n] valid_name_word(1) [of n] Cons.prems by (simp add: word_str_def is_ws_def)
  then show ?case using Cons by (simp add: Let_def)
qed simp

lemma SerializeRoot_lines:
  "SerializeRoot ns = ''pomai.manifest.v3'' @ nl # lines (''version 1'' # map (\<lambda>n. ''membrane '' @ n) ns)"
  by (simp add: SerializeRoot_def lines_def comp_def)

lemma header_line: "nl \<notin> set h \<Longrightarrow> header_of (h @ nl # r) = h" "nl \<notin> set h \<Longrightarrow> body_of (h @ nl # r) = r"
  by (simp_all add: header_of_def body_of_def)

lemma parse_SerializeRoot:
  assumes "\<forall>n \<in> set ns. IsValidName n"
  shows "parse_root (SerializeRoot ns) = Inr (sort ns)"
proof -
  let ?h = "''pomai.manifest.v3''"
  define ms where "ms = map (\<lambda>n. ''membrane '' @ n) ns"
  define ls where "ls = ''version 1'' # ms"
  have m: "root_loop ms [] = Inr ns" unfolding ms_def using root_loop_lines [OF assms, of "[]"] by (simp only: append_Nil)
  have h: "nl \<notin> set ?h" by (simp add: nl_def)
  have "\<forall>l \<in> set ls. nl \<notin> set l" using assms valid_name_word(2) by (auto simp: nl_def ls_def ms_def)
  then have t: "text_lines (lines ls) = ls" by (rule text_lines_lines)
  have "SplitWs (''version 1'') = [''version'', ''1'']"
    using SplitWs_pair [of "''version''" "''1''"] by (simp add: word_str_def is_ws_def)
  then have "root_loop ls [] = Inr ns"
    by (simp add: ls_def m Let_def)
  then show ?thesis
    unfolding SerializeRoot_lines ms_def [symmetric] ls_def [symmetric] parse_root_def header_line [OF h] t by simp
qed

subsection \<open>A membrane file read back\<close>

text \<open>The kind a written kind is read as, and the specification read from the file written
  for \<open>sp\<close> into a variable that held \<open>out\<close>: the index parameters that are not written
  keep their values.\<close>

definition stored_kind :: "MembraneKind \<Rightarrow> MembraneKind" where
  "stored_kind k = (if k \<in> {kAudio, kBloom, kDocument} then kVector else k)"

definition restored :: "MembraneSpec \<Rightarrow> MembraneSpec \<Rightarrow> MembraneSpec" where
  "restored sp out = sp\<lparr>sp_kind := stored_kind (sp_kind sp),
     sp_index := (sp_index out)\<lparr>ip_type := ip_type (sp_index sp), ip_nlist := ip_nlist (sp_index sp),
       ip_nprobe := ip_nprobe (sp_index sp), ip_hnsw_m := ip_hnsw_m (sp_index sp),
       ip_hnsw_ef_construction := ip_hnsw_ef_construction (sp_index sp), ip_hnsw_ef_search := ip_hnsw_ef_search (sp_index sp)\<rparr>\<rparr>"

lemma restored_index:
  "restored sp out = sp\<lparr>sp_kind := stored_kind (sp_kind sp),
     sp_index := (sp_index sp)\<lparr>ip_quant_type := ip_quant_type (sp_index out), ip_adaptive_threshold := ip_adaptive_threshold (sp_index out),
       ip_pq_m := ip_pq_m (sp_index out), ip_hnsw_no_vector_pool := ip_hnsw_no_vector_pool (sp_index out)\<rparr>\<rparr>"
  by (simp add: restored_def IndexParams.equality)

lemma kind_read_back: "ParseMembraneKind (MembraneKindToString k) = stored_kind k"
  by (cases k) (simp_all add: ParseMembraneKind_def stored_kind_def)

lemma kind_word [simp]: "word_str (MembraneKindToString k)" "nl \<notin> set (MembraneKindToString k)"
  by (cases k; simp add: word_str_def is_ws_def nl_def)+

lemma metric_word [simp]: "word_str (metric_str m)" "nl \<notin> set (metric_str m)"
  by (cases m; simp add: metric_str_def word_str_def is_ws_def nl_def)+

definition index_line :: "IndexParams \<Rightarrow> string" where
  "index_line ip = ''index_params '' @ to_string (index_type_num (ip_type ip)) @ '' '' @
     to_string (unat (ip_nlist ip)) @ '' '' @ to_string (unat (ip_nprobe ip)) @ '' '' @
     to_string (unat (ip_hnsw_m ip)) @ '' '' @ to_string (unat (ip_hnsw_ef_construction ip)) @ '' '' @
     to_string (unat (ip_hnsw_ef_search ip))"

lemma SplitWs_index_line:
  "SplitWs (index_line ip) = [''index_params'', to_string (index_type_num (ip_type ip)), to_string (unat (ip_nlist ip)),
     to_string (unat (ip_nprobe ip)), to_string (unat (ip_hnsw_m ip)), to_string (unat (ip_hnsw_ef_construction ip)),
     to_string (unat (ip_hnsw_ef_search ip))]"
proof -
  have "word_str ''index_params''" by (simp add: word_str_def is_ws_def)
  from SplitWs_Cons [OF this] show ?thesis by (simp add: index_line_def SplitWs_Cons SplitWs_word)
qed

lemma membrane_line_index:
  "membrane_line (index_line ip) sp = sp\<lparr>sp_index := (sp_index sp)\<lparr>ip_type := ip_type ip, ip_nlist := ip_nlist ip,
       ip_nprobe := ip_nprobe ip, ip_hnsw_m := ip_hnsw_m ip,
       ip_hnsw_ef_construction := ip_hnsw_ef_construction ip, ip_hnsw_ef_search := ip_hnsw_ef_search ip\<rparr>\<rparr>"
proof -
  have ne: "index_line ip \<noteq> []" by (simp add: index_line_def)
  have t: "(if u32_or 0 (to_string (index_type_num (ip_type ip))) = 1 then kHnsw else kIvfFlat) = ip_type ip"
    unfolding u32_or_index_type by (cases "ip_type ip") (simp_all add: index_type_num_def)
  have "index_params_toks (SplitWs (index_line ip)) (sp_index sp) = (sp_index sp)\<lparr>ip_type := ip_type ip, ip_nlist := ip_nlist ip,
       ip_nprobe := ip_nprobe ip, ip_hnsw_m := ip_hnsw_m ip,
       ip_hnsw_ef_construction := ip_hnsw_ef_construction ip, ip_hnsw_ef_search := ip_hnsw_ef_search ip\<rparr>"
    unfolding SplitWs_index_line index_params_toks_def using t by (simp add: nth_Cons' u32_or_index_type [abs_def])
  then show ?thesis using ne by (simp add: membrane_line_def SplitWs_index_line Let_def)
qed

lemma membrane_line_pair:
  assumes "word_str k" "word_str v"
  shows "membrane_line (k @ CHR '' '' # v) sp =
     (if k = ''shards'' then sp\<lparr>sp_shard_count := u32_or (sp_shard_count sp) v\<rparr>
      else if k = ''dim'' then sp\<lparr>sp_dim := u32_or (sp_dim sp) v\<rparr>
      else if k = ''metric'' then sp\<lparr>sp_metric := (if v = ''IP'' then kInnerProduct else if v = ''COS'' then kCosine else kL2)\<rparr>
      else if k = ''kind'' then sp\<lparr>sp_kind := ParseMembraneKind v\<rparr>
      else if k = ''sync_lsn'' then sp\<lparr>sp_sync_lsn := u64_or (sp_sync_lsn sp) v\<rparr>
      else if k = ''ttl_sec'' then sp\<lparr>sp_ttl_sec := u32_or (sp_ttl_sec sp) v\<rparr>
      else if k = ''retention_max_count'' then sp\<lparr>sp_max_count := u32_or (sp_max_count sp) v\<rparr>
      else if k = ''retention_max_bytes'' then sp\<lparr>sp_max_bytes := u64_or (sp_max_bytes sp) v\<rparr>
      else sp)"
proof -
  have s: "SplitWs (k @ CHR '' '' # v) = [k, v]" using assms by (rule SplitWs_pair)
  show ?thesis unfolding membrane_line_def s by (simp add: index_params_toks_def Let_def)
qed

definition spec_lines :: "MembraneSpec \<Rightarrow> (string \<times> string) list \<times> (string \<times> string) list" where
  "spec_lines sp =
     ([(''name'', sp_name sp), (''shards'', to_string (unat (sp_shard_count sp))), (''dim'', to_string (unat (sp_dim sp))),
       (''kind'', MembraneKindToString (sp_kind sp)), (''metric'', metric_str (sp_metric sp))],
      [(''sync_lsn'', to_string (unat (sp_sync_lsn sp))), (''ttl_sec'', to_string (unat (sp_ttl_sec sp))),
       (''retention_max_count'', to_string (unat (sp_max_count sp))), (''retention_max_bytes'', to_string (unat (sp_max_bytes sp)))])"

definition pair_line :: "string \<times> string \<Rightarrow> string" where
  "pair_line kv = fst kv @ CHR '' '' # snd kv"

lemma membrane_text_lines:
  "membrane_text sp = ''pomai.membrane.v3'' @ nl #
     lines (map pair_line (fst (spec_lines sp)) @ [index_line (sp_index sp)] @ map pair_line (snd (spec_lines sp)))"
  by (simp add: membrane_text_def spec_lines_def pair_line_def index_line_def)

lemma metric_read_back:
  "(if metric_str m = ''IP'' then kInnerProduct else if metric_str m = ''COS'' then kCosine else kL2) = m"
  by (cases m) (simp_all add: metric_str_def)

lemma spec_lines_words:
  "IsValidName (sp_name sp) \<Longrightarrow> kv \<in> set (fst (spec_lines sp)) \<union> set (snd (spec_lines sp)) \<Longrightarrow> word_str (fst kv) \<and> word_str (snd kv)
     \<and> nl \<notin> set (pair_line kv)"
  using valid_name_word [of "sp_name sp"]
  by (auto simp: spec_lines_def pair_line_def nl_def [symmetric]) (auto simp: word_str_def is_ws_def nl_def)

lemma key_words:
  "word_str ''name''" "word_str ''shards''" "word_str ''dim''" "word_str ''kind''" "word_str ''metric''" "word_str ''sync_lsn''"
  "word_str ''ttl_sec''" "word_str ''retention_max_count''" "word_str ''retention_max_bytes''"
  by (simp_all add: word_str_def is_ws_def)

lemma membrane_lines_read_back:
  assumes "IsValidName (sp_name sp)"
  shows "fold membrane_line (map pair_line (fst (spec_lines sp)) @ [index_line (sp_index sp)] @ map pair_line (snd (spec_lines sp)))
      (out\<lparr>sp_name := sp_name sp, sp_shard_count := 0, sp_dim := 0, sp_metric := kL2, sp_kind := kVector,
           sp_ttl_sec := 0, sp_max_count := 0, sp_max_bytes := 0\<rparr>) = restored sp out"
proof -
  have "word_str (sp_name sp)" using assms by (rule valid_name_word(1))
  then show ?thesis
    by (cases sp; cases out)
      (simp add: spec_lines_def pair_line_def membrane_line_pair key_words membrane_line_index kind_read_back metric_read_back
        restored_def del: append.simps(2) append_Cons)
qed

lemma parse_membrane_text:
  assumes "IsValidName (sp_name sp)"
  shows "parse_membrane (membrane_text sp) (sp_name sp) out = (Ok, restored sp out)"
proof -
  let ?h = "''pomai.membrane.v3''"
  define ls where "ls = map pair_line (fst (spec_lines sp)) @ [index_line (sp_index sp)] @ map pair_line (snd (spec_lines sp))"
  have h: "nl \<notin> set ?h" by (simp add: nl_def)
  have "nl \<notin> set (index_line ip)" for ip by (simp add: index_line_def) (simp add: nl_def)
  then have "\<forall>l \<in> set ls. nl \<notin> set l" using spec_lines_words [OF assms] by (auto simp: ls_def)
  then have t: "text_lines (lines ls) = ls" by (rule text_lines_lines)
  show ?thesis
    unfolding membrane_text_lines ls_def [symmetric] parse_membrane_def header_line [OF h] t
    using membrane_lines_read_back [OF assms, of out] by (simp add: Let_def ls_def)
qed

subsection \<open>Paths\<close>

lemma membrane_path:
  assumes "IsValidName n"
  shows "MembraneManifestPath root n = path_join root (''membranes/'' @ n @ ''/MANIFEST'')"
proof -
  have "n \<noteq> []" "last n \<noteq> CHR ''/''" using valid_name_word [OF assms] by (metis last_in_set)+
  then show ?thesis by (simp add: MembraneManifestPath_def path_join_def)
qed

lemma manifest_path_ne:
  assumes "IsValidName n"
  shows "RootManifestPath root \<noteq> MembraneManifestPath root n" "RootManifestPath root \<noteq> MembraneManifestPath root n @ ''.tmp''"
    "MembraneManifestPath root n \<noteq> RootManifestPath root @ ''.tmp''"
  unfolding membrane_path [OF assms] by (simp_all add: RootManifestPath_def path_join_def)

subsection \<open>Operations on a well-formed root\<close>

definition root_holds :: "posix_env \<Rightarrow> string \<Rightarrow> string list \<Rightarrow> bool" where
  "root_holds e root ns \<longleftrightarrow> list_all IsValidName ns \<and>
     (ev_files e (RootManifestPath root) = Some (checked_file (SerializeRoot ns)) \<or>
      ns = [] \<and> ev_files e (RootManifestPath root) = None)"

definition membrane_holds :: "posix_env \<Rightarrow> string \<Rightarrow> MembraneSpec \<Rightarrow> bool" where
  "membrane_holds e root sp \<longleftrightarrow> IsValidName (sp_name sp) \<and>
     ev_files e (MembraneManifestPath root (sp_name sp)) = Some (checked_file (membrane_text sp))"

lemma LoadRoot_ok:
  assumes "calls_ok e" "ev_files e (RootManifestPath root) = Some (checked_file (SerializeRoot ns))" "list_all IsValidName ns"
  shows "\<exists>t. LoadRoot e root = (Inr (sort ns), e\<lparr>ev_tick := t\<rparr>)"
  using ReadAll_checked [OF assms(1,2)] parse_SerializeRoot [of ns] assms(3) by (auto simp: LoadRoot_def list_all_iff)

lemma EnsureInitialized_ok:
  assumes "calls_ok e" "root_holds e root ns"
  shows "\<exists>e1. EnsureInitialized e root = (Ok, e1) \<and> calls_ok e1 \<and>
    ev_files e1 (RootManifestPath root) = Some (checked_file (SerializeRoot ns)) \<and>
    (\<forall>q. q \<noteq> RootManifestPath root \<and> q \<noteq> RootManifestPath root @ ''.tmp'' \<longrightarrow> ev_files e1 q = ev_files e q)"
proof -
  define e3 where "e3 = e\<lparr>ev_tick := Suc (Suc (Suc (ev_tick e)))\<rparr>"
  define c where "c = ''pomai.manifest.v3'' @ [nl] @ ''version 1'' @ [nl]"
  have E: "EnsureInitialized e root = (if ev_files e (RootManifestPath root) \<noteq> None then (Ok, e3)
      else AtomicWriteFile e3 (RootManifestPath root) c)"
    using assms(1) unfolding EnsureInitialized_def c_def [symmetric]
    by (simp add: fs_create_directories_def fs_exists_def sys_ok e3_def)
  show ?thesis
  proof (cases "ev_files e (RootManifestPath root)")
    case None
    then have "ns = []" using assms(2) by (simp add: root_holds_def)
    then have "c = SerializeRoot ns" by (simp add: c_def SerializeRoot_def)
    then show ?thesis using E None AtomicWriteFile_ok [of e3 "RootManifestPath root" c] assms(1) by (simp add: e3_def)
  next
    case (Some b)
    then show ?thesis using E assms by (auto simp: root_holds_def e3_def)
  qed
qed

lemma GetMembrane_ok:
  assumes "calls_ok e" "root_holds e root ns" "membrane_holds e root sp" "sp_name sp \<in> set ns"
  shows "\<exists>t. GetMembrane e root (sp_name sp) out = (Ok, restored sp out, e\<lparr>ev_tick := t\<rparr>)"
proof -
  have v: "IsValidName (sp_name sp)" using assms(3) by (simp add: membrane_holds_def)
  have "list_all IsValidName ns" "ev_files e (RootManifestPath root) = Some (checked_file (SerializeRoot ns))"
    using assms(2,4) by (auto simp: root_holds_def)
  then obtain t where t: "LoadRoot e root = (Inr (sort ns), e\<lparr>ev_tick := t\<rparr>)" using LoadRoot_ok assms(1) by blast
  obtain t' where "ReadAll (e\<lparr>ev_tick := t\<rparr>) (MembraneManifestPath root (sp_name sp)) = (Ok, membrane_text sp, e\<lparr>ev_tick := t'\<rparr>)"
    using ReadAll_checked [of "e\<lparr>ev_tick := t\<rparr>" "MembraneManifestPath root (sp_name sp)" "membrane_text sp"] assms(1,3)
    by (auto simp: membrane_holds_def)
  then show ?thesis using t v assms(4) parse_membrane_text [OF v] by (auto simp: GetMembrane_def LoadMembraneManifest_def)
qed

lemma ListMembranes_ok:
  assumes "calls_ok e" "root_holds e root ns"
  shows "\<exists>e2. ListMembranes e root = (Inr (sort ns), e2)"
proof -
  obtain e1 where "EnsureInitialized e root = (Ok, e1)" "calls_ok e1"
      "ev_files e1 (RootManifestPath root) = Some (checked_file (SerializeRoot ns))"
    using EnsureInitialized_ok [OF assms] by blast
  then show ?thesis using LoadRoot_ok [of e1 root ns] assms(2) by (auto simp: ListMembranes_def root_holds_def)
qed

lemma sort_mset_cong: "mset xs = mset ys \<Longrightarrow> sort xs = sort (ys :: string list)"
  by (metis mset_sort properties_for_sort sorted_sort)

subsection \<open>Properties\<close>

text \<open>C16: replacing a manifest file is atomic. Whatever system calls fail and however short
  the single writes are, the path holds its old contents or the complete new
  contents with their checksum, and holds the new ones if the call reports \<open>Ok\<close>.
  No other file changes but the temporary one.\<close>

theorem AtomicWriteFile_atomic:
  assumes "AtomicWriteFile e p content = (st, e')"
  shows "(ev_files e' p = ev_files e p \<or> ev_files e' p = Some (checked_file content)) \<and>
    (st_ok st \<longrightarrow> ev_files e' p = Some (checked_file content)) \<and>
    (\<forall>q. q \<noteq> p \<and> q \<noteq> p @ ''.tmp'' \<longrightarrow> ev_files e' q = ev_files e q)"
  using AtomicWriteFile_result [OF assms] by blast

theorem AtomicWriteFile_atomic_witness:
  "\<exists>st e'. AtomicWriteFile \<lparr>ev_files = [''m'' \<mapsto> [1, 2]], ev_tick = 0, ev_err = [4 \<mapsto> ''EIO''], ev_chunk = (\<lambda>_. 2)\<rparr> ''m'' ''abcde'' = (st, e') \<and>
     (ev_files e' ''m'' = Some [1, 2] \<or> ev_files e' ''m'' = Some (checked_file ''abcde''))"
proof -
  let ?e = "\<lparr>ev_files = [''m'' \<mapsto> [1, 2]], ev_tick = 0, ev_err = [4 \<mapsto> ''EIO''], ev_chunk = (\<lambda>_. 2)\<rparr>"
  obtain st e' where r: "AtomicWriteFile ?e ''m'' ''abcde'' = (st, e')" by (cases "AtomicWriteFile ?e ''m'' ''abcde''")
  show ?thesis using AtomicWriteFile_atomic [OF r] r by auto
qed

text \<open>C27: Creating a membrane. On a healthy file system, with a root that is absent or lists
  valid names, \<open>CreateMembrane\<close> of a new valid specification succeeds; afterwards
  \<open>ListMembranes\<close> returns the old names and the new one in order, and every file but the two manifests and their
  temporary files is as before. Whatever specification the caller hands in to be filled, \<open>GetMembrane\<close> returns the one that was given to
  \<open>CreateMembrane\<close>, except for the following: the kinds audio, bloom and document come back as vector, and four of the index parameters, the
  quantisation, the adaptive threshold, \<open>pq_m\<close> and \<open>hnsw_no_vector_pool\<close>, are not stored and stay as the caller had them.\<close>

theorem CreateMembrane_Get:
  assumes c: "calls_ok e" and root: "root_holds e root ns"
    and new: "IsValidName (sp_name sp)" "sp_name sp \<notin> set ns" "dim_required (sp_kind sp) \<longrightarrow> sp_dim sp \<noteq> 0" "sp_shard_count sp \<noteq> 0"
  shows "\<exists>e'. CreateMembrane e root sp = (Ok, e') \<and>
    (\<exists>e2. ListMembranes e' root = (Inr (sort (sp_name sp # ns)), e2)) \<and>
    (\<forall>out. \<exists>e2. GetMembrane e' root (sp_name sp) out =
       (Ok, sp\<lparr>sp_kind := stored_kind (sp_kind sp),
          sp_index := (sp_index sp)\<lparr>ip_quant_type := ip_quant_type (sp_index out), ip_adaptive_threshold := ip_adaptive_threshold (sp_index out),
            ip_pq_m := ip_pq_m (sp_index out), ip_hnsw_no_vector_pool := ip_hnsw_no_vector_pool (sp_index out)\<rparr>\<rparr>, e2)) \<and>
    (\<forall>q. q \<notin> {RootManifestPath root, RootManifestPath root @ ''.tmp'', MembraneManifestPath root (sp_name sp),
            MembraneManifestPath root (sp_name sp) @ ''.tmp''} \<longrightarrow> ev_files e' q = ev_files e q)"
proof -
  let ?R = "RootManifestPath root" and ?M = "MembraneManifestPath root (sp_name sp)"
  define ns' where "ns' = sort (sort ns @ [sp_name sp])"
  have val: "list_all IsValidName ns" using root by (simp add: root_holds_def)
  obtain e1 where e1: "EnsureInitialized e root = (Ok, e1)" "calls_ok e1" "ev_files e1 ?R = Some (checked_file (SerializeRoot ns))"
      "\<forall>q. q \<noteq> ?R \<and> q \<noteq> ?R @ ''.tmp'' \<longrightarrow> ev_files e1 q = ev_files e q"
    using EnsureInitialized_ok [OF c root] by blast
  obtain t where t: "LoadRoot e1 root = (Inr (sort ns), e1\<lparr>ev_tick := t\<rparr>)" using LoadRoot_ok [OF e1(2,3) val] by blast
  define e2 where "e2 = e1\<lparr>ev_tick := Suc t\<rparr>"
  obtain e3 where e3: "AtomicWriteFile e2 ?M (membrane_text sp) = (Ok, e3)" "calls_ok e3"
      "ev_files e3 ?M = Some (checked_file (membrane_text sp))" "\<forall>q. q \<noteq> ?M \<and> q \<noteq> ?M @ ''.tmp'' \<longrightarrow> ev_files e3 q = ev_files e2 q"
    using AtomicWriteFile_ok [of e2 ?M "membrane_text sp"] e1(2) by (auto simp: e2_def)
  obtain e4 where e4: "AtomicWriteFile e3 ?R (SerializeRoot ns') = (Ok, e4)" "calls_ok e4"
      "ev_files e4 ?R = Some (checked_file (SerializeRoot ns'))" "\<forall>q. q \<noteq> ?R \<and> q \<noteq> ?R @ ''.tmp'' \<longrightarrow> ev_files e4 q = ev_files e3 q"
    using AtomicWriteFile_ok [OF e3(2)] by blast
  have C: "CreateMembrane e root sp = (Ok, e4)"
    using new e1(1,2) t e3(1) e4(1)
    by (auto simp: CreateMembrane_def fs_create_directories_def sys_ok WriteMembraneManifest_def e2_def ns'_def)
  have M: "membrane_holds e4 root sp"
    using new(1) e3(3) e4(4) manifest_path_ne [OF new(1), of root] by (simp add: membrane_holds_def)
  have rt: "root_holds e4 root ns'" using val new(1) e4(3) by (simp add: root_holds_def ns'_def list_all_iff)
  have "sort ns' = sort (sp_name sp # ns)" by (rule sort_mset_cong) (simp add: ns'_def)
  then obtain e5 where L: "ListMembranes e4 root = (Inr (sort (sp_name sp # ns)), e5)" using ListMembranes_ok [OF e4(2) rt] by auto
  have "sp_name sp \<in> set ns'" by (simp add: ns'_def)
  then have G: "\<exists>e5. GetMembrane e4 root (sp_name sp) out = (Ok, restored sp out, e5)" for out using GetMembrane_ok [OF e4(2) rt M, of out] by blast
  have "\<forall>q. q \<notin> {?R, ?R @ ''.tmp'', ?M, ?M @ ''.tmp''} \<longrightarrow> ev_files e4 q = ev_files e q" using e1(4) e3(4) e4(4) by (auto simp: e2_def)
  then show ?thesis using C L G unfolding restored_index by blast
qed

definition spec_audio :: MembraneSpec where
  "spec_audio = MembraneSpec0\<lparr>sp_name := ''a'', sp_shard_count := 1, sp_kind := kAudio, sp_ttl_sec := 60, sp_index := IndexParams_ForEdge\<rparr>"

theorem CreateMembrane_Get_witness:
  "\<exists>e' e2 sp. CreateMembrane \<lparr>ev_files = Map.empty, ev_tick = 0, ev_err = Map.empty, ev_chunk = (\<lambda>_. 9)\<rparr> ''db'' spec_audio = (Ok, e') \<and>
     GetMembrane e' ''db'' ''a'' MembraneSpec0 = (Ok, sp, e2) \<and> sp_kind sp = kVector \<and> sp_ttl_sec sp = 60 \<and> ip_nlist (sp_index sp) = 16 \<and>
     \<not> ip_hnsw_no_vector_pool (sp_index sp) \<and> ip_hnsw_no_vector_pool (sp_index spec_audio)"
proof -
  let ?e = "\<lparr>ev_files = Map.empty, ev_tick = 0, ev_err = Map.empty, ev_chunk = (\<lambda>_. 9)\<rparr>"
  have "calls_ok ?e" "root_holds ?e ''db'' []" by (simp_all add: calls_ok_def root_holds_def)
  moreover have S: "IsValidName (sp_name spec_audio)" "dim_required (sp_kind spec_audio) \<longrightarrow> sp_dim spec_audio \<noteq> 0"
      "sp_shard_count spec_audio \<noteq> 0" "sp_name spec_audio = ''a''" "stored_kind (sp_kind spec_audio) = kVector"
    by (simp_all add: spec_audio_def IsValidName_def name_char_def dim_required_def stored_kind_def MembraneSpec0_def)
  ultimately obtain e' where e': "CreateMembrane ?e ''db'' spec_audio = (Ok, e')"
      "\<forall>out. \<exists>e2. GetMembrane e' ''db'' ''a'' out =
       (Ok, spec_audio\<lparr>sp_kind := kVector,
          sp_index := (sp_index spec_audio)\<lparr>ip_quant_type := ip_quant_type (sp_index out), ip_adaptive_threshold := ip_adaptive_threshold (sp_index out),
            ip_pq_m := ip_pq_m (sp_index out), ip_hnsw_no_vector_pool := ip_hnsw_no_vector_pool (sp_index out)\<rparr>\<rparr>, e2)"
    using CreateMembrane_Get [of ?e "''db''" "[]" spec_audio] by auto
  show ?thesis using e'(1) spec [OF e'(2), of MembraneSpec0]
    by (auto simp: spec_audio_def IndexParams_ForEdge_def MembraneSpec0_def IndexParams_Default_def)
qed

text \<open>Dropping a membrane. On a healthy file system \<open>DropMembrane\<close> of a listed membrane
  succeeds; afterwards the listing is the old one without it, looking it up
  reports that it is not found, and no file is left under its directory.\<close>

theorem DropMembrane_Get:
  assumes c: "calls_ok e" and root: "root_holds e root ns" and n: "n \<in> set ns" "distinct ns"
  shows "\<exists>e'. DropMembrane e root n = (Ok, e') \<and>
    (\<exists>e2. ListMembranes e' root = (Inr (sort (remove1 n ns)), e2)) \<and>
    (\<exists>e2. GetMembrane e' root n out = (NotFound ''membrane not found in root'', out, e2)) \<and>
    (\<forall>f. ev_files e' (MembraneDir root n @ ''/'' @ f) = None)"
proof -
  let ?R = "RootManifestPath root" and ?d = "MembraneDir root n"
  define ns' where "ns' = remove1 n (sort ns)"
  have val: "list_all IsValidName ns" using root by (simp add: root_holds_def)
  then have v: "IsValidName n" using n(1) by (simp add: list_all_iff)
  have val': "list_all IsValidName ns'" using val set_remove1_subset [of n "sort ns"] by (auto simp: ns'_def list_all_iff)
  obtain e1 where e1: "EnsureInitialized e root = (Ok, e1)" "calls_ok e1" "ev_files e1 ?R = Some (checked_file (SerializeRoot ns))"
    using EnsureInitialized_ok [OF c root] by blast
  obtain t where t: "LoadRoot e1 root = (Inr (sort ns), e1\<lparr>ev_tick := t\<rparr>)" using LoadRoot_ok [OF e1(2,3) val] by blast
  obtain e2 where e2: "AtomicWriteFile (e1\<lparr>ev_tick := t\<rparr>) ?R (SerializeRoot ns') = (Ok, e2)" "calls_ok e2"
      "ev_files e2 ?R = Some (checked_file (SerializeRoot ns'))"
    using AtomicWriteFile_ok [of "e1\<lparr>ev_tick := t\<rparr>" ?R "SerializeRoot ns'"] e1(2) by auto
  define e3 where "e3 = fs_remove_all e2 ?d"
  have D: "DropMembrane e root n = (Ok, e3)"
    using v e1(1) t e2(1) n(1) by (simp add: DropMembrane_def ns'_def e3_def)
  have "take (length ?d + 1) ?R \<noteq> ?d @ ''/''" by (simp add: RootManifestPath_def MembraneDir_def path_join_def)
  then have e3: "calls_ok e3" "ev_files e3 ?R = Some (checked_file (SerializeRoot ns'))"
      "\<forall>f. ev_files e3 (?d @ ''/'' @ f) = None"
    using e2(2,3) by (simp_all add: e3_def fs_remove_all_def sys_ok)
  have rt: "root_holds e3 root ns'" using val' e3(2) by (simp add: root_holds_def)
  have "mset ns' = mset (remove1 n ns)" by (simp add: ns'_def)
  then have "sort ns' = sort (remove1 n ns)" by (rule sort_mset_cong)
  then obtain e5 where L: "ListMembranes e3 root = (Inr (sort (remove1 n ns)), e5)" using ListMembranes_ok [OF e3(1) rt] by auto
  obtain t' where "LoadRoot e3 root = (Inr (sort ns'), e3\<lparr>ev_tick := t'\<rparr>)" using LoadRoot_ok [OF e3(1,2) val'] by blast
  moreover have "n \<notin> set ns'" using n(2) by (simp add: ns'_def)
  ultimately have "GetMembrane e3 root n out = (NotFound ''membrane not found in root'', out, e3\<lparr>ev_tick := t'\<rparr>)"
    using v by (simp add: GetMembrane_def)
  then show ?thesis using D L e3(3) by blast
qed

definition env_root :: posix_env where
  "env_root = \<lparr>ev_files = [RootManifestPath ''db'' \<mapsto> checked_file (SerializeRoot [''b'', ''a'']),
       MembraneManifestPath ''db'' ''a'' \<mapsto> checked_file (membrane_text (MembraneSpec0\<lparr>sp_name := ''a''\<rparr>))],
     ev_tick = 0, ev_err = Map.empty, ev_chunk = (\<lambda>_. 9)\<rparr>"

lemma env_root_ok: "calls_ok env_root" "root_holds env_root ''db'' [''b'', ''a'']"
  "membrane_holds env_root ''db'' (MembraneSpec0\<lparr>sp_name := ''a''\<rparr>)"
  by (simp_all add: calls_ok_def root_holds_def membrane_holds_def env_root_def IsValidName_def name_char_def
      RootManifestPath_def MembraneManifestPath_def path_join_def)

theorem DropMembrane_Get_witness:
  "\<exists>e' e2. DropMembrane env_root ''db'' ''a'' = (Ok, e') \<and> ListMembranes e' ''db'' = (Inr [''b''], e2) \<and>
     ev_files e' ''db/membranes/a/MANIFEST'' = None"
  using DropMembrane_Get [OF env_root_ok(1,2), of "''a''"]
  by (force simp: MembraneDir_def path_join_def)

lemma WriteMembrane_Get:
  assumes "calls_ok e" "root_holds e root ns" "IsValidName (sp_name sp)" "sp_name sp \<in> set ns"
  shows "\<exists>e'. WriteMembraneManifest e root sp = (Ok, e') \<and> (\<exists>e2. GetMembrane e' root (sp_name sp) out = (Ok, restored sp out, e2))"
proof -
  let ?M = "MembraneManifestPath root (sp_name sp)"
  obtain e' where e': "WriteMembraneManifest e root sp = (Ok, e')" "calls_ok e'" "ev_files e' ?M = Some (checked_file (membrane_text sp))"
      "\<forall>q. q \<noteq> ?M \<and> q \<noteq> ?M @ ''.tmp'' \<longrightarrow> ev_files e' q = ev_files e q"
    using AtomicWriteFile_ok [OF assms(1), of ?M "membrane_text sp"] by (auto simp: WriteMembraneManifest_def)
  have "root_holds e' root ns" using assms(2) e'(4) manifest_path_ne [OF assms(3), of root] by (simp add: root_holds_def)
  moreover have "membrane_holds e' root sp" using assms(3) e'(3) by (simp add: membrane_holds_def)
  ultimately show ?thesis using GetMembrane_ok [OF e'(2)] assms(4) e'(1) by blast
qed

text \<open>Updates of a stored specification. On a healthy file system, for a membrane whose
  file holds a specification \<open>sp\<close> that a lookup returns unchanged, \<open>UpdateSyncLSN\<close> and
  \<open>UpdateRetentionPolicy\<close> succeed, and a later \<open>GetMembrane\<close> returns \<open>sp\<close> with just the
  fields of the update replaced.\<close>

theorem UpdateMembrane_Get:
  assumes c: "calls_ok e" and root: "root_holds e root ns" "sp_name sp \<in> set ns"
    and sp: "membrane_holds e root sp" "restored sp MembraneSpec0 = sp"
  shows "(\<exists>e' e2. UpdateSyncLSN e root (sp_name sp) lsn = (Ok, e') \<and>
      GetMembrane e' root (sp_name sp) MembraneSpec0 = (Ok, sp\<lparr>sp_sync_lsn := lsn\<rparr>, e2)) \<and>
    (\<exists>e' e2. UpdateRetentionPolicy e root (sp_name sp) ttl cnt bytes = (Ok, e') \<and>
      GetMembrane e' root (sp_name sp) MembraneSpec0 = (Ok, sp\<lparr>sp_ttl_sec := ttl, sp_max_count := cnt, sp_max_bytes := bytes\<rparr>, e2))"
proof -
  have get: "\<exists>t. GetMembrane (e\<lparr>ev_tick := n\<rparr>) root (sp_name sp) MembraneSpec0 = (Ok, sp, e\<lparr>ev_tick := t\<rparr>)" for n
    using GetMembrane_ok [of "e\<lparr>ev_tick := n\<rparr>" root ns sp MembraneSpec0] assms by (simp add: root_holds_def membrane_holds_def)
  obtain t where t: "GetMembrane e root (sp_name sp) MembraneSpec0 = (Ok, sp, e\<lparr>ev_tick := t\<rparr>)" using get [of "ev_tick e"] by auto
  have ct: "calls_ok (e\<lparr>ev_tick := t\<rparr>)" "root_holds (e\<lparr>ev_tick := t\<rparr>) root ns" using c root by (simp_all add: root_holds_def)
  have v: "IsValidName (sp_name sp)" using sp(1) by (simp add: membrane_holds_def)
  have "sp\<lparr>sp_sync_lsn := lsn\<rparr> = restored (sp\<lparr>sp_sync_lsn := lsn\<rparr>) MembraneSpec0"
    "sp\<lparr>sp_ttl_sec := ttl, sp_max_count := cnt, sp_max_bytes := bytes\<rparr> =
      restored (sp\<lparr>sp_ttl_sec := ttl, sp_max_count := cnt, sp_max_bytes := bytes\<rparr>) MembraneSpec0"
    using sp(2) by (cases sp; simp add: restored_def)+
  moreover have "sp_sync_lsn sp = lsn \<Longrightarrow> sp\<lparr>sp_sync_lsn := lsn\<rparr> = sp" by (cases sp) simp
  ultimately show ?thesis
    using t get [of t] WriteMembrane_Get [OF ct, of "sp\<lparr>sp_sync_lsn := lsn\<rparr>" MembraneSpec0]
      WriteMembrane_Get [OF ct, of "sp\<lparr>sp_ttl_sec := ttl, sp_max_count := cnt, sp_max_bytes := bytes\<rparr>" MembraneSpec0] v root(2)
    by (auto simp: UpdateSyncLSN_def UpdateRetentionPolicy_def)
qed

theorem UpdateMembrane_Get_witness:
  "\<exists>e' e2. UpdateSyncLSN env_root ''db'' ''a'' 7 = (Ok, e') \<and>
     GetMembrane e' ''db'' ''a'' MembraneSpec0 = (Ok, MembraneSpec0\<lparr>sp_name := ''a'', sp_sync_lsn := 7\<rparr>, e2)"
proof -
  have "restored (MembraneSpec0\<lparr>sp_name := ''a''\<rparr>) MembraneSpec0 = MembraneSpec0\<lparr>sp_name := ''a''\<rparr>"
    by (simp add: restored_def MembraneSpec0_def stored_kind_def)
  from UpdateMembrane_Get [OF env_root_ok(1,2) _ env_root_ok(3) this, of 7] show ?thesis by simp
qed

end
