(* ===== verification/Graph.thy ===== *)
theory Graph
  imports Wal_Recovery
begin

text \<open>
  The graph membrane (\<open>src/core/graph/graph_membrane_impl.h\<close>, keys of
  \<open>graph_key.h\<close>): an adjacency list per vertex, every update logged as a raw
  record of the write-ahead log and rebuilt from it by \<open>Wal::ReplayGraphInto\<close>.
  A hash map from vertices is a partial function; \<open>bytes_used_\<close> is a 64-bit counter.
\<close>

subsection \<open>Keys\<close>

type_synonym VertexId = u64
type_synonym EdgeType = u32
type_synonym TagId = u32

text \<open>\<open>htobe\<close> and a copy of the result: the bytes from the most significant one.\<close>

definition be64_bytes :: "u64 \<Rightarrow> byte list" where "be64_bytes x = rev (u64_bytes x)"
definition be32_bytes :: "u32 \<Rightarrow> byte list" where "be32_bytes x = rev (u32_bytes x)"
definition be64_at :: "byte list \<Rightarrow> nat \<Rightarrow> u64" where "be64_at p i = bytes_u64 (rev (take 8 (drop i p)))"
definition be32_at :: "byte list \<Rightarrow> nat \<Rightarrow> u32" where "be32_at p i = bytes_u32 (rev (take 4 (drop i p)))"

definition kVertexKey :: byte where "kVertexKey = byte_of_char (CHR ''V'')"
definition kEdgeKey :: byte where "kEdgeKey = byte_of_char (CHR ''E'')"
definition kVertexTomb :: byte where "kVertexTomb = byte_of_char (CHR ''T'')"
definition kEdgeTomb :: byte where "kEdgeTomb = byte_of_char (CHR ''X'')"

definition EncodeVertex :: "VertexId \<Rightarrow> TagId \<Rightarrow> byte list" where
  "EncodeVertex vid tag = kVertexKey # be64_bytes vid @ be32_bytes tag"

definition EncodeEdge :: "VertexId \<Rightarrow> EdgeType \<Rightarrow> u32 \<Rightarrow> VertexId \<Rightarrow> byte list" where
  "EncodeEdge src type rank dst = kEdgeKey # be64_bytes src @ be32_bytes type @ be32_bytes rank @ be64_bytes dst"

definition EncodeEdgePrefix :: "VertexId \<Rightarrow> byte list" where
  "EncodeEdgePrefix src = kEdgeKey # be64_bytes src"

definition vertex_tomb :: "VertexId \<Rightarrow> byte list" where
  "vertex_tomb i = kVertexTomb # be64_bytes i"

definition edge_tomb :: "VertexId \<Rightarrow> VertexId \<Rightarrow> EdgeType \<Rightarrow> byte list" where
  "edge_tomb src dst type = kEdgeTomb # be64_bytes src @ be32_bytes type @ u32_bytes 0 @ be64_bytes dst"

subsection \<open>The adjacency lists\<close>

record Neighbor =
  nb_id :: VertexId
  nb_type :: EdgeType
  nb_rank :: u32

type_synonym adjacency = "VertexId \<rightharpoonup> Neighbor list"
type_synonym gstate = "adjacency \<times> u64"

text \<open>Sizes of \<open>VertexId\<close>, \<open>std::vector\<close> and \<open>Neighbor\<close> on a 64-bit target.\<close>

definition sizeof_VertexId :: u64 where "sizeof_VertexId = 8"
definition sizeof_vector :: u64 where "sizeof_vector = 24"
definition sizeof_Neighbor :: u64 where "sizeof_Neighbor = 16"

definition put_vertex :: "VertexId \<Rightarrow> gstate \<Rightarrow> gstate" where
  "put_vertex i = (\<lambda>(adj, used).
     if adj i = None then (adj(i \<mapsto> []), used + (sizeof_VertexId + sizeof_vector)) else (adj, used))"

definition put_edge :: "VertexId \<Rightarrow> Neighbor \<Rightarrow> gstate \<Rightarrow> gstate" where
  "put_edge src n = (\<lambda>(adj, used).
     (adj(src \<mapsto> (case adj src of None \<Rightarrow> [] | Some v \<Rightarrow> v) @ [n]), used + sizeof_Neighbor))"

definition del_vertex :: "VertexId \<Rightarrow> gstate \<Rightarrow> gstate" where
  "del_vertex i = (\<lambda>(adj, used).
     case adj i of
       None \<Rightarrow> (adj, used)
     | Some v \<Rightarrow> (adj(i := None), used - (sizeof_VertexId + sizeof_vector + word_of_nat (length v) * sizeof_Neighbor)))"

definition del_edge :: "VertexId \<Rightarrow> VertexId \<Rightarrow> EdgeType \<Rightarrow> gstate \<Rightarrow> gstate" where
  "del_edge src dst type = (\<lambda>(adj, used).
     case adj src of
       None \<Rightarrow> (adj, used)
     | Some v \<Rightarrow>
         let v' = filter (\<lambda>n. \<not> (nb_id n = dst \<and> nb_type n = type)) v
         in (adj(src \<mapsto> v'), used - word_of_nat (length v - length v') * sizeof_Neighbor))"

subsection \<open>The membrane\<close>

record graph =
  gr_wal :: wal
  gr_state :: gstate

definition GraphMembrane_new :: "wal \<Rightarrow> graph" where
  "GraphMembrane_new w = \<lparr>gr_wal = w, gr_state = (Map.empty, 0)\<rparr>"

definition gr_AddVertex :: "aes_gcm \<Rightarrow> posix_env \<Rightarrow> graph \<Rightarrow> VertexId \<Rightarrow> TagId \<Rightarrow> Metadata \<Rightarrow> status \<times> posix_env \<times> graph" where
  "gr_AddVertex aes e g i tag meta =
     (case Wal_AppendRawKV aes e (gr_wal g) kRawKV (EncodeVertex i tag) (bytes_of (md_tenant meta)) of (st, e, w) \<Rightarrow>
      let g = g\<lparr>gr_wal := w\<rparr> in
      if \<not> st_ok st then (st, e, g) else (Ok, e, g\<lparr>gr_state := put_vertex i (gr_state g)\<rparr>))"

definition gr_AddEdge :: "aes_gcm \<Rightarrow> posix_env \<Rightarrow> graph \<Rightarrow> VertexId \<Rightarrow> VertexId \<Rightarrow> EdgeType \<Rightarrow> u32 \<Rightarrow> Metadata
    \<Rightarrow> status \<times> posix_env \<times> graph" where
  "gr_AddEdge aes e g src dst type rank meta =
     (case Wal_AppendRawKV aes e (gr_wal g) kRawKV (EncodeEdge src type rank dst) (bytes_of (md_tenant meta)) of (st, e, w) \<Rightarrow>
      let g = g\<lparr>gr_wal := w\<rparr> in
      if \<not> st_ok st then (st, e, g)
      else (Ok, e, g\<lparr>gr_state := put_edge src \<lparr>nb_id = dst, nb_type = type, nb_rank = rank\<rparr> (gr_state g)\<rparr>))"

definition gr_DeleteVertex :: "aes_gcm \<Rightarrow> posix_env \<Rightarrow> graph \<Rightarrow> VertexId \<Rightarrow> status \<times> posix_env \<times> graph" where
  "gr_DeleteVertex aes e g i =
     (case Wal_AppendRawKV aes e (gr_wal g) kRawKV (vertex_tomb i) [] of (st, e, w) \<Rightarrow>
      let g = g\<lparr>gr_wal := w\<rparr> in
      if \<not> st_ok st then (st, e, g) else (Ok, e, g\<lparr>gr_state := del_vertex i (gr_state g)\<rparr>))"

definition gr_DeleteEdge :: "aes_gcm \<Rightarrow> posix_env \<Rightarrow> graph \<Rightarrow> VertexId \<Rightarrow> VertexId \<Rightarrow> EdgeType \<Rightarrow> status \<times> posix_env \<times> graph" where
  "gr_DeleteEdge aes e g src dst type =
     (case Wal_AppendRawKV aes e (gr_wal g) kRawKV (edge_tomb src dst type) [] of (st, e, w) \<Rightarrow>
      let g = g\<lparr>gr_wal := w\<rparr> in
      if \<not> st_ok st then (st, e, g) else (Ok, e, g\<lparr>gr_state := del_edge src dst type (gr_state g)\<rparr>))"

text \<open>The first overload replaces the output, the second appends to it; a vertex that is not
  there leaves it as it is.\<close>

definition gr_GetNeighbors :: "graph \<Rightarrow> VertexId \<Rightarrow> Neighbor list \<Rightarrow> status \<times> Neighbor list" where
  "gr_GetNeighbors g src out = (Ok, case fst (gr_state g) src of None \<Rightarrow> out | Some v \<Rightarrow> v)"

definition gr_GetNeighborsOfType :: "graph \<Rightarrow> VertexId \<Rightarrow> EdgeType \<Rightarrow> Neighbor list \<Rightarrow> status \<times> Neighbor list" where
  "gr_GetNeighborsOfType g src type out =
     (Ok, case fst (gr_state g) src of None \<Rightarrow> out | Some v \<Rightarrow> out @ filter (\<lambda>n. nb_type n = type) v)"

definition gr_Flush :: "posix_env \<Rightarrow> graph \<Rightarrow> status \<times> posix_env" where
  "gr_Flush e g = Wal_Flush e (gr_wal g)"

definition gr_BeginBatch :: "aes_gcm \<Rightarrow> posix_env \<Rightarrow> graph \<Rightarrow> status \<times> posix_env \<times> graph" where
  "gr_BeginBatch aes e g = (case Wal_BeginBatch aes e (gr_wal g) of (st, e, w) \<Rightarrow> (st, e, g\<lparr>gr_wal := w\<rparr>))"

definition gr_EndBatch :: "aes_gcm \<Rightarrow> posix_env \<Rightarrow> graph \<Rightarrow> status \<times> posix_env \<times> graph" where
  "gr_EndBatch aes e g = (case Wal_EndBatch aes e (gr_wal g) of (st, e, w) \<Rightarrow> (st, e, g\<lparr>gr_wal := w\<rparr>))"

definition MemoryBytesUsed :: "graph \<Rightarrow> u64" where
  "MemoryBytesUsed g = snd (gr_state g)"

subsection \<open>Replay\<close>

definition ReplayEntry :: "byte list \<Rightarrow> gstate \<Rightarrow> gstate" where
  "ReplayEntry p s =
     (if length p < 1 then s
      else if p ! 0 = kVertexKey \<and> length p \<ge> 13 then put_vertex (be64_at p 1) s
      else if p ! 0 = kEdgeKey \<and> length p \<ge> 25 then
        put_edge (be64_at p 1) \<lparr>nb_id = be64_at p 17, nb_type = be32_at p 9, nb_rank = be32_at p 13\<rparr> s
      else if p ! 0 = kVertexTomb \<and> length p \<ge> 9 then del_vertex (be64_at p 1) s
      else if p ! 0 = kEdgeTomb \<and> length p \<ge> 25 then del_edge (be64_at p 1) (be64_at p 17) (be32_at p 9) s
      else s)"

definition graph_payload :: "wal \<Rightarrow> byte list \<Rightarrow> gstate \<Rightarrow> status \<times> wal \<times> gstate" where
  "graph_payload w p s =
     (if length p < 21 then (Ok, w, s)
      else
        let s = (if rp_op p = kRawKV \<and> length p \<ge> 29 then
                   let klen = unat (bytes_u32 (drop 21 p)) in
                   if length p \<ge> 29 + klen then ReplayEntry (take klen (drop 29 p)) s else s
                 else s)
        in (Ok, note_seq w (rp_seq p), s))"

definition graph_frame :: "aes_gcm \<Rightarrow> gstate frame_step" where
  "graph_frame aes w body s =
     (let len = length body in
      if len < 21 + 4 then (Ok, w, s)
      else
        let b = take (len - 4) body in
        if bytes_u32 (drop (len - 4) body) \<noteq> Crc32c b 0 then (Corruption ''wal crc mismatch'', w, s)
        else if wal_enc w \<and> length b < 12 + 16 then (Ok, w, s)
        else case unseal aes w b of (st, p) \<Rightarrow>
          if \<not> st_ok st then (st, w, s) else graph_payload w p s)"

definition Wal_ReplayGraphInto :: "aes_gcm \<Rightarrow> posix_env \<Rightarrow> wal \<Rightarrow> gstate \<Rightarrow> (status \<times> posix_env \<times> wal \<times> gstate) option" where
  "Wal_ReplayGraphInto aes e w s = replay_from (graph_frame aes) e w 0 s"

definition gr_WarmUp :: "aes_gcm \<Rightarrow> posix_env \<Rightarrow> graph \<Rightarrow> (status \<times> posix_env \<times> graph) option" where
  "gr_WarmUp aes e g =
     map_option (\<lambda>(st, e, w, s). (st, e, g\<lparr>gr_wal := w, gr_state := s\<rparr>)) (Wal_ReplayGraphInto aes e (gr_wal g) (gr_state g))"

subsection \<open>Runs\<close>

text \<open>A run of updates, stopped by the first that fails.\<close>

datatype gop = AddVertex VertexId TagId Metadata | AddEdge VertexId VertexId EdgeType u32 Metadata
  | DeleteVertex VertexId | DeleteEdge VertexId VertexId EdgeType | BeginBatch | EndBatch

fun gr_do :: "aes_gcm \<Rightarrow> posix_env \<Rightarrow> graph \<Rightarrow> gop \<Rightarrow> status \<times> posix_env \<times> graph" where
  "gr_do aes e g (AddVertex i tag m) = gr_AddVertex aes e g i tag m"
| "gr_do aes e g (AddEdge src dst t r m) = gr_AddEdge aes e g src dst t r m"
| "gr_do aes e g (DeleteVertex i) = gr_DeleteVertex aes e g i"
| "gr_do aes e g (DeleteEdge src dst t) = gr_DeleteEdge aes e g src dst t"
| "gr_do aes e g BeginBatch = gr_BeginBatch aes e g"
| "gr_do aes e g EndBatch = gr_EndBatch aes e g"

fun gr_run :: "aes_gcm \<Rightarrow> posix_env \<Rightarrow> graph \<Rightarrow> gop list \<Rightarrow> status \<times> posix_env \<times> graph" where
  "gr_run aes e g [] = (Ok, e, g)"
| "gr_run aes e g (x # xs) = (case gr_do aes e g x of (st, e, g) \<Rightarrow> if \<not> st_ok st then (st, e, g) else gr_run aes e g xs)"

text \<open>The effect of an update on the adjacency lists, and the record it logs.\<close>

fun gop_effect :: "gop \<Rightarrow> gstate \<Rightarrow> gstate" where
  "gop_effect (AddVertex i tag m) = put_vertex i"
| "gop_effect (AddEdge src dst t r m) = put_edge src \<lparr>nb_id = dst, nb_type = t, nb_rank = r\<rparr>"
| "gop_effect (DeleteVertex i) = del_vertex i"
| "gop_effect (DeleteEdge src dst t) = del_edge src dst t"
| "gop_effect BeginBatch = id"
| "gop_effect EndBatch = id"

fun gop_rec :: "gop \<Rightarrow> lrec" where
  "gop_rec (AddVertex i tag m) = LRaw kRawKV (EncodeVertex i tag) (bytes_of (md_tenant m))"
| "gop_rec (AddEdge src dst t r m) = LRaw kRawKV (EncodeEdge src t r dst) (bytes_of (md_tenant m))"
| "gop_rec (DeleteVertex i) = LRaw kRawKV (vertex_tomb i) []"
| "gop_rec (DeleteEdge src dst t) = LRaw kRawKV (edge_tomb src dst t) []"
| "gop_rec BeginBatch = LRaw kBatchStart [] []"
| "gop_rec EndBatch = LRaw kBatchEnd [] []"

fun gop_small :: "gop \<Rightarrow> bool" where
  "gop_small (AddVertex i tag m) \<longleftrightarrow> length (md_tenant m) < 2 ^ 31"
| "gop_small (AddEdge src dst t r m) \<longleftrightarrow> length (md_tenant m) < 2 ^ 31"
| "gop_small _ \<longleftrightarrow> True"

lemma length_be [simp]: "length (be64_bytes x) = 8" "length (be32_bytes y) = 4"
  by (simp_all add: be64_bytes_def be32_bytes_def)

lemmas key_defs = EncodeVertex_def EncodeEdge_def vertex_tomb_def edge_tomb_def

lemma length_gop_key: "gop_rec x = LRaw op k v \<Longrightarrow> length k \<le> 25"
  by (cases x) (auto simp: key_defs)

lemma gr_do_ok:
  "append_rec aes e (gr_wal g) (gop_rec x) = (Ok, e', w') \<Longrightarrow>
   gr_do aes e g x = (Ok, e', g\<lparr>gr_wal := w', gr_state := gop_effect x (gr_state g)\<rparr>)"
  by (cases x) (simp_all add: gr_AddVertex_def gr_AddEdge_def gr_DeleteVertex_def gr_DeleteEdge_def gr_BeginBatch_def gr_EndBatch_def
      Wal_BeginBatch_def Wal_EndBatch_def)

lemma loggable_gop:
  assumes "gop_small x"
  shows "loggable (gop_rec x)"
proof -
  obtain op k v where r: "gop_rec x = LRaw op k v" "op \<in> {kRawKV, kBatchStart, kBatchEnd}" by (cases x) auto
  have v: "length v < 2 ^ 31" using assms r(1) by (cases x) auto
  have "unat (word_of_nat (length v) :: u32) = length v" "unat (word_of_nat (length k) :: u32) = length k"
    using v length_gop_key [OF r(1)] by (simp_all add: unat_u32_of_nat)
  then show ?thesis using r(2) v length_gop_key [OF r(1)] by (simp add: loggable_def r(1) raw_plain_def Let_def)
qed

subsection \<open>Keys decode\<close>

lemma be64_at_append [simp]: "length xs = i \<Longrightarrow> be64_at (xs @ be64_bytes v @ ys) i = v"
  by (simp add: be64_at_def be64_bytes_def bytes_u64_u64')

lemma be32_at_append [simp]: "length xs = i \<Longrightarrow> be32_at (xs @ be32_bytes v @ ys) i = v"
  by (simp add: be32_at_def be32_bytes_def bytes_u32_u32')

lemma key_bytes_distinct [simp]:
  "kVertexKey \<noteq> kEdgeKey" "kEdgeKey \<noteq> kVertexKey" "kVertexKey \<noteq> kVertexTomb" "kVertexTomb \<noteq> kVertexKey"
  "kVertexKey \<noteq> kEdgeTomb" "kEdgeTomb \<noteq> kVertexKey" "kEdgeKey \<noteq> kVertexTomb" "kVertexTomb \<noteq> kEdgeKey"
  "kEdgeKey \<noteq> kEdgeTomb" "kEdgeTomb \<noteq> kEdgeKey" "kVertexTomb \<noteq> kEdgeTomb" "kEdgeTomb \<noteq> kVertexTomb"
  by (simp_all add: kVertexKey_def kEdgeKey_def kVertexTomb_def kEdgeTomb_def byte_of_char_def)

lemma edge_fields:
  "be64_at (k # be64_bytes a @ be32_bytes t @ r @ be64_bytes b) (Suc 0) = a"
  "be32_at (k # be64_bytes a @ be32_bytes t @ r @ be64_bytes b) 9 = t"
  "length r = 4 \<Longrightarrow> be64_at (k # be64_bytes a @ be32_bytes t @ r @ be64_bytes b) 17 = b"
  "be32_at (k # be64_bytes a @ be32_bytes t @ be32_bytes c @ be64_bytes b) 13 = c"
  using be64_at_append [of "[k]" 1 a] be32_at_append [of "k # be64_bytes a" 9 t]
    be64_at_append [of "k # be64_bytes a @ be32_bytes t @ r" 17 b "[]"]
    be32_at_append [of "k # be64_bytes a @ be32_bytes t" 13 c]
  by simp_all

lemma vertex_fields: "be64_at (k # be64_bytes a @ r) (Suc 0) = a" "be64_at (k # be64_bytes a) (Suc 0) = a"
  using be64_at_append [of "[k]" 1 a r] be64_at_append [of "[k]" 1 a "[]"] by simp_all

lemma ReplayEntry_key:
  "gop_rec x = LRaw kRawKV k v \<Longrightarrow> ReplayEntry k = gop_effect x"
  by (cases x) (auto simp: fun_eq_iff ReplayEntry_def key_defs edge_fields vertex_fields)

lemma graph_payload_rec:
  assumes "gop_small x"
  shows "graph_payload w (plain_of q (gop_rec x)) s = (Ok, note_seq w q, gop_effect x s)"
proof -
  obtain op k v where r: "gop_rec x = LRaw op k v" by (cases x) auto
  have kl: "unat (word_of_nat (length k) :: u32) = length k"
    using length_gop_key [OF r] by (simp add: unat_u32_of_nat)
  have f: "rp_op (plain_of q (gop_rec x)) = op" "rp_seq (plain_of q (gop_rec x)) = q"
    "bytes_u32 (drop 21 (plain_of q (gop_rec x))) = word_of_nat (length k)" "take (length k) (drop 29 (plain_of q (gop_rec x))) = k"
    "29 + length k \<le> length (plain_of q (gop_rec x))"
    by (simp_all add: r raw_plain_def Let_def kl bytes_u32_u32)
  have "op \<noteq> kRawKV \<Longrightarrow> gop_effect x = id" using r by (cases x) auto
  moreover have "op = kRawKV \<Longrightarrow> ReplayEntry k = gop_effect x" using ReplayEntry_key r by auto
  ultimately show ?thesis using f(5) by (auto simp: graph_payload_def f(1-4) kl Let_def)
qed

lemma graph_frame_body:
  assumes "body_ok aes w b (q, gop_rec x)" "gop_small x"
  shows "graph_frame aes w (b @ u32_bytes (Crc32c b 0)) s = (Ok, note_seq w q, gop_effect x s)"
proof -
  have u: "unseal aes w b = (Ok, plain_of q (gop_rec x))" and l: "21 \<le> length b" using assms(1) by (simp_all add: body_ok_def)
  have "\<not> (wal_enc w \<and> length b < 12 + 16)" using u length_plain_of [of q "gop_rec x"] by (auto simp: unseal_def split: if_splits)
  then show ?thesis
    using u l graph_payload_rec [OF assms(2)] by (auto simp: graph_frame_def Let_def bytes_u32_u32')
qed

lemma keeps_paths_graph: "keeps_paths (graph_frame aes)"
proof -
  have "same_path w (graph_frame aes w b s)" for w b s
    unfolding graph_frame_def graph_payload_def Let_def by (intro same_path_intros)
  then show ?thesis by (simp add: keeps_paths_def same_path_def)
qed

text \<open>The numbered records a run logs.\<close>

fun gop_recs :: "u64 \<Rightarrow> gop list \<Rightarrow> (u64 \<times> lrec) list" where
  "gop_recs q [] = []"
| "gop_recs q (x # xs) = (q + 1, gop_rec x) # gop_recs (q + 1) xs"

lemma gr_run_log:
  assumes "log_holds aes e (gr_wal g) rs" "aes_law aes" "key_ok (gr_wal g)" "list_all gop_small xs"
  shows "\<exists>e' g'. gr_run aes e g xs = (Ok, e', g') \<and> wal_cfg (gr_wal g') = wal_cfg (gr_wal g) \<and>
    log_holds aes e' (gr_wal g') (rs @ gop_recs (wal_seq (gr_wal g)) xs) \<and> gr_state g' = fold gop_effect xs (gr_state g)"
  using assms
proof (induction xs arbitrary: e g rs)
  case (Cons x xs)
  obtain st e1 w1 where a: "append_rec aes e (gr_wal g) (gop_rec x) = (st, e1, w1)" by (cases "append_rec aes e (gr_wal g) (gop_rec x)")
  have x: "gop_small x" using Cons.prems(4) by simp
  note A = append_rec_log [OF Cons.prems(1-3) loggable_gop [OF x] a]
  define g1 where "g1 = g\<lparr>gr_wal := w1, gr_state := gop_effect x (gr_state g)\<rparr>"
  have d: "gr_do aes e g x = (Ok, e1, g1)" unfolding g1_def by (rule gr_do_ok) (simp add: a A(1))
  have g1: "gr_wal g1 = w1" "gr_state g1 = gop_effect x (gr_state g)" by (simp_all add: g1_def)
  have "key_ok w1" using Cons.prems(3) by (simp add: key_ok_cong [OF A(2)])
  then show ?case
    using Cons.IH [of e1 g1 "rs @ [(wal_seq (gr_wal g) + 1, gop_rec x)]"] A(2-4) Cons.prems(2,4) d by (simp add: g1)
qed simp

lemma run_steps_graph:
  "list_all2 (body_ok aes w) bs (gop_recs q xs) \<Longrightarrow> list_all gop_small xs \<Longrightarrow>
   \<exists>w'. run_steps (graph_frame aes) w bs s = (Ok, w', fold gop_effect xs s)"
proof (induction xs arbitrary: w bs q s)
  case (Cons x xs)
  then obtain b bs' where b: "bs = b # bs'" "body_ok aes w b (q + 1, gop_rec x)" "list_all2 (body_ok aes w) bs' (gop_recs (q + 1) xs)"
    by (auto simp: list_all2_Cons2)
  have "list_all2 (body_ok aes (note_seq w (q + 1))) bs' (gop_recs (q + 1) xs)" using b(3) by simp
  then show ?case
    using Cons.IH [of "note_seq w (q + 1)" bs' "q + 1"] Cons.prems(2) graph_frame_body [OF b(2)] by (simp add: b(1))
qed simp

lemma WarmUp_log:
  assumes "log_holds aes e (gr_wal g) (gop_recs q xs)" "list_all gop_small xs"
  shows "\<exists>e' g'. gr_WarmUp aes e g = Some (Ok, e', g') \<and> gr_state g' = fold gop_effect xs (gr_state g)"
proof -
  let ?w = "gr_wal g"
  obtain segs where segs: "wal_log e ?w segs" "list_all2 (body_ok aes ?w) (concat segs) (gop_recs q xs)"
    using assms(1) by (auto simp: log_holds_def)
  have small: "list_all (list_all small_body) segs" using body_ok_small [OF segs(2)] by (simp add: list_all_iff)
  have "\<exists>n. replay_from (graph_frame aes) e ?w 0 (gr_state g) =
    Some (case run_steps (graph_frame aes) ?w (concat segs) (gr_state g) of (st, w2, m2) \<Rightarrow> (st, e\<lparr>ev_tick := n\<rparr>, w2, m2))"
    by (rule replay_from_bodies [where ts = "replicate (length segs) []", OF _ _ _ _ _ small keeps_paths_graph])
      (use segs(1) in \<open>auto simp: wal_log_def wal_ready_def wal_files_def\<close>)
  then show ?thesis
    using run_steps_graph [OF segs(2) assms(2), of "gr_state g"]
    by (cases "fold gop_effect xs (gr_state g)") (auto simp: gr_WarmUp_def Wal_ReplayGraphInto_def)
qed

text \<open>C8: durability of the graph. On a file system whose calls succeed, make a membrane over
  a new log, apply any run of updates (vertices, edges, both deletions, batch
  markers; through segment rotations; with or without encryption), lose the
  process, open the log again and warm up: every call returns \<open>Ok\<close> and the new
  membrane answers every neighbour query as the lost one did and counts the
  same bytes.\<close>

theorem Graph_durable:
  assumes "calls_ok e" and w: "w = Wal_new path shard seg fs enc hex" and "no_segments_from e w 0" and aes: "aes_law aes"
    and small: "list_all gop_small xs"
  shows "\<exists>e1 w1 e2 g2 e3 w3 e4 g4.
    Wal_Open e w = Some (Ok, e1, w1) \<and> gr_run aes e1 (GraphMembrane_new w1) xs = (Ok, e2, g2) \<and>
    Wal_Open e2 w = Some (Ok, e3, w3) \<and> gr_WarmUp aes e3 (GraphMembrane_new w3) = Some (Ok, e4, g4) \<and>
    (\<forall>v out. gr_GetNeighbors g4 v out = gr_GetNeighbors g2 v out) \<and>
    (\<forall>v t out. gr_GetNeighborsOfType g4 v t out = gr_GetNeighborsOfType g2 v t out) \<and>
    MemoryBytesUsed g4 = MemoryBytesUsed g2"
proof -
  have key: "key_ok w" and q: "wal_seq w = 0" using key_ok_new by (simp_all add: w Wal_new_def Let_def)
  obtain e1 w1 where o1: "Wal_Open e w = Some (Ok, e1, w1)" "wal_cfg w1 = wal_cfg w" "log_holds aes e1 w1 []"
    using log_holds_empty [OF assms(1,3), of aes] by auto
  define g1 where "g1 = GraphMembrane_new w1"
  have g1: "gr_wal g1 = w1" "gr_state g1 = (Map.empty, 0)" by (simp_all add: g1_def GraphMembrane_new_def)
  have "key_ok w1" using key by (simp add: key_ok_cong [OF o1(2)])
  then obtain e2 g2 where r: "gr_run aes e1 g1 xs = (Ok, e2, g2)" "wal_cfg (gr_wal g2) = wal_cfg w1"
      "log_holds aes e2 (gr_wal g2) (gop_recs (wal_seq w1) xs)" "gr_state g2 = fold gop_effect xs (Map.empty, 0)"
    using gr_run_log [of aes e1 g1 "[]" xs] aes small o1(3) by (auto simp: g1)
  obtain e3 w3 where o3: "Wal_Open e2 w = Some (Ok, e3, w3)" "log_holds aes e3 w3 (gop_recs (wal_seq w1) xs)"
    using log_holds_open [OF r(3), of w] r(2) o1(2) by auto
  obtain e4 g4 where "gr_WarmUp aes e3 (GraphMembrane_new w3) = Some (Ok, e4, g4)" "gr_state g4 = gr_state g2"
    using WarmUp_log [of aes e3 "GraphMembrane_new w3" "wal_seq w1" xs] o3(2) small r(4) by (auto simp: GraphMembrane_new_def)
  then show ?thesis
    using o1(1) r(1) o3(1) by (auto simp: g1_def gr_GetNeighbors_def gr_GetNeighborsOfType_def MemoryBytesUsed_def)
qed

theorem Graph_durable_witness:
  "\<exists>e1 w1 e2 g2 e3 w3 e4 g4.
    Wal_Open env0 (Wal_new ''db'' 3 40 kAlways True (replicate 64 (CHR ''a''))) = Some (Ok, e1, w1) \<and>
    gr_run aes_id e1 (GraphMembrane_new w1) [AddVertex 1 7 Metadata0, AddEdge 1 2 5 9 Metadata0, DeleteEdge 1 3 5] = (Ok, e2, g2) \<and>
    Wal_Open e2 (Wal_new ''db'' 3 40 kAlways True (replicate 64 (CHR ''a''))) = Some (Ok, e3, w3) \<and>
    gr_WarmUp aes_id e3 (GraphMembrane_new w3) = Some (Ok, e4, g4) \<and> gr_GetNeighbors g4 1 [] = gr_GetNeighbors g2 1 []"
  using Graph_durable [OF env0_ok(1) refl env0_ok(2) aes_id_law, of "[AddVertex 1 7 Metadata0, AddEdge 1 2 5 9 Metadata0, DeleteEdge 1 3 5]"]
  by (fastforce simp: Metadata0_def)

text \<open>The byte count drifts. Adding an edge from a vertex that was never added creates
  its list without counting it, but deleting the vertex subtracts it: the two
  updates leave the adjacency lists as they were and the count 32 lower. From an
  empty membrane it wraps around to nearly the largest 64-bit number.\<close>

theorem MemoryBytesUsed_drifts:
  assumes "gr_AddEdge aes e g src dst t r m = (Ok, e1, g1)" "gr_DeleteVertex aes e1 g1 src = (Ok, e2, g2)"
    and "fst (gr_state g) src = None"
  shows "fst (gr_state g2) = fst (gr_state g) \<and> MemoryBytesUsed g2 = MemoryBytesUsed g - 32"
proof -
  obtain adj used where s: "gr_state g = (adj, used)" by (cases "gr_state g")
  have "gr_state g1 = (adj(src \<mapsto> [\<lparr>nb_id = dst, nb_type = t, nb_rank = r\<rparr>]), used + sizeof_Neighbor)"
    using assms(1,3) s by (auto simp: gr_AddEdge_def Let_def put_edge_def split: prod.splits if_splits)
  then have "gr_state g2 = (adj, used + sizeof_Neighbor - (sizeof_VertexId + sizeof_vector + sizeof_Neighbor))"
    using assms(2,3) s by (auto simp: gr_DeleteVertex_def Let_def del_vertex_def fun_upd_idem split: prod.splits if_splits)
  then show ?thesis by (simp add: s MemoryBytesUsed_def sizeof_Neighbor_def sizeof_VertexId_def sizeof_vector_def)
qed

theorem MemoryBytesUsed_drifts_witness:
  "\<exists>e1 w1 e2 g2 e3 g3. Wal_Open env0 wal1 = Some (Ok, e1, w1) \<and>
     gr_AddEdge aes_id e1 (GraphMembrane_new w1) 1 2 5 0 Metadata0 = (Ok, e2, g2) \<and>
     gr_DeleteVertex aes_id e2 g2 1 = (Ok, e3, g3) \<and> MemoryBytesUsed g3 = 0xFFFFFFFFFFFFFFE0"
proof -
  have key: "key_ok wal1" using key_ok_new by (simp add: wal1_def)
  obtain e1 w1 where o1: "Wal_Open env0 wal1 = Some (Ok, e1, w1)" "wal_cfg w1 = wal_cfg wal1" "log_holds aes_id e1 w1 []"
    using log_holds_empty [OF env0_ok(1) env0_ok(2), of wal1 aes_id] by auto
  define g1 where "g1 = GraphMembrane_new w1"
  have g1: "gr_wal g1 = w1" "fst (gr_state g1) 1 = None" "MemoryBytesUsed g1 = 0"
    by (simp_all add: g1_def GraphMembrane_new_def MemoryBytesUsed_def)
  have "key_ok w1" using key by (simp add: key_ok_cong [OF o1(2)])
  then obtain e3 g3 where "gr_run aes_id e1 g1 [AddEdge 1 2 5 0 Metadata0, DeleteVertex 1] = (Ok, e3, g3)"
    using gr_run_log [of aes_id e1 g1 "[]" "[AddEdge 1 2 5 0 Metadata0, DeleteVertex 1]"] o1(3) by (auto simp: g1 Metadata0_def)
  then obtain e2 g2 where r: "gr_AddEdge aes_id e1 g1 1 2 5 0 Metadata0 = (Ok, e2, g2)" "gr_DeleteVertex aes_id e2 g2 1 = (Ok, e3, g3)"
    by (auto simp: gr_AddEdge_def gr_DeleteVertex_def Let_def split: prod.splits if_splits)
  have "MemoryBytesUsed g3 = 0xFFFFFFFFFFFFFFE0" using MemoryBytesUsed_drifts [OF r g1(2)] by (simp add: g1(3))
  then show ?thesis using o1(1) r by (auto simp: g1_def)
qed

end
