(* ===== verification/Storage_Engine.thy ===== *)
theory Storage_Engine
  imports Posix_File Types
begin

text \<open>
  The append-only vector log \<open>StorageEngine\<close> (\<open>include/pomai/storage_engine.hpp\<close>,
  \<open>src/storage/storage_engine.cc\<close>, the POSIX branch): records gather in a buffer,
  \<open>Flush\<close> writes it at the position of the file descriptor, and the index over
  the mapped file is rebuilt.  The mapping is shared, so what it shows is the
  file.  The results of \<open>close\<close> and \<open>munmap\<close> are not looked at and are not counted
  as calls; a metadata string is shorter than \<open>2 ^ 32\<close>.
\<close>

subsection \<open>Layout\<close>

definition kStorageAlign :: nat where "kStorageAlign = 64"

definition se_magic :: "byte list" where
  "se_magic = bytes_of ''POMAI_LOGv1'' @ [0]"

definition StorageFileHeader :: "u32 \<Rightarrow> byte list" where
  "StorageFileHeader dim = se_magic @ u32_bytes 1 @ u32_bytes dim @ replicate 44 0"

definition fh_valid :: "byte list \<Rightarrow> bool" where
  "fh_valid h \<longleftrightarrow> take 12 h = se_magic \<and> bytes_u32 (drop 12 h) = 1 \<and> bytes_u32 (drop 16 h) > 0"

definition fh_dim :: "byte list \<Rightarrow> u32" where
  "fh_dim h = bytes_u32 (drop 16 h)"

record VectorRecordHeader =
  vh_id :: u64
  vh_dim :: u32
  vh_flags :: u32
  vh_metadata_len :: u32

definition kFlagTombstone :: u32 where "kFlagTombstone = 1"
definition kFlagQuantized :: u32 where "kFlagQuantized = 2"

definition is_tombstone :: "VectorRecordHeader \<Rightarrow> bool" where
  "is_tombstone h \<longleftrightarrow> and (vh_flags h) kFlagTombstone \<noteq> 0"

definition is_quantized :: "VectorRecordHeader \<Rightarrow> bool" where
  "is_quantized h \<longleftrightarrow> and (vh_flags h) kFlagQuantized \<noteq> 0"

definition vh_bytes :: "VectorRecordHeader \<Rightarrow> byte list" where
  "vh_bytes h = u64_bytes (vh_id h) @ u32_bytes (vh_dim h) @ u32_bytes (vh_flags h) @ u32_bytes (vh_metadata_len h) @ replicate 44 0"

definition vh_read :: "byte list \<Rightarrow> VectorRecordHeader" where
  "vh_read p = \<lparr>vh_id = bytes_u64 p, vh_dim = bytes_u32 (drop 8 p), vh_flags = bytes_u32 (drop 12 p),
     vh_metadata_len = bytes_u32 (drop 16 p)\<rparr>"

definition RecordSize :: "u32 \<Rightarrow> u32 \<Rightarrow> bool \<Rightarrow> nat" where
  "RecordSize dim metadata_len quantized =
     (let payload = (if quantized then unat metadata_len + 2 * 4 + unat dim else unat metadata_len + unat dim * 4)
      in (64 + payload + kStorageAlign - 1) div kStorageAlign * kStorageAlign)"

subsection \<open>State\<close>

record IndexEntry =
  ie_offset :: nat
  ie_length :: nat
  ie_tombstone :: bool
  ie_in_buffer :: bool

text \<open>\<open>se_pos\<close> is the position of the file descriptor; \<open>se_map\<close> the size of the mapping.\<close>

record sengine =
  se_path :: string
  se_open :: bool
  se_pos :: nat
  se_dim :: u32
  se_threshold :: nat
  se_file_size :: nat
  se_buffer :: "byte list"
  se_pending :: nat
  se_map :: "nat option"
  se_index :: "(u64 \<times> IndexEntry) list"
  se_quant :: bool

definition StorageEngine_new :: sengine where
  "StorageEngine_new = \<lparr>se_path = '''', se_open = False, se_pos = 0, se_dim = 0, se_threshold = 32 * 1024 * 1024,
     se_file_size = 0, se_buffer = [], se_pending = 0, se_map = None, se_index = [], se_quant = True\<rparr>"

definition se_Close :: "sengine \<Rightarrow> sengine" where
  "se_Close s = s\<lparr>se_map := None, se_open := False, se_file_size := 0, se_index := [], se_buffer := [], se_pending := 0\<rparr>"

lemma RecordSize_ge: "64 \<le> RecordSize d m q"
proof -
  have "64 div 64 \<le> (64 + n + 63) div (64 :: nat)" for n by (rule div_le_mono) simp
  then show ?thesis by (auto simp: RecordSize_def kStorageAlign_def Let_def dest: mult_le_mono1 [where k = 64])
qed

function index_loop :: "byte list \<Rightarrow> nat \<Rightarrow> (u64 \<times> IndexEntry) list" where
  "index_loop base off =
     (if off + 64 \<le> length base then
        let h = vh_read (drop off base);
            rec_len = RecordSize (vh_dim h) (vh_metadata_len h) (is_quantized h)
        in if off + rec_len > length base then []
           else (vh_id h, \<lparr>ie_offset = off, ie_length = rec_len, ie_tombstone = is_tombstone h, ie_in_buffer = False\<rparr>)
                # index_loop base (off + rec_len)
      else [])"
  by pat_completeness auto
termination
proof (relation "measure (\<lambda>(base, off). length base - off)")
  fix base off h rec_len
  assume a: "off + 64 \<le> length (base :: byte list)" "h = vh_read (drop off base)"
    "rec_len = RecordSize (vh_dim h) (vh_metadata_len h) (is_quantized h)" "\<not> length base < off + rec_len"
  then show "((base, off + rec_len), base, off) \<in> measure (\<lambda>(base, off). length base - off)"
    using RecordSize_ge [of "vh_dim h" "vh_metadata_len h" "is_quantized h"] by auto
qed simp

declare index_loop.simps [simp del]

definition BuildIndexFromMmap :: "posix_env \<Rightarrow> sengine \<Rightarrow> status \<times> sengine" where
  "BuildIndexFromMmap e s =
     (case se_map s of
        None \<Rightarrow> (Ok, s\<lparr>se_index := []\<rparr>)
      | Some n \<Rightarrow> (Ok, s\<lparr>se_index := (if n \<le> 64 then [] else index_loop (take n (content_of e (se_path s))) 64)\<rparr>))"

definition ReloadMmap :: "posix_env \<Rightarrow> sengine \<Rightarrow> status \<times> posix_env \<times> sengine" where
  "ReloadMmap e s =
     (let s = s\<lparr>se_map := None\<rparr> in
      if \<not> se_open s then (Ok, e, s) else
      case sys e of
        (Some msg, e) \<Rightarrow> (ErrnoStatus ''fstat'' msg, e, s)
      | (None, e) \<Rightarrow>
          let s = s\<lparr>se_file_size := length (content_of e (se_path s))\<rparr> in
          if se_file_size s = 0 then (case BuildIndexFromMmap e s of (st, s) \<Rightarrow> (st, e, s))
          else
            (case sys e of
               (Some msg, e) \<Rightarrow> (ErrnoStatus ''mmap'' msg, e, s)
             | (None, e) \<Rightarrow> (case BuildIndexFromMmap e (s\<lparr>se_map := Some (se_file_size s)\<rparr>) of (st, s) \<Rightarrow> (st, e, s))))"

text \<open>The text of the error a short header write is reported with: no call failed, so it is that
  of whatever error came before.\<close>

definition stale_errno :: string where "stale_errno = ''Success''"

definition se_Open :: "posix_env \<Rightarrow> sengine \<Rightarrow> string \<Rightarrow> u32 \<Rightarrow> nat \<Rightarrow> bool \<Rightarrow> status \<times> posix_env \<times> sengine" where
  "se_Open e s path dim thresh quant =
     (if dim = 0 then (InvalidArgument ''dim must be > 0'', e, s) else
      let s = (se_Close s)\<lparr>se_path := path, se_dim := dim, se_threshold := thresh, se_quant := quant,
                           se_buffer := [], se_pending := 0, se_index := []\<rparr> in
      case sys e of
        (Some msg, e) \<Rightarrow> (ErrnoStatus ''open'' msg, e, s)
      | (None, e) \<Rightarrow>
          let e = e\<lparr>ev_files := (ev_files e)(path \<mapsto> content_of e path)\<rparr>; s = s\<lparr>se_open := True, se_pos := 0\<rparr> in
          case sys e of
            (Some msg, e) \<Rightarrow> (ErrnoStatus ''fstat'' msg, e, s\<lparr>se_open := False\<rparr>)
          | (None, e) \<Rightarrow>
              let s = s\<lparr>se_file_size := length (content_of e path)\<rparr> in
              if se_file_size s = 0 then
                let w = min 64 (ev_chunk e (ev_tick e) + 1) in
                case sys e of
                  (Some msg, e) \<Rightarrow> (ErrnoStatus ''write header'' msg, e, s\<lparr>se_open := False\<rparr>)
                | (None, e) \<Rightarrow>
                    let e = put_bytes e path 0 (take w (StorageFileHeader dim)) in
                    if w \<noteq> 64 then (ErrnoStatus ''write header'' stale_errno, e, s\<lparr>se_open := False\<rparr>)
                    else ReloadMmap e (s\<lparr>se_pos := 64, se_file_size := 64\<rparr>)
              else
                case read_at_loop e (pf_at path) 0 64 [] of (_, hdr, e) \<Rightarrow>
                if length hdr < 64 \<or> \<not> fh_valid hdr \<or> fh_dim hdr \<noteq> dim
                then (Corruption ''invalid header'', e, s\<lparr>se_open := False\<rparr>)
                else ReloadMmap e s)"

subsection \<open>Appending\<close>

definition padded :: "nat \<Rightarrow> byte list \<Rightarrow> byte list" where
  "padded n bs = bs @ replicate (n - length bs) 0"

definition AppendToBuffer :: "sengine \<Rightarrow> VectorRecordHeader \<Rightarrow> byte list \<Rightarrow> VectorView \<Rightarrow> sengine" where
  "AppendToBuffer s hdr metadata vec =
     (let rec_len = RecordSize (vh_dim hdr) (vh_metadata_len hdr) (is_quantized hdr)
      in s\<lparr>se_buffer := se_buffer s @ padded rec_len (vh_bytes hdr @ metadata @ float_bytes vec), se_pending := se_pending s + rec_len\<rparr>)"

definition AppendToBufferQuantized :: "sengine \<Rightarrow> VectorRecordHeader \<Rightarrow> byte list \<Rightarrow> float32 \<Rightarrow> float32 \<Rightarrow> byte list \<Rightarrow> sengine" where
  "AppendToBufferQuantized s hdr metadata mn mx qvec =
     (let rec_len = RecordSize (vh_dim hdr) (vh_metadata_len hdr) True
      in s\<lparr>se_buffer := se_buffer s @ padded rec_len (vh_bytes hdr @ metadata @ u32_bytes mn @ u32_bytes mx @ qvec),
           se_pending := se_pending s + rec_len\<rparr>)"

definition index_append :: "sengine \<Rightarrow> u64 \<Rightarrow> nat \<Rightarrow> bool \<Rightarrow> sengine" where
  "index_append s i rec_len tomb =
     s\<lparr>se_index := se_index s @ [(i, \<lparr>ie_offset = se_file_size s + (length (se_buffer s) - rec_len), ie_length = rec_len,
                                     ie_tombstone = tomb, ie_in_buffer = True\<rparr>)]\<rparr>"

text \<open>The minimum, the maximum and the codes of a vector, for given extremes.\<close>

definition se_minmax :: "ieee \<Rightarrow> VectorView \<Rightarrow> float32 \<times> float32" where
  "se_minmax fp v = foldl (\<lambda>(mn, mx) x. (if f_lt fp x mn then x else mn, if f_lt fp mx x then x else mx)) (hd v, hd v) v"

definition se_scale :: "ieee \<Rightarrow> float32 \<Rightarrow> float32 \<Rightarrow> float32" where
  "se_scale fp mn mx = (if f_le fp (f_sub fp mx mn) f_1e_9 then f_0 else f_div fp f_255 (f_sub fp mx mn))"

definition se_code :: "ieee \<Rightarrow> float32 \<Rightarrow> float32 \<Rightarrow> float32 \<Rightarrow> byte" where
  "se_code fp mn scale x =
     (let f = f_add fp (f_mul fp (f_sub fp x mn) scale) f_0_5;
          f = (if f_lt fp f f_255 then f else f_255);
          f = (if f_lt fp f_0 f then f else f_0)
      in f_to_byte fp f)"

text \<open>The write loop of \<open>FlushBufferToFile\<close>: what was written stays written and moves the
  position, also when a later write fails.\<close>

function write_loop :: "posix_env \<Rightarrow> string \<Rightarrow> nat \<Rightarrow> byte list \<Rightarrow> status \<times> posix_env \<times> nat" where
  "write_loop e path pos data =
     (if data = [] then (Ok, e, pos) else
      let w = min (length data) (ev_chunk e (ev_tick e) + 1) in
      case sys e of
        (Some msg, e) \<Rightarrow> (ErrnoStatus ''write'' msg, e, pos)
      | (None, e) \<Rightarrow> write_loop (put_bytes e path pos (take w data)) path (pos + w) (drop w data))"
  by pat_completeness auto
termination
  by (relation "measure (\<lambda>(e, path, pos, data). length data)") auto

declare write_loop.simps [simp del]

definition FlushBufferToFile :: "posix_env \<Rightarrow> sengine \<Rightarrow> status \<times> posix_env \<times> sengine" where
  "FlushBufferToFile e s =
     (if se_buffer s = [] then (Ok, e, s) else
      case write_loop e (se_path s) (se_pos s) (se_buffer s) of (st, e, pos) \<Rightarrow>
      let s = s\<lparr>se_pos := pos\<rparr> in
      if \<not> st_ok st then (st, e, s) else
      case sys e of
        (Some msg, e) \<Rightarrow> (ErrnoStatus ''fsync'' msg, e, s)
      | (None, e) \<Rightarrow>
          (Ok, e, s\<lparr>se_file_size := se_file_size s + length (se_buffer s), se_buffer := [], se_pending := 0,
                    se_index := map (apsnd (\<lambda>x. x\<lparr>ie_in_buffer := False\<rparr>)) (se_index s)\<rparr>))"

definition NotOpen :: status where
  "NotOpen = Status kFailedPrecondition ''not open''"

definition se_Flush :: "posix_env \<Rightarrow> sengine \<Rightarrow> status \<times> posix_env \<times> sengine" where
  "se_Flush e s =
     (if \<not> se_open s then (NotOpen, e, s) else
      case FlushBufferToFile e s of (st, e, s) \<Rightarrow> if \<not> st_ok st then (st, e, s) else ReloadMmap e s)"

definition auto_flush :: "posix_env \<Rightarrow> sengine \<Rightarrow> status \<times> posix_env \<times> sengine" where
  "auto_flush e s =
     (if se_pending s \<ge> se_threshold s then
        (case se_Flush e s of (st, e, s) \<Rightarrow> if \<not> st_ok st then (st, e, s) else (Ok, e, s))
      else (Ok, e, s))"

definition se_Append :: "ieee \<Rightarrow> posix_env \<Rightarrow> sengine \<Rightarrow> u64 \<Rightarrow> VectorView \<Rightarrow> Metadata option \<Rightarrow> status \<times> posix_env \<times> sengine" where
  "se_Append fp e s i vec meta =
     (if \<not> se_open s then (NotOpen, e, s)
      else if length vec \<noteq> unat (se_dim s) then (InvalidArgument ''dim mismatch'', e, s)
      else
        let blob = (case meta of None \<Rightarrow> '''' | Some m \<Rightarrow> md_tenant m);
            hdr = \<lparr>vh_id = i, vh_dim = vv_dim vec, vh_flags = 0, vh_metadata_len = word_of_nat (length blob)\<rparr>;
            s = (if se_quant s then
                   let (mn, mx) = se_minmax fp vec
                   in AppendToBufferQuantized s (hdr\<lparr>vh_flags := kFlagQuantized\<rparr>) (bytes_of blob) mn mx
                        (map (se_code fp mn (se_scale fp mn mx)) vec)
                 else AppendToBuffer s hdr (bytes_of blob) vec)
        in auto_flush e (index_append s i (RecordSize (vh_dim hdr) (vh_metadata_len hdr) (se_quant s)) False))"

text \<open>\<open>AppendBatch\<close>: without quantization it appends one by one (a flush may happen in
  between); with it, all vectors share the extremes of the batch.\<close>

fun append_each :: "ieee \<Rightarrow> posix_env \<Rightarrow> sengine \<Rightarrow> u64 list \<Rightarrow> VectorView \<Rightarrow> nat \<Rightarrow> status \<times> posix_env \<times> sengine" where
  "append_each fp e s [] vs dim = (Ok, e, s)"
| "append_each fp e s (i # is) vs dim =
     (case se_Append fp e s i (take dim vs) None of (st, e, s) \<Rightarrow>
      if \<not> st_ok st then (st, e, s) else append_each fp e s is (drop dim vs) dim)"

fun quant_each :: "ieee \<Rightarrow> sengine \<Rightarrow> u64 list \<Rightarrow> VectorView \<Rightarrow> u32 \<Rightarrow> float32 \<Rightarrow> float32 \<Rightarrow> sengine" where
  "quant_each fp s [] vs dim mn mx = s"
| "quant_each fp s (i # is) vs dim mn mx =
     (let hdr = \<lparr>vh_id = i, vh_dim = dim, vh_flags = kFlagQuantized, vh_metadata_len = 0\<rparr>;
          s = AppendToBufferQuantized s hdr [] mn mx (map (se_code fp mn (se_scale fp mn mx)) (take (unat dim) vs));
          s = index_append s i (RecordSize dim 0 True) False
      in quant_each fp s is (drop (unat dim) vs) dim mn mx)"

definition se_AppendBatch :: "ieee \<Rightarrow> posix_env \<Rightarrow> sengine \<Rightarrow> u64 list \<Rightarrow> VectorView \<Rightarrow> u32 \<Rightarrow> status \<times> posix_env \<times> sengine" where
  "se_AppendBatch fp e s ids vs dim =
     (if \<not> se_open s then (NotOpen, e, s)
      else if dim = 0 then (InvalidArgument ''dim must be > 0'', e, s)
      else if ids = [] then (Ok, e, s)
      else if length vs \<noteq> length ids * unat dim then (InvalidArgument ''AppendBatch: ids * dim mismatch'', e, s)
      else if \<not> se_quant s then append_each fp e s ids vs (unat dim)
      else case se_minmax fp vs of (mn, mx) \<Rightarrow> auto_flush e (quant_each fp s ids vs dim mn mx))"

definition se_Delete :: "posix_env \<Rightarrow> sengine \<Rightarrow> u64 \<Rightarrow> status \<times> posix_env \<times> sengine" where
  "se_Delete e s i =
     (if \<not> se_open s then (NotOpen, e, s)
      else
        let s = AppendToBuffer s \<lparr>vh_id = i, vh_dim = se_dim s, vh_flags = kFlagTombstone, vh_metadata_len = 0\<rparr> [] []
        in auto_flush e (index_append s i (RecordSize (se_dim s) 0 False) True))"

subsection \<open>Reading\<close>

record GetResult =
  gt_data :: "VectorView option"
  gt_dim :: u32
  gt_tombstone :: bool

definition GetResult0 :: GetResult where
  "GetResult0 = \<lparr>gt_data = None, gt_dim = 0, gt_tombstone = False\<rparr>"

definition se_decode :: "ieee \<Rightarrow> float32 \<Rightarrow> float32 \<Rightarrow> byte list \<Rightarrow> VectorView" where
  "se_decode fp mn mx q =
     (let inv = (if f_le fp (f_sub fp mx mn) f_1e_9 then f_0 else f_div fp (f_sub fp mx mn) f_255)
      in map (\<lambda>b. f_add fp mn (f_mul fp (f_of_byte fp b) inv)) q)"

definition read_record :: "ieee \<Rightarrow> byte list \<Rightarrow> GetResult" where
  "read_record fp r =
     (let h = vh_read r; p = drop (64 + unat (vh_metadata_len h)) r
      in GetResult0\<lparr>gt_dim := vh_dim h,
           gt_data := Some (if is_quantized h then se_decode fp (bytes_u32 p) (bytes_u32 (drop 4 p)) (take (unat (vh_dim h)) (drop 8 p))
                            else bytes_floats (unat (vh_dim h)) p)\<rparr>)"

definition se_Get :: "ieee \<Rightarrow> posix_env \<Rightarrow> sengine \<Rightarrow> u64 \<Rightarrow> status \<times> GetResult" where
  "se_Get fp e s i =
     (case map_of (rev (se_index s)) i of
        None \<Rightarrow> (NotFound ''vector id'', GetResult0)
      | Some x \<Rightarrow>
          if ie_tombstone x then (Ok, GetResult0\<lparr>gt_tombstone := True\<rparr>)
          else
            let buf_off = ie_offset x - se_file_size s in
            if ie_in_buffer x then
              (if buf_off + ie_length x > length (se_buffer s) then (Corruption ''index'', GetResult0)
               else (Ok, read_record fp (drop buf_off (se_buffer s))))
            else
              (if ie_offset x + ie_length x > (case se_map s of None \<Rightarrow> 0 | Some n \<Rightarrow> n) then (Corruption ''index'', GetResult0)
               else (Ok, read_record fp (drop (ie_offset x) (content_of e (se_path s))))))"

subsection \<open>Records decode\<close>

text \<open>A record of the log: its header and what follows it.\<close>

type_synonym srec = "VectorRecordHeader \<times> byte list"

definition rec_len :: "srec \<Rightarrow> nat" where
  "rec_len r = RecordSize (vh_dim (fst r)) (vh_metadata_len (fst r)) (is_quantized (fst r))"

definition rec_bytes :: "srec \<Rightarrow> byte list" where
  "rec_bytes r = padded (rec_len r) (vh_bytes (fst r) @ snd r)"

definition sr_fits :: "srec \<Rightarrow> bool" where
  "sr_fits r \<longleftrightarrow> 64 + length (snd r) \<le> rec_len r"

definition log_bytes :: "srec list \<Rightarrow> byte list" where
  "log_bytes rs = concat (map rec_bytes rs)"

lemma log_bytes_simps [simp]: "log_bytes [] = []" "log_bytes (r # rs) = rec_bytes r @ log_bytes rs"
  "log_bytes (rs @ qs) = log_bytes rs @ log_bytes qs"
  by (simp_all add: log_bytes_def)

lemma length_vh_bytes [simp]: "length (vh_bytes h) = 64"
  by (simp add: vh_bytes_def)

lemma vh_read_bytes [simp]: "vh_read (vh_bytes h @ bs) = h"
  by (cases h) (simp add: vh_read_def vh_bytes_def bytes_u64_u64 bytes_u32_u32)

lemma length_rec_bytes: "sr_fits r \<Longrightarrow> length (rec_bytes r) = rec_len r"
  by (simp add: rec_bytes_def padded_def sr_fits_def)

lemma vh_read_rec [simp]: "vh_read (rec_bytes r @ bs) = fst r"
  by (simp add: rec_bytes_def padded_def)

lemma RecordSize_payload:
  "64 + (if q then unat m + 8 + unat d else unat m + unat d * 4) \<le> RecordSize d m q"
proof -
  have "n \<le> (n + 63) div 64 * 64" for n :: nat
  proof -
    have "n + 63 = (n + 63) div 64 * 64 + (n + 63) mod 64" "(n + 63) mod 64 < 64" by simp_all
    then show ?thesis by linarith
  qed
  from this [of "64 + (if q then unat m + 8 + unat d else unat m + unat d * 4)"]
  show ?thesis by (cases q) (simp_all add: RecordSize_def kStorageAlign_def Let_def ac_simps)
qed

definition entry_of :: "nat \<Rightarrow> bool \<Rightarrow> srec \<Rightarrow> u64 \<times> IndexEntry" where
  "entry_of off buf r = (vh_id (fst r), \<lparr>ie_offset = off, ie_length = rec_len r, ie_tombstone = is_tombstone (fst r), ie_in_buffer = buf\<rparr>)"

fun se_entries :: "nat \<Rightarrow> bool \<Rightarrow> srec list \<Rightarrow> (u64 \<times> IndexEntry) list" where
  "se_entries off buf [] = []"
| "se_entries off buf (r # rs) = entry_of off buf r # se_entries (off + rec_len r) buf rs"

lemma entries_append: "list_all sr_fits rs \<Longrightarrow> se_entries off buf (rs @ qs) = se_entries off buf rs @ se_entries (off + length (log_bytes rs)) buf qs"
  by (induction rs arbitrary: off) (simp_all add: length_rec_bytes add.assoc)

lemma index_loop_log:
  "list_all sr_fits rs \<Longrightarrow> base = pre @ log_bytes rs \<Longrightarrow> index_loop base (length pre) = se_entries (length pre) False rs"
proof (induction rs arbitrary: pre)
  case Nil
  then show ?case by (subst index_loop.simps) simp
next
  case (Cons r rs)
  have l: "length (rec_bytes r) = rec_len r" using Cons.prems(1) by (simp add: length_rec_bytes)
  have "64 \<le> rec_len r" by (simp add: rec_len_def RecordSize_ge)
  then have "index_loop base (length pre) = entry_of (length pre) False r # index_loop base (length pre + rec_len r)"
    using Cons.prems l by (subst index_loop.simps) (simp add: Let_def entry_of_def rec_len_def [symmetric])
  moreover have "index_loop base (length (pre @ rec_bytes r)) = se_entries (length (pre @ rec_bytes r)) False rs"
    by (rule Cons.IH) (use Cons.prems in simp_all)
  ultimately show ?case by (simp add: l)
qed

subsection \<open>Writing\<close>

lemma pwrite_at_pwrite_at:
  "pos \<le> length c \<Longrightarrow> pwrite_at (pwrite_at c pos xs) (pos + length xs) ys = pwrite_at c pos (xs @ ys)"
  by (simp add: pwrite_at_def ac_simps)

lemma write_loop_ok:
  "calls_ok e \<Longrightarrow> ev_files e path = Some c \<Longrightarrow> pos \<le> length c \<Longrightarrow>
   \<exists>e'. write_loop e path pos data = (Ok, e', pos + length data) \<and> calls_ok e' \<and> ev_files e' = (ev_files e)(path \<mapsto> pwrite_at c pos data)"
proof (induction e path pos data arbitrary: c rule: write_loop.induct)
  case (1 e path pos data)
  define w where "w = min (length data) (ev_chunk e (ev_tick e) + 1)"
  define e1 where "e1 = e\<lparr>ev_tick := ev_tick e + 1\<rparr>"
  show ?case
  proof (cases "data = []")
    case True
    then show ?thesis using "1.prems" by (subst write_loop.simps) (simp add: pwrite_at_def fun_upd_idem)
  next
    case False
    have s: "sys e = (None, e1)" using "1.prems"(1) by (simp add: sys_ok e1_def)
    define e2 where "e2 = put_bytes e1 path pos (take w data)"
    have e2: "calls_ok e2" "ev_files e2 = (ev_files e)(path \<mapsto> pwrite_at c pos (take w data))"
      using "1.prems"(1,2) by (simp_all add: e2_def put_bytes_def e1_def)
    have lw: "length (take w data) = w" by (simp add: w_def)
    have "\<exists>e'. write_loop e2 path (pos + w) (drop w data) = (Ok, e', pos + w + length (drop w data)) \<and> calls_ok e' \<and>
        ev_files e' = (ev_files e2)(path \<mapsto> pwrite_at (pwrite_at c pos (take w data)) (pos + w) (drop w data))"
      unfolding e2_def by (rule "1.IH" [OF False w_def s [symmetric] refl])
        (use "1.prems" e2 lw in \<open>auto simp: e2_def pwrite_at_def\<close>)
    moreover have "pwrite_at (pwrite_at c pos (take w data)) (pos + w) (drop w data) = pwrite_at c pos data"
      using pwrite_at_pwrite_at [OF "1.prems"(3), of "take w data" "drop w data"] lw by simp
    moreover have "pos + w + length (drop w data) = pos + length data" by (simp add: w_def)
    moreover have "write_loop e path pos data = write_loop e2 path (pos + w) (drop w data)"
      using False by (subst write_loop.simps) (simp add: s Let_def e2_def w_def)
    ultimately show ?thesis by (simp only: e2(2) fun_upd_upd)
  qed
qed

subsection \<open>The log invariant\<close>

text \<open>The file holds the header and the records \<open>rs\<close>, the buffer the records \<open>qs\<close>, and the index
  has an entry for each in order; the descriptor is at the end of the file.\<close>

definition se_log :: "posix_env \<Rightarrow> sengine \<Rightarrow> srec list \<Rightarrow> srec list \<Rightarrow> bool" where
  "se_log e s rs qs \<longleftrightarrow> calls_ok e \<and> se_open s \<and> list_all sr_fits (rs @ qs) \<and>
     ev_files e (se_path s) = Some (StorageFileHeader (se_dim s) @ log_bytes rs) \<and>
     se_file_size s = 64 + length (log_bytes rs) \<and> se_pos s = se_file_size s \<and> se_map s = Some (se_file_size s) \<and>
     se_buffer s = log_bytes qs \<and> se_index s = se_entries 64 False rs @ se_entries (se_file_size s) True qs"

definition se_cfg :: "sengine \<Rightarrow> string \<times> u32 \<times> nat \<times> bool" where
  "se_cfg s = (se_path s, se_dim s, se_threshold s, se_quant s)"

lemma length_header [simp]: "length (StorageFileHeader d) = 64"
  by (simp add: StorageFileHeader_def se_magic_def)

lemma header_nonempty [simp]: "StorageFileHeader d \<noteq> []"
  by (simp add: StorageFileHeader_def se_magic_def)

lemma log_bytes_pos: "list_all sr_fits rs \<Longrightarrow> rs \<noteq> [] \<Longrightarrow> 0 < length (log_bytes rs)"
proof (cases rs)
  case (Cons r qs)
  moreover have "64 \<le> rec_len r" by (simp add: rec_len_def RecordSize_ge)
  ultimately show "list_all sr_fits rs \<Longrightarrow> rs \<noteq> [] \<Longrightarrow> 0 < length (log_bytes rs)" by (simp add: length_rec_bytes)
qed simp

lemma ReloadMmap_log:
  assumes "calls_ok e" "se_open s" "ev_files e (se_path s) = Some (StorageFileHeader d @ log_bytes rs)" "list_all sr_fits rs"
  shows "\<exists>t. ReloadMmap e s = (Ok, e\<lparr>ev_tick := t\<rparr>, s\<lparr>se_map := Some (64 + length (log_bytes rs)),
    se_file_size := 64 + length (log_bytes rs), se_index := se_entries 64 False rs\<rparr>)"
proof -
  let ?c = "StorageFileHeader d @ log_bytes rs"
  have c: "content_of e (se_path s) = ?c" using assms(3) by (simp add: content_of_def)
  have "index_loop ?c 64 = se_entries 64 False rs"
    using index_loop_log [OF assms(4) refl, of "StorageFileHeader d"] by simp
  moreover have "length (log_bytes rs) = 0 \<Longrightarrow> se_entries 64 False rs = []" using log_bytes_pos [OF assms(4)] by (cases "rs = []") auto
  ultimately show ?thesis
    using assms(1,2) by (auto simp: ReloadMmap_def sys_ok c BuildIndexFromMmap_def Let_def)
qed

lemma se_Flush_log:
  assumes "se_log e s rs qs"
  shows "\<exists>e' s'. se_Flush e s = (Ok, e', s') \<and> se_log e' s' (rs @ qs) [] \<and> se_cfg s' = se_cfg s"
proof (cases "se_buffer s = []")
  case True
  then have "qs = []" using assms log_bytes_pos [of qs] by (auto simp: se_log_def)
  then show ?thesis
    using assms True ReloadMmap_log [of e s "se_dim s" rs] by (auto simp: se_log_def se_Flush_def FlushBufferToFile_def se_cfg_def)
next
  case False
  let ?c = "StorageFileHeader (se_dim s) @ log_bytes rs"
  obtain e1 where w: "write_loop e (se_path s) (se_pos s) (se_buffer s) = (Ok, e1, se_pos s + length (se_buffer s))" "calls_ok e1"
      "ev_files e1 = (ev_files e)(se_path s \<mapsto> pwrite_at ?c (se_pos s) (se_buffer s))"
    using write_loop_ok [of e "se_path s" ?c "se_pos s" "se_buffer s"] assms by (auto simp: se_log_def)
  have c: "pwrite_at ?c (se_pos s) (se_buffer s) = StorageFileHeader (se_dim s) @ log_bytes (rs @ qs)"
    using assms by (simp add: se_log_def pwrite_at_def)
  define e2 where "e2 = e1\<lparr>ev_tick := ev_tick e1 + 1\<rparr>"
  define s2 where "s2 = s\<lparr>se_pos := se_pos s + length (se_buffer s), se_file_size := se_file_size s + length (se_buffer s),
    se_buffer := [], se_pending := 0, se_index := map (apsnd (\<lambda>x. x\<lparr>ie_in_buffer := False\<rparr>)) (se_index s)\<rparr>"
  have F: "FlushBufferToFile e s = (Ok, e2, s2)"
    using w(1,2) False by (simp add: FlushBufferToFile_def sys_ok Let_def e2_def s2_def)
  obtain t where R: "ReloadMmap e2 s2 = (Ok, e2\<lparr>ev_tick := t\<rparr>, s2\<lparr>se_map := Some (64 + length (log_bytes (rs @ qs))),
      se_file_size := 64 + length (log_bytes (rs @ qs)), se_index := se_entries 64 False (rs @ qs)\<rparr>)"
    using ReloadMmap_log [of e2 s2 "se_dim s" "rs @ qs"] w(2,3) c assms by (auto simp: e2_def s2_def se_log_def)
  show ?thesis
    using F R w(2,3) c assms by (auto simp: se_Flush_def se_log_def e2_def s2_def se_cfg_def)
qed

lemma auto_flush_log:
  assumes "se_log e s rs qs"
  shows "\<exists>e' s' rs' qs'. auto_flush e s = (Ok, e', s') \<and> se_log e' s' rs' qs' \<and> rs' @ qs' = rs @ qs \<and> se_cfg s' = se_cfg s"
  using se_Flush_log [OF assms] assms by (fastforce simp: auto_flush_def)

lemma se_log_push:
  assumes "se_log e s rs qs" "sr_fits r"
  shows "se_log e (index_append (s\<lparr>se_buffer := se_buffer s @ rec_bytes r, se_pending := p\<rparr>) (vh_id (fst r)) (rec_len r)
    (is_tombstone (fst r))) rs (qs @ [r])"
  using assms by (simp add: se_log_def index_append_def entries_append entry_of_def length_rec_bytes)

subsection \<open>Looking up\<close>

definition last_rec :: "srec list \<Rightarrow> u64 \<Rightarrow> srec option" where
  "last_rec rs i = map_of (rev (map (\<lambda>r. (vh_id (fst r), r)) rs)) i"

lemma last_rec_append: "last_rec (rs @ qs) i = (case last_rec qs i of None \<Rightarrow> last_rec rs i | Some r \<Rightarrow> Some r)"
  unfolding last_rec_def by (simp add: map_add_def)

lemma entries_lookup:
  "list_all sr_fits rs \<Longrightarrow>
   (case last_rec rs i of
      None \<Rightarrow> map_of (rev (se_entries off buf rs)) i = None
    | Some r \<Rightarrow> \<exists>rs1 rs2. rs = rs1 @ r # rs2 \<and> map_of (rev (se_entries off buf rs)) i = Some (snd (entry_of (off + length (log_bytes rs1)) buf r)))"
proof (induction rs rule: rev_induct)
  case (snoc r rs)
  have e: "rev (se_entries off buf (rs @ [r])) = entry_of (off + length (log_bytes rs)) buf r # rev (se_entries off buf rs)"
    using snoc.prems by (simp add: entries_append)
  show ?case
  proof (cases "vh_id (fst r) = i")
    case True
    then show ?thesis by (auto simp: e last_rec_def entry_of_def)
  next
    case False
    then have "last_rec (rs @ [r]) i = last_rec rs i" "map_of (rev (se_entries off buf (rs @ [r]))) i = map_of (rev (se_entries off buf rs)) i"
      by (simp_all add: e last_rec_def entry_of_def)
    then show ?thesis using snoc by (fastforce split: option.splits)
  qed
qed (simp add: last_rec_def)

lemma bytes_u32_take: "4 \<le> length xs \<Longrightarrow> bytes_u32 (xs @ ys) = bytes_u32 xs"
  by (simp add: bytes_u32_def)

lemma bytes_floats_prefix: "4 * n \<le> length xs \<Longrightarrow> bytes_floats n (xs @ ys) = bytes_floats n xs"
  by (induction n arbitrary: xs) simp_all

lemma read_record_prefix:
  assumes "sr_fits r"
  shows "read_record fp (rec_bytes r @ bs) = read_record fp (rec_bytes r)"
proof -
  let ?h = "fst r"
  let ?n = "64 + unat (vh_metadata_len ?h)"
  have "64 + (if is_quantized ?h then unat (vh_metadata_len ?h) + 8 + unat (vh_dim ?h) else unat (vh_metadata_len ?h) + unat (vh_dim ?h) * 4)
      \<le> length (rec_bytes r)"
    using RecordSize_payload length_rec_bytes [OF assms] by (simp add: rec_len_def)
  moreover have "vh_read (rec_bytes r) = ?h" using vh_read_rec [of r "[]"] by simp
  ultimately show ?thesis
    by (auto simp: read_record_def Let_def bytes_u32_take bytes_floats_prefix split: if_splits)
qed

definition get_of :: "ieee \<Rightarrow> srec option \<Rightarrow> status \<times> GetResult" where
  "get_of fp x = (case x of
     None \<Rightarrow> (NotFound ''vector id'', GetResult0)
   | Some r \<Rightarrow> (Ok, if is_tombstone (fst r) then GetResult0\<lparr>gt_tombstone := True\<rparr> else read_record fp (rec_bytes r)))"

lemma se_Get_log:
  assumes "se_log e s rs qs"
  shows "se_Get fp e s i = get_of fp (last_rec (rs @ qs) i)"
proof -
  let ?n = "se_file_size s"
  have f: "list_all sr_fits rs" "list_all sr_fits qs" using assms by (simp_all add: se_log_def)
  have m: "map_of (rev (se_index s)) i = (case map_of (rev (se_entries ?n True qs)) i of
      None \<Rightarrow> map_of (rev (se_entries 64 False rs)) i | Some x \<Rightarrow> Some x)"
    using assms by (simp add: se_log_def map_add_def)
  show ?thesis
  proof (cases "last_rec qs i")
    case (Some r)
    then obtain qs1 qs2 where q: "qs = qs1 @ r # qs2"
        "map_of (rev (se_entries ?n True qs)) i = Some (snd (entry_of (?n + length (log_bytes qs1)) True r))"
      using entries_lookup [OF f(2), where i = i and off = ?n and buf = True] by auto
    have r: "sr_fits r" using f(2) q(1) by simp
    show ?thesis
      using assms m q r Some
      by (simp add: se_Get_def entry_of_def get_of_def last_rec_append se_log_def Let_def length_rec_bytes read_record_prefix)
  next
    case None
    then have q: "map_of (rev (se_entries ?n True qs)) i = None" using entries_lookup [OF f(2), where i = i and off = ?n and buf = True] by simp
    show ?thesis
    proof (cases "last_rec rs i")
      case n: None
      then show ?thesis using entries_lookup [OF f(1), where i = i and off = 64 and buf = False] m q None by (simp add: se_Get_def get_of_def last_rec_append)
    next
      case (Some r)
      then obtain rs1 rs2 where p: "rs = rs1 @ r # rs2"
          "map_of (rev (se_entries 64 False rs)) i = Some (snd (entry_of (64 + length (log_bytes rs1)) False r))"
        using entries_lookup [OF f(1), where i = i and off = 64 and buf = False] by auto
      have r: "sr_fits r" using f(1) p(1) by simp
      have l: "last_rec (rs @ qs) i = Some r" using None Some by (simp add: last_rec_append)
      have x: "map_of (rev (se_index s)) i = Some (snd (entry_of (64 + length (log_bytes rs1)) False r))" using m q p(2) by simp
      show ?thesis
        unfolding l se_Get_def x using assms r
        by (simp add: p(1) entry_of_def get_of_def se_log_def Let_def length_rec_bytes read_record_prefix content_of_def)
    qed
  qed
qed

subsection \<open>The records of the operations\<close>

definition sq_body :: "ieee \<Rightarrow> float32 \<times> float32 \<Rightarrow> VectorView \<Rightarrow> byte list" where
  "sq_body fp ex v = u32_bytes (fst ex) @ u32_bytes (snd ex) @ map (se_code fp (fst ex) (se_scale fp (fst ex) (snd ex))) v"

definition app_rec :: "ieee \<Rightarrow> (float32 \<times> float32) option \<Rightarrow> u64 \<Rightarrow> VectorView \<Rightarrow> string \<Rightarrow> srec" where
  "app_rec fp ex i v blob =
     (\<lparr>vh_id = i, vh_dim = vv_dim v, vh_flags = (if ex = None then 0 else kFlagQuantized), vh_metadata_len = word_of_nat (length blob)\<rparr>,
      bytes_of blob @ (case ex of None \<Rightarrow> float_bytes v | Some x \<Rightarrow> sq_body fp x v))"

definition del_rec :: "u32 \<Rightarrow> u64 \<Rightarrow> srec" where
  "del_rec dim i = (\<lparr>vh_id = i, vh_dim = dim, vh_flags = kFlagTombstone, vh_metadata_len = 0\<rparr>, [])"

text \<open>What is read back of a vector: itself, or its quantization.\<close>

definition se_stored :: "ieee \<Rightarrow> (float32 \<times> float32) option \<Rightarrow> VectorView \<Rightarrow> VectorView" where
  "se_stored fp ex v = (case ex of
     None \<Rightarrow> v | Some (mn, mx) \<Rightarrow> se_decode fp mn mx (map (se_code fp mn (se_scale fp mn mx)) v))"

lemma app_rec_flags [simp]:
  "vh_id (fst (app_rec fp ex i v b)) = i" "\<not> is_tombstone (fst (app_rec fp ex i v b))"
  "is_quantized (fst (app_rec fp ex i v b)) \<longleftrightarrow> ex \<noteq> None" "vh_dim (fst (app_rec fp ex i v b)) = vv_dim v"
  "vh_metadata_len (fst (app_rec fp ex i v b)) = word_of_nat (length b)"
  by (simp_all add: app_rec_def is_tombstone_def is_quantized_def kFlagTombstone_def kFlagQuantized_def)

lemma del_rec_flags [simp]:
  "vh_id (fst (del_rec d i)) = i" "is_tombstone (fst (del_rec d i))" "\<not> is_quantized (fst (del_rec d i))"
  by (simp_all add: del_rec_def is_tombstone_def is_quantized_def kFlagTombstone_def kFlagQuantized_def)

lemma unat_len: "n < 2 ^ 32 \<Longrightarrow> unat (word_of_nat n :: u32) = n"
  by (simp add: unat_of_nat)

lemma app_rec_fits:
  assumes "length v < 2 ^ 32" "length b < 2 ^ 32"
  shows "sr_fits (app_rec fp ex i v b)"
proof -
  have "length (snd (app_rec fp ex i v b)) = (if ex \<noteq> None then length b + 8 + length v else length b + length v * 4)"
    by (auto simp: app_rec_def sq_body_def split: option.split)
  then show ?thesis
    using RecordSize_payload [of "ex \<noteq> None" "word_of_nat (length b)" "vv_dim v"] unat_len [OF assms(1)] unat_len [OF assms(2)]
    by (cases ex) (simp_all add: sr_fits_def rec_len_def vv_dim_def)
qed

lemma del_rec_fits: "sr_fits (del_rec d i)"
  using RecordSize_ge by (simp add: sr_fits_def rec_len_def del_rec_def)

lemma read_app_rec:
  assumes "length v < 2 ^ 32" "length b < 2 ^ 32"
  shows "read_record fp (rec_bytes (app_rec fp ex i v b)) = \<lparr>gt_data = Some (se_stored fp ex v), gt_dim = vv_dim v, gt_tombstone = False\<rparr>"
proof -
  let ?r = "app_rec fp ex i v b"
  define z where "z = replicate (rec_len ?r - length (vh_bytes (fst ?r) @ snd ?r)) (0 :: byte)"
  have rb: "rec_bytes ?r = vh_bytes (fst ?r) @ snd ?r @ z" by (simp add: rec_bytes_def padded_def z_def)
  have d: "unat (vv_dim v) = length v" using unat_len [OF assms(1)] by (simp add: vv_dim_def)
  have h: "vh_read (rec_bytes ?r) = fst ?r" using vh_read_rec [of ?r "[]"] by simp
  have m: "unat (vh_metadata_len (fst ?r)) = length b" using unat_len [OF assms(2)] by simp
  have p: "drop (64 + length b) (rec_bytes ?r) = (case ex of None \<Rightarrow> float_bytes v | Some x \<Rightarrow> sq_body fp x v) @ z"
    by (simp add: rb) (simp add: app_rec_def)
  show ?thesis
    unfolding read_record_def Let_def h m p
    by (cases ex) (auto simp: d se_stored_def GetResult0_def bytes_floats_float_bytes sq_body_def bytes_u32_u32)
qed

subsection \<open>Runs\<close>

datatype se_op = SAppend u64 VectorView "Metadata option" | SBatch "u64 list" VectorView | SDelete u64 | SFlush

fun se_do :: "ieee \<Rightarrow> posix_env \<Rightarrow> sengine \<Rightarrow> se_op \<Rightarrow> status \<times> posix_env \<times> sengine" where
  "se_do fp e s (SAppend i v m) = se_Append fp e s i v m"
| "se_do fp e s (SBatch is vs) = se_AppendBatch fp e s is vs (se_dim s)"
| "se_do fp e s (SDelete i) = se_Delete e s i"
| "se_do fp e s SFlush = se_Flush e s"

fun se_run :: "ieee \<Rightarrow> posix_env \<Rightarrow> sengine \<Rightarrow> se_op list \<Rightarrow> status \<times> posix_env \<times> sengine" where
  "se_run fp e s [] = (Ok, e, s)"
| "se_run fp e s (x # xs) = (case se_do fp e s x of (st, e, s) \<Rightarrow> if \<not> st_ok st then (st, e, s) else se_run fp e s xs)"

definition blob_of :: "Metadata option \<Rightarrow> string" where
  "blob_of m = (case m of None \<Rightarrow> '''' | Some m \<Rightarrow> md_tenant m)"

fun items :: "nat \<Rightarrow> u64 list \<Rightarrow> VectorView \<Rightarrow> (u64 \<times> VectorView) list" where
  "items n [] vs = []"
| "items n (i # is) vs = (i, take n vs) # items n is (drop n vs)"

definition extremes :: "ieee \<Rightarrow> bool \<Rightarrow> VectorView \<Rightarrow> (float32 \<times> float32) option" where
  "extremes fp quant v = (if quant then Some (se_minmax fp v) else None)"

definition batch_ex :: "ieee \<Rightarrow> bool \<Rightarrow> VectorView \<Rightarrow> VectorView \<Rightarrow> (float32 \<times> float32) option" where
  "batch_ex fp quant vs v = (if quant then Some (se_minmax fp vs) else None)"

fun se_recs :: "ieee \<Rightarrow> u32 \<Rightarrow> bool \<Rightarrow> se_op \<Rightarrow> srec list" where
  "se_recs fp d quant (SAppend i v m) = [app_rec fp (extremes fp quant v) i v (blob_of m)]"
| "se_recs fp d quant (SBatch is vs) = map (\<lambda>(i, v). app_rec fp (batch_ex fp quant vs v) i v '''') (items (unat d) is vs)"
| "se_recs fp d quant (SDelete i) = [del_rec d i]"
| "se_recs fp d quant SFlush = []"

fun op_fits :: "u32 \<Rightarrow> se_op \<Rightarrow> bool" where
  "op_fits d (SAppend i v m) \<longleftrightarrow> length v = unat d \<and> length (blob_of m) < 2 ^ 32"
| "op_fits d (SBatch is vs) \<longleftrightarrow> length vs = length is * unat d"
| "op_fits d _ \<longleftrightarrow> True"

lemma items_length: "length vs = length is * n \<Longrightarrow> \<forall>(i, v) \<in> set (items n is vs). length v = n"
proof (induction "is" arbitrary: vs)
  case (Cons i "is")
  then show ?case using Cons.IH [of "drop n vs"] by auto
qed simp

lemma push_rec:
  assumes "se_log e s rs qs" "sr_fits r"
  shows "\<exists>e' s' rs' qs'. auto_flush e (index_append (s\<lparr>se_buffer := se_buffer s @ rec_bytes r, se_pending := p\<rparr>) (vh_id (fst r))
      (rec_len r) (is_tombstone (fst r))) = (Ok, e', s') \<and> se_log e' s' rs' qs' \<and> rs' @ qs' = (rs @ qs) @ [r] \<and> se_cfg s' = se_cfg s"
  using auto_flush_log [OF se_log_push [OF assms, of p]] by (simp add: se_cfg_def index_append_def)

lemma se_Append_eq:
  assumes "se_open s" "length v = unat (se_dim s)"
  shows "\<exists>p. se_Append fp e s i v m =
    (let r = app_rec fp (extremes fp (se_quant s) v) i v (blob_of m)
     in auto_flush e (index_append (s\<lparr>se_buffer := se_buffer s @ rec_bytes r, se_pending := p\<rparr>) (vh_id (fst r)) (rec_len r)
          (is_tombstone (fst r))))"
proof -
  define r where "r = app_rec fp (extremes fp (se_quant s) v) i v (blob_of m)"
  have f: "vh_id (fst r) = i" "\<not> is_tombstone (fst r)" "rec_len r = RecordSize (vv_dim v) (word_of_nat (length (blob_of m))) (se_quant s)"
    by (simp_all add: r_def rec_len_def extremes_def)
  obtain mn mx where x: "se_minmax fp v = (mn, mx)" by (cases "se_minmax fp v")
  have "se_Append fp e s i v m = auto_flush e (index_append (s\<lparr>se_buffer := se_buffer s @ rec_bytes r, se_pending := se_pending s + rec_len r\<rparr>)
      (vh_id (fst r)) (rec_len r) (is_tombstone (fst r)))"
    unfolding f using assms
    by (cases "se_quant s") (simp_all add: se_Append_def blob_of_def [symmetric] Let_def x AppendToBufferQuantized_def AppendToBuffer_def
        r_def rec_bytes_def rec_len_def app_rec_def extremes_def sq_body_def is_quantized_def kFlagQuantized_def is_tombstone_def kFlagTombstone_def index_append_def)
  then show ?thesis by (auto simp: r_def Let_def)
qed

lemma se_Append_log:
  assumes "se_log e s rs qs" "length v = unat (se_dim s)" "length (blob_of m) < 2 ^ 32"
  shows "\<exists>e' s' rs' qs'. se_Append fp e s i v m = (Ok, e', s') \<and> se_log e' s' rs' qs' \<and>
    rs' @ qs' = (rs @ qs) @ [app_rec fp (extremes fp (se_quant s) v) i v (blob_of m)] \<and> se_cfg s' = se_cfg s"
proof -
  let ?r = "app_rec fp (extremes fp (se_quant s) v) i v (blob_of m)"
  have "length v < 2 ^ 32" using assms(2) unsigned_less [of "se_dim s", where 'a = nat] by simp
  then have "sr_fits ?r" using assms(3) by (rule app_rec_fits)
  moreover obtain p where "se_Append fp e s i v m = auto_flush e (index_append (s\<lparr>se_buffer := se_buffer s @ rec_bytes ?r, se_pending := p\<rparr>)
      (vh_id (fst ?r)) (rec_len ?r) (is_tombstone (fst ?r)))"
    using se_Append_eq [of s v fp e i m] assms(1,2) by (auto simp: se_log_def Let_def)
  ultimately show ?thesis using push_rec [OF assms(1), of ?r p] by simp
qed

lemma append_each_log:
  assumes "se_log e s rs qs" "\<not> se_quant s" "length vs = length is * unat (se_dim s)"
  shows "\<exists>e' s' rs' qs'. append_each fp e s is vs (unat (se_dim s)) = (Ok, e', s') \<and> se_log e' s' rs' qs' \<and>
    rs' @ qs' = (rs @ qs) @ map (\<lambda>(i, v). app_rec fp None i v '''') (items (unat (se_dim s)) is vs) \<and> se_cfg s' = se_cfg s"
  using assms
proof (induction "is" arbitrary: e s rs qs vs)
  case (Cons i "is")
  let ?n = "unat (se_dim s)"
  have "length (take ?n vs) = ?n" using Cons.prems(3) by simp
  then obtain e1 s1 rs1 qs1 where a: "se_Append fp e s i (take ?n vs) None = (Ok, e1, s1)" "se_log e1 s1 rs1 qs1"
      "rs1 @ qs1 = (rs @ qs) @ [app_rec fp None i (take ?n vs) '''']" "se_cfg s1 = se_cfg s"
    using se_Append_log [OF Cons.prems(1), of "take ?n vs" None fp i] Cons.prems(2) by (auto simp: blob_of_def extremes_def)
  have s1: "se_dim s1 = se_dim s" "\<not> se_quant s1" using a(4) Cons.prems(2) by (auto simp: se_cfg_def)
  show ?case
    using Cons.IH [OF a(2) s1(2), of "drop ?n vs"] Cons.prems(3) a(1,3,4) by (auto simp: s1(1))
qed auto

lemma quant_each_log:
  assumes "se_log e s rs qs" "length vs = length is * unat d"
  shows "se_log e (quant_each fp s is vs d mn mx) rs (qs @ map (\<lambda>(i, v). app_rec fp (Some (mn, mx)) i v '''') (items (unat d) is vs)) \<and>
    se_cfg (quant_each fp s is vs d mn mx) = se_cfg s"
  using assms
proof (induction "is" arbitrary: s qs vs)
  case (Cons i "is")
  let ?r = "app_rec fp (Some (mn, mx)) i (take (unat d) vs) ''''"
  have l: "length (take (unat d) vs) = unat d" "vv_dim (take (unat d) vs) = d" using Cons.prems(2) by (simp_all add: vv_dim_def)
  have fit: "sr_fits ?r" by (rule app_rec_fits) (use l(1) unsigned_less [of d, where 'a = nat] in simp_all)
  define s1 where "s1 = index_append (s\<lparr>se_buffer := se_buffer s @ rec_bytes ?r, se_pending := se_pending s + rec_len ?r\<rparr>)
    (vh_id (fst ?r)) (rec_len ?r) (is_tombstone (fst ?r))"
  have s1: "se_log e s1 rs (qs @ [?r])" "se_cfg s1 = se_cfg s"
    using se_log_push [OF Cons.prems(1) fit] by (simp_all add: s1_def index_append_def se_cfg_def)
  have "quant_each fp s (i # is) vs d mn mx = quant_each fp s1 is (drop (unat d) vs) d mn mx"
    using l by (simp add: s1_def AppendToBufferQuantized_def index_append_def Let_def rec_bytes_def rec_len_def app_rec_def sq_body_def
        bytes_of_def is_tombstone_def is_quantized_def kFlagTombstone_def kFlagQuantized_def)
  then show ?case using Cons.IH [OF s1(1), of "drop (unat d) vs"] Cons.prems(2) s1(2) by simp
qed simp

lemma se_Batch_log:
  assumes "se_log e s rs qs" "se_dim s \<noteq> 0" "length vs = length is * unat (se_dim s)"
  shows "\<exists>e' s' rs' qs'. se_AppendBatch fp e s is vs (se_dim s) = (Ok, e', s') \<and> se_log e' s' rs' qs' \<and>
    rs' @ qs' = (rs @ qs) @ se_recs fp (se_dim s) (se_quant s) (SBatch is vs) \<and> se_cfg s' = se_cfg s"
proof -
  have o: "se_open s" using assms(1) by (simp add: se_log_def)
  consider "is = []" | "is \<noteq> []" "\<not> se_quant s" | "is \<noteq> []" "se_quant s" by blast
  then show ?thesis
  proof cases
    case 1
    then show ?thesis using assms(1,2) o by (auto simp: se_AppendBatch_def)
  next
    case 2
    then show ?thesis using append_each_log [OF assms(1) 2(2) assms(3), of fp] o assms(2,3) by (simp add: se_AppendBatch_def batch_ex_def)
  next
    case 3
    obtain mn mx where x: "se_minmax fp vs = (mn, mx)" by (cases "se_minmax fp vs")
    have "se_AppendBatch fp e s is vs (se_dim s) = auto_flush e (quant_each fp s is vs (se_dim s) mn mx)"
      using 3 o assms(2,3) by (simp add: se_AppendBatch_def x)
    moreover note quant_each_log [OF assms(1,3), of fp mn mx]
    ultimately show ?thesis
      using auto_flush_log [of e "quant_each fp s is vs (se_dim s) mn mx"] 3(2) by (fastforce simp: batch_ex_def x)
  qed
qed

lemma se_do_log:
  assumes "se_log e s rs qs" "se_dim s \<noteq> 0" "op_fits (se_dim s) x"
  shows "\<exists>e' s' rs' qs'. se_do fp e s x = (Ok, e', s') \<and> se_log e' s' rs' qs' \<and>
    rs' @ qs' = (rs @ qs) @ se_recs fp (se_dim s) (se_quant s) x \<and> se_cfg s' = se_cfg s"
proof (cases x)
  case (SAppend i v m)
  then show ?thesis using se_Append_log [OF assms(1)] assms(3) by simp
next
  case (SBatch "is" vs)
  then show ?thesis using se_Batch_log [OF assms(1,2)] assms(3) by simp
next
  case (SDelete i)
  let ?r = "del_rec (se_dim s) i"
  have "se_Delete e s i = auto_flush e (index_append (s\<lparr>se_buffer := se_buffer s @ rec_bytes ?r, se_pending := se_pending s + rec_len ?r\<rparr>)
      (vh_id (fst ?r)) (rec_len ?r) (is_tombstone (fst ?r)))"
    using assms(1) by (simp add: se_Delete_def se_log_def AppendToBuffer_def Let_def rec_bytes_def rec_len_def del_rec_def float_bytes_def
        is_tombstone_def is_quantized_def kFlagTombstone_def kFlagQuantized_def index_append_def)
  then show ?thesis using push_rec [OF assms(1) del_rec_fits] SDelete by simp
next
  case SFlush
  then show ?thesis using se_Flush_log [OF assms(1)] by fastforce
qed

lemma se_run_log:
  assumes "se_log e s rs qs" "se_dim s \<noteq> 0" "list_all (op_fits (se_dim s)) xs"
  shows "\<exists>e' s' rs' qs'. se_run fp e s xs = (Ok, e', s') \<and> se_log e' s' rs' qs' \<and>
    rs' @ qs' = (rs @ qs) @ concat (map (se_recs fp (se_dim s) (se_quant s)) xs) \<and> se_cfg s' = se_cfg s"
  using assms
proof (induction xs arbitrary: e s rs qs)
  case (Cons x xs)
  obtain e1 s1 rs1 qs1 where d: "se_do fp e s x = (Ok, e1, s1)" "se_log e1 s1 rs1 qs1"
      "rs1 @ qs1 = (rs @ qs) @ se_recs fp (se_dim s) (se_quant s) x" "se_cfg s1 = se_cfg s"
    using se_do_log [OF Cons.prems(1,2), of x fp] Cons.prems(3) by auto
  have s1: "se_dim s1 = se_dim s" "se_quant s1 = se_quant s" using d(4) by (simp_all add: se_cfg_def)
  show ?case using Cons.IH [OF d(2)] Cons.prems(2,3) d(1,3,4) by (auto simp: s1)
qed auto

subsection \<open>Properties\<close>

text \<open>What the operations mean: for each id, not there, deleted, or the stored vector.\<close>

fun se_effect :: "ieee \<Rightarrow> u32 \<Rightarrow> bool \<Rightarrow> se_op \<Rightarrow> (u64 \<rightharpoonup> VectorView option) \<Rightarrow> (u64 \<rightharpoonup> VectorView option)" where
  "se_effect fp d quant (SAppend i v m) view = view(i \<mapsto> Some (se_stored fp (extremes fp quant v) v))"
| "se_effect fp d quant (SBatch is vs) view =
     foldl (\<lambda>view (i, v). view(i \<mapsto> Some (se_stored fp (batch_ex fp quant vs v) v))) view (items (unat d) is vs)"
| "se_effect fp d quant (SDelete i) view = view(i \<mapsto> None)"
| "se_effect fp d quant SFlush view = view"

definition get_view :: "u32 \<Rightarrow> VectorView option option \<Rightarrow> status \<times> GetResult" where
  "get_view d x = (case x of
     None \<Rightarrow> (NotFound ''vector id'', GetResult0)
   | Some None \<Rightarrow> (Ok, GetResult0\<lparr>gt_tombstone := True\<rparr>)
   | Some (Some v) \<Rightarrow> (Ok, \<lparr>gt_data = Some v, gt_dim = d, gt_tombstone = False\<rparr>))"

definition rec_view :: "ieee \<Rightarrow> srec \<Rightarrow> (u64 \<rightharpoonup> VectorView option) \<Rightarrow> (u64 \<rightharpoonup> VectorView option)" where
  "rec_view fp r view = view(vh_id (fst r) \<mapsto> if is_tombstone (fst r) then None else gt_data (read_record fp (rec_bytes r)))"

definition rec_dim :: "ieee \<Rightarrow> u32 \<Rightarrow> srec \<Rightarrow> bool" where
  "rec_dim fp d r \<longleftrightarrow> \<not> is_tombstone (fst r) \<longrightarrow>
     (\<exists>v. read_record fp (rec_bytes r) = \<lparr>gt_data = Some v, gt_dim = d, gt_tombstone = False\<rparr>)"

lemma get_of_view:
  "list_all (rec_dim fp d) rs \<Longrightarrow> get_of fp (last_rec rs i) = get_view d (fold (rec_view fp) rs Map.empty i)"
proof (induction rs rule: rev_induct)
  case (snoc r rs)
  then show ?case
    by (auto simp: last_rec_def rec_view_def get_of_def get_view_def rec_dim_def)
qed (simp add: last_rec_def get_of_def get_view_def)

lemma batch_view:
  assumes "\<forall>(i, v) \<in> set ivs. length v = unat d"
  shows "fold (rec_view fp) (map (\<lambda>(i, v). app_rec fp (ex v) i v '''') ivs) view =
      foldl (\<lambda>view (i, v). view(i \<mapsto> Some (se_stored fp (ex v) v))) view ivs \<and>
    list_all (rec_dim fp d) (map (\<lambda>(i, v). app_rec fp (ex v) i v '''') ivs)"
  using assms
proof (induction ivs arbitrary: view)
  case (Cons iv ivs)
  obtain i v where iv: "iv = (i, v)" by (cases iv)
  have l: "length v = unat d" "length v < 2 ^ 32" using Cons.prems iv unsigned_less [of d, where 'a = nat] by auto
  have d: "vv_dim v = d" by (simp add: vv_dim_def l(1))
  note rd = read_app_rec [OF l(2), of "''''" fp "ex v" i, simplified d]
  have "rec_view fp (app_rec fp (ex v) i v '''') view = view(i \<mapsto> Some (se_stored fp (ex v) v))"
    "rec_dim fp d (app_rec fp (ex v) i v '''')"
    using rd by (simp_all add: rec_view_def rec_dim_def)
  then show ?case using Cons.IH Cons.prems iv by (simp del: fun_upd_apply)
qed simp

lemma op_recs_view:
  assumes "op_fits d x"
  shows "fold (rec_view fp) (se_recs fp d quant x) view = se_effect fp d quant x view \<and> list_all (rec_dim fp d) (se_recs fp d quant x)"
proof (cases x)
  case (SAppend i v m)
  have l: "length v = unat d" "length v < 2 ^ 32" using assms SAppend unsigned_less [of d, where 'a = nat] by auto
  have d: "vv_dim v = d" by (simp add: vv_dim_def l(1))
  show ?thesis
    using SAppend assms read_app_rec [OF l(2), of "blob_of m" fp "extremes fp quant v" i] by (simp add: rec_view_def rec_dim_def d)
next
  case (SBatch "is" vs)
  then show ?thesis using batch_view [OF items_length, of vs "is" d fp "batch_ex fp quant vs" view] assms by simp
qed (simp_all add: rec_view_def rec_dim_def)

lemma ops_view:
  "list_all (op_fits d) xs \<Longrightarrow> fold (rec_view fp) (concat (map (se_recs fp d quant) xs)) view = fold (se_effect fp d quant) xs view \<and>
   list_all (rec_dim fp d) (concat (map (se_recs fp d quant) xs))"
  by (induction xs arbitrary: view) (simp_all add: op_recs_view)

lemma se_Open_new:
  assumes "calls_ok e" "ev_files e path = None" "dim \<noteq> 0" "63 \<le> ev_chunk e (ev_tick e + 2)"
  shows "\<exists>e' s'. se_Open e s path dim thresh quant = (Ok, e', s') \<and> se_log e' s' [] [] \<and> se_cfg s' = (path, dim, thresh, quant)"
proof -
  define e3 where "e3 = e\<lparr>ev_tick := Suc (Suc (Suc (ev_tick e))), ev_files := (ev_files e)(path \<mapsto> StorageFileHeader dim)\<rparr>"
  define s3 where "s3 = s\<lparr>se_map := None, se_path := path, se_dim := dim, se_threshold := thresh, se_quant := quant, se_buffer := [],
    se_pending := 0, se_index := [], se_open := True, se_pos := 64, se_file_size := 64\<rparr>"
  have "se_Open e s path dim thresh quant = ReloadMmap e3 s3"
    using assms by (simp add: se_Open_def sys_ok Let_def content_of_def put_bytes_def pwrite_at_def e3_def s3_def se_Close_def min_def)
  moreover obtain t where "ReloadMmap e3 s3 = (Ok, e3\<lparr>ev_tick := t\<rparr>, s3\<lparr>se_map := Some 64, se_file_size := 64, se_index := []\<rparr>)"
    using ReloadMmap_log [of e3 s3 dim "[]"] assms(1) by (auto simp: e3_def s3_def)
  ultimately show ?thesis using assms(1) by (simp add: se_log_def se_cfg_def) (simp add: e3_def s3_def)
qed

text \<open>C7: the log is a map. Create an engine on a path that does not exist, on a file system
  whose calls succeed and that takes the 64-byte header in one write, and apply
  any run of appends, batches, deletions and flushes (with automatic flushes in
  between): every call returns \<open>Ok\<close>, and \<open>Get\<close> of an id returns its last vector (as
  quantized, if the engine quantizes), its tombstone, or that it is not there,
  wherever the record is, in the buffer or in the mapped file.\<close>

theorem StorageEngine_Get:
  assumes "calls_ok e" "ev_files e path = None" "dim \<noteq> 0" "63 \<le> ev_chunk e (ev_tick e + 2)" "list_all (op_fits dim) xs"
  shows "\<exists>e1 s1 e2 s2. se_Open e StorageEngine_new path dim thresh quant = (Ok, e1, s1) \<and> se_run fp e1 s1 xs = (Ok, e2, s2) \<and>
    (\<forall>i. se_Get fp e2 s2 i = get_view dim (fold (se_effect fp dim quant) xs Map.empty i))"
proof -
  obtain e1 s1 where o: "se_Open e StorageEngine_new path dim thresh quant = (Ok, e1, s1)" "se_log e1 s1 [] []"
      "se_cfg s1 = (path, dim, thresh, quant)"
    using se_Open_new [OF assms(1-4), of StorageEngine_new thresh quant] by blast
  have s1: "se_dim s1 = dim" "se_quant s1 = quant" using o(3) by (simp_all add: se_cfg_def)
  obtain e2 s2 rs qs where r: "se_run fp e1 s1 xs = (Ok, e2, s2)" "se_log e2 s2 rs qs"
      "rs @ qs = concat (map (se_recs fp dim quant) xs)"
    using se_run_log [OF o(2), of xs fp] assms(3,5) by (auto simp: s1)
  have "se_Get fp e2 s2 i = get_view dim (fold (se_effect fp dim quant) xs Map.empty i)" for i
    using se_Get_log [OF r(2), of fp i] ops_view [OF assms(5), of fp quant Map.empty]
      get_of_view [of fp dim "concat (map (se_recs fp dim quant) xs)" i] by (simp add: r(3))
  then show ?thesis using o(1) r(1) by blast
qed

definition env_se :: posix_env where
  "env_se = \<lparr>ev_files = Map.empty, ev_tick = 0, ev_err = Map.empty, ev_chunk = (\<lambda>_. 63)\<rparr>"

theorem StorageEngine_Get_witness:
  "\<forall>fp. \<exists>e1 s1 e2 s2. se_Open env_se StorageEngine_new ''v.log'' 2 1000 False = (Ok, e1, s1) \<and>
     se_run fp e1 s1 [SAppend 7 [5, 6] None, SFlush, SAppend 8 [1, 2] None, SAppend 7 [3, 4] (Some (Metadata0\<lparr>md_tenant := ''t''\<rparr>)), SDelete 8] = (Ok, e2, s2) \<and>
     se_Get fp e2 s2 7 = (Ok, \<lparr>gt_data = Some [3, 4], gt_dim = 2, gt_tombstone = False\<rparr>) \<and>
     se_Get fp e2 s2 8 = (Ok, GetResult0\<lparr>gt_tombstone := True\<rparr>) \<and> se_Get fp e2 s2 9 = (NotFound ''vector id'', GetResult0)"
proof
  fix fp
  let ?xs = "[SAppend 7 [5, 6] None, SFlush, SAppend 8 [1, 2] None, SAppend 7 [3, 4] (Some (Metadata0\<lparr>md_tenant := ''t''\<rparr>)), SDelete 8]"
  have f: "list_all (op_fits 2) ?xs" by (simp add: blob_of_def)
  show "\<exists>e1 s1 e2 s2. se_Open env_se StorageEngine_new ''v.log'' 2 1000 False = (Ok, e1, s1) \<and> se_run fp e1 s1 ?xs = (Ok, e2, s2) \<and>
     se_Get fp e2 s2 7 = (Ok, \<lparr>gt_data = Some [3, 4], gt_dim = 2, gt_tombstone = False\<rparr>) \<and>
     se_Get fp e2 s2 8 = (Ok, GetResult0\<lparr>gt_tombstone := True\<rparr>) \<and> se_Get fp e2 s2 9 = (NotFound ''vector id'', GetResult0)"
    using StorageEngine_Get [of env_se "''v.log''" 2 ?xs 1000 False fp] f
    by (auto simp: env_se_def calls_ok_def get_view_def extremes_def se_stored_def simp del: se_run.simps)
qed

definition reopened :: "sengine \<Rightarrow> string \<Rightarrow> u32 \<Rightarrow> nat \<Rightarrow> bool \<Rightarrow> bool \<Rightarrow> nat \<Rightarrow> sengine" where
  "reopened s path dim thresh quant opn n = s\<lparr>se_map := None, se_path := path, se_dim := dim, se_threshold := thresh, se_quant := quant,
     se_buffer := [], se_pending := 0, se_index := [], se_open := opn, se_pos := 0, se_file_size := n\<rparr>"

lemma se_Open_existing:
  assumes "calls_ok e" "ev_files e path = Some c" "64 \<le> length c" "dim \<noteq> 0"
  shows "\<exists>t. se_Open e s path dim thresh quant =
    (if fh_valid (take 64 c) \<and> fh_dim (take 64 c) = dim
     then ReloadMmap (e\<lparr>ev_tick := t\<rparr>) (reopened s path dim thresh quant True (length c))
     else (Corruption ''invalid header'', e\<lparr>ev_tick := t\<rparr>, reopened s path dim thresh quant False (length c)))"
proof -
  let ?e = "e\<lparr>ev_tick := Suc (Suc (ev_tick e))\<rparr>"
  obtain t where r: "read_at_loop ?e (pf_at path) 0 64 [] = (Ok, take 64 c, e\<lparr>ev_tick := t\<rparr>)"
    using read_at_loop_ok [of ?e "pf_at path" c "[]" 0 64] assms(1,2) by (auto simp: pf_at_def)
  have u: "(ev_files e)(path \<mapsto> c) = ev_files e" using assms(2) by (rule fun_upd_idem)
  have ne: "c \<noteq> []" using assms(3) by auto
  show ?thesis
    by (intro exI [of _ t])
      (use assms ne r in \<open>simp add: se_Open_def sys_ok content_of_def Let_def se_Close_def u min_def reopened_def\<close>)
qed

lemma ReloadMmap_Ok:
  "calls_ok e \<Longrightarrow> \<exists>t s'. ReloadMmap e s = (Ok, e\<lparr>ev_tick := t\<rparr>, s') \<and> se_pos s' = se_pos s \<and> se_open s' = se_open s \<and>
    se_cfg s' = se_cfg s \<and> se_buffer s' = se_buffer s \<and> se_pending s' = se_pending s"
  by (auto simp: ReloadMmap_def sys_ok Let_def BuildIndexFromMmap_def se_cfg_def intro: exI [of _ "ev_tick e"])

lemma header_valid: "dim \<noteq> 0 \<Longrightarrow> fh_valid (StorageFileHeader dim) \<and> fh_dim (StorageFileHeader dim) = dim"
  by (simp add: fh_valid_def fh_dim_def StorageFileHeader_def se_magic_def bytes_u32_u32 word_neq_0_conv)

lemma record_not_header: "vh_id h \<noteq> bytes_u64 se_magic \<Longrightarrow> \<not> fh_valid (vh_bytes h)"
proof
  assume "vh_id h \<noteq> bytes_u64 se_magic" "fh_valid (vh_bytes h)"
  then have "take 8 (take 12 (vh_bytes h)) = take 8 se_magic" by (simp add: fh_valid_def)
  then have "u64_bytes (vh_id h) = take 8 se_magic" by (simp add: vh_bytes_def)
  then have "vh_id h = bytes_u64 se_magic" by (metis bytes_u64_def bytes_u64_u64' take_take min.idem)
  then show False using \<open>vh_id h \<noteq> bytes_u64 se_magic\<close> by contradiction
qed

lemma se_Flush_writes:
  assumes "calls_ok e" "se_open s" "ev_files e (se_path s) = Some c" "se_pos s \<le> length c"
  shows "\<exists>e' s'. se_Flush e s = (Ok, e', s') \<and> calls_ok e' \<and> ev_files e' = (ev_files e)(se_path s \<mapsto> pwrite_at c (se_pos s) (se_buffer s)) \<and>
    se_buffer s' = [] \<and> se_open s' \<and> se_path s' = se_path s \<and> se_pos s' = se_pos s + length (se_buffer s)"
proof (cases "se_buffer s = []")
  case True
  have p: "pwrite_at c (se_pos s) [] = c" using assms(4) by (simp add: pwrite_at_def)
  obtain t s' where "ReloadMmap e s = (Ok, e\<lparr>ev_tick := t\<rparr>, s')" "se_pos s' = se_pos s" "se_open s' = se_open s" "se_cfg s' = se_cfg s"
      "se_buffer s' = se_buffer s"
    using ReloadMmap_Ok [OF assms(1), of s] by blast
  then show ?thesis
    using assms True p by (simp add: se_Flush_def FlushBufferToFile_def se_cfg_def fun_upd_idem)
next
  case False
  obtain e1 where w: "write_loop e (se_path s) (se_pos s) (se_buffer s) = (Ok, e1, se_pos s + length (se_buffer s))" "calls_ok e1"
      "ev_files e1 = (ev_files e)(se_path s \<mapsto> pwrite_at c (se_pos s) (se_buffer s))"
    using write_loop_ok [OF assms(1,3,4), of "se_buffer s"] by blast
  define e2 where "e2 = e1\<lparr>ev_tick := ev_tick e1 + 1\<rparr>"
  define s2 where "s2 = s\<lparr>se_pos := se_pos s + length (se_buffer s), se_file_size := se_file_size s + length (se_buffer s),
    se_buffer := [], se_pending := 0, se_index := map (apsnd (\<lambda>x. x\<lparr>ie_in_buffer := False\<rparr>)) (se_index s)\<rparr>"
  have F: "FlushBufferToFile e s = (Ok, e2, s2)"
    using w(1,2) False by (simp add: FlushBufferToFile_def sys_ok Let_def e2_def s2_def)
  obtain t s3 where R: "ReloadMmap e2 s2 = (Ok, e2\<lparr>ev_tick := t\<rparr>, s3)" "se_pos s3 = se_pos s2" "se_open s3 = se_open s2"
      "se_cfg s3 = se_cfg s2" "se_buffer s3 = se_buffer s2"
    using ReloadMmap_Ok [of e2 s2] w(2) by (auto simp: e2_def)
  show ?thesis using assms(2) F R w(2,3) by (simp add: se_Flush_def se_cfg_def) (simp add: e2_def s2_def)
qed

text \<open>C36: reopening destroys the log. Opening an existing log leaves the descriptor at the start
  of the file, so the first flush after it writes the new record over the file
  header. Every call reports \<open>Ok\<close>, and from then on the file cannot be opened:
  \<open>Corruption\<close>. (The id of the record is assumed not to spell the magic bytes.)\<close>

theorem StorageEngine_reopen_destroys:
  assumes c: "calls_ok e" and f: "ev_files e path = Some (StorageFileHeader dim @ log)" and d: "dim \<noteq> 0"
    and v: "length v = unat dim" and i: "i \<noteq> bytes_u64 se_magic"
  shows "\<exists>e1 s1 e2 s2 e3 s3. se_Open e s path dim thresh quant = (Ok, e1, s1) \<and>
    se_run fp e1 s1 [SAppend i v None, SFlush] = (Ok, e2, s2) \<and>
    se_Open e2 s2 path dim thresh quant = (Corruption ''invalid header'', e3, s3)"
proof -
  let ?c = "StorageFileHeader dim @ log"
  define r where "r = app_rec fp (extremes fp quant v) i v ''''"
  let ?f = "rec_bytes r @ drop (length (rec_bytes r)) ?c"
  obtain t where "se_Open e s path dim thresh quant = ReloadMmap (e\<lparr>ev_tick := t\<rparr>) (reopened s path dim thresh quant True (length ?c))"
    using se_Open_existing [OF c f _ d, of s thresh quant] header_valid [OF d] by auto
  then obtain t1 s1 where o1: "se_Open e s path dim thresh quant = (Ok, e\<lparr>ev_tick := t1\<rparr>, s1)" "se_pos s1 = 0" "se_open s1"
      "se_cfg s1 = (path, dim, thresh, quant)" "se_buffer s1 = []"
    using ReloadMmap_Ok [of "e\<lparr>ev_tick := t\<rparr>" "reopened s path dim thresh quant True (length ?c)"] c
    by (auto simp: reopened_def se_cfg_def)
  define e1 where "e1 = e\<lparr>ev_tick := t1\<rparr>"
  have s1: "se_path s1 = path" "se_dim s1 = dim" "se_quant s1 = quant" using o1(4) by (simp_all add: se_cfg_def)
  obtain p where A: "se_Append fp e1 s1 i v None =
      auto_flush e1 (index_append (s1\<lparr>se_buffer := rec_bytes r, se_pending := p\<rparr>) i (rec_len r) False)"
    using se_Append_eq [OF o1(3), of v fp e1 i None] v o1(5) by (auto simp: s1 r_def blob_of_def Let_def)
  define s2 where "s2 = index_append (s1\<lparr>se_buffer := rec_bytes r, se_pending := p\<rparr>) i (rec_len r) False"
  have s2: "se_open s2" "se_path s2 = path" "se_pos s2 = 0" "se_buffer s2 = rec_bytes r"
    using o1(2,3) s1 by (simp_all add: s2_def index_append_def)
  obtain e3 s3 where F: "se_Flush e1 s2 = (Ok, e3, s3)" "calls_ok e3" "ev_files e3 path = Some ?f" "se_buffer s3 = []" "se_open s3"
      "se_path s3 = path" "se_pos s3 = length (rec_bytes r)"
    using se_Flush_writes [of e1 s2 ?c] c f s2 by (auto simp: e1_def pwrite_at_def)
  obtain e4 s4 where F2: "se_Flush e3 s3 = (Ok, e4, s4)" "calls_ok e4" "ev_files e4 path = Some ?f"
    using se_Flush_writes [of e3 s3 ?f] F by (auto simp: pwrite_at_def)
  obtain e5 s5 where R: "se_run fp e1 s1 [SAppend i v None, SFlush] = (Ok, e5, s5)" "calls_ok e5" "ev_files e5 path = Some ?f"
    using A F F2 by (cases "se_threshold s2 \<le> se_pending s2") (auto simp: auto_flush_def s2_def [symmetric])
  have b: "take 64 ?f = vh_bytes (fst r)" "64 \<le> length ?f" by (simp_all add: rec_bytes_def padded_def)
  have "\<not> fh_valid (vh_bytes (fst r))" using i by (intro record_not_header) (simp add: r_def)
  then show ?thesis
    using o1(1) R(1) se_Open_existing [OF R(2,3) b(2) d, of s5 thresh quant] b(1) by (auto simp: e1_def)
qed

definition env_log :: posix_env where
  "env_log = \<lparr>ev_files = [''v.log'' \<mapsto> StorageFileHeader 1], ev_tick = 0, ev_err = Map.empty, ev_chunk = (\<lambda>_. 5)\<rparr>"

theorem StorageEngine_reopen_destroys_witness:
  "\<forall>fp. \<exists>e1 s1 e2 s2 e3 s3. se_Open env_log StorageEngine_new ''v.log'' 1 1000 True = (Ok, e1, s1) \<and>
     se_run fp e1 s1 [SAppend 7 [5] None, SFlush] = (Ok, e2, s2) \<and>
     se_Open e2 s2 ''v.log'' 1 1000 True = (Corruption ''invalid header'', e3, s3)"
proof
  fix fp
  have i: "7 \<noteq> bytes_u64 se_magic"
    by (simp add: se_magic_def bytes_of_def byte_of_char_def bytes_u64_def)
  show "\<exists>e1 s1 e2 s2 e3 s3. se_Open env_log StorageEngine_new ''v.log'' 1 1000 True = (Ok, e1, s1) \<and>
     se_run fp e1 s1 [SAppend 7 [5] None, SFlush] = (Ok, e2, s2) \<and>
     se_Open e2 s2 ''v.log'' 1 1000 True = (Corruption ''invalid header'', e3, s3)"
    by (rule StorageEngine_reopen_destroys [OF _ _ _ _ i, of env_log "''v.log''" 1 "[]"]) (simp_all add: env_log_def calls_ok_def)
qed

end
