(* ===== verification/Page_Pool.thy ===== *)
theory Page_Pool
  imports Posix_File
begin

text \<open>
  The page pool (\<open>src/palloc_page_pool.cc\<close>): a fixed number of page frames over a swap
  file, filled on demand and emptied by the CLOCK rule.  The frames' bytes are
  part of the state; a pointer to a frame is its number.  Swap slots and file
  offsets are natural numbers, the pin count is the source's 32-bit counter.
  Metrics, the epoch stamps that nothing reads and allocation failure are left
  out, as is the Windows branch, which has no swap.
\<close>

subsection \<open>State\<close>

record PageMeta =
  pm_page_id :: u64
  pm_swap_slot :: "nat option"
  pm_pin_count :: u32
  pm_dirty :: bool
  pm_ref_bit :: bool
  pm_in_use :: bool

definition PageMeta0 :: PageMeta where
  "PageMeta0 = \<lparr>pm_page_id = - 1, pm_swap_slot = None, pm_pin_count = 0, pm_dirty = False, pm_ref_bit = False, pm_in_use = False\<rparr>"

record pool =
  pp_page_size :: nat
  pp_capacity :: nat
  pp_max :: nat
  pp_arena :: "byte list list"
  pp_swap :: "string option"
  pp_pages :: "PageMeta list"
  pp_index :: "u64 \<rightharpoonup> nat"
  pp_swapped :: "u64 \<rightharpoonup> nat"
  pp_free_slots :: "nat list"
  pp_next_slot :: nat
  pp_resident :: nat
  pp_dirty :: nat
  pp_bytes_in_swap :: nat
  pp_evictions :: nat
  pp_hand :: nat

datatype device_profile = SMALL | MEDIUM | LARGE

record pool_options =
  po_page_size :: nat
  po_capacity :: nat
  po_swap_path :: "string option"
  po_profile :: device_profile

definition fill_defaults :: "pool_options \<Rightarrow> pool_options" where
  "fill_defaults o1 =
     (let o2 = (if po_page_size o1 = 0
                then o1\<lparr>po_page_size := (case po_profile o1 of SMALL \<Rightarrow> 4 * 1024 | MEDIUM \<Rightarrow> 8 * 1024 | LARGE \<Rightarrow> 16 * 1024)\<rparr> else o1)
      in if po_capacity o2 = 0
         then o2\<lparr>po_capacity := (case po_profile o2 of SMALL \<Rightarrow> 32 * 1024 * 1024 | MEDIUM \<Rightarrow> 64 * 1024 * 1024
                                                  | LARGE \<Rightarrow> 128 * 1024 * 1024)\<rparr> else o2)"

definition ensure_swap_file :: "posix_env \<Rightarrow> string option \<Rightarrow> string option \<times> posix_env" where
  "ensure_swap_file e path =
     (case path of
        None \<Rightarrow> (None, e)
      | Some p \<Rightarrow>
          (case sys e of
             (Some msg, e) \<Rightarrow> (None, e)
           | (None, e) \<Rightarrow> (Some p, e\<lparr>ev_files := (ev_files e)(p \<mapsto> content_of e p)\<rparr>)))"

definition page_pool_create :: "posix_env \<Rightarrow> pool_options \<Rightarrow> pool option \<times> posix_env" where
  "page_pool_create e opts =
     (let opts = fill_defaults opts in
      if po_page_size opts = 0 \<or> po_capacity opts < po_page_size opts then (None, e)
      else
        let n = po_capacity opts div po_page_size opts in
        if n = 0 then (None, e)
        else case ensure_swap_file e (po_swap_path opts) of (swap, e) \<Rightarrow>
          (Some \<lparr>pp_page_size = po_page_size opts, pp_capacity = po_capacity opts, pp_max = n,
             pp_arena = replicate n (replicate (po_page_size opts) 0), pp_swap = swap, pp_pages = replicate n PageMeta0,
             pp_index = Map.empty, pp_swapped = Map.empty, pp_free_slots = [], pp_next_slot = 0, pp_resident = 0, pp_dirty = 0,
             pp_bytes_in_swap = 0, pp_evictions = 0, pp_hand = 0\<rparr>, e))"

definition set_page :: "pool \<Rightarrow> nat \<Rightarrow> PageMeta \<Rightarrow> pool" where
  "set_page p i m = p\<lparr>pp_pages := (pp_pages p)[i := m]\<rparr>"

definition set_frame :: "pool \<Rightarrow> nat \<Rightarrow> byte list \<Rightarrow> pool" where
  "set_frame p i bs = p\<lparr>pp_arena := (pp_arena p)[i := bs]\<rparr>"

subsection \<open>Swapping\<close>

text \<open>\<open>back\<close> and \<open>pop_back\<close> of the free slots, or the next fresh one.\<close>

definition take_slot :: "pool \<Rightarrow> nat \<times> pool" where
  "take_slot p =
     (if pp_free_slots p \<noteq> [] then (last (pp_free_slots p), p\<lparr>pp_free_slots := butlast (pp_free_slots p)\<rparr>)
      else (pp_next_slot p, p\<lparr>pp_next_slot := pp_next_slot p + 1\<rparr>))"

definition write_page_to_swap :: "posix_env \<Rightarrow> pool \<Rightarrow> nat \<Rightarrow> u64 \<Rightarrow> bool \<times> posix_env \<times> pool" where
  "write_page_to_swap e p frame pid =
     (case pp_swap p of
        None \<Rightarrow> (False, e, p)
      | Some path \<Rightarrow>
          (case take_slot p of (slot, p) \<Rightarrow>
           let w = min (pp_page_size p) (ev_chunk e (ev_tick e) + 1) in
           case sys e of
             (Some msg, e) \<Rightarrow> (False, e, p)
           | (None, e) \<Rightarrow>
               let e = put_bytes e path (slot * pp_page_size p) (take w (pp_arena p ! frame)) in
               if w \<noteq> pp_page_size p then (False, e, p)
               else (True, e, set_page (p\<lparr>pp_swapped := (pp_swapped p)(pid \<mapsto> slot),
                                         pp_bytes_in_swap := max (pp_bytes_in_swap p) ((slot + 1) * pp_page_size p)\<rparr>)
                       frame ((pp_pages p ! frame)\<lparr>pm_swap_slot := Some slot\<rparr>))))"

definition read_page_from_swap :: "posix_env \<Rightarrow> pool \<Rightarrow> nat \<Rightarrow> u64 \<Rightarrow> bool \<times> posix_env \<times> pool" where
  "read_page_from_swap e p frame pid =
     (case pp_swapped p pid of
        None \<Rightarrow> (True, e, set_frame p frame (replicate (pp_page_size p) 0))
      | Some slot \<Rightarrow>
          (case pp_swap p of
             None \<Rightarrow> (False, e, p)
           | Some path \<Rightarrow>
               let w = min (pp_page_size p) (ev_chunk e (ev_tick e) + 1) in
               case sys e of
                 (Some msg, e) \<Rightarrow> (False, e, p)
               | (None, e) \<Rightarrow>
                   let d = take w (drop (slot * pp_page_size p) (content_of e path));
                       p = set_frame p frame (d @ drop (length d) (pp_arena p ! frame))
                   in (length d = pp_page_size p, e, p)))"

definition flush_frame_locked :: "posix_env \<Rightarrow> pool \<Rightarrow> nat \<Rightarrow> bool \<times> posix_env \<times> pool" where
  "flush_frame_locked e p frame =
     (let m = pp_pages p ! frame in
      if \<not> pm_in_use m \<or> \<not> pm_dirty m then (True, e, p)
      else if pp_swap p = None then (False, e, p)
      else case write_page_to_swap e p frame (pm_page_id m) of (ok, e, p) \<Rightarrow>
        if \<not> ok then (False, e, p)
        else (True, e, (set_page p frame ((pp_pages p ! frame)\<lparr>pm_dirty := False\<rparr>))\<lparr>pp_dirty := pp_dirty p - 1\<rparr>))"

fun flush_frames :: "posix_env \<Rightarrow> pool \<Rightarrow> nat list \<Rightarrow> bool \<times> posix_env \<times> pool" where
  "flush_frames e p [] = (True, e, p)"
| "flush_frames e p (i # is) =
     (case flush_frame_locked e p i of (ok1, e, p) \<Rightarrow> case flush_frames e p is of (ok, e, p) \<Rightarrow> (ok1 \<and> ok, e, p))"

definition flush_all_locked :: "posix_env \<Rightarrow> pool \<Rightarrow> bool \<times> posix_env \<times> pool" where
  "flush_all_locked e p = flush_frames e p [0..<length (pp_pages p)]"

subsection \<open>Frames\<close>

definition fresh_meta :: "PageMeta \<Rightarrow> u64 \<Rightarrow> PageMeta" where
  "fresh_meta m pid = m\<lparr>pm_page_id := pid, pm_pin_count := 0, pm_ref_bit := True, pm_dirty := False\<rparr>"

definition is_free :: "pool \<Rightarrow> nat \<Rightarrow> bool" where
  "is_free p i \<longleftrightarrow> i < length (pp_pages p) \<and> \<not> pm_in_use (pp_pages p ! i)"

definition find_free :: "pool \<Rightarrow> nat option" where
  "find_free p = (case filter (is_free p) [0..<length (pp_pages p)] of [] \<Rightarrow> None | i # _ \<Rightarrow> Some i)"

text \<open>Bringing a page into the frame that was chosen for it; the frame is given up if the page
  cannot be read.\<close>

definition load_frame :: "posix_env \<Rightarrow> pool \<Rightarrow> nat \<Rightarrow> u64 \<Rightarrow> (nat \<times> bool) option \<times> posix_env \<times> pool" where
  "load_frame e p i pid =
     (let is_new = (pp_swapped p pid = None) in
      case read_page_from_swap e p i pid of (ok, e, p) \<Rightarrow>
      if ok then (Some (i, is_new), e, p)
      else (None, e, (set_page p i ((pp_pages p ! i)\<lparr>pm_in_use := False\<rparr>))\<lparr>pp_resident := pp_resident p - 1\<rparr>))"

fun clock_loop :: "nat \<Rightarrow> posix_env \<Rightarrow> pool \<Rightarrow> u64 \<Rightarrow> (nat \<times> bool) option \<times> posix_env \<times> pool" where
  "clock_loop 0 e p pid = (None, e, p)"
| "clock_loop (Suc k) e p pid =
     (let idx = pp_hand p; m = pp_pages p ! idx; p = p\<lparr>pp_hand := (pp_hand p + 1) mod pp_max p\<rparr> in
      if \<not> pm_in_use m \<or> pm_pin_count m \<noteq> 0 then clock_loop k e p pid
      else if pm_ref_bit m then clock_loop k e (set_page p idx (m\<lparr>pm_ref_bit := False\<rparr>)) pid
      else
        case (if pm_dirty m then flush_frame_locked e p idx else (True, e, p)) of (ok, e, p) \<Rightarrow>
        if \<not> ok then clock_loop k e p pid
        else
          let m = pp_pages p ! idx;
              p = p\<lparr>pp_index := (pp_index p)(pm_page_id m := None), pp_evictions := pp_evictions p + 1\<rparr>
          in load_frame e (set_page p idx (fresh_meta m pid)) idx pid)"

definition allocate_frame_for_page :: "posix_env \<Rightarrow> pool \<Rightarrow> u64 \<Rightarrow> (nat \<times> bool) option \<times> posix_env \<times> pool" where
  "allocate_frame_for_page e p pid =
     (case find_free p of
        Some i \<Rightarrow>
          load_frame e ((set_page p i ((fresh_meta (pp_pages p ! i) pid)\<lparr>pm_in_use := True, pm_swap_slot := None\<rparr>))
                          \<lparr>pp_resident := pp_resident p + 1\<rparr>) i pid
      | None \<Rightarrow> clock_loop (2 * length (pp_pages p)) e p pid)"

subsection \<open>Interface\<close>

text \<open>On a hit \<open>for_write\<close> is ignored; the result is the frame and whether the page is new.\<close>

definition fetch_page :: "posix_env \<Rightarrow> pool \<Rightarrow> u64 \<Rightarrow> bool \<Rightarrow> (nat \<times> bool) option \<times> posix_env \<times> pool" where
  "fetch_page e p pid for_write =
     (case pp_index p pid of
        Some f \<Rightarrow>
          let m = pp_pages p ! f
          in (Some (f, False), e, set_page p f (m\<lparr>pm_pin_count := pm_pin_count m + 1, pm_ref_bit := True\<rparr>))
      | None \<Rightarrow>
          (case allocate_frame_for_page e p pid of
             (None, e, p) \<Rightarrow> (None, e, p)
           | (Some (f, is_new), e, p) \<Rightarrow>
               let p = p\<lparr>pp_index := (pp_index p)(pid \<mapsto> f)\<rparr>;
                   m = (pp_pages p ! f)\<lparr>pm_pin_count := 1, pm_ref_bit := True\<rparr>
               in (Some (f, is_new), e,
                   if for_write then (set_page p f (m\<lparr>pm_dirty := True\<rparr>))\<lparr>pp_dirty := pp_dirty p + 1\<rparr> else set_page p f m)))"

definition unpin_page :: "pool \<Rightarrow> u64 \<Rightarrow> bool \<Rightarrow> pool" where
  "unpin_page p pid mark_dirty =
     (case pp_index p pid of
        None \<Rightarrow> p
      | Some f \<Rightarrow>
          let m = pp_pages p ! f;
              m = (if pm_pin_count m > 0 then m\<lparr>pm_pin_count := pm_pin_count m - 1\<rparr> else m)
          in if mark_dirty \<and> \<not> pm_dirty m then (set_page p f (m\<lparr>pm_dirty := True\<rparr>))\<lparr>pp_dirty := pp_dirty p + 1\<rparr>
             else set_page p f m)"

definition flush_page :: "posix_env \<Rightarrow> pool \<Rightarrow> u64 \<Rightarrow> int \<times> posix_env \<times> pool" where
  "flush_page e p pid =
     (case pp_index p pid of
        None \<Rightarrow> (0, e, p)
      | Some f \<Rightarrow> (case flush_frame_locked e p f of (ok, e, p) \<Rightarrow> (if ok then 0 else - 1, e, p)))"

definition flush_all :: "posix_env \<Rightarrow> pool \<Rightarrow> int \<times> posix_env \<times> pool" where
  "flush_all e p = (case flush_all_locked e p of (ok, e, p) \<Rightarrow> (if ok then 0 else - 1, e, p))"

text \<open>The destructor writes back what it can; the default pool is made once.\<close>

definition page_pool_destroy :: "posix_env \<Rightarrow> pool option \<Rightarrow> posix_env" where
  "page_pool_destroy e p = (case p of None \<Rightarrow> e | Some p \<Rightarrow> fst (snd (flush_all_locked e p)))"

definition get_default_page_pool :: "posix_env \<Rightarrow> pool option \<Rightarrow> string option \<Rightarrow> pool option \<times> posix_env" where
  "get_default_page_pool e g hint =
     (case g of
        Some p \<Rightarrow> (Some p, e)
      | None \<Rightarrow> page_pool_create e \<lparr>po_page_size = 0, po_capacity = 0, po_swap_path = hint, po_profile = MEDIUM\<rparr>)"

record pool_stats =
  ps_page_size :: nat
  ps_capacity :: nat
  ps_resident :: nat
  ps_dirty :: nat
  ps_bytes_in_swap :: nat
  ps_evictions :: nat

definition get_stats :: "pool \<Rightarrow> pool_stats" where
  "get_stats p = \<lparr>ps_page_size = pp_page_size p, ps_capacity = pp_capacity p, ps_resident = pp_resident p,
     ps_dirty = pp_dirty p, ps_bytes_in_swap = pp_bytes_in_swap p, ps_evictions = pp_evictions p\<rparr>"

subsection \<open>Reachable states\<close>

text \<open>The states a client can bring about, with the contents it wrote to each page and the pages
  it has modified and not yet unpinned with the dirty mark.  A client writes only
  to pinned pages, whole pages at a time, unpins a modified page with the mark,
  and never holds \<open>2 ^ 32 - 1\<close> pins on a page.  System calls may fail or be short
  at any point.\<close>

inductive pool_reach :: "posix_env \<Rightarrow> pool \<Rightarrow> (u64 \<Rightarrow> byte list) \<Rightarrow> u64 set \<Rightarrow> bool" where
  create: "page_pool_create e0 opts = (Some p, e) \<Longrightarrow> pool_reach e p (\<lambda>_. replicate (pp_page_size p) 0) {}"
| fetch: "pool_reach e p A M \<Longrightarrow> (\<And>f. pp_index p pid = Some f \<Longrightarrow> pm_pin_count (pp_pages p ! f) \<noteq> - 1) \<Longrightarrow>
    fetch_page e p pid for_write = (r, e', p') \<Longrightarrow> pool_reach e' p' A M"
| store: "pool_reach e p A M \<Longrightarrow> pp_index p pid = Some f \<Longrightarrow> pm_pin_count (pp_pages p ! f) \<noteq> 0 \<Longrightarrow>
    length bs = pp_page_size p \<Longrightarrow> pool_reach e (set_frame p f bs) (A(pid := bs)) (insert pid M)"
| unpin: "pool_reach e p A M \<Longrightarrow> (pid \<in> M \<Longrightarrow> d) \<Longrightarrow> pool_reach e (unpin_page p pid d) A (M - {pid})"
| flush: "pool_reach e p A M \<Longrightarrow> flush_page e p pid = (r, e', p') \<Longrightarrow> pool_reach e' p' A M"
| flush_all: "pool_reach e p A M \<Longrightarrow> flush_all e p = (r, e', p') \<Longrightarrow> pool_reach e' p' A M"

subsection \<open>The invariant\<close>

definition backing :: "posix_env \<Rightarrow> pool \<Rightarrow> u64 \<Rightarrow> byte list" where
  "backing e p pid = (case pp_swapped p pid of
     None \<Rightarrow> replicate (pp_page_size p) 0
   | Some slot \<Rightarrow> take (pp_page_size p) (drop (slot * pp_page_size p) (content_of e (the (pp_swap p)))))"

definition swap_ok :: "posix_env \<Rightarrow> pool \<Rightarrow> bool" where
  "swap_ok e p \<longleftrightarrow> 0 < pp_page_size p \<and> pp_free_slots p = [] \<and>
     (\<forall>path. pp_swap p = Some path \<longrightarrow> ev_files e path \<noteq> None) \<and>
     (\<forall>pid slot. pp_swapped p pid = Some slot \<longrightarrow> pp_swap p \<noteq> None \<and> slot < pp_next_slot p \<and>
        (slot + 1) * pp_page_size p \<le> length (content_of e (the (pp_swap p))))"

text \<open>The invariant, but for the frame \<open>x\<close> that is being filled, if there is one: the index
  and the frames in use agree; a frame holds its page; and the swap file holds
  every page that is not resident, and every resident one that is not dirty.\<close>

definition frame_ok :: "posix_env \<Rightarrow> pool \<Rightarrow> (u64 \<Rightarrow> byte list) \<Rightarrow> u64 set \<Rightarrow> nat \<Rightarrow> bool" where
  "frame_ok e p A M f \<longleftrightarrow>
     (let m = pp_pages p ! f in pm_in_use m \<longrightarrow>
        pp_index p (pm_page_id m) = Some f \<and> pp_arena p ! f = A (pm_page_id m) \<and>
        (\<not> pm_dirty m \<and> pm_page_id m \<notin> M \<longrightarrow> backing e p (pm_page_id m) = A (pm_page_id m)))"

definition shape_ok :: "pool \<Rightarrow> bool" where
  "shape_ok p \<longleftrightarrow> length (pp_pages p) = pp_max p \<and> length (pp_arena p) = pp_max p \<and> pp_hand p < pp_max p \<and>
     (\<forall>f < pp_max p. length (pp_arena p ! f) = pp_page_size p)"

definition pool_inv :: "nat option \<Rightarrow> posix_env \<Rightarrow> pool \<Rightarrow> (u64 \<Rightarrow> byte list) \<Rightarrow> u64 set \<Rightarrow> bool" where
  "pool_inv x e p A M \<longleftrightarrow> swap_ok e p \<and> shape_ok p \<and>
     (\<forall>f < pp_max p. x \<noteq> Some f \<longrightarrow> frame_ok e p A M f) \<and>
     (\<forall>pid f. pp_index p pid = Some f \<longrightarrow> f < pp_max p \<and> x \<noteq> Some f \<and> pm_in_use (pp_pages p ! f) \<and> pm_page_id (pp_pages p ! f) = pid) \<and>
     (\<forall>pid. pp_index p pid = None \<longrightarrow> backing e p pid = A pid) \<and>
     (\<forall>pid \<in> M. \<exists>f. pp_index p pid = Some f \<and> pm_pin_count (pp_pages p ! f) \<noteq> 0) \<and>
     pp_resident p = card {f. f < pp_max p \<and> pm_in_use (pp_pages p ! f)}"

lemma pwrite_new_slot:
  assumes "(slot + 1) * n \<le> length c" "slot < k"
  shows "take n (drop (slot * n) (pwrite_at c (k * n) bs)) = take n (drop (slot * n) c)"
proof -
  have "(slot + 1) * n \<le> k * n" using assms(2) by (intro mult_le_mono1) simp
  then have le: "slot * n + n \<le> k * n" "slot * n + n \<le> length c" using assms(1) by simp_all
  have "take (slot * n + n) (pwrite_at c (k * n) bs) = take (slot * n + n) c"
    using le by (simp add: pwrite_at_def min_def)
  then have "drop (slot * n) (take (slot * n + n) (pwrite_at c (k * n) bs)) = drop (slot * n) (take (slot * n + n) c)" by simp
  then show ?thesis by (simp add: drop_take)
qed

lemma pwrite_own_slot: "length bs = n \<Longrightarrow> take n (drop off (pwrite_at c off bs)) = bs"
  by (simp add: pwrite_at_def)

lemma length_pwrite_at: "length (pwrite_at c off bs) = max (length c) (off + length bs)"
  by (simp add: pwrite_at_def)

text \<open>What swapping out leaves alone.\<close>

definition meta_core :: "PageMeta \<Rightarrow> u64 \<times> u32 \<times> bool \<times> bool" where
  "meta_core m = (pm_page_id m, pm_pin_count m, pm_ref_bit m, pm_in_use m)"

definition same_pool :: "pool \<Rightarrow> pool \<Rightarrow> bool" where
  "same_pool p p' \<longleftrightarrow> pp_page_size p' = pp_page_size p \<and> pp_max p' = pp_max p \<and> pp_arena p' = pp_arena p \<and> pp_swap p' = pp_swap p \<and>
     pp_index p' = pp_index p \<and> pp_resident p' = pp_resident p \<and> pp_hand p' = pp_hand p \<and>
     length (pp_pages p') = length (pp_pages p) \<and> (\<forall>i. meta_core (pp_pages p' ! i) = meta_core (pp_pages p ! i))"

lemma same_pool_refl [simp]: "same_pool p p"
  by (simp add: same_pool_def)

lemma same_pool_trans: "same_pool p q \<Longrightarrow> same_pool q r \<Longrightarrow> same_pool p r"
  by (simp add: same_pool_def)

lemma same_poolD:
  assumes "same_pool p p'"
  shows "pm_page_id (pp_pages p' ! i) = pm_page_id (pp_pages p ! i)" "pm_pin_count (pp_pages p' ! i) = pm_pin_count (pp_pages p ! i)"
    "pm_in_use (pp_pages p' ! i) = pm_in_use (pp_pages p ! i)" "pp_index p' = pp_index p" "pp_max p' = pp_max p"
    "pp_arena p' = pp_arena p" "pp_page_size p' = pp_page_size p" "pp_hand p' = pp_hand p" "pp_swap p' = pp_swap p"
    "length (pp_pages p') = length (pp_pages p)" "pp_resident p' = pp_resident p"
  using assms by (simp_all add: same_pool_def meta_core_def)

lemma nth_update_same: "P (xs ! i) = P y \<Longrightarrow> P ((xs[i := y]) ! j) = P (xs ! j)"
  by (cases "i = j"; cases "i < length xs") (auto simp: list_update_beyond)

lemma same_pool_page:
  assumes "meta_core m = meta_core (pp_pages p ! f)"
  shows "same_pool p (p\<lparr>pp_pages := (pp_pages p)[f := m], pp_swapped := sw, pp_next_slot := n, pp_bytes_in_swap := b, pp_dirty := d\<rparr>)"
  using assms by (simp add: same_pool_def nth_update_same)

lemma write_page_ok:
  assumes ok: "swap_ok e p" and len: "length (pp_arena p ! f) = pp_page_size p" and w: "write_page_to_swap e p f pid = (b, e', p')"
  shows "same_pool p p'" "swap_ok e' p'" "\<forall>i. pm_dirty (pp_pages p' ! i) = pm_dirty (pp_pages p ! i)"
    "b \<Longrightarrow> q = pid \<Longrightarrow> backing e' p' q = pp_arena p ! f" "\<not> b \<or> q \<noteq> pid \<Longrightarrow> backing e' p' q = backing e p q"
proof -
  let ?n = "pp_page_size p" and ?k = "pp_next_slot p"
  have R: "same_pool p p' \<and> swap_ok e' p' \<and> (\<forall>i. pm_dirty (pp_pages p' ! i) = pm_dirty (pp_pages p ! i)) \<and>
    (\<forall>q. (b \<and> q = pid \<longrightarrow> backing e' p' q = pp_arena p ! f) \<and> (\<not> b \<or> q \<noteq> pid \<longrightarrow> backing e' p' q = backing e p q))"
  proof (cases "pp_swap p")
    case None
    then show ?thesis using w ok by (auto simp: write_page_to_swap_def)
  next
    case (Some path)
    then obtain c where c: "ev_files e path = Some c" using ok by (auto simp: swap_ok_def)
    have sl: "pp_swapped p q = Some slot \<Longrightarrow> slot < ?k \<and> (slot + 1) * ?n \<le> length c" for q slot
      using ok Some c by (simp add: swap_ok_def content_of_def)
    define w1 where "w1 = min ?n (ev_chunk e (ev_tick e) + 1)"
    define e1 where "e1 = put_bytes (e\<lparr>ev_tick := ev_tick e + 1\<rparr>) path (?k * ?n) (take w1 (pp_arena p ! f))"
    have ce: "content_of e1 path = pwrite_at c (?k * ?n) (take w1 (pp_arena p ! f))" "ev_files e1 path \<noteq> None" "content_of e path = c"
      by (simp_all add: e1_def put_bytes_def c content_of_def)
    have bq: "pp_swapped p q = Some slot \<Longrightarrow> take ?n (drop (slot * ?n) (content_of e1 path)) = take ?n (drop (slot * ?n) c)" for q slot
      using sl [of q slot] by (simp add: ce pwrite_new_slot)
    show ?thesis
    proof (cases "ev_err e (ev_tick e) = None \<and> w1 = ?n")
      case True
      have own: "take ?n (drop (?k * ?n) (content_of e1 path)) = pp_arena p ! f"
        using len True by (simp add: ce pwrite_own_slot)
      have le: "(slot + 1) * ?n \<le> length c \<Longrightarrow> (slot + 1) * ?n \<le> length (content_of e1 path)" for slot
        by (simp add: ce length_pwrite_at)
      have le2: "(?k + 1) * ?n \<le> length (content_of e1 path)" using len True by (simp add: ce length_pwrite_at)
      have wp: "b" "e' = e1" "p' = p\<lparr>pp_next_slot := ?k + 1, pp_swapped := (pp_swapped p)(pid \<mapsto> ?k),
          pp_bytes_in_swap := max (pp_bytes_in_swap p) ((?k + 1) * ?n), pp_pages := (pp_pages p)[f := (pp_pages p ! f)\<lparr>pm_swap_slot := Some ?k\<rparr>]\<rparr>"
        using w ok Some True by (auto simp: write_page_to_swap_def take_slot_def swap_ok_def sys_unfold Let_def set_page_def w1_def e1_def)
      have "same_pool p p'" unfolding wp(3) by (simp add: same_pool_def meta_core_def nth_update_same)
      moreover have "swap_ok e' p'"
        using ok Some sl le le2 ce c unfolding wp(2,3) by (auto simp: swap_ok_def less_Suc_eq)
      moreover have "pm_dirty (pp_pages p' ! i) = pm_dirty (pp_pages p ! i)" for i unfolding wp(3) by (simp add: nth_update_same)
      ultimately show ?thesis
        using wp(1) own bq Some c unfolding wp(2,3) by (auto simp: backing_def ce(3) split: option.split)
    next
      case False
      have wp: "\<not> b" "p' = p\<lparr>pp_next_slot := ?k + 1\<rparr>" "e' = e\<lparr>ev_tick := Suc (ev_tick e)\<rparr> \<or> e' = e1"
        using w ok Some False by (auto simp: write_page_to_swap_def take_slot_def swap_ok_def sys_unfold Let_def w1_def e1_def split: option.splits if_splits)
      have le: "(slot + 1) * ?n \<le> length c \<Longrightarrow> (slot + 1) * ?n \<le> length (content_of e1 path)" for slot
        by (simp add: ce length_pwrite_at)
      have "same_pool p p'" unfolding wp(2) by (simp add: same_pool_def)
      moreover have "swap_ok e' p'"
        using wp(3) ok Some sl le ce c unfolding wp(2) by (auto simp: swap_ok_def less_Suc_eq content_of_def)
      ultimately show ?thesis
        using wp(1,3) bq Some c unfolding wp(2) by (auto simp: backing_def ce(3) split: option.split)
    qed
  qed
  show "same_pool p p'" "swap_ok e' p'" "\<forall>i. pm_dirty (pp_pages p' ! i) = pm_dirty (pp_pages p ! i)"
    "b \<Longrightarrow> q = pid \<Longrightarrow> backing e' p' q = pp_arena p ! f" "\<not> b \<or> q \<noteq> pid \<Longrightarrow> backing e' p' q = backing e p q"
    using R by blast+
qed

subsection \<open>Every operation keeps it\<close>

lemma pool_inv_len: "pool_inv x e p A M \<Longrightarrow> f < pp_max p \<Longrightarrow> length (pp_arena p ! f) = pp_page_size p"
  by (simp add: pool_inv_def shape_ok_def)

text \<open>A pool that differs in the swap file and in dirty marks only.\<close>

lemma pool_inv_same:
  assumes inv: "pool_inv x e p A M" and same: "same_pool p p'" and swap: "swap_ok e' p'"
    and keep: "\<And>q. pp_index p q = None \<Longrightarrow> backing e' p' q = backing e p q"
    and frames: "\<And>f. f < pp_max p \<Longrightarrow> x \<noteq> Some f \<Longrightarrow> pm_in_use (pp_pages p ! f) \<Longrightarrow> \<not> pm_dirty (pp_pages p' ! f) \<Longrightarrow>
      pm_page_id (pp_pages p ! f) \<notin> M \<Longrightarrow> backing e' p' (pm_page_id (pp_pages p ! f)) = A (pm_page_id (pp_pages p ! f))"
  shows "pool_inv x e' p' A M"
  using inv swap keep frames
  by (auto simp: pool_inv_def shape_ok_def frame_ok_def Let_def same_poolD [OF same])

lemma flush_frame_ok:
  assumes inv: "pool_inv x e p A M" and f: "f < pp_max p" "x \<noteq> Some f" and fl: "flush_frame_locked e p f = (b, e', p')"
  shows "pool_inv x e' p' A M \<and> same_pool p p' \<and> (b \<longrightarrow> pm_in_use (pp_pages p ! f) \<longrightarrow> \<not> pm_dirty (pp_pages p' ! f))"
proof (cases "pm_in_use (pp_pages p ! f) \<and> pm_dirty (pp_pages p ! f) \<and> pp_swap p \<noteq> None")
  case False
  then show ?thesis using inv fl by (auto simp: flush_frame_locked_def Let_def split: if_splits)
next
  case True
  let ?id = "pm_page_id (pp_pages p ! f)"
  have so: "swap_ok e p" and fo: "frame_ok e p A M f" and pl: "f < length (pp_pages p)"
    using inv f by (simp_all add: pool_inv_def shape_ok_def)
  obtain b1 e1 p1 where w: "write_page_to_swap e p f ?id = (b1, e1, p1)" by (cases "write_page_to_swap e p f ?id")
  note W = write_page_ok [OF so pool_inv_len [OF inv f(1)] w]
  have idx: "pp_index p ?id = Some f" "pp_arena p ! f = A ?id" using fo True by (simp_all add: frame_ok_def Let_def)
  define p2 where "p2 = (if b1 then (set_page p1 f ((pp_pages p1 ! f)\<lparr>pm_dirty := False\<rparr>))\<lparr>pp_dirty := pp_dirty p1 - 1\<rparr> else p1)"
  have r: "b = b1" "e' = e1" "p' = p2" using fl True w by (auto simp: flush_frame_locked_def Let_def p2_def split: if_splits)
  have s2: "same_pool p p2"
    using W(1) by (auto simp: p2_def same_pool_def set_page_def nth_update_same meta_core_def)
  have bk: "backing e1 p2 = backing e1 p1" by (simp add: p2_def fun_eq_iff backing_def set_page_def split: option.split)
  have sw: "swap_ok e1 p2" using W(2) by (simp add: p2_def swap_ok_def set_page_def)
  have dirty: "pm_dirty (pp_pages p2 ! g) = (pm_dirty (pp_pages p ! g) \<and> (b1 \<longrightarrow> g \<noteq> f))" for g
    using W(3) pl same_poolD(10) [OF W(1)] by (auto simp: p2_def set_page_def nth_list_update)
  have "pool_inv x e1 p2 A M"
  proof (rule pool_inv_same [OF inv s2 sw])
    show "pp_index p q = None \<Longrightarrow> backing e1 p2 q = backing e p q" for q by (metis W(5) idx(1) bk option.distinct(1))
    show "backing e1 p2 (pm_page_id (pp_pages p ! g)) = A (pm_page_id (pp_pages p ! g))"
      if "g < pp_max p" "x \<noteq> Some g" "pm_in_use (pp_pages p ! g)" "\<not> pm_dirty (pp_pages p2 ! g)" "pm_page_id (pp_pages p ! g) \<notin> M" for g
    proof (cases "b1 \<and> g = f")
      case True
      then show ?thesis using W(4) [of ?id] idx(2) bk by simp
    next
      case False
      have go: "frame_ok e p A M g" using inv that(1,2) by (simp add: pool_inv_def)
      then have "g \<noteq> f \<Longrightarrow> pm_page_id (pp_pages p ! g) \<noteq> ?id" using that(3) idx(1) by (auto simp: frame_ok_def Let_def)
      moreover have "backing e p (pm_page_id (pp_pages p ! g)) = A (pm_page_id (pp_pages p ! g))"
        using go that(3-5) dirty [of g] False by (auto simp: frame_ok_def Let_def)
      ultimately show ?thesis using W(5) [of "pm_page_id (pp_pages p ! g)"] False bk by (cases "g = f") auto
    qed
  qed
  then show ?thesis using s2 dirty [of f] by (simp add: r)
qed

lemma flush_frames_ok:
  "pool_inv None e p A M \<Longrightarrow> \<forall>i \<in> set is. i < pp_max p \<Longrightarrow> flush_frames e p is = (b, e', p') \<Longrightarrow> pool_inv None e' p' A M \<and> same_pool p p'"
proof (induction "is" arbitrary: e p b e' p')
  case (Cons i "is")
  obtain b1 e1 p1 where f: "flush_frame_locked e p i = (b1, e1, p1)" by (cases "flush_frame_locked e p i")
  have F: "pool_inv None e1 p1 A M" "same_pool p p1" using flush_frame_ok [OF Cons.prems(1) _ _ f] Cons.prems(2) by simp_all
  obtain b2 e2 p2 where g: "flush_frames e1 p1 is = (b2, e2, p2)" by (cases "flush_frames e1 p1 is")
  have "pool_inv None e2 p2 A M \<and> same_pool p1 p2" by (rule Cons.IH [OF F(1) _ g]) (use Cons.prems(2) same_poolD(5) [OF F(2)] in simp)
  then show ?case using Cons.prems(3) f g same_pool_trans [OF F(2)] by auto
qed simp

text \<open>The frame \<open>i\<close> was chosen for the page, which is not in the index yet.\<close>

definition filling :: "posix_env \<Rightarrow> pool \<Rightarrow> (u64 \<Rightarrow> byte list) \<Rightarrow> u64 set \<Rightarrow> nat \<Rightarrow> u64 \<Rightarrow> bool" where
  "filling e p A M i pid \<longleftrightarrow> pool_inv (Some i) e p A M \<and> i < pp_max p \<and> pm_in_use (pp_pages p ! i) \<and>
     pm_page_id (pp_pages p ! i) = pid \<and> \<not> pm_dirty (pp_pages p ! i) \<and> pp_index p pid = None"

definition filled :: "posix_env \<Rightarrow> pool \<Rightarrow> (u64 \<Rightarrow> byte list) \<Rightarrow> u64 set \<Rightarrow> u64 \<Rightarrow> (nat \<times> bool) option \<Rightarrow> bool" where
  "filled e p A M pid r \<longleftrightarrow> (case r of None \<Rightarrow> pool_inv None e p A M | Some (f, _) \<Rightarrow> filling e p A M f pid \<and> pp_arena p ! f = A pid)"

lemma filling_frame:
  assumes "filling e p A M i pid" "length bs = pp_page_size p"
  shows "filling (e\<lparr>ev_tick := n\<rparr>) (set_frame p i bs) A M i pid"
  using assms
  by (auto simp: filling_def pool_inv_def set_frame_def swap_ok_def shape_ok_def frame_ok_def backing_def Let_def nth_list_update
      cong: option.case_cong)

lemma filling_give_up:
  assumes "filling e p A M i pid"
  shows "pool_inv None e ((set_page p i ((pp_pages p ! i)\<lparr>pm_in_use := False\<rparr>))\<lparr>pp_resident := pp_resident p - 1\<rparr>) A M"
proof -
  define p2 where "p2 = (set_page p i ((pp_pages p ! i)\<lparr>pm_in_use := False\<rparr>))\<lparr>pp_resident := pp_resident p - 1\<rparr>"
  have i: "i < length (pp_pages p)" "pm_in_use (pp_pages p ! i)" "i < pp_max p" using assms by (auto simp: filling_def pool_inv_def shape_ok_def)
  have nth: "pp_pages p2 ! g = (if g = i then (pp_pages p ! i)\<lparr>pm_in_use := False\<rparr> else pp_pages p ! g)" for g
    using i by (simp add: p2_def set_page_def nth_list_update)
  have c: "{f. f < pp_max p \<and> pm_in_use (pp_pages p2 ! f)} = {f. f < pp_max p \<and> pm_in_use (pp_pages p ! f)} - {i}" by (auto simp: nth)
  have bk: "backing e p2 q = backing e p q" for q by (simp add: p2_def backing_def set_page_def split: option.split)
  have f: "pp_max p2 = pp_max p" "pp_index p2 = pp_index p" "pp_arena p2 = pp_arena p" "length (pp_pages p2) = length (pp_pages p)"
    "pp_hand p2 = pp_hand p" "pp_page_size p2 = pp_page_size p" "swap_ok e p2 = swap_ok e p" "pp_resident p2 = pp_resident p - 1"
    by (simp_all add: p2_def set_page_def swap_ok_def)
  show ?thesis using assms i unfolding p2_def [symmetric] filling_def pool_inv_def shape_ok_def f c
    by (auto simp: frame_ok_def Let_def nth bk f)
qed

lemma set_frame_size [simp]: "pp_page_size (set_frame p i bs) = pp_page_size p"
  by (simp add: set_frame_def)

lemma load_frame_ok:
  assumes fi: "filling e p A M i pid" and l: "load_frame e p i pid = (r, e', p')"
  shows "filled e' p' A M pid r"
proof -
  obtain b e1 p1 where rd: "read_page_from_swap e p i pid = (b, e1, p1)" by (cases "read_page_from_swap e p i pid")
  let ?n = "pp_page_size p"
  have so: "swap_ok e p" and bk: "backing e p pid = A pid" and il: "i < length (pp_arena p)" and len: "length (pp_arena p ! i) = ?n"
    using fi by (auto simp: filling_def pool_inv_def shape_ok_def)
  have "filling e1 p1 A M i pid \<and> (b \<longrightarrow> pp_arena p1 ! i = A pid)"
  proof (cases "pp_swapped p pid")
    case None
    then show ?thesis using filling_frame [OF fi, of "replicate ?n 0" "ev_tick e"] rd bk il
      by (auto simp: read_page_from_swap_def backing_def set_frame_def)
  next
    case (Some slot)
    then obtain path where path: "pp_swap p = Some path" using so by (fastforce simp: swap_ok_def)
    define d where "d = take (min ?n (ev_chunk e (ev_tick e) + 1)) (drop (slot * ?n) (content_of e path))"
    have dl: "length d \<le> ?n" by (simp add: d_def)
    have da: "length d = ?n \<Longrightarrow> d = A pid" using bk Some path by (simp add: backing_def d_def min_def split: if_splits)
    have tick: "filling (e\<lparr>ev_tick := Suc (ev_tick e)\<rparr>) p A M i pid"
      using filling_frame [OF fi len] il by (simp add: set_frame_def)
    show ?thesis
    proof (cases "ev_err e (ev_tick e)")
      case (Some msg)
      then show ?thesis using rd tick path \<open>pp_swapped p pid = Some slot\<close> by (auto simp: read_page_from_swap_def sys_unfold Let_def)
    next
      case None
      have "b = (length d = ?n)" "e1 = e\<lparr>ev_tick := Suc (ev_tick e)\<rparr>" "p1 = set_frame p i (d @ drop (length d) (pp_arena p ! i))"
        using rd path Some None by (auto simp: read_page_from_swap_def sys_unfold Let_def d_def)
      moreover have "length (d @ drop (length d) (pp_arena p ! i)) = ?n" using dl len by simp
      ultimately show ?thesis using filling_frame [OF fi] da il len by (auto simp: set_frame_def)
    qed
  qed
  then show ?thesis using l rd filling_give_up [of e1 p1] by (cases b) (auto simp: load_frame_def filled_def)
qed

lemma pool_inv_pinned:
  assumes "pool_inv x e p A M" "q \<in> M"
  obtains f where "pp_index p q = Some f" "pm_pin_count (pp_pages p ! f) \<noteq> 0"
  using assms by (auto simp: pool_inv_def)

lemma pool_inv_index:
  assumes "pool_inv x e p A M" "pp_index p q = Some f"
  shows "f < pp_max p" "x \<noteq> Some f" "pm_in_use (pp_pages p ! f)" "pm_page_id (pp_pages p ! f) = q"
  using assms by (simp_all add: pool_inv_def)

lemma unpinned_not_modified:
  assumes inv: "pool_inv None e p A M" and f: "f < pp_max p" "pm_in_use (pp_pages p ! f)" "pm_pin_count (pp_pages p ! f) = 0"
  shows "pm_page_id (pp_pages p ! f) \<notin> M"
proof
  assume "pm_page_id (pp_pages p ! f) \<in> M"
  then obtain g where "pp_index p (pm_page_id (pp_pages p ! f)) = Some g" "pm_pin_count (pp_pages p ! g) \<noteq> 0" by (rule pool_inv_pinned [OF inv])
  moreover have "frame_ok e p A M f" using inv f(1) by (simp add: pool_inv_def)
  ultimately show False using f by (simp add: frame_ok_def Let_def)
qed

lemma pool_inv_hand: "pool_inv x e p A M \<Longrightarrow> h < pp_max p \<Longrightarrow> pool_inv x e (p\<lparr>pp_hand := h\<rparr>) A M"
  by (simp add: pool_inv_def swap_ok_def shape_ok_def frame_ok_def backing_def Let_def cong: option.case_cong)

lemma pool_inv_meta:
  assumes inv: "pool_inv None e p A M" and f: "f < pp_max p"
    and use: "pm_in_use (pp_pages p ! f)" and m: "pm_page_id m = pm_page_id (pp_pages p ! f)" "pm_in_use m"
      "pm_pin_count m = 0 \<Longrightarrow> pm_page_id m \<notin> M'" "\<not> pm_dirty m \<Longrightarrow> \<not> pm_dirty (pp_pages p ! f) \<and> (pm_page_id m \<in> M \<longrightarrow> pm_page_id m \<in> M')"
    and M': "M' \<subseteq> M" "M - {pm_page_id m} \<subseteq> M'"
  shows "pool_inv None e ((set_page p f m)\<lparr>pp_dirty := d\<rparr>) A M'"
proof -
  define p2 where "p2 = (set_page p f m)\<lparr>pp_dirty := d\<rparr>"
  have nth: "pp_pages p2 ! g = (if g = f then m else pp_pages p ! g)" for g
    using f inv by (simp add: p2_def set_page_def nth_list_update pool_inv_def shape_ok_def)
  have c: "{g. g < pp_max p \<and> pm_in_use (pp_pages p2 ! g)} = {g. g < pp_max p \<and> pm_in_use (pp_pages p ! g)}" using m(2) use by (auto simp: nth)
  have bk: "backing e p2 q = backing e p q" for q by (simp add: p2_def backing_def set_page_def split: option.split)
  have s: "pp_max p2 = pp_max p" "pp_index p2 = pp_index p" "pp_arena p2 = pp_arena p" "length (pp_pages p2) = length (pp_pages p)"
    "pp_hand p2 = pp_hand p" "pp_page_size p2 = pp_page_size p" "swap_ok e p2 = swap_ok e p" "pp_resident p2 = pp_resident p"
    by (simp_all add: p2_def set_page_def swap_ok_def)
  have fo: "frame_ok e p A M g" if "g < pp_max p" for g using inv that by (simp add: pool_inv_def)
  have M: "\<exists>g. pp_index p q = Some g \<and> pm_pin_count (pp_pages p2 ! g) \<noteq> 0" if "q \<in> M'" for q
  proof -
    have "q \<in> M" using that M' by blast
    then obtain g where g: "pp_index p q = Some g" "pm_pin_count (pp_pages p ! g) \<noteq> 0" by (rule pool_inv_pinned [OF inv])
    then show ?thesis using m pool_inv_index [OF inv g(1)] \<open>q \<in> M'\<close> by (auto simp: nth)
  qed
  have fr: "frame_ok e p2 A M' g" if "g < pp_max p" for g
  proof (cases "g = f")
    case True
    then show ?thesis using fo [OF f] m use by (auto simp: frame_ok_def Let_def nth s bk)
  next
    case False
    have "pm_in_use (pp_pages p ! g) \<Longrightarrow> pm_page_id (pp_pages p ! g) \<noteq> pm_page_id m"
      using fo [OF f] fo [OF that] use m(1) False by (auto simp: frame_ok_def Let_def)
    then show ?thesis using fo [OF that] False M'(2) by (auto simp: frame_ok_def Let_def nth s bk)
  qed
  have ix: "g < pp_max p \<and> pm_in_use (pp_pages p2 ! g) \<and> pm_page_id (pp_pages p2 ! g) = q" if "pp_index p q = Some g" for q g
    using pool_inv_index [OF inv that] m(1,2) by (auto simp: nth)
  show ?thesis unfolding p2_def [symmetric] using inv M fr ix by (simp add: pool_inv_def shape_ok_def s c bk)
qed

lemma pool_inv_ref:
  assumes "pool_inv None e p A M" "i < pp_max p" "pm_in_use (pp_pages p ! i)"
  shows "pool_inv None e (set_page p i ((pp_pages p ! i)\<lparr>pm_ref_bit := r\<rparr>)) A M"
proof -
  have "pool_inv None e ((set_page p i ((pp_pages p ! i)\<lparr>pm_ref_bit := r\<rparr>))\<lparr>pp_dirty := pp_dirty p\<rparr>) A M"
    by (rule pool_inv_meta [OF assms]) (use unpinned_not_modified [OF assms] assms(3) in simp_all)
  then show ?thesis by (simp add: set_page_def)
qed

lemma evict_filling:
  assumes inv: "pool_inv None e p A M" and i: "i < pp_max p" "pm_in_use (pp_pages p ! i)" "pm_pin_count (pp_pages p ! i) = 0" "\<not> pm_dirty (pp_pages p ! i)"
    and pid: "pp_index p pid = None"
  shows "filling e (set_page (p\<lparr>pp_index := (pp_index p)(pm_page_id (pp_pages p ! i) := None), pp_evictions := n\<rparr>) i (fresh_meta (pp_pages p ! i) pid)) A M i pid"
proof -
  let ?old = "pm_page_id (pp_pages p ! i)" and ?m = "fresh_meta (pp_pages p ! i) pid"
  define p2 where "p2 = set_page (p\<lparr>pp_index := (pp_index p)(?old := None), pp_evictions := n\<rparr>) i ?m"
  have nth: "pp_pages p2 ! g = (if g = i then ?m else pp_pages p ! g)" for g
    using i inv by (simp add: p2_def set_page_def nth_list_update pool_inv_def shape_ok_def)
  have m: "pm_in_use ?m" "pm_page_id ?m = pid" "\<not> pm_dirty ?m" using i by (simp_all add: fresh_meta_def)
  have c: "{g. g < pp_max p \<and> pm_in_use (pp_pages p2 ! g)} = {g. g < pp_max p \<and> pm_in_use (pp_pages p ! g)}" using i(2) m by (auto simp: nth)
  have bk: "backing e p2 q = backing e p q" for q by (simp add: p2_def backing_def set_page_def split: option.split)
  have s: "pp_max p2 = pp_max p" "pp_index p2 = (pp_index p)(?old := None)" "pp_arena p2 = pp_arena p" "length (pp_pages p2) = length (pp_pages p)"
    "pp_hand p2 = pp_hand p" "pp_page_size p2 = pp_page_size p" "swap_ok e p2 = swap_ok e p" "pp_resident p2 = pp_resident p"
    by (simp_all add: p2_def set_page_def swap_ok_def)
  have fi: "frame_ok e p A M g" if "g < pp_max p" for g using inv that by (simp add: pool_inv_def)
  have old: "pp_index p ?old = Some i" using fi [OF i(1)] i(2) by (simp add: frame_ok_def Let_def)
  have notM: "?old \<notin> M" using unpinned_not_modified [OF inv i(1-3)] .
  have bo: "backing e p ?old = A ?old" using fi [OF i(1)] i(2,4) notM by (simp add: frame_ok_def Let_def)
  have fr: "frame_ok e p2 A M g" if "g < pp_max p" "g \<noteq> i" for g
    using fi [OF that(1)] that(2) old by (auto simp: frame_ok_def Let_def nth s bk)
  have ix: "f < pp_max p \<and> i \<noteq> f \<and> pm_in_use (pp_pages p2 ! f) \<and> pm_page_id (pp_pages p2 ! f) = q" if "pp_index p2 q = Some f" for q f
    using that pool_inv_index [OF inv, of q f] by (auto simp: s nth split: if_splits)
  have bn: "backing e p q = A q" if "pp_index p2 q = None" for q using that inv bo by (auto simp: s pool_inv_def split: if_splits)
  have M: "\<exists>g. pp_index p2 q = Some g \<and> pm_pin_count (pp_pages p2 ! g) \<noteq> 0" if "q \<in> M" for q
  proof -
    obtain g where g: "pp_index p q = Some g" "pm_pin_count (pp_pages p ! g) \<noteq> 0" using inv \<open>q \<in> M\<close> by (rule pool_inv_pinned)
    then show ?thesis using notM \<open>q \<in> M\<close> i(3) by (auto simp: nth s)
  qed
  have "pool_inv (Some i) e p2 A M"
    using inv fr M ix bn by (simp add: pool_inv_def shape_ok_def s(1,3-8) c bk)
  then show ?thesis unfolding p2_def [symmetric] by (simp add: filling_def s i nth m pid)
qed

definition turn :: "pool \<Rightarrow> pool" where
  "turn p = p\<lparr>pp_hand := (pp_hand p + 1) mod pp_max p\<rparr>"

definition evict :: "pool \<Rightarrow> nat \<Rightarrow> u64 \<Rightarrow> pool" where
  "evict p i pid = set_page (p\<lparr>pp_index := (pp_index p)(pm_page_id (pp_pages p ! i) := None), pp_evictions := pp_evictions p + 1\<rparr>)
     i (fresh_meta (pp_pages p ! i) pid)"

lemma turn_simps [simp]:
  "pp_pages (turn p) = pp_pages p" "pp_index (turn p) = pp_index p" "pp_max (turn p) = pp_max p" "pp_dirty (turn p) = pp_dirty p"
  "pp_swap (turn p) = pp_swap p" "pp_page_size (turn p) = pp_page_size p" "pp_hand (turn p) = (pp_hand p + 1) mod pp_max p"
  by (simp_all add: turn_def)

lemma clock_step:
  assumes "m = pp_pages p ! pp_hand p"
  shows "\<not> pm_in_use m \<or> pm_pin_count m \<noteq> 0 \<Longrightarrow> clock_loop (Suc k) e p pid = clock_loop k e (turn p) pid"
    "pm_in_use m \<Longrightarrow> pm_pin_count m = 0 \<Longrightarrow> pm_ref_bit m \<Longrightarrow>
      clock_loop (Suc k) e p pid = clock_loop k e (set_page (turn p) (pp_hand p) (m\<lparr>pm_ref_bit := False\<rparr>)) pid"
    "pm_in_use m \<Longrightarrow> pm_pin_count m = 0 \<Longrightarrow> \<not> pm_ref_bit m \<Longrightarrow>
      (if pm_dirty m then flush_frame_locked e (turn p) (pp_hand p) else (True, e, turn p)) = (b, e2, p2) \<Longrightarrow>
      clock_loop (Suc k) e p pid = (if b then load_frame e2 (evict p2 (pp_hand p) pid) (pp_hand p) pid else clock_loop k e2 p2 pid)"
  using assms by (auto simp: Let_def turn_def evict_def split: if_splits)

lemma clock_loop_ok:
  assumes "pool_inv None e p A M" "pp_index p pid = None" "clock_loop k e p pid = (r, e', p')"
  shows "filled e' p' A M pid r"
  using assms
proof (induction k arbitrary: e p)
  case (Suc k)
  let ?i = "pp_hand p"
  let ?m = "pp_pages p ! ?i" and ?p1 = "turn p"
  have i: "?i < pp_max p" using Suc.prems(1) by (simp add: pool_inv_def shape_ok_def)
  have inv1: "pool_inv None e ?p1 A M" using pool_inv_hand [OF Suc.prems(1), of "(?i + 1) mod pp_max p"] i by (simp add: turn_def)
  note step = clock_step [OF refl, of p]
  consider (skip) "\<not> pm_in_use ?m \<or> pm_pin_count ?m \<noteq> 0" | (ref) "pm_in_use ?m" "pm_pin_count ?m = 0" "pm_ref_bit ?m"
    | (go) "pm_in_use ?m" "pm_pin_count ?m = 0" "\<not> pm_ref_bit ?m" by blast
  then show ?case
  proof cases
    case skip
    then show ?thesis using Suc.IH [OF inv1] Suc.prems(2,3) by (simp add: step(1) del: clock_loop.simps)
  next
    case ref
    have "pool_inv None e (set_page ?p1 ?i (?m\<lparr>pm_ref_bit := False\<rparr>)) A M"
      using pool_inv_ref [OF inv1, of ?i False] i ref(1) by simp
    then show ?thesis by (rule Suc.IH) (use ref Suc.prems(2,3) in \<open>simp_all add: set_page_def step(2) del: clock_loop.simps\<close>)
  next
    case go
    obtain b e2 p2 where fl: "(if pm_dirty ?m then flush_frame_locked e ?p1 ?i else (True, e, ?p1)) = (b, e2, p2)"
      by (cases "(if pm_dirty ?m then flush_frame_locked e ?p1 ?i else (True, e, ?p1))")
    have F: "pool_inv None e2 p2 A M \<and> same_pool ?p1 p2 \<and> (b \<longrightarrow> \<not> pm_dirty (pp_pages p2 ! ?i))"
    proof (cases "pm_dirty ?m")
      case True
      then show ?thesis using flush_frame_ok [OF inv1, of ?i b e2 p2] fl i go by simp
    next
      case False
      then have "b" "e2 = e" "p2 = ?p1" using fl by simp_all
      then show ?thesis using False inv1 by simp
    qed
    note s2 = same_poolD [OF conjunct1 [OF conjunct2 [OF F]]]
    show ?thesis
    proof (cases b)
      case True
      have "filling e2 (evict p2 ?i pid) A M ?i pid"
        unfolding evict_def by (rule evict_filling) (use True F go i Suc.prems(2) in \<open>simp_all add: s2\<close>)
      then show ?thesis by (rule load_frame_ok) (use step(3) [OF go fl] True Suc.prems(3) in simp)
    next
      case False
      then have "clock_loop k e2 p2 pid = (r, e', p')" using step(3) [OF go fl] Suc.prems(3) by simp
      then show ?thesis using Suc.IH [of e2 p2] F Suc.prems(2) by (simp add: s2)
    qed
  qed
qed (simp add: filled_def)

lemma find_free_Some: "find_free p = Some i \<Longrightarrow> i < length (pp_pages p) \<and> \<not> pm_in_use (pp_pages p ! i)"
  by (auto simp: find_free_def is_free_def filter_eq_Cons_iff split: list.splits)

lemma find_free_None: "find_free p = None \<Longrightarrow> i < length (pp_pages p) \<Longrightarrow> pm_in_use (pp_pages p ! i)"
  by (auto simp: find_free_def is_free_def filter_empty_conv split: list.splits)

lemma take_free_filling:
  assumes inv: "pool_inv None e p A M" and i: "i < pp_max p" "\<not> pm_in_use (pp_pages p ! i)" and pid: "pp_index p pid = None"
    and m: "pm_in_use m" "pm_page_id m = pid" "\<not> pm_dirty m"
  shows "filling e ((set_page p i m)\<lparr>pp_resident := pp_resident p + 1\<rparr>) A M i pid"
proof -
  define p2 where "p2 = (set_page p i m)\<lparr>pp_resident := pp_resident p + 1\<rparr>"
  have nth: "pp_pages p2 ! g = (if g = i then m else pp_pages p ! g)" for g
    using i inv by (simp add: p2_def set_page_def nth_list_update pool_inv_def shape_ok_def)
  have c: "{g. g < pp_max p \<and> pm_in_use (pp_pages p2 ! g)} = insert i {g. g < pp_max p \<and> pm_in_use (pp_pages p ! g)}"
    using i m by (auto simp: nth)
  have bk: "backing e p2 q = backing e p q" for q by (simp add: p2_def backing_def set_page_def split: option.split)
  have s: "pp_max p2 = pp_max p" "pp_index p2 = pp_index p" "pp_arena p2 = pp_arena p" "length (pp_pages p2) = length (pp_pages p)"
    "pp_hand p2 = pp_hand p" "pp_page_size p2 = pp_page_size p" "swap_ok e p2 = swap_ok e p" "pp_resident p2 = pp_resident p + 1"
    by (simp_all add: p2_def set_page_def swap_ok_def)
  have fr: "frame_ok e p2 A M g" if "g < pp_max p" "i \<noteq> g" for g
    using inv that by (auto simp: pool_inv_def frame_ok_def Let_def nth s bk)
  have ix: "i \<noteq> f" if "pp_index p q = Some f" for q f using pool_inv_index [OF inv that] i by auto
  have M: "\<exists>g. pp_index p q = Some g \<and> pm_pin_count (pp_pages p2 ! g) \<noteq> 0" if "q \<in> M" for q
  proof -
    obtain g where "pp_index p q = Some g" "pm_pin_count (pp_pages p ! g) \<noteq> 0" using inv \<open>q \<in> M\<close> by (rule pool_inv_pinned)
    then show ?thesis using ix [of q g] by (auto simp: nth)
  qed
  have "pool_inv (Some i) e p2 A M"
    using inv fr M ix i by (simp add: pool_inv_def shape_ok_def s c bk) (auto simp: nth)
  then show ?thesis unfolding p2_def [symmetric] by (simp add: filling_def s i nth m pid)
qed

lemma allocate_ok:
  assumes "pool_inv None e p A M" "pp_index p pid = None" "allocate_frame_for_page e p pid = (r, e', p')"
  shows "filled e' p' A M pid r"
proof (cases "find_free p")
  case None
  then show ?thesis using assms clock_loop_ok by (simp add: allocate_frame_for_page_def)
next
  case (Some i)
  have "i < pp_max p" "\<not> pm_in_use (pp_pages p ! i)"
    using find_free_Some [OF Some] assms(1) by (simp_all add: pool_inv_def shape_ok_def)
  then have "filling e ((set_page p i ((fresh_meta (pp_pages p ! i) pid)\<lparr>pm_in_use := True, pm_swap_slot := None\<rparr>))
      \<lparr>pp_resident := pp_resident p + 1\<rparr>) A M i pid"
    by (intro take_free_filling [OF assms(1) _ _ assms(2)]) (simp_all add: fresh_meta_def)
  then show ?thesis using load_frame_ok assms(3) Some by (simp add: allocate_frame_for_page_def)
qed

lemma install_ok:
  assumes fi: "filling e p A M f pid" and a: "pp_arena p ! f = A pid"
    and m: "pm_page_id m = pid" "pm_in_use m" "pm_pin_count m \<noteq> 0"
  shows "pool_inv None e ((set_page (p\<lparr>pp_index := (pp_index p)(pid \<mapsto> f)\<rparr>) f m)\<lparr>pp_dirty := d\<rparr>) A M"
proof -
  define p2 where "p2 = (set_page (p\<lparr>pp_index := (pp_index p)(pid \<mapsto> f)\<rparr>) f m)\<lparr>pp_dirty := d\<rparr>"
  have inv: "pool_inv (Some f) e p A M" and f: "f < pp_max p" "pm_in_use (pp_pages p ! f)" "pp_index p pid = None"
    using fi by (simp_all add: filling_def)
  have nth: "pp_pages p2 ! g = (if g = f then m else pp_pages p ! g)" for g
    using f inv by (simp add: p2_def set_page_def nth_list_update pool_inv_def shape_ok_def)
  have c: "{g. g < pp_max p \<and> pm_in_use (pp_pages p2 ! g)} = {g. g < pp_max p \<and> pm_in_use (pp_pages p ! g)}" using f m by (auto simp: nth)
  have bk: "backing e p2 q = backing e p q" for q by (simp add: p2_def backing_def set_page_def split: option.split)
  have s: "pp_max p2 = pp_max p" "pp_index p2 = (pp_index p)(pid \<mapsto> f)" "pp_arena p2 = pp_arena p" "length (pp_pages p2) = length (pp_pages p)"
    "pp_hand p2 = pp_hand p" "pp_page_size p2 = pp_page_size p" "swap_ok e p2 = swap_ok e p" "pp_resident p2 = pp_resident p"
    by (simp_all add: p2_def set_page_def swap_ok_def)
  have bp: "backing e p pid = A pid" using inv f by (simp add: pool_inv_def)
  have fr: "frame_ok e p2 A M g" if "g < pp_max p" for g
  proof (cases "g = f")
    case True
    then show ?thesis using f a m bp by (simp add: frame_ok_def Let_def nth s bk)
  next
    case False
    then have "frame_ok e p A M g" using inv that by (simp add: pool_inv_def)
    then show ?thesis using False f(3) by (auto simp: frame_ok_def Let_def nth s bk)
  qed
  have ix: "g < pp_max p \<and> pm_in_use (pp_pages p2 ! g) \<and> pm_page_id (pp_pages p2 ! g) = q" if "pp_index p2 q = Some g" for q g
    using that pool_inv_index [OF inv, of q g] f(1) m by (auto simp: s nth split: if_splits)
  have bn: "backing e p q = A q" if "pp_index p2 q = None" for q using that inv by (auto simp: s pool_inv_def split: if_splits)
  have M: "\<exists>g. pp_index p2 q = Some g \<and> pm_pin_count (pp_pages p2 ! g) \<noteq> 0" if "q \<in> M" for q
  proof -
    obtain g where "pp_index p q = Some g" "pm_pin_count (pp_pages p ! g) \<noteq> 0" using inv \<open>q \<in> M\<close> by (rule pool_inv_pinned)
    then show ?thesis using f(3) m(3) by (auto simp: nth s)
  qed
  show ?thesis unfolding p2_def [symmetric] using inv fr M ix bn by (simp add: pool_inv_def shape_ok_def s(1,3-8) c bk)
qed

lemma fetch_ok:
  assumes inv: "pool_inv None e p A M" and ov: "\<And>f. pp_index p pid = Some f \<Longrightarrow> pm_pin_count (pp_pages p ! f) \<noteq> - 1"
    and f: "fetch_page e p pid for_write = (r, e', p')"
  shows "pool_inv None e' p' A M \<and> (\<forall>i n. r = Some (i, n) \<longrightarrow> i < pp_max p' \<and> pp_arena p' ! i = A pid \<and> pp_index p' pid = Some i)"
proof (cases "pp_index p pid")
  case (Some i)
  note ix = pool_inv_index [OF inv Some]
  have "frame_ok e p A M i" using inv ix(1) by (simp add: pool_inv_def)
  then have "pp_arena p ! i = A pid" using ix by (simp add: frame_ok_def Let_def)
  moreover have "pm_pin_count (pp_pages p ! i) + 1 \<noteq> 0" using ov [OF Some] by (simp add: add_eq_0_iff2)
  then have "pool_inv None e ((set_page p i ((pp_pages p ! i)\<lparr>pm_pin_count := pm_pin_count (pp_pages p ! i) + 1, pm_ref_bit := True\<rparr>))
      \<lparr>pp_dirty := pp_dirty p\<rparr>) A M"
    by (intro pool_inv_meta [OF inv ix(1)]) (use ix in auto)
  ultimately show ?thesis using f Some ix(1) by (auto simp: fetch_page_def Let_def set_page_def)
next
  case None
  obtain r1 e1 p1 where al: "allocate_frame_for_page e p pid = (r1, e1, p1)" by (cases "allocate_frame_for_page e p pid")
  note A = allocate_ok [OF inv None al]
  show ?thesis
  proof (cases r1)
    case None
    then show ?thesis using A f al \<open>pp_index p pid = None\<close> by (simp add: fetch_page_def filled_def)
  next
    case (Some fn)
    obtain i n where fn: "fn = (i, n)" by (cases fn)
    have fi: "filling e1 p1 A M i pid" "pp_arena p1 ! i = A pid" using A Some fn by (simp_all add: filled_def)
    then have m: "pm_page_id (pp_pages p1 ! i) = pid" "pm_in_use (pp_pages p1 ! i)" "i < pp_max p1" by (simp_all add: filling_def)
    define m1 where "m1 = (pp_pages p1 ! i)\<lparr>pm_pin_count := 1, pm_ref_bit := True, pm_dirty := (for_write \<or> pm_dirty (pp_pages p1 ! i))\<rparr>"
    define d where "d = (if for_write then pp_dirty p1 + 1 else pp_dirty p1)"
    have "pool_inv None e1 ((set_page (p1\<lparr>pp_index := (pp_index p1)(pid \<mapsto> i)\<rparr>) i m1)\<lparr>pp_dirty := d\<rparr>) A M"
      by (rule install_ok [OF fi]) (use m in \<open>simp_all add: m1_def\<close>)
    moreover have "p' = (set_page (p1\<lparr>pp_index := (pp_index p1)(pid \<mapsto> i)\<rparr>) i m1)\<lparr>pp_dirty := d\<rparr>" "e' = e1" "r = Some (i, n)"
      using f al Some fn \<open>pp_index p pid = None\<close> by (auto simp: fetch_page_def Let_def set_page_def m1_def d_def)
    ultimately show ?thesis using fi(2) m(3) by (simp add: set_page_def)
  qed
qed

lemma store_ok:
  assumes inv: "pool_inv None e p A M" and f: "pp_index p pid = Some f" "pm_pin_count (pp_pages p ! f) \<noteq> 0" and bs: "length bs = pp_page_size p"
  shows "pool_inv None e (set_frame p f bs) (A(pid := bs)) (insert pid M)"
proof -
  note ix = pool_inv_index [OF inv f(1)]
  define p2 where "p2 = set_frame p f bs"
  have nth: "g < pp_max p \<Longrightarrow> pp_arena p2 ! g = (if g = f then bs else pp_arena p ! g)" for g
    using inv by (simp add: p2_def set_frame_def nth_list_update pool_inv_def shape_ok_def)
  have bk: "backing e p2 q = backing e p q" for q by (simp add: p2_def backing_def set_frame_def split: option.split)
  have s: "pp_max p2 = pp_max p" "pp_index p2 = pp_index p" "length (pp_arena p2) = length (pp_arena p)" "pp_pages p2 = pp_pages p"
    "pp_hand p2 = pp_hand p" "pp_page_size p2 = pp_page_size p" "swap_ok e p2 = swap_ok e p" "pp_resident p2 = pp_resident p"
    by (simp_all add: p2_def set_frame_def swap_ok_def)
  have fr: "frame_ok e p2 (A(pid := bs)) (insert pid M) g" if "g < pp_max p" for g
  proof -
    have "frame_ok e p A M g" using inv that by (simp add: pool_inv_def)
    then show ?thesis using that f(1) ix by (auto simp: frame_ok_def Let_def nth s bk)
  qed
  show ?thesis unfolding p2_def [symmetric] using inv fr f bs by (auto simp: pool_inv_def shape_ok_def s bk nth)
qed

lemma unpin_ok:
  assumes inv: "pool_inv None e p A M" and d: "pid \<in> M \<Longrightarrow> d"
  shows "pool_inv None e (unpin_page p pid d) A (M - {pid})"
proof (cases "pp_index p pid")
  case None
  then have "pid \<notin> M" by (metis inv option.distinct(1) pool_inv_pinned)
  then show ?thesis using inv None by (simp add: unpin_page_def)
next
  case (Some f)
  note ix = pool_inv_index [OF inv Some]
  let ?m = "pp_pages p ! f"
  define m0 where "m0 = (if pm_pin_count ?m > 0 then ?m\<lparr>pm_pin_count := pm_pin_count ?m - 1\<rparr> else ?m)"
  define m1 where "m1 = (if d \<and> \<not> pm_dirty ?m then m0\<lparr>pm_dirty := True\<rparr> else m0)"
  have m: "pm_page_id m1 = pm_page_id ?m" "pm_in_use m1 = pm_in_use ?m" "pm_dirty m1 = (d \<or> pm_dirty ?m)"
    by (auto simp: m0_def m1_def)
  define n where "n = (if d \<and> \<not> pm_dirty ?m then pp_dirty p + 1 else pp_dirty p)"
  have un: "unpin_page p pid d = (set_page p f m1)\<lparr>pp_dirty := n\<rparr>"
    using Some by (simp add: unpin_page_def Let_def m0_def m1_def n_def set_page_def)
  show ?thesis unfolding un by (rule pool_inv_meta [OF inv ix(1,3)]) (use ix d in \<open>auto simp: m\<close>)
qed

lemma create_ok:
  assumes "page_pool_create e0 opts = (Some p, e)"
  shows "pool_inv None e p (\<lambda>_. replicate (pp_page_size p) 0) {}"
proof -
  define o1 where "o1 = fill_defaults opts"
  define n where "n = po_capacity o1 div po_page_size o1"
  obtain sw e1 where sw: "ensure_swap_file e0 (po_swap_path o1) = (sw, e1)" by (cases "ensure_swap_file e0 (po_swap_path o1)")
  have sz: "po_page_size o1 \<noteq> 0" "0 < n" and p: "e = e1"
    "p = \<lparr>pp_page_size = po_page_size o1, pp_capacity = po_capacity o1, pp_max = n,
             pp_arena = replicate n (replicate (po_page_size o1) 0), pp_swap = sw, pp_pages = replicate n PageMeta0,
             pp_index = Map.empty, pp_swapped = Map.empty, pp_free_slots = [], pp_next_slot = 0, pp_resident = 0, pp_dirty = 0,
             pp_bytes_in_swap = 0, pp_evictions = 0, pp_hand = 0\<rparr>"
    using assms sw by (auto simp: page_pool_create_def Let_def o1_def n_def split: if_splits)
  have "sw = Some path \<Longrightarrow> ev_files e1 path \<noteq> None" for path
    using sw by (auto simp: ensure_swap_file_def sys_unfold split: option.splits)
  then show ?thesis using sz unfolding p(1)
    by (auto simp: p(2) pool_inv_def swap_ok_def shape_ok_def frame_ok_def backing_def PageMeta0_def)
qed

lemma pool_reach_inv: "pool_reach e p A M \<Longrightarrow> pool_inv None e p A M"
proof (induction rule: pool_reach.induct)
  case (create e0 opts p e)
  then show ?case by (rule create_ok)
next
  case (fetch e p A M pid for_write r e' p')
  then show ?case using fetch_ok [of e p A M pid for_write r e' p'] by blast
next
  case (store e p A M pid f bs)
  then show ?case by (intro store_ok)
next
  case (unpin e p A M pid d)
  then show ?case by (intro unpin_ok)
next
  case (flush e p A M pid r e' p')
  then show ?case using flush_frame_ok [OF flush.IH] pool_inv_index(1) [OF flush.IH]
    by (fastforce simp: flush_page_def split: option.splits prod.splits)
next
  case (flush_all e p A M r e' p')
  have "length (pp_pages p) = pp_max p" using flush_all.IH by (simp add: pool_inv_def shape_ok_def)
  then show ?case using flush_frames_ok [OF flush_all.IH, of "[0..<length (pp_pages p)]"] flush_all.hyps(2)
    by (auto simp: flush_all_def flush_all_locked_def split: prod.splits)
qed

subsection \<open>Properties\<close>

text \<open>C5: a page fetched from the pool has the bytes its clients last stored in it (zeros
  if none did), whatever was evicted and swapped in between and whichever system
  calls failed or were short; and no other page is in that frame.\<close>

theorem PagePool_fetch:
  assumes "pool_reach e p A M" "\<And>f. pp_index p pid = Some f \<Longrightarrow> pm_pin_count (pp_pages p ! f) \<noteq> - 1"
    "fetch_page e p pid for_write = (Some (f, is_new), e', p')"
  shows "f < pp_max p' \<and> pp_arena p' ! f = A pid \<and> (\<forall>q. pp_index p' q = Some f \<longleftrightarrow> q = pid) \<and>
    ps_resident (get_stats p') = card {g. g < pp_max p' \<and> pm_in_use (pp_pages p' ! g)}"
proof -
  have F: "pool_inv None e' p' A M" "f < pp_max p'" "pp_arena p' ! f = A pid" "pp_index p' pid = Some f"
    using fetch_ok [OF pool_reach_inv [OF assms(1)] assms(2,3)] by simp_all
  have "pp_index p' q = Some f \<longleftrightarrow> q = pid" for q using pool_inv_index(4) [OF F(1)] F(4) by metis
  moreover have "pp_resident p' = card {g. g < pp_max p' \<and> pm_in_use (pp_pages p' ! g)}" using F(1) by (simp add: pool_inv_def)
  ultimately show ?thesis using F(2,3) by (simp add: get_stats_def)
qed

text \<open>When transfers are whole and succeed, a frame that is free or not pinned is enough for a
  fetch: within two turns of the clock the hand clears its reference bit and
  comes back to it, unless another frame is taken first.\<close>

definition full_calls :: "posix_env \<Rightarrow> pool \<Rightarrow> bool" where
  "full_calls e p \<longleftrightarrow> pp_swap p \<noteq> None \<and> (\<forall>t. ev_err e t = None \<and> pp_page_size p \<le> ev_chunk e t + 1)"

lemma flush_frame_succeeds:
  assumes "full_calls e p" "flush_frame_locked e p i = (b, e', p')"
  shows "b" "full_calls e' p'" "pp_hand p' = pp_hand p" "pm_ref_bit (pp_pages p' ! j) = pm_ref_bit (pp_pages p ! j)"
  using assms
  by (auto simp: full_calls_def flush_frame_locked_def write_page_to_swap_def take_slot_def sys_unfold set_page_def Let_def min_def
      nth_update_same split: if_splits)

lemma load_frame_succeeds:
  assumes "full_calls e p" "swap_ok e p"
  shows "fst (load_frame e p i pid) \<noteq> None"
proof (cases "pp_swapped p pid")
  case None
  then show ?thesis by (simp add: load_frame_def read_page_from_swap_def)
next
  case (Some slot)
  obtain path where path: "pp_swap p = Some path" using assms(1) by (auto simp: full_calls_def)
  have "(slot + 1) * pp_page_size p \<le> length (content_of e path)" using assms(2) Some path by (auto simp: swap_ok_def)
  then have "pp_page_size p \<le> length (content_of e path) - slot * pp_page_size p" by simp
  then show ?thesis using assms(1) Some path
    by (simp add: load_frame_def read_page_from_swap_def full_calls_def sys_unfold Let_def min_absorb1)
qed

lemma evict_simps [simp]: "pp_swap (evict p i pid) = pp_swap p" "pp_page_size (evict p i pid) = pp_page_size p" "swap_ok e (evict p i pid) = swap_ok e p"
  by (simp_all add: evict_def set_page_def swap_ok_def)

lemma full_calls_cong: "pp_swap q = pp_swap p \<Longrightarrow> pp_page_size q = pp_page_size p \<Longrightarrow> full_calls e q = full_calls e p"
  by (simp add: full_calls_def)

lemma clock_reaches:
  assumes "pool_inv None e p A M" "full_calls e p" "j < pp_max p" "pm_in_use (pp_pages p ! j)" "pm_pin_count (pp_pages p ! j) = 0"
    "(pp_hand p + d) mod pp_max p = j" "d < pp_max p" "d + (if pm_ref_bit (pp_pages p ! j) then pp_max p else 0) < k"
  shows "fst (clock_loop k e p pid) \<noteq> None"
  using assms
proof (induction k arbitrary: e p d)
  case (Suc k)
  let ?i = "pp_hand p"
  let ?m = "pp_pages p ! ?i" and ?p1 = "turn p"
  have i: "?i < pp_max p" and il: "length (pp_pages p) = pp_max p" using Suc.prems(1) by (simp_all add: pool_inv_def shape_ok_def)
  have inv1: "pool_inv None e ?p1 A M" using pool_inv_hand [OF Suc.prems(1), of "(?i + 1) mod pp_max p"] i by (simp add: turn_def)
  have full1: "full_calls e ?p1" using Suc.prems(2) by (simp add: full_calls_def)
  have at: "d = 0 \<Longrightarrow> ?i = j" using Suc.prems(6) i by simp
  have next1: "((?i + 1) mod pp_max p + (c - 1)) mod pp_max p = (?i + c) mod pp_max p" if "c \<noteq> 0" for c
  proof -
    have "(?i + 1) + (c - 1) = ?i + c" using that by simp
    then show ?thesis using mod_add_left_eq [of "?i + 1" "pp_max p" "c - 1"] by simp
  qed
  have off: "?i \<noteq> j" if "d \<noteq> 0"
    using that Suc.prems(6,7) i by (cases "?i + d < pp_max p") (auto simp: le_mod_geq)
  note step = clock_step [OF refl, of p]
  consider (skip) "\<not> pm_in_use ?m \<or> pm_pin_count ?m \<noteq> 0" | (ref) "pm_in_use ?m" "pm_pin_count ?m = 0" "pm_ref_bit ?m"
    | (go) "pm_in_use ?m" "pm_pin_count ?m = 0" "\<not> pm_ref_bit ?m" by blast
  then show ?case
  proof cases
    case skip
    then have d: "d \<noteq> 0" using at Suc.prems(4,5) by auto
    have "fst (clock_loop k e ?p1 pid) \<noteq> None"
      by (rule Suc.IH [OF inv1 full1, of "d - 1"]) (use Suc.prems d next1 [OF d] in auto)
    then show ?thesis using skip by (simp add: step(1) del: clock_loop.simps)
  next
    case ref
    define q where "q = set_page ?p1 ?i (?m\<lparr>pm_ref_bit := False\<rparr>)"
    have inv2: "pool_inv None e q A M" using pool_inv_ref [OF inv1, of ?i False] i ref(1) by (simp add: q_def)
    have full2: "full_calls e q" using full1 by (simp add: q_def full_calls_def set_page_def)
    have p2: "pp_max q = pp_max p" "pp_hand q = (?i + 1) mod pp_max p"
      "pp_pages q ! j = (if j = ?i then ?m\<lparr>pm_ref_bit := False\<rparr> else pp_pages p ! j)"
      using i il by (auto simp: q_def set_page_def nth_list_update)
    have "fst (clock_loop k e q pid) \<noteq> None"
    proof (cases "d = 0")
      case True
      have "((?i + 1) mod pp_max p + (pp_max p - 1)) mod pp_max p = j" using at [OF True] i next1 [of "pp_max p"] by simp
      then show ?thesis
        by (intro Suc.IH [OF inv2 full2, of "pp_max p - 1"]) (use Suc.prems(3-8) ref at [OF True] in \<open>auto simp: p2\<close>)
    next
      case False
      then show ?thesis
        by (intro Suc.IH [OF inv2 full2, of "d - 1"]) (use Suc.prems(3-8) off next1 [OF False] False in \<open>auto simp: p2\<close>)
    qed
    then show ?thesis using ref by (simp add: step(2) q_def del: clock_loop.simps)
  next
    case go
    obtain b e2 p2 where fl: "(if pm_dirty ?m then flush_frame_locked e ?p1 ?i else (True, e, ?p1)) = (b, e2, p2)"
      by (cases "(if pm_dirty ?m then flush_frame_locked e ?p1 ?i else (True, e, ?p1))")
    have "b \<and> full_calls e2 p2 \<and> swap_ok e2 p2"
      using flush_frame_succeeds(1,2) [OF full1, of ?i b e2 p2] flush_frame_ok [OF inv1, of ?i b e2 p2] fl i full1 inv1
      by (auto simp: pool_inv_def split: if_splits)
    then show ?thesis using load_frame_succeeds [of e2 "evict p2 ?i pid" ?i pid] step(3) [OF go fl] by (simp add: full_calls_def)
  qed
qed simp

text \<open>C21: a fetch gets a frame whenever some frame is free or not pinned, given that there is a
  swap file and that its reads and writes succeed and are whole.\<close>

theorem PagePool_progress:
  assumes "pool_reach e p A M" "full_calls e p" "j < pp_max p" "\<not> pm_in_use (pp_pages p ! j) \<or> pm_pin_count (pp_pages p ! j) = 0"
  shows "\<exists>f is_new e' p'. fetch_page e p pid for_write = (Some (f, is_new), e', p')"
proof -
  note inv = pool_reach_inv [OF assms(1)]
  have h: "pp_hand p < pp_max p" "length (pp_pages p) = pp_max p" "swap_ok e p" using inv by (simp_all add: pool_inv_def shape_ok_def)
  have "fst (allocate_frame_for_page e p pid) \<noteq> None"
  proof (cases "find_free p")
    case None
    then have use: "pm_in_use (pp_pages p ! j)" using find_free_None assms(3) h(2) by simp
    define d where "d = (if pp_hand p \<le> j then j - pp_hand p else j + pp_max p - pp_hand p)"
    have d: "(pp_hand p + d) mod pp_max p = j" "d < pp_max p" using h(1) assms(3) by (auto simp: d_def)
    have "fst (clock_loop (2 * length (pp_pages p)) e p pid) \<noteq> None"
      by (rule clock_reaches [OF inv assms(2,3) use _ d]) (use assms(4) use d(2) h(2) in auto)
    then show ?thesis by (simp add: allocate_frame_for_page_def None)
  next
    case (Some i)
    let ?p1 = "(set_page p i ((fresh_meta (pp_pages p ! i) pid)\<lparr>pm_in_use := True, pm_swap_slot := None\<rparr>))\<lparr>pp_resident := pp_resident p + 1\<rparr>"
    have "fst (load_frame e ?p1 i pid) \<noteq> None"
      by (rule load_frame_succeeds) (use assms(2) h(3) in \<open>simp_all add: full_calls_def swap_ok_def set_page_def\<close>)
    then show ?thesis by (simp add: allocate_frame_for_page_def Some)
  qed
  then show ?thesis by (auto simp: fetch_page_def Let_def split: option.split prod.splits)
qed

text \<open>One frame of two bytes: page 1 is stored and marked, page 2 evicts it to the swap file.\<close>

definition demo_env :: "nat \<Rightarrow> byte list \<Rightarrow> posix_env" where
  "demo_env t c = \<lparr>ev_files = [''s'' \<mapsto> c], ev_tick = t, ev_err = Map.empty, ev_chunk = (\<lambda>_. 1)\<rparr>"

definition demo_pool :: "byte list \<Rightarrow> PageMeta \<Rightarrow> pool" where
  "demo_pool a m = \<lparr>pp_page_size = 2, pp_capacity = 2, pp_max = 1, pp_arena = [a], pp_swap = Some ''s'', pp_pages = [m],
     pp_index = [pm_page_id m \<mapsto> 0], pp_swapped = (if pm_page_id m = 2 then [1 \<mapsto> 0] else Map.empty), pp_free_slots = [],
     pp_next_slot = (if pm_page_id m = 2 then 1 else 0), pp_resident = 1, pp_dirty = (if pm_dirty m then 1 else 0),
     pp_bytes_in_swap = (if pm_page_id m = 2 then 2 else 0), pp_evictions = (if pm_page_id m = 2 then 1 else 0), pp_hand = 0\<rparr>"

definition demo_meta :: "u64 \<Rightarrow> nat option \<Rightarrow> u32 \<Rightarrow> bool \<Rightarrow> PageMeta" where
  "demo_meta pid slot pins d = \<lparr>pm_page_id = pid, pm_swap_slot = slot, pm_pin_count = pins, pm_dirty = d, pm_ref_bit = True, pm_in_use = True\<rparr>"

lemmas demo_defs = demo_env_def demo_pool_def demo_meta_def

lemma replicate_2: "replicate 2 x = [x, x]"
  by (simp add: numeral_2_eq_2)

lemma clock_loop_2: "clock_loop 2 e p pid = clock_loop (Suc (Suc 0)) e p pid"
  by (simp only: numeral_2_eq_2)

lemma demo_reach:
  "pool_reach (demo_env 2 [7, 8]) (demo_pool [0, 0] (demo_meta 2 (Some 0) 0 False)) ((\<lambda>_. [0, 0])(1 := [7, 8])) {}"
proof -
  let ?Z = "\<lambda>_ :: u64. [0, 0] :: byte list" and ?o = "\<lparr>po_page_size = 2, po_capacity = 2, po_swap_path = Some ''s'', po_profile = SMALL\<rparr>"
  define p0 where "p0 = (demo_pool [0, 0] PageMeta0)\<lparr>pp_index := Map.empty, pp_resident := 0\<rparr>"
  have "page_pool_create ((demo_env 0 [])\<lparr>ev_files := Map.empty\<rparr>) ?o = (Some p0, demo_env 1 [])"
    by (simp add: page_pool_create_def fill_defaults_def ensure_swap_file_def sys_unfold p0_def demo_defs PageMeta0_def content_of_def replicate_2)
  from pool_reach.create [OF this] have 0: "pool_reach (demo_env 1 []) p0 ?Z {}" by (simp add: p0_def demo_pool_def replicate_2)
  have "fetch_page (demo_env 1 []) p0 1 False = (Some (0, True), demo_env 1 [], demo_pool [0, 0] (demo_meta 1 None 1 False))"
    by (simp add: fetch_page_def allocate_frame_for_page_def find_free_def is_free_def load_frame_def read_page_from_swap_def p0_def
        demo_defs PageMeta0_def set_page_def set_frame_def fresh_meta_def replicate_2)
  from pool_reach.fetch [OF 0 _ this] have 1: "pool_reach (demo_env 1 []) (demo_pool [0, 0] (demo_meta 1 None 1 False)) ?Z {}" by (simp add: p0_def)
  have "pool_reach (demo_env 1 []) (set_frame (demo_pool [0, 0] (demo_meta 1 None 1 False)) 0 [7, 8]) (?Z(1 := [7, 8])) {1}"
    by (rule pool_reach.store [OF 1]) (simp_all add: demo_defs)
  from pool_reach.unpin [OF this, of 1 True]
  have 2: "pool_reach (demo_env 1 []) (demo_pool [7, 8] (demo_meta 1 None 0 True)) (?Z(1 := [7, 8])) {}"
    by (simp add: unpin_page_def set_frame_def set_page_def demo_defs)
  have "fetch_page (demo_env 1 []) (demo_pool [7, 8] (demo_meta 1 None 0 True)) 2 False =
    (Some (0, True), demo_env 2 [7, 8], demo_pool [0, 0] (demo_meta 2 (Some 0) 1 False))"
    by (simp add: fetch_page_def allocate_frame_for_page_def find_free_def is_free_def load_frame_def read_page_from_swap_def demo_defs
        set_page_def set_frame_def fresh_meta_def replicate_2 flush_frame_locked_def write_page_to_swap_def take_slot_def sys_unfold
        clock_loop_2 put_bytes_def pwrite_at_def)
  from pool_reach.fetch [OF 2 _ this]
  have "pool_reach (demo_env 2 [7, 8]) (demo_pool [0, 0] (demo_meta 2 (Some 0) 1 False)) (?Z(1 := [7, 8])) {}"
    by (simp add: demo_pool_def demo_meta_def)
  from pool_reach.unpin [OF this, of 2 False]
  show ?thesis by (simp add: unpin_page_def set_page_def demo_defs)
qed

theorem PagePool_fetch_witness:
  "\<exists>e' p'. fetch_page (demo_env 2 [7, 8]) (demo_pool [0, 0] (demo_meta 2 (Some 0) 0 False)) 1 False = (Some (0, False), e', p') \<and>
     pp_arena p' ! 0 = [7, 8]"
proof -
  have ix: "pp_index (demo_pool [0, 0] (demo_meta 2 (Some 0) 0 False)) 1 = None" by (simp add: demo_pool_def demo_meta_def)
  obtain e' p' where f: "fetch_page (demo_env 2 [7, 8]) (demo_pool [0, 0] (demo_meta 2 (Some 0) 0 False)) 1 False = (Some (0, False), e', p')"
    by (simp add: fetch_page_def allocate_frame_for_page_def find_free_def is_free_def load_frame_def read_page_from_swap_def demo_defs
        set_page_def set_frame_def fresh_meta_def replicate_2 clock_loop_2 sys_unfold content_of_def)
  show ?thesis using PagePool_fetch [OF demo_reach _ f] ix f by auto
qed

theorem PagePool_progress_witness:
  "\<exists>f is_new e' p'. fetch_page (demo_env 2 [7, 8]) (demo_pool [0, 0] (demo_meta 2 (Some 0) 0 False)) 1 True = (Some (f, is_new), e', p')"
  by (rule PagePool_progress [OF demo_reach, of 0]) (simp_all add: demo_defs full_calls_def)

end
