(* ===== verification/Op_Log.thy ===== *)
theory Op_Log
  imports Posix_File
begin

text \<open>
  The logs of operations that the blob, time series and key-value engines keep with
  \<open>std::ofstream\<close> and read back with \<open>std::ifstream\<close>: the two streams, the loop that
  reads record after record until one is incomplete, and an interface for a
  record format with what any such log survives.
\<close>

subsection \<open>Streams\<close>

text \<open>An output stream that is opened, given bytes and closed.  Opening it may fail and is
  reported; the bytes go out when it is closed, and if that fails after a part of
  them nothing reports it.\<close>

definition ofs_write :: "posix_env \<Rightarrow> string \<Rightarrow> bool \<Rightarrow> byte list \<Rightarrow> bool \<times> posix_env" where
  "ofs_write e path app bs =
     (case sys e of
        (Some msg, e) \<Rightarrow> (False, e)
      | (None, e) \<Rightarrow>
          let old = (if app then content_of e path else []); w = ev_chunk e (ev_tick e) in
          (case sys e of
             (Some msg, e) \<Rightarrow> (True, e\<lparr>ev_files := (ev_files e)(path \<mapsto> old @ take w bs)\<rparr>)
           | (None, e) \<Rightarrow> (True, e\<lparr>ev_files := (ev_files e)(path \<mapsto> old @ bs)\<rparr>)))"

text \<open>What can be read from an input stream: nothing if it does not open, and the bytes before
  the failure if reading fails.\<close>

definition ifs_read :: "posix_env \<Rightarrow> string \<Rightarrow> byte list option \<times> posix_env" where
  "ifs_read e path =
     (case sys e of
        (Some msg, e) \<Rightarrow> (None, e)
      | (None, e) \<Rightarrow>
          (case ev_files e path of
             None \<Rightarrow> (None, e)
           | Some c \<Rightarrow>
               let w = ev_chunk e (ev_tick e) in
               (case sys e of (Some msg, e) \<Rightarrow> (Some (take w c), e) | (None, e) \<Rightarrow> (Some c, e))))"

text \<open>The reading loop.  \<open>parse\<close> is the body up to the end of the reads: nothing if a read
  fails or the body breaks, else the record and how many bytes were read after
  the first one.\<close>

function replay_log :: "(byte list \<Rightarrow> ('op \<times> nat) option) \<Rightarrow> ('op \<Rightarrow> 's \<Rightarrow> 's) \<Rightarrow> byte list \<Rightarrow> 's \<Rightarrow> 's" where
  "replay_log parse app bs s =
     (if bs = [] then s
      else case parse bs of
        None \<Rightarrow> s
      | Some (op, n) \<Rightarrow> replay_log parse app (drop (1 + n) bs) (app op s))"
  by pat_completeness auto
termination
  by (relation "measure (\<lambda>(_, _, bs, _). length bs)") auto

declare replay_log.simps [simp del]

lemma replay_log_Nil [simp]: "replay_log parse app [] s = s"
  by (simp add: replay_log.simps)

subsection \<open>A record format\<close>

text \<open>A format in which a whole record is read back and a part of one is not.\<close>

locale record_log =
  fixes enc :: "'op \<Rightarrow> byte list" and parse :: "byte list \<Rightarrow> ('op \<times> nat) option" and good :: "'op \<Rightarrow> bool"
  assumes enc_nonempty: "good op \<Longrightarrow> enc op \<noteq> []"
    and parse_enc: "good op \<Longrightarrow> parse (enc op @ rest) = Some (op, length (enc op) - 1)"
    and parse_cut: "good op \<Longrightarrow> k < length (enc op) \<Longrightarrow> parse (take k (enc op)) = None"
begin

lemma replay_enc: "good op \<Longrightarrow> replay_log parse app (enc op @ rest) s = replay_log parse app rest (app op s)"
  using enc_nonempty [of op] by (subst replay_log.simps) (simp add: parse_enc)

lemma replay_all:
  "\<forall>op \<in> set ops. good op \<Longrightarrow> replay_log parse app (concat (map enc ops)) s = fold app ops s"
  by (induction ops arbitrary: s) (simp_all add: replay_enc)

text \<open>The first \<open>k\<close> bytes of a log give the operations whose records they hold whole.\<close>

lemma replay_cut:
  "\<forall>op \<in> set ops. good op \<Longrightarrow> \<exists>n \<le> length ops. replay_log parse app (take k (concat (map enc ops))) s = fold app (take n ops) s \<and>
     (k \<ge> length (concat (map enc ops)) \<longrightarrow> n = length ops)"
proof (induction ops arbitrary: s k)
  case (Cons op ops)
  show ?case
  proof (cases "k < length (enc op)")
    case True
    then have "replay_log parse app (take k (concat (map enc (op # ops)))) s = s"
      using parse_cut [of op k] Cons.prems by (subst replay_log.simps) simp
    then show ?thesis using True by (intro exI [of _ 0]) simp
  next
    case False
    obtain n where n: "n \<le> length ops" "replay_log parse app (take (k - length (enc op)) (concat (map enc ops))) (app op s) = fold app (take n ops) (app op s)"
      "k - length (enc op) \<ge> length (concat (map enc ops)) \<longrightarrow> n = length ops"
      using Cons.IH [of "k - length (enc op)" "app op s"] Cons.prems by auto
    have "replay_log parse app (take k (concat (map enc (op # ops)))) s = fold app (take (Suc n) (op # ops)) s"
      using False Cons.prems n(2) by (simp add: replay_enc)
    then show ?thesis using n(1,3) False by (intro exI [of _ "Suc n"]) auto
  qed
qed simp

end

subsection \<open>Facts\<close>

lemma ofs_write_ok:
  "calls_ok e \<Longrightarrow> ofs_write e path app bs = (True, e\<lparr>ev_tick := ev_tick e + 2,
     ev_files := (ev_files e)(path \<mapsto> (if app then content_of e path else []) @ bs)\<rparr>)"
  by (simp add: ofs_write_def sys_ok Let_def calls_ok_def sys_unfold)

lemma ifs_read_ok:
  "calls_ok e \<Longrightarrow> ifs_read e path = (ev_files e path, e\<lparr>ev_tick := (if ev_files e path = None then ev_tick e + 1 else ev_tick e + 2)\<rparr>)"
  by (simp add: ifs_read_def calls_ok_def sys_unfold Let_def split: option.split)

subsection \<open>An engine with a log\<close>

text \<open>An engine that answers a request by changing its state as the record it logs says, or
  refuses it; \<open>inv\<close> holds of its states.\<close>

locale logged_engine = record_log enc parse good
  for enc :: "'op \<Rightarrow> byte list" and parse :: "byte list \<Rightarrow> ('op \<times> nat) option" and good :: "'op \<Rightarrow> bool" +
  fixes apply_op :: "'op \<Rightarrow> 's \<Rightarrow> 's" and serve :: "posix_env \<times> 's \<Rightarrow> 'r \<Rightarrow> posix_env \<times> 's" and accept :: "'s \<Rightarrow> 'r \<Rightarrow> 'op option"
    and log_path :: "'s \<Rightarrow> string" and inv :: "'s \<Rightarrow> bool"
  assumes serve_ok: "calls_ok e \<Longrightarrow> inv s \<Longrightarrow> serve (e, s) r =
      (case accept s r of
         None \<Rightarrow> (e, s)
       | Some op \<Rightarrow> (e\<lparr>ev_tick := ev_tick e + 2, ev_files := (ev_files e)(log_path s \<mapsto> content_of e (log_path s) @ enc op)\<rparr>, apply_op op s))"
    and log_path_apply: "log_path (apply_op op s) = log_path s"
    and inv_apply: "inv s \<Longrightarrow> inv (apply_op op s)"
begin

text \<open>The log holds the records of the accepted requests; the effects of the first of them are
  what some number of requests left behind.\<close>

lemma serve_log:
  assumes "calls_ok e" "inv s" "content_of e (log_path s) = c" "foldl serve (e, s) rs = (e', s')"
    "\<forall>r \<in> set rs. \<forall>s op. accept s r = Some op \<longrightarrow> good op"
  shows "\<exists>acc. content_of e' (log_path s) = c @ concat (map enc acc) \<and> (\<forall>op \<in> set acc. good op) \<and> s' = fold apply_op acc s \<and>
    calls_ok e' \<and> (\<forall>n \<le> length acc. \<exists>m \<le> length rs. fold apply_op (take n acc) s = snd (foldl serve (e, s) (take m rs)))"
  using assms
proof (induction rs arbitrary: e s c)
  case Nil
  then show ?case by (intro exI [of _ "[]"]) auto
next
  case (Cons r rs)
  show ?case
  proof (cases "accept s r")
    case None
    then have skip: "serve (e, s) r = (e, s)" using serve_ok [OF Cons.prems(1,2)] by simp
    obtain acc where acc: "content_of e' (log_path s) = c @ concat (map enc acc)" "\<forall>op \<in> set acc. good op" "s' = fold apply_op acc s" "calls_ok e'"
      "\<forall>n \<le> length acc. \<exists>m \<le> length rs. fold apply_op (take n acc) s = snd (foldl serve (e, s) (take m rs))"
      using Cons.IH [OF Cons.prems(1-3)] Cons.prems(4,5) skip by auto
    have "\<exists>m \<le> length (r # rs). fold apply_op (take n acc) s = snd (foldl serve (e, s) (take m (r # rs)))" if n: "n \<le> length acc" for n
    proof -
      obtain m where "m \<le> length rs" "fold apply_op (take n acc) s = snd (foldl serve (e, s) (take m rs))" using acc(5) n by blast
      then show ?thesis using skip by (intro exI [of _ "Suc m"]) simp
    qed
    then show ?thesis using acc by (intro exI [of _ acc]) auto
  next
    case (Some op)
    let ?s1 = "apply_op op s"
    define e1 where "e1 = e\<lparr>ev_tick := ev_tick e + 2, ev_files := (ev_files e)(log_path s \<mapsto> c @ enc op)\<rparr>"
    have step: "serve (e, s) r = (e1, ?s1)" using serve_ok [OF Cons.prems(1,2)] Some Cons.prems(3) by (simp add: e1_def)
    have e1: "calls_ok e1" "inv ?s1" "content_of e1 (log_path ?s1) = c @ enc op"
      using Cons.prems(1,2) inv_apply log_path_apply by (simp_all add: e1_def calls_ok_def content_of_def)
    obtain acc where acc: "content_of e' (log_path s) = (c @ enc op) @ concat (map enc acc)" "\<forall>op \<in> set acc. good op" "s' = fold apply_op acc ?s1" "calls_ok e'"
      "\<forall>n \<le> length acc. \<exists>m \<le> length rs. fold apply_op (take n acc) ?s1 = snd (foldl serve (e1, ?s1) (take m rs))"
      using Cons.IH [OF e1] Cons.prems(4,5) step log_path_apply by auto
    have "\<exists>m \<le> length (r # rs). fold apply_op (take n (op # acc)) s = snd (foldl serve (e, s) (take m (r # rs)))" if n: "n \<le> length (op # acc)" for n
    proof (cases n)
      case 0
      then show ?thesis by (intro exI [of _ 0]) simp
    next
      case (Suc n')
      then obtain m where "m \<le> length rs" "fold apply_op (take n' acc) ?s1 = snd (foldl serve (e1, ?s1) (take m rs))" using acc(5) n by auto
      then show ?thesis using step Suc by (intro exI [of _ "Suc m"]) simp
    qed
    moreover have "good op" using Some Cons.prems(5) by auto
    ultimately show ?thesis using acc by (intro exI [of _ "op # acc"]) auto
  qed
qed

text \<open>Reading the first \<open>k\<close> bytes of the log gives a state the engine was in.\<close>

lemma recovers:
  assumes "calls_ok e" "inv s" "content_of e (log_path s) = []" "foldl serve (e, s) rs = (e', s')"
    "\<forall>r \<in> set rs. \<forall>s op. accept s r = Some op \<longrightarrow> good op"
  shows "calls_ok e' \<and> (\<exists>m \<le> length rs. replay_log parse apply_op (take k (content_of e' (log_path s))) s = snd (foldl serve (e, s) (take m rs)) \<and>
    (k \<ge> length (content_of e' (log_path s)) \<longrightarrow> m = length rs))"
proof -
  obtain acc where acc: "content_of e' (log_path s) = concat (map enc acc)" "\<forall>op \<in> set acc. good op" "s' = fold apply_op acc s" "calls_ok e'"
    "\<forall>n \<le> length acc. \<exists>m \<le> length rs. fold apply_op (take n acc) s = snd (foldl serve (e, s) (take m rs))"
    using serve_log [OF assms] by auto
  from replay_cut [OF acc(2), of apply_op k s]
  obtain n where n: "n \<le> length acc" "replay_log parse apply_op (take k (content_of e' (log_path s))) s = fold apply_op (take n acc) s"
    "k \<ge> length (content_of e' (log_path s)) \<longrightarrow> n = length acc" using acc(1) by auto
  show ?thesis
  proof (cases "k \<ge> length (content_of e' (log_path s))")
    case True
    then show ?thesis using n acc(3,4) assms(4) by (intro conjI exI [of _ "length rs"]) auto
  next
    case False
    then show ?thesis using n acc(4,5) by auto
  qed
qed

end

end
