(* ===== verification/Log_Engines.thy ===== *)
theory Log_Engines
  imports Op_Log "HOL-Library.Multiset"
begin

text \<open>
  The engines that keep a map in memory and a log of its changes: blobs
  (\<open>core/blob/blob_engine.cc\<close>), time series (\<open>core/timeseries/timeseries_engine.cc\<close>) and
  key-value pairs (\<open>core/keyvalue/keyvalue_engine.cc\<close>).  Sizes are 64-bit words as in the
  source; a log record has 32-bit lengths, so the theorems ask for data
  shorter than \<open>2 ^ 32\<close> bytes.
\<close>

subsection \<open>BlobEngine\<close>

record blob_engine =
  be_path :: string
  be_max :: u64
  be_cur :: u64
  be_blobs :: "u64 \<rightharpoonup> byte list"

definition BlobEngine :: "string \<Rightarrow> u64 \<Rightarrow> blob_engine" where
  "BlobEngine path cap = \<lparr>be_path = path, be_max = cap, be_cur = 0, be_blobs = Map.empty\<rparr>"

datatype blob_op = BlobPut u64 "byte list" | BlobDel u64

definition blob_size :: "blob_engine \<Rightarrow> u64 \<Rightarrow> u64" where
  "blob_size s i = (case be_blobs s i of None \<Rightarrow> 0 | Some b \<Rightarrow> of_nat (length b))"

fun blob_record :: "blob_op \<Rightarrow> byte list" where
  "blob_record (BlobPut i d) = 1 # u64_bytes i @ u32_bytes (of_nat (length d)) @ d"
| "blob_record (BlobDel i) = 2 # u64_bytes i @ u32_bytes 0"

definition blob_parse :: "byte list \<Rightarrow> (blob_op \<times> nat) option" where
  "blob_parse bs =
     (if length bs < 1 + 8 + 4 then None
      else
        let op = bs ! 0; i = bytes_u64 (drop 1 bs); sz = unat (bytes_u32 (drop 9 bs)) in
        if op = 1 then (if length (drop 13 bs) < sz then None else Some (BlobPut i (take sz (drop 13 bs)), 12 + sz))
        else if op = 2 then Some (BlobDel i, 12)
        else None)"

fun blob_apply :: "blob_op \<Rightarrow> blob_engine \<Rightarrow> blob_engine" where
  "blob_apply (BlobPut i d) s = s\<lparr>be_cur := be_cur s - blob_size s i + of_nat (length d), be_blobs := (be_blobs s)(i \<mapsto> d)\<rparr>"
| "blob_apply (BlobDel i) s = s\<lparr>be_cur := be_cur s - blob_size s i, be_blobs := (be_blobs s)(i := None)\<rparr>"

definition be_Open :: "posix_env \<Rightarrow> blob_engine \<Rightarrow> status \<times> posix_env \<times> blob_engine" where
  "be_Open e s =
     (case fs_create_directories e (be_path s) of
        (True, e) \<Rightarrow> (IOError ''blob create dir failed'', e, s)
      | (False, e) \<Rightarrow>
          (case ifs_read e (be_path s @ ''/blob.log'') of
             (None, e) \<Rightarrow> (Ok, e, s)
           | (Some c, e) \<Rightarrow> (Ok, e, replay_log blob_parse blob_apply c s)))"

definition blob_append :: "posix_env \<Rightarrow> blob_engine \<Rightarrow> blob_op \<Rightarrow> status \<times> posix_env \<times> blob_engine" where
  "blob_append e s op =
     (case ofs_write e (be_path s @ ''/blob.log'') True (blob_record op) of
        (ok, e) \<Rightarrow> (if ok then Ok else IOError ''blob append failed'', e, s))"

definition be_Put :: "posix_env \<Rightarrow> blob_engine \<Rightarrow> u64 \<Rightarrow> byte list \<Rightarrow> status \<times> posix_env \<times> blob_engine" where
  "be_Put e s i d =
     (if be_max s > 0 \<and> be_cur s - blob_size s i + of_nat (length d) > be_max s
      then (ResourceExhausted ''blob memory cap exceeded'', e, s)
      else blob_append e (blob_apply (BlobPut i d) s) (BlobPut i d))"

definition be_Get :: "blob_engine \<Rightarrow> u64 \<Rightarrow> status \<times> byte list option" where
  "be_Get s i = (case be_blobs s i of None \<Rightarrow> (NotFound ''blob not found'', None) | Some b \<Rightarrow> (Ok, Some b))"

definition be_Delete :: "posix_env \<Rightarrow> blob_engine \<Rightarrow> u64 \<Rightarrow> status \<times> posix_env \<times> blob_engine" where
  "be_Delete e s i = blob_append e (blob_apply (BlobDel i) s) (BlobDel i)"

subsection \<open>TimeSeriesEngine\<close>

text \<open>A point is a timestamp and the bits of a value.\<close>

record ts_engine =
  te_path :: string
  te_max :: nat
  te_data :: "u64 \<rightharpoonup> (u64 \<times> float64) list"

definition TimeSeriesEngine :: "string \<Rightarrow> nat \<Rightarrow> ts_engine" where
  "TimeSeriesEngine path n = \<lparr>te_path = path, te_max = n, te_data = Map.empty\<rparr>"

definition ts_series :: "ts_engine \<Rightarrow> u64 \<Rightarrow> (u64 \<times> float64) list" where
  "ts_series s sid = (case te_data s sid of None \<Rightarrow> [] | Some v \<Rightarrow> v)"

definition ts_cap :: "nat \<Rightarrow> 'a list \<Rightarrow> 'a list" where
  "ts_cap n v = (if n > 0 \<and> length v > n then drop (length v - n) v else v)"

definition ts_parse :: "byte list \<Rightarrow> ((u64 \<times> u64 \<times> float64) \<times> nat) option" where
  "ts_parse bs = (if length bs < 8 + 8 + 8 then None else Some ((bytes_u64 bs, bytes_u64 (drop 8 bs), bytes_u64 (drop 16 bs)), 23))"

fun ts_load :: "u64 \<times> u64 \<times> float64 \<Rightarrow> ts_engine \<Rightarrow> ts_engine" where
  "ts_load (sid, ts, v) s = s\<lparr>te_data := (te_data s)(sid \<mapsto> ts_cap (te_max s) (ts_series s sid @ [(ts, v)]))\<rparr>"

definition te_Open :: "posix_env \<Rightarrow> ts_engine \<Rightarrow> status \<times> posix_env \<times> ts_engine" where
  "te_Open e s =
     (case fs_create_directories e (te_path s) of
        (True, e) \<Rightarrow> (IOError ''timeseries create dir failed'', e, s)
      | (False, e) \<Rightarrow>
          (case ifs_read e (te_path s @ ''/timeseries.log'') of
             (None, e) \<Rightarrow> (Ok, e, s)
           | (Some c, e) \<Rightarrow> (Ok, e, replay_log ts_parse ts_load c s)))"

text \<open>\<open>std::sort\<close> by timestamp is the parameter \<open>srt\<close>: it may order points of the same time
  either way.\<close>

definition ts_insert :: "((u64 \<times> float64) list \<Rightarrow> (u64 \<times> float64) list) \<Rightarrow> (u64 \<times> float64) list \<Rightarrow> u64 \<Rightarrow> float64 \<Rightarrow> (u64 \<times> float64) list" where
  "ts_insert srt v ts x =
     (if v \<noteq> [] then (if ts < fst (last v) then srt (v @ [(ts, x)]) else v @ [(ts, x)]) else v @ [(ts, x)])"

definition ts_record :: "u64 \<times> u64 \<times> float64 \<Rightarrow> byte list" where
  "ts_record = (\<lambda>(sid, ts, x). u64_bytes sid @ u64_bytes ts @ u64_bytes x)"

definition te_Put :: "((u64 \<times> float64) list \<Rightarrow> (u64 \<times> float64) list) \<Rightarrow> posix_env \<Rightarrow> ts_engine \<Rightarrow> u64 \<Rightarrow> u64 \<Rightarrow> float64 \<Rightarrow>
    status \<times> posix_env \<times> ts_engine" where
  "te_Put srt e s sid ts x =
     (let s = s\<lparr>te_data := (te_data s)(sid \<mapsto> ts_cap (te_max s) (ts_insert srt (ts_series s sid) ts x))\<rparr> in
      case ofs_write e (te_path s @ ''/timeseries.log'') True (ts_record (sid, ts, x)) of
        (ok, e) \<Rightarrow> (if ok then Ok else IOError ''timeseries append failed'', e, s))"

definition te_Range :: "ts_engine \<Rightarrow> u64 \<Rightarrow> u64 \<Rightarrow> u64 \<Rightarrow> status \<times> (u64 \<times> float64) list" where
  "te_Range s sid a b = (Ok, filter (\<lambda>p. fst p \<ge> a \<and> fst p \<le> b) (ts_series s sid))"

subsection \<open>Blobs survive\<close>

text \<open>A run of requests: the environment and the engine after it.\<close>

fun be_do :: "posix_env \<times> blob_engine \<Rightarrow> blob_op \<Rightarrow> posix_env \<times> blob_engine" where
  "be_do (e, s) (BlobPut i d) = snd (be_Put e s i d)"
| "be_do (e, s) (BlobDel i) = snd (be_Delete e s i)"

definition be_run :: "posix_env \<times> blob_engine \<Rightarrow> blob_op list \<Rightarrow> posix_env \<times> blob_engine" where
  "be_run = foldl be_do"

fun blob_ok :: "blob_op \<Rightarrow> bool" where
  "blob_ok (BlobPut i d) \<longleftrightarrow> length d < 2 ^ 32"
| "blob_ok (BlobDel i) \<longleftrightarrow> True"

lemma blob_log_law: "record_log blob_record blob_parse blob_ok"
proof
  fix op rest k
  assume ok: "blob_ok op"
  show "blob_record op \<noteq> []" by (cases op) simp_all
  show "blob_parse (blob_record op @ rest) = Some (op, length (blob_record op) - 1)"
    using ok by (cases op) (simp_all add: blob_parse_def codec unat_of_nat)
  show "blob_parse (take k (blob_record op)) = None" if "k < length (blob_record op)"
  proof (cases "k < 13")
    case True
    then have "min (length (blob_record op)) k < 13" by simp
    then show ?thesis by (simp add: blob_parse_def)
  next
    case False
    then obtain j where k: "k = Suc (12 + j)" using nat_le_iff_add [of 13 k] by auto
    show ?thesis
    proof (cases op)
      case (BlobPut i d)
      have "take k (blob_record op) = 1 # u64_bytes i @ u32_bytes (of_nat (length d)) @ take j d" by (simp add: BlobPut k take_Cons')
      then show ?thesis using that ok k BlobPut by (simp add: blob_parse_def codec unat_of_nat)
    qed (use that k in simp)
  qed
qed

definition be_accept :: "blob_engine \<Rightarrow> blob_op \<Rightarrow> blob_op option" where
  "be_accept s op = (case op of
     BlobPut i d \<Rightarrow> if be_max s > 0 \<and> be_cur s - blob_size s i + of_nat (length d) > be_max s then None else Some op
   | BlobDel i \<Rightarrow> Some op)"

interpretation blobs: logged_engine blob_record blob_parse blob_ok blob_apply be_do be_accept
  "\<lambda>s. be_path s @ ''/blob.log''" "\<lambda>s. True"
proof (intro logged_engine.intro blob_log_law logged_engine_axioms.intro)
  fix e s r op
  show "be_path (blob_apply op s) @ ''/blob.log'' = be_path s @ ''/blob.log''" by (cases op) simp_all
  assume "calls_ok e"
  then show "be_do (e, s) r = (case be_accept s r of None \<Rightarrow> (e, s)
      | Some op \<Rightarrow> (e\<lparr>ev_tick := ev_tick e + 2, ev_files := (ev_files e)(be_path s @ ''/blob.log'' \<mapsto>
          content_of e (be_path s @ ''/blob.log'') @ blob_record op)\<rparr>, blob_apply op s))"
    by (cases r) (simp_all add: be_Put_def be_Delete_def be_accept_def blob_append_def ofs_write_ok)
qed simp

text \<open>C14: a crash that cuts the blob log anywhere brings the engine back, on the next
  \<open>Open\<close>, to a state it was in after some of its first requests, byte count
  included; with the log whole, to its last state.\<close>

theorem Blob_recovers:
  assumes "calls_ok e" "ev_files e (path @ ''/blob.log'') = None" "\<forall>op \<in> set ops. blob_ok op" "be_run (e, BlobEngine path cap) ops = (e', s')"
  shows "\<exists>m \<le> length ops. \<exists>e2.
    be_Open (e'\<lparr>ev_files := (ev_files e')(path @ ''/blob.log'' \<mapsto> take k (content_of e' (path @ ''/blob.log'')))\<rparr>) (BlobEngine path cap)
      = (Ok, e2, snd (be_run (e, BlobEngine path cap) (take m ops))) \<and>
    (k \<ge> length (content_of e' (path @ ''/blob.log'')) \<longrightarrow> m = length ops)"
proof -
  let ?p = "path @ ''/blob.log''" and ?s = "BlobEngine path cap"
  have bp: "be_path ?s = path" by (simp add: BlobEngine_def)
  have good: "\<forall>r \<in> set ops. \<forall>s op. be_accept s r = Some op \<longrightarrow> blob_ok op"
    using assms(3) by (auto simp: be_accept_def split: blob_op.splits if_splits)
  have "content_of e (be_path ?s @ ''/blob.log'') = []" using assms(2) by (simp add: bp content_of_def)
  from blobs.recovers [OF assms(1) TrueI this assms(4) [unfolded be_run_def] good, of k]
  obtain m where m: "calls_ok e'" "m \<le> length ops" "replay_log blob_parse blob_apply (take k (content_of e' ?p)) ?s = snd (be_run (e, ?s) (take m ops))"
    "k \<ge> length (content_of e' ?p) \<longrightarrow> m = length ops" by (auto simp: bp be_run_def)
  define e1 where "e1 = e'\<lparr>ev_files := (ev_files e')(?p \<mapsto> take k (content_of e' ?p))\<rparr>"
  have "calls_ok e1" "ev_files e1 ?p = Some (take k (content_of e' ?p))" using m(1) by (simp_all add: e1_def calls_ok_def)
  then have "\<exists>e2. be_Open e1 ?s = (Ok, e2, snd (be_run (e, ?s) (take m ops)))"
    using m(3) by (simp add: be_Open_def fs_create_directories_def bp sys_unfold ifs_read_ok calls_ok_def)
  then show ?thesis using m(2,4) unfolding e1_def by auto
qed

definition env_streams :: posix_env where
  "env_streams = \<lparr>ev_files = Map.empty, ev_tick = 0, ev_err = Map.empty, ev_chunk = (\<lambda>_. 0)\<rparr>"

theorem Blob_recovers_witness:
  "\<exists>e' s' m e2. be_run (env_streams, BlobEngine ''d'' 4) [BlobPut 1 [5, 6], BlobPut 2 [7, 8, 9], BlobDel 1] = (e', s') \<and>
     be_Open (e'\<lparr>ev_files := (ev_files e')(''d'' @ ''/blob.log'' \<mapsto> take 20 (content_of e' (''d'' @ ''/blob.log'')))\<rparr>) (BlobEngine ''d'' 4) =
       (Ok, e2, snd (be_run (env_streams, BlobEngine ''d'' 4) (take m [BlobPut 1 [5, 6], BlobPut 2 [7, 8, 9], BlobDel 1])))"
proof -
  let ?ops = "[BlobPut 1 [5, 6], BlobPut 2 [7, 8, 9], BlobDel 1]"
  obtain e' s' where r: "be_run (env_streams, BlobEngine ''d'' 4) ?ops = (e', s')" by (cases "be_run (env_streams, BlobEngine ''d'' 4) ?ops")
  have "calls_ok env_streams" "ev_files env_streams (''d'' @ ''/blob.log'') = None" "\<forall>op \<in> set ?ops. blob_ok op"
    by (simp_all add: env_streams_def calls_ok_def)
  from Blob_recovers [OF this r, of 20] r show ?thesis by blast
qed

subsection \<open>Time series are ordered\<close>

definition ts_sorts :: "((u64 \<times> float64) list \<Rightarrow> (u64 \<times> float64) list) \<Rightarrow> bool" where
  "ts_sorts srt \<longleftrightarrow> (\<forall>v. mset (srt v) = mset v \<and> sorted (map fst (srt v)))"

fun te_puts :: "((u64 \<times> float64) list \<Rightarrow> (u64 \<times> float64) list) \<Rightarrow> posix_env \<times> ts_engine \<Rightarrow> (u64 \<times> u64 \<times> float64) list \<Rightarrow> posix_env \<times> ts_engine" where
  "te_puts srt (e, s) [] = (e, s)"
| "te_puts srt (e, s) ((sid, ts, x) # ps) = te_puts srt (snd (te_Put srt e s sid ts x)) ps"

lemma insort_suffix:
  "sorted (L @ K) \<Longrightarrow> drop (length (L @ K) + 1 - length K) (insort x (L @ K)) = drop 1 (insort (x :: 'a :: linorder) K)"
proof (induction L)
  case (Cons l L)
  show ?case
  proof (cases "x \<le> l")
    case True
    have "insort x K = x # K" using Cons.prems True by (intro insort_is_Cons) (auto intro: order.trans [of x l])
    then show ?thesis using True by simp
  next
    case False
    then show ?thesis using Cons by (simp add: Suc_diff_le)
  qed
qed simp

lemma ts_cap_insort:
  assumes "sorted (S :: 'a :: linorder list)"
  shows "ts_cap n (insort x (ts_cap n S)) = ts_cap n (insort x S)"
proof (cases "n > 0 \<and> length S > n")
  case True
  then show ?thesis using insort_suffix [of "take (length S - n) S" "drop (length S - n) S" x] assms
    by (simp add: ts_cap_def)
qed (auto simp: ts_cap_def)

lemma ts_insert_facts:
  assumes "ts_sorts srt" "sorted (map fst v)"
  shows "mset (ts_insert srt v ts x) = add_mset (ts, x) (mset v)" "map fst (ts_insert srt v ts x) = insort ts (map fst v)"
proof -
  show m: "mset (ts_insert srt v ts x) = add_mset (ts, x) (mset v)" using assms(1) by (simp add: ts_insert_def ts_sorts_def)
  have "sorted (map fst (ts_insert srt v ts x))"
  proof (cases "v = [] \<or> \<not> ts < fst (last v)")
    case True
    have "fst y \<le> ts" if "y \<in> set v" for y
    proof -
      have "fst y \<le> fst (last v)" using assms(2) that by (cases v rule: rev_cases) (auto simp: sorted_append)
      then show ?thesis using True that by auto
    qed
    then show ?thesis using True assms(2) by (auto simp: ts_insert_def sorted_append)
  next
    case False
    then show ?thesis using assms(1) by (simp add: ts_insert_def ts_sorts_def)
  qed
  moreover have "mset (map fst (ts_insert srt v ts x)) = mset (insort ts (map fst v))" by (simp add: m)
  ultimately show "map fst (ts_insert srt v ts x) = insort ts (map fst v)"
    using assms(2) by (metis properties_for_sort sorted_insort sorted_sort_id)
qed

text \<open>What a series holds after a run: the latest timestamps of the points put into it, in
  order; and all the points, when there is no limit.\<close>

definition points_of :: "u64 \<Rightarrow> (u64 \<times> u64 \<times> float64) list \<Rightarrow> (u64 \<times> float64) list" where
  "points_of sid ps = map snd (filter (\<lambda>p. fst p = sid) ps)"

definition series_ok :: "ts_engine \<Rightarrow> (u64 \<times> u64 \<times> float64) list \<Rightarrow> bool" where
  "series_ok s ps \<longleftrightarrow> (\<forall>sid. map fst (ts_series s sid) = ts_cap (te_max s) (sort (map fst (points_of sid ps))) \<and>
     mset (ts_series s sid) \<subseteq># mset (points_of sid ps) \<and> (te_max s = 0 \<longrightarrow> mset (ts_series s sid) = mset (points_of sid ps)))"

lemma map_ts_cap: "map f (ts_cap n v) = ts_cap n (map f v)"
  by (simp add: ts_cap_def drop_map)

lemma sorted_ts_cap: "sorted v \<Longrightarrow> sorted (ts_cap n v)"
  by (simp add: ts_cap_def sorted_wrt_drop)

lemma mset_ts_cap: "mset (ts_cap n v) \<subseteq># mset v"
  by (simp add: ts_cap_def mset_subset_eq_exists_conv) (metis append_take_drop_id mset_append union_commute)

lemma sort_snoc: "sort (xs @ [x]) = insort x (sort xs)"
  by (rule properties_for_sort) (simp_all add: sorted_insort)

lemma te_Put_series_ok:
  assumes srt: "ts_sorts srt" and ok: "series_ok s ps" and p: "te_Put srt e s sid ts x = (st, e', s')"
  shows "series_ok s' (ps @ [(sid, ts, x)]) \<and> te_max s' = te_max s"
proof -
  let ?v = "ts_series s sid"
  have s': "te_max s' = te_max s" "ts_series s' q = (if q = sid then ts_cap (te_max s) (ts_insert srt ?v ts x) else ts_series s q)" for q
    using p by (auto simp: te_Put_def Let_def ts_series_def split: prod.splits)
  have o: "map fst ?v = ts_cap (te_max s) (sort (map fst (points_of sid ps)))" "mset ?v \<subseteq># mset (points_of sid ps)"
    "te_max s = 0 \<longrightarrow> mset ?v = mset (points_of sid ps)" using ok by (auto simp: series_ok_def)
  have sv: "sorted (map fst ?v)" unfolding o(1) by (simp add: sorted_ts_cap)
  note I = ts_insert_facts [OF srt sv]
  have pts: "points_of q (ps @ [(sid, ts, x)]) = points_of q ps @ (if q = sid then [(ts, x)] else [])" for q by (simp add: points_of_def)
  have "map fst (ts_series s' sid) = ts_cap (te_max s) (insort ts (sort (map fst (points_of sid ps))))"
    using s' ts_cap_insort [of "sort (map fst (points_of sid ps))" "te_max s" ts] by (simp add: map_ts_cap I(2) o(1))
  moreover have "insort ts (sort (map fst (points_of sid ps))) = sort (map fst (points_of sid (ps @ [(sid, ts, x)])))"
    by (simp add: pts sort_snoc)
  moreover have "mset (ts_series s' sid) \<subseteq># mset (points_of sid (ps @ [(sid, ts, x)]))"
    using o(2) subset_mset.order_trans [OF mset_ts_cap [of "te_max s" "ts_insert srt ?v ts x"]] by (simp add: s' I(1) pts)
  moreover have "te_max s = 0 \<longrightarrow> mset (ts_series s' sid) = mset (points_of sid (ps @ [(sid, ts, x)]))"
    using o(3) by (simp add: s' I(1) pts ts_cap_def)
  ultimately show ?thesis using ok by (auto simp: series_ok_def s' pts)
qed

lemma te_puts_series_ok:
  "ts_sorts srt \<Longrightarrow> series_ok s ps \<Longrightarrow> te_puts srt (e, s) qs = (e', s') \<Longrightarrow> series_ok s' (ps @ qs) \<and> te_max s' = te_max s"
proof (induction srt "(e, s)" qs arbitrary: e s ps rule: te_puts.induct)
  case (2 srt e s sid ts x qs)
  obtain st e1 s1 where p: "te_Put srt e s sid ts x = (st, e1, s1)" by (cases "te_Put srt e s sid ts x")
  have "series_ok s1 (ps @ [(sid, ts, x)]) \<and> te_max s1 = te_max s" by (rule te_Put_series_ok [OF 2(2,3) p])
  then show ?case using "2.hyps" [of e1 s1 "ps @ [(sid, ts, x)]"] "2.prems" p by simp
qed simp

interpretation series: record_log ts_record ts_parse "\<lambda>_. True"
proof
  fix op rest k
  show "ts_record op \<noteq> []" "ts_parse (ts_record op @ rest) = Some (op, length (ts_record op) - 1)"
    by (cases op; simp add: ts_record_def ts_parse_def codec length_0_conv [symmetric] del: length_0_conv)+
  have "length (ts_record op) = 24" by (cases op) (simp add: ts_record_def)
  then show "k < length (ts_record op) \<Longrightarrow> ts_parse (take k (ts_record op)) = None" by (simp add: ts_parse_def)
qed

lemma te_puts_log:
  assumes "calls_ok e" "content_of e (te_path s @ ''/timeseries.log'') = c" "te_puts srt (e, s) ps = (e', s')"
  shows "calls_ok e' \<and> content_of e' (te_path s @ ''/timeseries.log'') = c @ concat (map ts_record ps) \<and>
    (ps \<noteq> [] \<longrightarrow> ev_files e' (te_path s @ ''/timeseries.log'') \<noteq> None)"
  using assms
proof (induction srt "(e, s)" ps arbitrary: e s c rule: te_puts.induct)
  case (2 srt e s sid ts x ps)
  let ?p = "te_path s @ ''/timeseries.log''"
  define e1 where "e1 = e\<lparr>ev_tick := ev_tick e + 2, ev_files := (ev_files e)(?p \<mapsto> c @ ts_record (sid, ts, x))\<rparr>"
  obtain s1 where p: "te_Put srt e s sid ts x = (Ok, e1, s1)" "te_path s1 = te_path s"
    using "2.prems"(1,2) by (simp add: te_Put_def Let_def ofs_write_ok e1_def)
  have "calls_ok e1" "content_of e1 (te_path s1 @ ''/timeseries.log'') = c @ ts_record (sid, ts, x)"
    using "2.prems"(1) p(2) by (simp_all add: e1_def calls_ok_def content_of_def)
  from "2.hyps" [OF _ this] "2.prems"(3) p
  show ?case by (cases "ps = []") (auto simp: e1_def)
qed simp

lemma ts_cap_append: "ts_cap n (ts_cap n a @ b) = ts_cap n (a @ b)"
  by (auto simp: ts_cap_def add.commute)

lemma fold_ts_load:
  "te_max (fold ts_load ps (TimeSeriesEngine path n)) = n \<and> ts_series (fold ts_load ps (TimeSeriesEngine path n)) sid = ts_cap n (points_of sid ps)"
proof (induction ps rule: rev_induct)
  case Nil
  then show ?case by (simp add: TimeSeriesEngine_def ts_series_def points_of_def ts_cap_def)
next
  case (snoc p ps)
  obtain q ts x where "p = (q, ts, x)" by (cases p)
  then show ?case using snoc by (auto simp: ts_series_def points_of_def ts_cap_append)
qed

text \<open>C24: On an engine that was opened in a directory without a log, after any \<open>Put\<close>s, \<open>Range\<close> returns, in order of time, the points of a
  series whose time is in the range; with a limit on the points of a series, those among its latest ones.  I/O errors of \<open>Put\<close> do not
  affect it.  An engine that was opened on an existing log is excluded: it has the points in the order in which they were put.\<close>

theorem TimeSeries_Range:
  assumes "ts_sorts srt" "ev_files e (path @ ''/timeseries.log'') = None" "te_Open e (TimeSeriesEngine path n) = (Ok, e0, s0)"
    "te_puts srt (e0, s0) ps = (e', s')" "te_Range s' sid a b = (st, out)"
  shows "st = Ok \<and> map fst out = filter (\<lambda>t. a \<le> t \<and> t \<le> b) (ts_cap n (sort (map fst (points_of sid ps)))) \<and>
    set out \<subseteq> set (points_of sid ps) \<and> (n = 0 \<longrightarrow> mset out = mset (filter (\<lambda>p. a \<le> fst p \<and> fst p \<le> b) (points_of sid ps)))"
proof -
  have s0: "s0 = TimeSeriesEngine path n" using assms(2,3)
    by (auto simp: te_Open_def TimeSeriesEngine_def fs_create_directories_def ifs_read_def sys_unfold split: option.splits prod.splits if_splits)
  have "series_ok (TimeSeriesEngine path n) []"
    by (simp add: series_ok_def TimeSeriesEngine_def ts_series_def points_of_def ts_cap_def)
  from te_puts_series_ok [OF assms(1) this assms(4) [unfolded s0]]
  have S: "map fst (ts_series s' sid) = ts_cap n (sort (map fst (points_of sid ps)))" "mset (ts_series s' sid) \<subseteq># mset (points_of sid ps)"
    "n = 0 \<longrightarrow> mset (ts_series s' sid) = mset (points_of sid ps)"
    by (auto simp: series_ok_def TimeSeriesEngine_def)
  have out: "st = Ok" "out = filter (\<lambda>p. a \<le> fst p \<and> fst p \<le> b) (ts_series s' sid)" using assms(5) by (auto simp: te_Range_def)
  have "map fst out = filter (\<lambda>t. a \<le> t \<and> t \<le> b) (map fst (ts_series s' sid))" by (simp add: out(2) filter_map comp_def)
  then show ?thesis using S out set_mset_mono [OF S(2)] by auto
qed

lemma ts_sorts_sort_key: "ts_sorts (sort_key fst)"
  by (simp add: ts_sorts_def)

theorem TimeSeries_Range_witness:
  "\<exists>e0 s0. te_Open env_streams (TimeSeriesEngine ''d'' 2) = (Ok, e0, s0) \<and>
     map fst (snd (te_Range (snd (te_puts (sort_key fst) (e0, s0) [(1, 10, 7), (1, 5, 8), (2, 1, 9), (1, 12, 6)])) 1 11 20)) = [12]"
proof -
  let ?ps = "[(1, 10, 7), (1, 5, 8), (2, 1, 9), (1, 12, 6)] :: (u64 \<times> u64 \<times> float64) list"
  have n: "ev_files env_streams (''d'' @ ''/timeseries.log'') = None" by (simp add: env_streams_def)
  obtain e0 s0 where h: "te_Open env_streams (TimeSeriesEngine ''d'' 2) = (Ok, e0, s0)"
    by (auto simp: te_Open_def TimeSeriesEngine_def fs_create_directories_def sys_unfold ifs_read_ok env_streams_def calls_ok_def)
  obtain e' s' where p: "te_puts (sort_key fst) (e0, s0) ?ps = (e', s')" by (cases "te_puts (sort_key fst) (e0, s0) ?ps")
  obtain st out where o: "te_Range s' 1 11 20 = (st, out)" by (cases "te_Range s' 1 11 20")
  have "ts_cap 2 (sort (map fst (points_of 1 ?ps))) = [10, 12]" by (simp add: points_of_def ts_cap_def)
  then show ?thesis using TimeSeries_Range [OF ts_sorts_sort_key n h p o] h p o by simp
qed

text \<open>Reopening a time series engine gives, for each series, the points put last, in the
  order they were put.  These need not be the latest ones, nor be in order of time.\<close>

theorem TimeSeries_reopen:
  assumes "calls_ok e" "ev_files e (path @ ''/timeseries.log'') = None" "te_puts srt (e, TimeSeriesEngine path n) ps = (e', s')"
  shows "\<exists>e2 s2. te_Open e' (TimeSeriesEngine path n) = (Ok, e2, s2) \<and> (\<forall>sid. ts_series s2 sid = ts_cap n (points_of sid ps))"
proof -
  let ?p = "path @ ''/timeseries.log''" and ?s = "TimeSeriesEngine path n"
  have tp: "te_path ?s = path" by (simp add: TimeSeriesEngine_def)
  have L: "calls_ok e'" "content_of e' ?p = concat (map ts_record ps)"
    using te_puts_log [of e ?s "[]" srt ps e' s'] assms by (auto simp: tp content_of_def)
  have "te_Open e' ?s = (Ok, snd (ifs_read (e'\<lparr>ev_tick := Suc (ev_tick e')\<rparr>) ?p), fold ts_load ps ?s)"
  proof (cases "ev_files e' ?p")
    case None
    then have "ps = []" using te_puts_log [of e ?s "[]" srt ps e' s'] assms by (auto simp: tp content_of_def)
    then show ?thesis using L(1) None by (simp add: te_Open_def fs_create_directories_def tp sys_unfold ifs_read_ok calls_ok_def)
  next
    case (Some c)
    then show ?thesis using L series.replay_all [of ps ts_load ?s]
      by (simp add: te_Open_def fs_create_directories_def tp sys_unfold ifs_read_ok calls_ok_def content_of_def)
  qed
  then show ?thesis using fold_ts_load by auto
qed

text \<open>With room for one point, the running engine keeps the later one, the reopened one the other.\<close>

theorem TimeSeries_reopen_witness:
  "\<exists>e' s' e2 s2. te_puts (sort_key fst) (env_streams, TimeSeriesEngine ''d'' 1) [(1, 10, 7), (1, 5, 8)] = (e', s') \<and>
     te_Range s' 1 0 20 = (Ok, [(10, 7)]) \<and> te_Open e' (TimeSeriesEngine ''d'' 1) = (Ok, e2, s2) \<and> te_Range s2 1 0 20 = (Ok, [(5, 8)])"
proof -
  let ?ps = "[(1, 10, 7), (1, 5, 8)] :: (u64 \<times> u64 \<times> float64) list"
  obtain e' s' where p: "te_puts (sort_key fst) (env_streams, TimeSeriesEngine ''d'' 1) ?ps = (e', s')"
    by (cases "te_puts (sort_key fst) (env_streams, TimeSeriesEngine ''d'' 1) ?ps")
  have h: "calls_ok env_streams" "ev_files env_streams (''d'' @ ''/timeseries.log'') = None" by (simp_all add: env_streams_def calls_ok_def)
  have "te_Range s' 1 0 20 = (Ok, [(10, 7)])" using p
    by (auto simp: te_Put_def te_Range_def TimeSeriesEngine_def ts_series_def ts_insert_def ts_cap_def ofs_write_ok h calls_ok_def env_streams_def Let_def)
  moreover have "ts_cap 1 (points_of 1 ?ps) = [(5, 8)]" by (simp add: points_of_def ts_cap_def)
  ultimately show ?thesis using TimeSeries_reopen [OF h p] p by (fastforce simp: te_Range_def)
qed

end
