(* ===== verification/Key_Value.thy ===== *)
theory Key_Value
  imports Op_Log "HOL-Library.List_Lexorder"
begin

text \<open>
  The key-value engine (\<open>core/keyvalue/keyvalue_engine.cc\<close>): a map with creation times, limits
  on entries, age and bytes, and a log of its changes.  The order in which
  \<open>std::unordered_map\<close> is walked is the parameter \<open>iter\<close>, of which the theorems ask only that it
  lists every key once; the times read from the system clock are arguments.
\<close>

subsection \<open>Engine\<close>

record RetentionPolicy =
  ttl_sec :: u32
  max_count :: u32
  max_bytes :: u64

definition RetentionPolicy0 :: RetentionPolicy where
  "RetentionPolicy0 = \<lparr>ttl_sec = 0, max_count = 0, max_bytes = 0\<rparr>"

record kv_entry =
  ke_value :: "byte list"
  ke_created :: u64

type_synonym kv_map = "byte list \<rightharpoonup> kv_entry"

record kv_engine =
  kv_path :: string
  kv_max_entries :: nat
  kv_retention :: RetentionPolicy
  kv_kv :: kv_map

definition KeyValueEngine :: "string \<Rightarrow> nat \<Rightarrow> RetentionPolicy \<Rightarrow> kv_engine" where
  "KeyValueEngine path n r = \<lparr>kv_path = path, kv_max_entries = n, kv_retention = r, kv_kv = Map.empty\<rparr>"

definition IsExpired :: "RetentionPolicy \<Rightarrow> kv_entry \<Rightarrow> u64 \<Rightarrow> bool" where
  "IsExpired r en now \<longleftrightarrow> ttl_sec r > 0 \<and> ke_created en > 0 \<and> now > ke_created en \<and> now - ke_created en \<ge> ucast (ttl_sec r)"

definition ApproxBytesUsed :: "(kv_map \<Rightarrow> byte list list) \<Rightarrow> kv_map \<Rightarrow> u64" where
  "ApproxBytesUsed iter m = of_nat (sum_list (map (\<lambda>k. length k + length (ke_value (the (m k)))) (iter m)))"

text \<open>\<open>erase(begin())\<close>.\<close>

definition kv_erase_begin :: "(kv_map \<Rightarrow> byte list list) \<Rightarrow> kv_map \<Rightarrow> kv_map" where
  "kv_erase_begin iter m = (case iter m of [] \<Rightarrow> m | k # _ \<Rightarrow> m(k := None))"

definition oldest :: "(kv_map \<Rightarrow> byte list list) \<Rightarrow> kv_map \<Rightarrow> byte list option" where
  "oldest iter m = foldl (\<lambda>old k. case old of
       None \<Rightarrow> Some k
     | Some j \<Rightarrow> if ke_created (the (m k)) < ke_created (the (m j)) then Some k else old) None (iter m)"

definition prune_oldest :: "(kv_map \<Rightarrow> byte list list) \<Rightarrow> kv_map \<Rightarrow> kv_map" where
  "prune_oldest iter m = (case oldest iter m of None \<Rightarrow> m | Some k \<Rightarrow> m(k := None))"

text \<open>A pruning loop.  Each round erases an entry, so as many rounds as there are entries are
  enough.\<close>

fun prune_while :: "nat \<Rightarrow> (kv_map \<Rightarrow> bool) \<Rightarrow> (kv_map \<Rightarrow> byte list list) \<Rightarrow> kv_map \<Rightarrow> kv_map" where
  "prune_while 0 c iter m = m"
| "prune_while (Suc n) c iter m = (if c m then prune_while n c iter (prune_oldest iter m) else m)"

definition EnforceRetention :: "(kv_map \<Rightarrow> byte list list) \<Rightarrow> RetentionPolicy \<Rightarrow> u64 \<Rightarrow> kv_map \<Rightarrow> kv_map" where
  "EnforceRetention iter r now m =
     (let m = (if ttl_sec r > 0 then (\<lambda>k. case m k of None \<Rightarrow> None | Some en \<Rightarrow> if IsExpired r en now then None else Some en) else m);
          m = prune_while (length (iter m)) (\<lambda>m. max_count r > 0 \<and> length (iter m) > unat (max_count r)) iter m
      in prune_while (length (iter m)) (\<lambda>m. max_bytes r > 0 \<and> ApproxBytesUsed iter m > max_bytes r \<and> iter m \<noteq> []) iter m)"

subsection \<open>Log\<close>

text \<open>A record: the operation byte, the key, the value and the time; the old format has no time.\<close>

type_synonym kv_op = "byte \<times> byte list \<times> byte list \<times> u64"

fun kv_record :: "kv_op \<Rightarrow> byte list" where
  "kv_record (op, k, v, ts) = op # u32_bytes (of_nat (length k)) @ u32_bytes (of_nat (length v)) @ u64_bytes ts @ k @ v"

definition kv_parse :: "byte list \<Rightarrow> (kv_op \<times> nat) option" where
  "kv_parse bs =
     (if length bs < 1 + 4 + 4 + 8 then None
      else
        let op = bs ! 0; ksz = unat (bytes_u32 (drop 1 bs)); vsz = unat (bytes_u32 (drop 5 bs)); ts = bytes_u64 (drop 9 bs); d = drop 17 bs in
        if length d < ksz then None
        else if vsz > 0 \<and> length d < ksz + vsz then None
        else Some ((op, take ksz d, take vsz (drop ksz d), ts), 16 + ksz + vsz))"

definition kv_parse_old :: "u64 \<Rightarrow> byte list \<Rightarrow> (kv_op \<times> nat) option" where
  "kv_parse_old now bs =
     (if length bs < 1 + 4 + 4 then None
      else
        let op = bs ! 0; ksz = unat (bytes_u32 (drop 1 bs)); vsz = unat (bytes_u32 (drop 5 bs)); d = drop 9 bs in
        if length d < ksz then None
        else if vsz > 0 \<and> length d < ksz + vsz then None
        else Some ((op, take ksz d, take vsz (drop ksz d), now), 8 + ksz + vsz))"

fun kv_apply :: "kv_op \<Rightarrow> kv_map \<Rightarrow> kv_map" where
  "kv_apply (op, k, v, ts) m =
     (if op = 1 then m(k \<mapsto> \<lparr>ke_value = v, ke_created = ts\<rparr>) else if op = 2 then m(k := None) else m)"

fun kv_apply_old :: "(kv_map \<Rightarrow> byte list list) \<Rightarrow> nat \<Rightarrow> kv_op \<Rightarrow> kv_map \<Rightarrow> kv_map" where
  "kv_apply_old iter n op m =
     (let m = kv_apply op m in if n > 0 \<and> length (iter m) > n then kv_erase_begin iter m else m)"

definition kv_Open :: "(kv_map \<Rightarrow> byte list list) \<Rightarrow> posix_env \<Rightarrow> kv_engine \<Rightarrow> u64 \<Rightarrow> u64 \<Rightarrow> status \<times> posix_env \<times> kv_engine" where
  "kv_Open iter e s now now2 =
     (case fs_create_directories e (kv_path s) of
        (True, e) \<Rightarrow> (IOError ''kv create dir failed'', e, s)
      | (False, e) \<Rightarrow>
          (case ifs_read e (kv_path s @ ''/kv.log'') of (c, e) \<Rightarrow>
           let m = (case c of None \<Rightarrow> kv_kv s | Some c \<Rightarrow> replay_log (kv_parse_old now) (kv_apply_old iter (kv_max_entries s)) c (kv_kv s)) in
           case ifs_read e (kv_path s @ ''/kv_timed.log'') of (c, e) \<Rightarrow>
           let m = (case c of None \<Rightarrow> m | Some c \<Rightarrow> replay_log kv_parse kv_apply c m)
           in (Ok, e, s\<lparr>kv_kv := EnforceRetention iter (kv_retention s) now2 m\<rparr>)))"

definition kv_append :: "posix_env \<Rightarrow> kv_engine \<Rightarrow> kv_op \<Rightarrow> status \<times> posix_env \<times> kv_engine" where
  "kv_append e s op =
     (case ofs_write e (kv_path s @ ''/kv_timed.log'') True (kv_record op) of
        (ok, e) \<Rightarrow> (if ok then Ok else IOError ''kv append failed'', e, s))"

definition kv_Put :: "(kv_map \<Rightarrow> byte list list) \<Rightarrow> posix_env \<Rightarrow> kv_engine \<Rightarrow> byte list \<Rightarrow> byte list \<Rightarrow> u64 \<Rightarrow> u64 \<Rightarrow>
    status \<times> posix_env \<times> kv_engine" where
  "kv_Put iter e s k v now now2 =
     (if k = [] then (InvalidArgument ''kv key empty'', e, s)
      else
        let m = kv_kv s;
            m = (if kv_max_entries s > 0 \<and> length (iter m) \<ge> kv_max_entries s \<and> m k = None then kv_erase_begin iter m else m);
            m = EnforceRetention iter (kv_retention s) now2 (m(k \<mapsto> \<lparr>ke_value = v, ke_created = now\<rparr>))
        in kv_append e (s\<lparr>kv_kv := m\<rparr>) (1, k, v, now))"

definition kv_Get :: "kv_engine \<Rightarrow> byte list \<Rightarrow> u64 \<Rightarrow> status \<times> byte list option" where
  "kv_Get s k now =
     (case kv_kv s k of
        None \<Rightarrow> (NotFound ''kv not found'', None)
      | Some en \<Rightarrow> if IsExpired (kv_retention s) en now then (NotFound ''kv expired'', None) else (Ok, Some (ke_value en)))"

definition kv_Delete :: "posix_env \<Rightarrow> kv_engine \<Rightarrow> byte list \<Rightarrow> u64 \<Rightarrow> status \<times> posix_env \<times> kv_engine" where
  "kv_Delete e s k now = kv_append e (s\<lparr>kv_kv := (kv_kv s)(k := None)\<rparr>) (2, k, [], now)"

text \<open>The records of a compacted log, in the order the map is walked.\<close>

definition kv_dump :: "(kv_map \<Rightarrow> byte list list) \<Rightarrow> kv_map \<Rightarrow> kv_op list" where
  "kv_dump iter m = map (\<lambda>k. (1, k, ke_value (the (m k)), ke_created (the (m k)))) (iter m)"

definition kv_Compact :: "(kv_map \<Rightarrow> byte list list) \<Rightarrow> posix_env \<Rightarrow> kv_engine \<Rightarrow> u64 \<Rightarrow> status \<times> posix_env \<times> kv_engine" where
  "kv_Compact iter e s now =
     (let s = s\<lparr>kv_kv := EnforceRetention iter (kv_retention s) now (kv_kv s)\<rparr> in
      case ofs_write e (kv_path s @ ''/kv_timed.log'') False (concat (map kv_record (kv_dump iter (kv_kv s)))) of
        (ok, e) \<Rightarrow> (if ok then Ok else IOError ''kv compact open failed'', e, s))"

definition SetRetentionPolicy :: "(kv_map \<Rightarrow> byte list list) \<Rightarrow> posix_env \<Rightarrow> kv_engine \<Rightarrow> RetentionPolicy \<Rightarrow> u64 \<Rightarrow> u64 \<Rightarrow>
    status \<times> posix_env \<times> kv_engine" where
  "SetRetentionPolicy iter e s r now now2 =
     (let s = s\<lparr>kv_retention := r\<rparr>;
          s = s\<lparr>kv_kv := EnforceRetention iter (kv_retention s) now (kv_kv s)\<rparr>
      in kv_Compact iter e s now2)"

subsection \<open>Retention\<close>

definition iterates :: "(kv_map \<Rightarrow> byte list list) \<Rightarrow> bool" where
  "iterates iter \<longleftrightarrow> (\<forall>m. finite (dom m) \<longrightarrow> distinct (iter m) \<and> set (iter m) = dom m)"

text \<open>One such order.\<close>

definition key_order :: "kv_map \<Rightarrow> byte list list" where
  "key_order m = sorted_list_of_set (dom m)"

lemma iterates_key_order: "iterates key_order"
  by (simp add: iterates_def key_order_def)

lemma length_iter: "iterates iter \<Longrightarrow> finite (dom m) \<Longrightarrow> length (iter m) = card (dom m)"
  by (metis distinct_card iterates_def)

lemma iter_empty: "iterates iter \<Longrightarrow> finite (dom m) \<Longrightarrow> iter m = [] \<longleftrightarrow> m = Map.empty"
  by (metis dom_eq_empty_conv iterates_def set_empty)

lemma oldest_step:
  "ks \<noteq> [] \<or> old \<noteq> None \<Longrightarrow>
   \<exists>k. foldl (\<lambda>old k. case old of None \<Rightarrow> Some k | Some j \<Rightarrow> if f k < (f j :: u64) then Some k else old) old ks = Some k \<and>
     k \<in> set ks \<union> set_option old \<and> (\<forall>j \<in> set ks \<union> set_option old. f k \<le> f j)"
proof (induction ks arbitrary: old)
  case Nil
  then show ?case by auto
next
  case (Cons x ks)
  let ?old = "case old of None \<Rightarrow> Some x | Some j \<Rightarrow> if f x < f j then Some x else old"
  have "?old \<noteq> None" by (simp split: option.split)
  then obtain k where k: "foldl (\<lambda>old k. case old of None \<Rightarrow> Some k | Some j \<Rightarrow> if f k < f j then Some k else old) ?old ks = Some k"
    "k \<in> set ks \<union> set_option ?old" "\<forall>j \<in> set ks \<union> set_option ?old. f k \<le> f j" using Cons.IH [of ?old] by blast
  then show ?case by (intro exI [of _ k]) (auto split: option.splits if_splits)
qed

lemma oldest_least:
  assumes "iterates iter" "finite (dom m)" "m \<noteq> Map.empty"
  obtains k en where "oldest iter m = Some k" "m k = Some en" "\<And>j en'. m j = Some en' \<Longrightarrow> ke_created en \<le> ke_created en'"
proof -
  have "iter m \<noteq> []" "set (iter m) = dom m" using assms iter_empty iterates_def by auto
  then obtain k where k: "oldest iter m = Some k" "k \<in> dom m" "\<forall>j \<in> dom m. ke_created (the (m k)) \<le> ke_created (the (m j))"
    using oldest_step [of "iter m" None "\<lambda>k. ke_created (the (m k))"] by (auto simp: oldest_def)
  then obtain en where en: "m k = Some en" by auto
  show ?thesis
  proof (rule that [OF k(1) en])
    show "ke_created en \<le> ke_created en'" if "m j = Some en'" for j en' using k(3) en that by (metis domI option.sel)
  qed
qed

text \<open>Entries are taken away, oldest first.\<close>

definition pruned :: "kv_map \<Rightarrow> kv_map \<Rightarrow> bool" where
  "pruned m m' \<longleftrightarrow> m' \<subseteq>\<^sub>m m \<and> (\<forall>k en j en'. m k = Some en \<and> m' k = None \<and> m' j = Some en' \<longrightarrow> ke_created en \<le> ke_created en')"

lemma pruned_refl: "pruned m m"
  by (auto simp: pruned_def)

lemma pruned_trans:
  assumes "pruned m m1" "pruned m1 m2"
  shows "pruned m m2"
proof -
  have le: "m1 \<subseteq>\<^sub>m m" "m2 \<subseteq>\<^sub>m m1" using assms by (simp_all add: pruned_def)
  have "ke_created en \<le> ke_created en'" if "m k = Some en" "m2 k = None" "m2 j = Some en'" for k en j en'
  proof (cases "m1 k")
    case None
    have "m1 j = Some en'" using le(2) that(3) by (auto simp: map_le_def dom_def)
    then show ?thesis using None assms(1) that(1) by (auto simp: pruned_def)
  next
    case (Some en1)
    then have "en1 = en" using le(1) that(1) by (force simp: map_le_def dom_def)
    then show ?thesis using Some assms(2) that by (auto simp: pruned_def)
  qed
  then show ?thesis using map_le_trans [OF le(2,1)] by (auto simp: pruned_def)
qed

lemma prune_oldest_pruned:
  assumes "iterates iter" "finite (dom m)"
  shows "pruned m (prune_oldest iter m)" "card (dom (prune_oldest iter m)) = card (dom m) - 1"
proof -
  have "pruned m (prune_oldest iter m) \<and> card (dom (prune_oldest iter m)) = card (dom m) - 1"
  proof (cases "m = Map.empty")
    case True
    then have "oldest iter m = None" using iter_empty [OF assms] by (simp add: oldest_def)
    then show ?thesis using True by (simp add: prune_oldest_def pruned_refl)
  next
    case False
    obtain k en where k: "oldest iter m = Some k" "m k = Some en" "\<And>j en'. m j = Some en' \<Longrightarrow> ke_created en \<le> ke_created en'"
      using oldest_least [OF assms False] by blast
    then have "prune_oldest iter m = m(k := None)" by (simp add: prune_oldest_def)
    moreover have "pruned m (m(k := None))" using k by (auto simp: pruned_def map_le_def split: if_splits)
    moreover have "card (dom (m(k := None))) = card (dom m) - 1" using k(2) by (simp add: domI)
    ultimately show ?thesis by simp
  qed
  then show "pruned m (prune_oldest iter m)" "card (dom (prune_oldest iter m)) = card (dom m) - 1" by blast+
qed

lemma pruned_finite: "pruned m m' \<Longrightarrow> finite (dom m) \<Longrightarrow> finite (dom m')"
  by (metis finite_subset map_le_implies_dom_le pruned_def)

lemma prune_while_pruned:
  "iterates iter \<Longrightarrow> finite (dom m) \<Longrightarrow> card (dom m) \<le> n \<Longrightarrow>
   pruned m (prune_while n c iter m) \<and> (\<not> c (prune_while n c iter m) \<or> prune_while n c iter m = Map.empty)"
proof (induction n arbitrary: m)
  case 0
  then show ?case by (simp add: pruned_refl)
next
  case (Suc n)
  show ?case
  proof (cases "c m")
    case True
    let ?m1 = "prune_oldest iter m"
    have m1: "pruned m ?m1" "finite (dom ?m1)" "card (dom ?m1) \<le> n"
      using prune_oldest_pruned [OF Suc.prems(1,2)] Suc.prems(2,3) pruned_finite by auto
    then show ?thesis using Suc.IH [OF Suc.prems(1) m1(2,3)] True pruned_trans by auto
  qed (simp add: pruned_refl)
qed

definition unexpired :: "RetentionPolicy \<Rightarrow> u64 \<Rightarrow> kv_map \<Rightarrow> kv_map" where
  "unexpired r now m = (\<lambda>k. case m k of None \<Rightarrow> None | Some en \<Rightarrow> if IsExpired r en now then None else Some en)"

lemma unexpired_le: "unexpired r now m \<subseteq>\<^sub>m m"
  by (auto simp: unexpired_def map_le_def split: option.splits if_splits)

lemma unexpired_Some: "unexpired r now m k = Some en \<longleftrightarrow> m k = Some en \<and> \<not> IsExpired r en now"
  by (auto simp: unexpired_def split: option.split)

lemma EnforceRetention_unfold:
  "EnforceRetention iter r now m =
     (let m = unexpired r now m; m = prune_while (length (iter m)) (\<lambda>m. max_count r > 0 \<and> length (iter m) > unat (max_count r)) iter m
      in prune_while (length (iter m)) (\<lambda>m. max_bytes r > 0 \<and> ApproxBytesUsed iter m > max_bytes r \<and> iter m \<noteq> []) iter m)"
proof -
  have "unexpired r now m = m" if "\<not> ttl_sec r > 0" for m
    using that by (simp add: unexpired_def IsExpired_def fun_eq_iff split: option.split)
  then show ?thesis by (simp add: EnforceRetention_def unexpired_def [symmetric] Let_def)
qed

lemma EnforceRetention_stages:
  assumes "iterates iter" "finite (dom m)"
  obtains m1 where "pruned (unexpired r now m) m1" "pruned m1 (EnforceRetention iter r now m)" "finite (dom m1)" "finite (dom (EnforceRetention iter r now m))"
    "max_count r > 0 \<Longrightarrow> card (dom m1) \<le> unat (max_count r)"
    "max_bytes r > 0 \<Longrightarrow> ApproxBytesUsed iter (EnforceRetention iter r now m) \<le> max_bytes r"
proof -
  define m0 where "m0 = unexpired r now m"
  define c1 where "c1 = (\<lambda>m. max_count r > 0 \<and> length (iter m) > unat (max_count r))"
  define m1 where "m1 = prune_while (length (iter m0)) c1 iter m0"
  define c2 where "c2 = (\<lambda>m. max_bytes r > 0 \<and> ApproxBytesUsed iter m > max_bytes r \<and> iter m \<noteq> [])"
  define m' where "m' = EnforceRetention iter r now m"
  have m': "m' = prune_while (length (iter m1)) c2 iter m1"
    unfolding m'_def EnforceRetention_unfold by (simp add: Let_def m0_def m1_def c1_def c2_def)
  have f0: "finite (dom m0)" using assms(2) map_le_implies_dom_le [OF unexpired_le [of r now m]] finite_subset by (simp add: m0_def)
  have P1: "pruned m0 m1" "\<not> c1 m1 \<or> m1 = Map.empty"
    using prune_while_pruned [OF assms(1) f0] length_iter [OF assms(1) f0] by (simp_all add: m1_def)
  have f1: "finite (dom m1)" by (rule pruned_finite [OF P1(1) f0])
  have P2: "pruned m1 m'" "\<not> c2 m' \<or> m' = Map.empty"
    using prune_while_pruned [OF assms(1) f1] length_iter [OF assms(1) f1] by (simp_all add: m')
  have f2: "finite (dom m')" by (rule pruned_finite [OF P2(1) f1])
  have "max_count r > 0 \<Longrightarrow> card (dom m1) \<le> unat (max_count r)" using P1(2) length_iter [OF assms(1) f1] by (auto simp: c1_def)
  moreover have "max_bytes r > 0 \<Longrightarrow> ApproxBytesUsed iter m' \<le> max_bytes r"
    using P2(2) iter_empty [OF assms(1) f2] by (auto simp: c2_def ApproxBytesUsed_def)
  ultimately show ?thesis using that [of m1] P1(1) P2(1) f1 f2 by (simp add: m0_def m'_def)
qed

lemma EnforceRetention_le: "iterates iter \<Longrightarrow> finite (dom m) \<Longrightarrow> EnforceRetention iter r now m \<subseteq>\<^sub>m m"
  by (metis EnforceRetention_stages map_le_trans pruned_def unexpired_le)

lemma EnforceRetention_same:
  assumes "iterates iter" "finite (dom m)" "\<forall>k en. m k = Some en \<longrightarrow> \<not> IsExpired r en now" "max_count r > 0 \<longrightarrow> card (dom m) \<le> unat (max_count r)"
    "max_bytes r > 0 \<longrightarrow> ApproxBytesUsed iter m \<le> max_bytes r"
  shows "EnforceRetention iter r now m = m"
proof -
  have stop: "\<not> c x \<Longrightarrow> prune_while n c iter x = x" for c n x by (cases n) simp_all
  have "unexpired r now m = m" using assms(3) by (auto simp: unexpired_def fun_eq_iff split: option.split)
  moreover have "\<not> (max_count r > 0 \<and> length (iter m) > unat (max_count r))" "\<not> (max_bytes r > 0 \<and> ApproxBytesUsed iter m > max_bytes r \<and> iter m \<noteq> [])"
    using assms(4,5) length_iter [OF assms(1,2)] by auto
  ultimately show ?thesis by (simp add: EnforceRetention_unfold Let_def stop)
qed

text \<open>C13: retention leaves a part of the map that is within the age, count and byte limits,
  takes away what expired and then the oldest entries only, and leaves a map
  within its limits alone.\<close>

theorem KV_retention:
  assumes "iterates iter" "finite (dom m)" "m' = EnforceRetention iter r now m"
  shows "m' \<subseteq>\<^sub>m m \<and> (\<forall>k en. m' k = Some en \<longrightarrow> \<not> IsExpired r en now) \<and>
    (max_count r > 0 \<longrightarrow> card (dom m') \<le> unat (max_count r)) \<and> (max_bytes r > 0 \<longrightarrow> ApproxBytesUsed iter m' \<le> max_bytes r) \<and>
    (\<forall>k en j en'. m k = Some en \<and> m' k = None \<and> \<not> IsExpired r en now \<and> m' j = Some en' \<longrightarrow> ke_created en \<le> ke_created en') \<and>
    ((\<forall>k en. m k = Some en \<longrightarrow> \<not> IsExpired r en now) \<and> (max_count r > 0 \<longrightarrow> card (dom m) \<le> unat (max_count r)) \<and>
      (max_bytes r > 0 \<longrightarrow> ApproxBytesUsed iter m \<le> max_bytes r) \<longrightarrow> m' = m)"
proof -
  obtain m1 where S: "pruned (unexpired r now m) m1" "pruned m1 m'" "finite (dom m1)" "max_count r > 0 \<Longrightarrow> card (dom m1) \<le> unat (max_count r)"
    "max_bytes r > 0 \<Longrightarrow> ApproxBytesUsed iter m' \<le> max_bytes r" using EnforceRetention_stages [OF assms(1,2)] assms(3) by metis
  have P: "pruned (unexpired r now m) m'" by (rule pruned_trans [OF S(1,2)])
  have live: "\<not> IsExpired r en now" if "m' k = Some en" for k en
  proof -
    have "m' \<subseteq>\<^sub>m unexpired r now m" using P by (simp add: pruned_def)
    then have "unexpired r now m k = Some en" using that by (auto simp: map_le_def dom_def)
    then show ?thesis by (simp add: unexpired_Some)
  qed
  have "card (dom m') \<le> card (dom m1)" using S(2) by (intro card_mono [OF S(3)] map_le_implies_dom_le) (simp add: pruned_def)
  then have cnt: "max_count r > 0 \<Longrightarrow> card (dom m') \<le> unat (max_count r)" using S(4) by linarith
  have old: "ke_created en \<le> ke_created en'" if "m k = Some en" "m' k = None" "\<not> IsExpired r en now" "m' j = Some en'" for k en j en'
    using P that by (auto simp: pruned_def unexpired_Some)
  show ?thesis using EnforceRetention_le [OF assms(1,2)] EnforceRetention_same [OF assms(1,2)] live cnt S(5) old unfolding assms(3) by blast
qed

theorem KV_retention_witness:
  "let m = [[97] \<mapsto> \<lparr>ke_value = [1], ke_created = 5\<rparr>, [98] \<mapsto> \<lparr>ke_value = [2], ke_created = 15\<rparr>, [99] \<mapsto> \<lparr>ke_value = [3], ke_created = 16\<rparr>];
       m' = EnforceRetention key_order \<lparr>ttl_sec = 10, max_count = 1, max_bytes = 0\<rparr> 20 m
   in m' \<subseteq>\<^sub>m m \<and> card (dom m') \<le> 1 \<and> m' [97] = None"
proof -
  define m :: kv_map where "m = [[97] \<mapsto> \<lparr>ke_value = [1], ke_created = 5\<rparr>, [98] \<mapsto> \<lparr>ke_value = [2], ke_created = 15\<rparr>, [99] \<mapsto> \<lparr>ke_value = [3], ke_created = 16\<rparr>]"
  define r where "r = \<lparr>ttl_sec = 10, max_count = 1, max_bytes = 0\<rparr>"
  define m' where "m' = EnforceRetention key_order r 20 m"
  have "finite (dom m)" by (simp add: m_def)
  from KV_retention [OF iterates_key_order this m'_def]
  have R: "m' \<subseteq>\<^sub>m m" "\<forall>k en. m' k = Some en \<longrightarrow> \<not> IsExpired r en 20" "max_count r > 0 \<longrightarrow> card (dom m') \<le> unat (max_count r)" by blast+
  have "m' [97] = None"
  proof (rule ccontr)
    assume "m' [97] \<noteq> None"
    then have "m' [97] = m [97]" using R(1) by (auto simp: map_le_def)
    then have "m' [97] = Some \<lparr>ke_value = [1], ke_created = 5\<rparr>" by (simp add: m_def)
    then have "\<not> IsExpired r \<lparr>ke_value = [1], ke_created = 5\<rparr> 20" using R(2) by blast
    then show False by (simp add: IsExpired_def r_def)
  qed
  then show ?thesis using R(1,3) by (simp add: m_def m'_def r_def Let_def)
qed

subsection \<open>Recovery\<close>

fun kv_ok :: "kv_op \<Rightarrow> bool" where
  "kv_ok (op, k, v, ts) \<longleftrightarrow> length k < 2 ^ 32 \<and> length v < 2 ^ 32"

lemma kv_log_law: "record_log kv_record kv_parse kv_ok"
proof
  fix op rest k
  assume ok: "kv_ok op"
  obtain b ky v ts where op: "op = (b, ky, v, ts)" by (cases op)
  show "kv_record op \<noteq> []" by (simp add: op)
  show "kv_parse (kv_record op @ rest) = Some (op, length (kv_record op) - 1)"
    using ok by (simp add: op kv_parse_def codec unat_of_nat)
  show "kv_parse (take k (kv_record op)) = None" if "k < length (kv_record op)"
  proof (cases "k < 17")
    case True
    then have "min (length (kv_record op)) k < 17" by simp
    then show ?thesis by (simp add: kv_parse_def)
  next
    case False
    then obtain j where k: "k = 17 + j" using nat_le_iff_add [of 17 k] by auto
    have "take k (kv_record op) = b # u32_bytes (of_nat (length ky)) @ u32_bytes (of_nat (length v)) @ u64_bytes ts @ take j (ky @ v)"
      by (simp add: op k take_Cons')
    then show ?thesis using that ok k by (auto simp: op kv_parse_def codec unat_of_nat Let_def)
  qed
qed

text \<open>Requests: a put or a deletion with the times read while it is served.\<close>

datatype kv_req = KvPut "byte list" "byte list" u64 u64 | KvDel "byte list" u64

fun kv_do :: "(kv_map \<Rightarrow> byte list list) \<Rightarrow> posix_env \<times> kv_engine \<Rightarrow> kv_req \<Rightarrow> posix_env \<times> kv_engine" where
  "kv_do iter (e, s) (KvPut k v now now2) = snd (kv_Put iter e s k v now now2)"
| "kv_do iter (e, s) (KvDel k now) = snd (kv_Delete e s k now)"

fun kv_req_ok :: "kv_req \<Rightarrow> bool" where
  "kv_req_ok (KvPut k v _ _) \<longleftrightarrow> length k < 2 ^ 32 \<and> length v < 2 ^ 32"
| "kv_req_ok (KvDel k _) \<longleftrightarrow> length k < 2 ^ 32"

definition kv_accept :: "kv_engine \<Rightarrow> kv_req \<Rightarrow> kv_op option" where
  "kv_accept s r = (case r of KvPut k v now _ \<Rightarrow> if k = [] then None else Some (1, k, v, now) | KvDel k now \<Rightarrow> Some (2, k, [], now))"

definition unlimited :: "kv_engine \<Rightarrow> bool" where
  "unlimited s \<longleftrightarrow> kv_max_entries s = 0 \<and> kv_retention s = RetentionPolicy0"

lemma EnforceRetention_0 [simp]: "EnforceRetention iter RetentionPolicy0 now m = m"
proof -
  have "prune_while n (\<lambda>m. False) iter m = m" for n m by (cases n) simp_all
  then show ?thesis by (simp add: EnforceRetention_def RetentionPolicy0_def Let_def)
qed

lemma not_expired_0 [simp]: "\<not> IsExpired RetentionPolicy0 en t"
  by (simp add: IsExpired_def RetentionPolicy0_def)

abbreviation kv_effect :: "kv_op \<Rightarrow> kv_engine \<Rightarrow> kv_engine" where
  "kv_effect op s \<equiv> s\<lparr>kv_kv := kv_apply op (kv_kv s)\<rparr>"

interpretation pairs: logged_engine kv_record kv_parse kv_ok kv_effect "kv_do iter" kv_accept
  "\<lambda>s. kv_path s @ ''/kv_timed.log''" unlimited
proof (intro logged_engine.intro kv_log_law logged_engine_axioms.intro)
  fix e s r op
  show "kv_path (kv_effect op s) @ ''/kv_timed.log'' = kv_path s @ ''/kv_timed.log''" by simp
  show "unlimited s \<Longrightarrow> unlimited (kv_effect op s)" by (simp add: unlimited_def)
  assume "calls_ok e" "unlimited s"
  then show "kv_do iter (e, s) r = (case kv_accept s r of None \<Rightarrow> (e, s)
      | Some op \<Rightarrow> (e\<lparr>ev_tick := ev_tick e + 2, ev_files := (ev_files e)(kv_path s @ ''/kv_timed.log'' \<mapsto>
          content_of e (kv_path s @ ''/kv_timed.log'') @ kv_record op)\<rparr>, kv_effect op s))"
    by (cases r) (simp_all add: kv_Put_def kv_Delete_def kv_accept_def kv_append_def ofs_write_ok unlimited_def)
qed

lemma replay_effect: "replay_log kv_parse kv_effect bs s = s\<lparr>kv_kv := replay_log kv_parse kv_apply bs (kv_kv s)\<rparr>"
proof (induction kv_parse kv_effect bs s rule: replay_log.induct)
  case (1 bs s)
  then show ?case by (subst (1 2) replay_log.simps) (auto split: option.splits)
qed

lemma kv_do_path: "kv_path (snd (kv_do iter (e, s) r)) = kv_path s"
  by (cases r) (auto simp: kv_Put_def kv_Delete_def kv_append_def Let_def split: prod.split)

lemma ofs_write_other: "ofs_write e p app bs = (ok, e') \<Longrightarrow> q \<noteq> p \<Longrightarrow> ev_files e' q = ev_files e q"
  by (auto simp: ofs_write_def sys_unfold Let_def split: option.splits)

lemma kv_do_other:
  assumes "q \<noteq> kv_path s @ ''/kv_timed.log''" "foldl (kv_do iter) (e, s) rs = (e', s')"
  shows "ev_files e' q = ev_files e q"
  using assms
proof (induction rs arbitrary: e s)
  case (Cons r rs)
  obtain e1 s1 where d: "kv_do iter (e, s) r = (e1, s1)" by (cases "kv_do iter (e, s) r")
  have "ev_files e1 q = ev_files e q" using d Cons.prems(1)
    by (cases r) (auto simp: kv_Put_def kv_Delete_def kv_append_def Let_def split: prod.splits if_splits dest: ofs_write_other)
  moreover have "kv_path s1 = kv_path s" using kv_do_path [of iter e s r] d by simp
  ultimately show ?case using Cons.IH [of s1 e1] Cons.prems d by simp
qed simp

text \<open>C22: a key-value engine without limits and without a log of the old format, whose log is cut anywhere, comes back on the
  next \<open>Open\<close> with the pairs and creation times it had after some of its first requests; with
  the log whole, with the last ones.\<close>

theorem KV_recovers:
  assumes "calls_ok e" "ev_files e (path @ ''/kv_timed.log'') = None" "ev_files e (path @ ''/kv.log'') = None" "\<forall>r \<in> set rs. kv_req_ok r"
    "foldl (kv_do iter) (e, KeyValueEngine path 0 RetentionPolicy0) rs = (e', s')"
  shows "\<exists>m \<le> length rs. \<exists>e2.
    kv_Open iter (e'\<lparr>ev_files := (ev_files e')(path @ ''/kv_timed.log'' \<mapsto> take k (content_of e' (path @ ''/kv_timed.log'')))\<rparr>)
        (KeyValueEngine path 0 RetentionPolicy0) now now2
      = (Ok, e2, snd (foldl (kv_do iter) (e, KeyValueEngine path 0 RetentionPolicy0) (take m rs))) \<and>
    (k \<ge> length (content_of e' (path @ ''/kv_timed.log'')) \<longrightarrow> m = length rs)"
proof -
  let ?p = "path @ ''/kv_timed.log''" and ?q = "path @ ''/kv.log''" and ?s = "KeyValueEngine path 0 RetentionPolicy0"
  have kp: "kv_path ?s = path" "unlimited ?s" "kv_max_entries ?s = 0" "kv_retention ?s = RetentionPolicy0" "kv_kv ?s = Map.empty"
    by (simp_all add: KeyValueEngine_def unlimited_def)
  have good: "\<forall>r \<in> set rs. \<forall>s op. kv_accept s r = Some op \<longrightarrow> kv_ok op"
    using assms(4) by (auto simp: kv_accept_def split: kv_req.splits if_splits)
  have "content_of e (kv_path ?s @ ''/kv_timed.log'') = []" using assms(2) by (simp add: kp content_of_def)
  from pairs.recovers [OF assms(1) kp(2) this assms(5) good, of k]
  obtain m where m: "calls_ok e'" "m \<le> length rs" "replay_log kv_parse kv_effect (take k (content_of e' ?p)) ?s = snd (foldl (kv_do iter) (e, ?s) (take m rs))"
    "k \<ge> length (content_of e' ?p) \<longrightarrow> m = length rs" by (auto simp: kp)
  define e1 where "e1 = e'\<lparr>ev_files := (ev_files e')(?p \<mapsto> take k (content_of e' ?p))\<rparr>"
  have "ev_files e' ?q = None" using kv_do_other [OF _ assms(5), of ?q] assms(3) by (simp add: kp)
  then have e1: "calls_ok e1" "ev_files e1 ?p = Some (take k (content_of e' ?p))" "ev_files e1 ?q = None" using m(1) by (simp_all add: e1_def calls_ok_def)
  have "?s\<lparr>kv_kv := replay_log kv_parse kv_apply (take k (content_of e' ?p)) Map.empty\<rparr> = snd (foldl (kv_do iter) (e, ?s) (take m rs))"
    using m(3) by (simp add: replay_effect kp)
  then have "\<exists>e2. kv_Open iter e1 ?s now now2 = (Ok, e2, snd (foldl (kv_do iter) (e, ?s) (take m rs)))"
    using e1 by (simp add: kv_Open_def fs_create_directories_def kp sys_unfold ifs_read_ok calls_ok_def)
  then show ?thesis using m(2,4) unfolding e1_def by auto
qed

definition env_kv :: posix_env where
  "env_kv = \<lparr>ev_files = Map.empty, ev_tick = 0, ev_err = Map.empty, ev_chunk = (\<lambda>_. 0)\<rparr>"

theorem KV_recovers_witness:
  "\<exists>e' s' m e2. foldl (kv_do key_order) (env_kv, KeyValueEngine ''d'' 0 RetentionPolicy0) [KvPut [97] [1, 2] 5 5, KvDel [97] 6] = (e', s') \<and>
     kv_Open key_order (e'\<lparr>ev_files := (ev_files e')(''d'' @ ''/kv_timed.log'' \<mapsto> take 30 (content_of e' (''d'' @ ''/kv_timed.log'')))\<rparr>)
       (KeyValueEngine ''d'' 0 RetentionPolicy0) 9 9 =
     (Ok, e2, snd (foldl (kv_do key_order) (env_kv, KeyValueEngine ''d'' 0 RetentionPolicy0) (take m [KvPut [97] [1, 2] 5 5, KvDel [97] 6])))"
proof -
  let ?s = "KeyValueEngine ''d'' 0 RetentionPolicy0" and ?rs = "[KvPut [97] [1, 2] 5 5, KvDel [97] 6]"
  obtain e' s' where r: "foldl (kv_do key_order) (env_kv, ?s) ?rs = (e', s')" by (cases "foldl (kv_do key_order) (env_kv, ?s) ?rs")
  have h: "calls_ok env_kv" "ev_files env_kv (''d'' @ ''/kv_timed.log'') = None" "ev_files env_kv (''d'' @ ''/kv.log'') = None" "\<forall>r \<in> set ?rs. kv_req_ok r"
    by (simp_all add: calls_ok_def env_kv_def)
  show ?thesis using KV_recovers [OF h r, of 30 9 9] r by blast
qed

subsection \<open>Compaction\<close>

lemma fold_kv_dump:
  "distinct ks \<Longrightarrow> fold kv_apply (map (\<lambda>k. (1, k, ke_value (the (m k)), ke_created (the (m k)))) ks) m0 k =
     (if k \<in> set ks then Some (the (m k)) else m0 k)"
  by (induction ks arbitrary: m0) auto

lemma replay_kv_dump:
  assumes "iterates iter" "finite (dom m)" "\<And>k en. m k = Some en \<Longrightarrow> length k < 2 ^ 32 \<and> length (ke_value en) < 2 ^ 32"
  shows "replay_log kv_parse kv_apply (concat (map kv_record (kv_dump iter m))) m0 = m0 ++ m"
proof -
  have it: "distinct (iter m)" "set (iter m) = dom m" using assms(1,2) by (auto simp: iterates_def)
  have "\<forall>op \<in> set (kv_dump iter m). kv_ok op" using it(2) assms(3) by (fastforce simp: kv_dump_def)
  from record_log.replay_all [OF kv_log_law this]
  have "replay_log kv_parse kv_apply (concat (map kv_record (kv_dump iter m))) m0 = fold kv_apply (kv_dump iter m) m0" .
  also have "\<dots> = m0 ++ m"
    using fold_kv_dump [OF it(1), of m m0] it(2) by (auto simp: fun_eq_iff kv_dump_def domIff map_add_def split: option.split)
  finally show ?thesis .
qed

text \<open>What the log of the old format, if there is one, stands for.\<close>

definition kv_old :: "(kv_map \<Rightarrow> byte list list) \<Rightarrow> nat \<Rightarrow> u64 \<Rightarrow> byte list option \<Rightarrow> kv_map" where
  "kv_old iter n now c = (case c of None \<Rightarrow> Map.empty | Some c \<Rightarrow> replay_log (kv_parse_old now) (kv_apply_old iter n) c Map.empty)"

text \<open>C33: What \<open>Compact\<close> wrote is read back. Opening the directory again gives the compacted
  map on top of what the old log \<open>kv.log\<close> holds, and enforces the retention policy anew. So without an old log it is the compacted map; with one,
  every pair of it that is not in the compacted map is there again, also one that was deleted or had expired before.\<close>

theorem KV_Compact_Open:
  assumes "iterates iter" "calls_ok e" "finite (dom (kv_kv s))" "\<And>k en. kv_kv s k = Some en \<Longrightarrow> length k < 2 ^ 32 \<and> length (ke_value en) < 2 ^ 32"
    "kv_Compact iter e s t = (st, e', s')"
  shows "st = Ok \<and> (\<exists>e2. kv_Open iter e' (KeyValueEngine (kv_path s) n (kv_retention s)) now now2 =
    (Ok, e2, (KeyValueEngine (kv_path s) n (kv_retention s))\<lparr>kv_kv := EnforceRetention iter (kv_retention s) now2
       (kv_old iter n now (ev_files e (kv_path s @ ''/kv.log'')) ++ kv_kv s')\<rparr>))"
proof -
  let ?m = "EnforceRetention iter (kv_retention s) t (kv_kv s)" and ?p = "kv_path s @ ''/kv_timed.log''" and ?q = "kv_path s @ ''/kv.log''"
  have le: "?m \<subseteq>\<^sub>m kv_kv s" by (rule EnforceRetention_le [OF assms(1,3)])
  have m: "finite (dom ?m)" "?m k = Some en \<Longrightarrow> length k < 2 ^ 32 \<and> length (ke_value en) < 2 ^ 32" for k en
    using le assms(3) assms(4) [of k en] map_le_implies_dom_le [OF le] finite_subset by (auto simp: map_le_def dom_def)
  have c: "st = Ok" "s' = s\<lparr>kv_kv := ?m\<rparr>" "e' = e\<lparr>ev_tick := ev_tick e + 2, ev_files := (ev_files e)(?p \<mapsto> concat (map kv_record (kv_dump iter ?m)))\<rparr>"
    using assms(5) ofs_write_ok [OF assms(2)] by (auto simp: kv_Compact_def Let_def)
  have "calls_ok e'" "ev_files e' ?p = Some (concat (map kv_record (kv_dump iter ?m)))" "ev_files e' ?q = ev_files e ?q"
    using assms(2) by (simp_all add: c(3) calls_ok_def)
  then show ?thesis using replay_kv_dump [OF assms(1) m, of "kv_old iter n now (ev_files e ?q)"] c(1,2)
    by (cases "ev_files e ?q")
      (simp_all add: kv_Open_def fs_create_directories_def KeyValueEngine_def sys_unfold ifs_read_ok calls_ok_def kv_old_def)
qed

theorem KV_Compact_Open_witness:
  "\<exists>e' s' e2. kv_Compact key_order env_kv ((KeyValueEngine ''d'' 0 RetentionPolicy0)\<lparr>kv_kv := [[97] \<mapsto> \<lparr>ke_value = [1, 2], ke_created = 5\<rparr>]\<rparr>) 6 = (Ok, e', s') \<and>
     kv_Open key_order e' (KeyValueEngine ''d'' 0 RetentionPolicy0) 9 9 =
       (Ok, e2, (KeyValueEngine ''d'' 0 RetentionPolicy0)\<lparr>kv_kv := [[97] \<mapsto> \<lparr>ke_value = [1, 2], ke_created = 5\<rparr>]\<rparr>)"
proof -
  let ?s = "(KeyValueEngine ''d'' 0 RetentionPolicy0)\<lparr>kv_kv := [[97] \<mapsto> \<lparr>ke_value = [1, 2], ke_created = 5\<rparr>]\<rparr>"
  obtain st e' s' where c: "kv_Compact key_order env_kv ?s 6 = (st, e', s')" by (cases "kv_Compact key_order env_kv ?s 6")
  then have s': "kv_kv s' = kv_kv ?s" by (auto simp: kv_Compact_def KeyValueEngine_def Let_def split: prod.splits)
  have "st = Ok \<and> (\<exists>e2. kv_Open key_order e' (KeyValueEngine (kv_path ?s) 0 (kv_retention ?s)) 9 9 =
    (Ok, e2, (KeyValueEngine (kv_path ?s) 0 (kv_retention ?s))\<lparr>kv_kv := EnforceRetention key_order (kv_retention ?s) 9
       (kv_old key_order 0 9 (ev_files env_kv (kv_path ?s @ ''/kv.log'')) ++ kv_kv s')\<rparr>))"
    by (rule KV_Compact_Open [OF iterates_key_order _ _ _ c]) (auto simp: env_kv_def calls_ok_def split: if_splits)
  then show ?thesis using c s' by (auto simp: KeyValueEngine_def kv_old_def env_kv_def)
qed

text \<open>The record of a pair in the old log.\<close>

definition kv_record_old :: "byte list \<Rightarrow> byte list \<Rightarrow> byte list" where
  "kv_record_old k v = 1 # u32_bytes (of_nat (length k)) @ u32_bytes (of_nat (length v)) @ k @ v"

text \<open>A pair that came from the old log is back after it was deleted and the engine compacted:
  \<open>Compact\<close> drops the record of the deletion and leaves the old log in place.\<close>

theorem KV_Compact_resurrects:
  assumes "iterates iter" "calls_ok e" "length k < 2 ^ 32" "length v < 2 ^ 32"
    "ev_files e (path @ ''/kv.log'') = Some (kv_record_old k v)" "ev_files e (path @ ''/kv_timed.log'') = None"
  shows "\<exists>e1 s1 e2 s2 e3 s3 e4 s4.
    kv_Open iter e (KeyValueEngine path n RetentionPolicy0) t1 t2 = (Ok, e1, s1) \<and> kv_Delete e1 s1 k t3 = (Ok, e2, s2) \<and>
    kv_Compact iter e2 s2 t4 = (Ok, e3, s3) \<and> kv_Get s3 k t5 = (NotFound ''kv not found'', None) \<and>
    kv_Open iter e3 (KeyValueEngine path n RetentionPolicy0) t6 t7 = (Ok, e4, s4) \<and> kv_Get s4 k t8 = (Ok, Some v)"
proof -
  let ?p = "path @ ''/kv_timed.log''" and ?q = "path @ ''/kv.log''" and ?s = "KeyValueEngine path n RetentionPolicy0"
  let ?m = "\<lambda>t. [k \<mapsto> \<lparr>ke_value = v, ke_created = t\<rparr>]"
  have one: "length (iter (?m t)) = 1" "iter Map.empty = []" for t
    using length_iter [OF assms(1), of "?m t"] iter_empty [OF assms(1), of Map.empty] by simp_all
  have old: "replay_log (kv_parse_old t) (kv_apply_old iter n) (kv_record_old k v) Map.empty = ?m t" for t
    using assms(3,4) one(1) by (subst replay_log.simps) (auto simp: kv_record_old_def kv_parse_old_def codec unat_of_nat Let_def)
  show ?thesis using assms(2,5,6) one(2) old
    by (simp add: kv_Open_def kv_Delete_def kv_append_def kv_Compact_def kv_Get_def kv_dump_def fs_create_directories_def KeyValueEngine_def
        sys_unfold ifs_read_ok ofs_write_ok calls_ok_def Let_def)
qed

theorem KV_Compact_resurrects_witness:
  "let e = env_kv\<lparr>ev_files := [''d/kv.log'' \<mapsto> kv_record_old [97] [1, 2]]\<rparr>; s = KeyValueEngine ''d'' 0 RetentionPolicy0 in
   \<exists>e1 s1 e2 s2 e3 s3 e4 s4. kv_Open key_order e s 1 1 = (Ok, e1, s1) \<and> kv_Delete e1 s1 [97] 2 = (Ok, e2, s2) \<and>
     kv_Compact key_order e2 s2 3 = (Ok, e3, s3) \<and> kv_Get s3 [97] 4 = (NotFound ''kv not found'', None) \<and>
     kv_Open key_order e3 s 5 5 = (Ok, e4, s4) \<and> kv_Get s4 [97] 6 = (Ok, Some [1, 2])"
  unfolding Let_def by (rule KV_Compact_resurrects [OF iterates_key_order]) (simp_all add: env_kv_def calls_ok_def)

end
