(* ===== verification/Quantizers.thy ===== *)
theory Quantizers
  imports Types
begin

text \<open>
  The quantisers of \<open>src/core/quantization/\<close>: the half-precision conversions of
  \<open>src/util/half_float.h\<close>, \<open>HalfFloatQuantizer\<close>, \<open>BitQuantizer\<close> (with \<open>BitQuantize\<close>,
  \<open>HammingDist\<close> and \<open>DotBit\<close> of \<open>src/core/distance.cc\<close>) and \<open>ScalarQuantizer8Bit\<close>.
  Floats are their bit patterns; the conversions are pure bit manipulation and need
  no floating point arithmetic.  The kernels of \<open>ComputeDistance\<close> that call SimSIMD are
  not modelled.
\<close>

unbundle bit_operations_syntax

subsection \<open>Half precision\<close>

type_synonym u16 = "16 word"

definition float32_to_float16 :: "float32 \<Rightarrow> u16" where
  "float32_to_float16 f32 =
     (let sign = drop_bit 16 f32 AND 0x8000;
          exponent = uint (drop_bit 23 f32 AND 0xFF) - 127;
          mantissa = f32 AND 0x007FFFFF
      in if exponent \<le> -15 then
           (if exponent < -24 then ucast sign
            else let mantissa = mantissa OR 0x00800000;
                     shift = nat (- 14 - exponent);
                     mantissa = drop_bit shift mantissa
                 in ucast (sign OR drop_bit 13 mantissa))
         else if exponent \<ge> 16 then ucast (sign OR 0x7C00)
         else ucast (sign OR push_bit 10 (word_of_int (exponent + 15)) OR drop_bit 13 mantissa))"

text \<open>The loop that normalises a subnormal; on a zero mantissa it would not end.\<close>

partial_function (option) normalise :: "u32 \<Rightarrow> u32 \<Rightarrow> (u32 \<times> u32) option" where
  "normalise mantissa exponent =
     (if mantissa AND 0x00800000 = 0 then normalise (push_bit 1 mantissa) (exponent - 1)
      else Some (mantissa, exponent))"

declare normalise.simps [code]

definition float16_to_float32 :: "u16 \<Rightarrow> float32 option" where
  "float16_to_float32 h =
     (let sign = push_bit 16 (ucast (h AND 0x8000)) :: u32;
          exponent = drop_bit 10 (ucast (h AND 0x7C00)) :: u32;
          mantissa = push_bit 13 (ucast (h AND 0x03FF)) :: u32
      in if exponent = 0 then
           (if mantissa = 0 then Some sign
            else case normalise mantissa exponent of
              None \<Rightarrow> None
            | Some (mantissa, exponent) \<Rightarrow>
                Some (sign OR push_bit 23 (exponent + 1 + 112) OR (mantissa AND 0x007FFFFF)))
         else if exponent = 31 then Some (sign OR push_bit 23 255 OR mantissa)
         else Some (sign OR push_bit 23 (exponent + 112) OR mantissa))"

definition is_nan16 :: "u16 \<Rightarrow> bool" where
  "is_nan16 h \<longleftrightarrow> h AND 0x7C00 = 0x7C00 \<and> h AND 0x03FF \<noteq> 0"

subsection \<open>\<open>HalfFloatQuantizer\<close>\<close>

definition u16_bytes :: "u16 \<Rightarrow> byte list" where
  "u16_bytes h = le_bytes 2 (unat h)"

definition bytes_u16 :: "byte list \<Rightarrow> u16" where
  "bytes_u16 bs = word_of_nat (le_nat (take 2 bs))"

definition fp16_Train :: "nat \<Rightarrow> nat \<Rightarrow> status" where
  "fp16_Train dim num_vectors =
     (if num_vectors = 0 \<or> dim = 0 then InvalidArgument ''Empty dimensions or vectors for training'' else Ok)"

definition fp16_Encode :: "nat \<Rightarrow> VectorView \<Rightarrow> byte list" where
  "fp16_Encode dim v = (if length v \<noteq> dim then [] else concat (map (\<lambda>x. u16_bytes (float32_to_float16 x)) v))"

fun bytes_halves :: "nat \<Rightarrow> byte list \<Rightarrow> u16 list" where
  "bytes_halves 0 bs = []"
| "bytes_halves (Suc n) bs = bytes_u16 bs # bytes_halves n (drop 2 bs)"

text \<open>\<open>None\<close> stands for a conversion that does not return.\<close>

definition fp16_Decode :: "nat \<Rightarrow> byte list \<Rightarrow> VectorView option" where
  "fp16_Decode dim codes =
     (if length codes \<noteq> dim * 2 then Some [] else those (map float16_to_float32 (bytes_halves dim codes)))"

subsection \<open>\<open>BitQuantizer\<close>\<close>

definition f_neg_1 :: float32 where "f_neg_1 = 0xBF800000"

definition BitQuantize :: "ieee \<Rightarrow> VectorView \<Rightarrow> byte list" where
  "BitQuantize fp v =
     fold (\<lambda>i codes. if f_lt fp f_0 (v ! i) then codes[i div 8 := codes ! (i div 8) OR push_bit (i mod 8) 1] else codes)
       [0..<length v] (replicate ((length v + 7) div 8) 0)"

definition bit_Encode :: "ieee \<Rightarrow> nat \<Rightarrow> VectorView \<Rightarrow> byte list" where
  "bit_Encode fp dim v = (if length v \<noteq> dim then [] else BitQuantize fp v)"

definition bit_Decode :: "nat \<Rightarrow> byte list \<Rightarrow> VectorView" where
  "bit_Decode dim codes =
     (if length codes \<noteq> (dim + 7) div 8 then []
      else map (\<lambda>i. if drop_bit (i mod 8) (codes ! (i div 8)) AND 1 \<noteq> 0 then f_1 else f_neg_1) [0..<dim])"

text \<open>\<open>HammingDist\<close> before its cast to float: set bits of the exclusive or, over the shorter length.\<close>

definition HammingDist :: "byte list \<Rightarrow> byte list \<Rightarrow> nat" where
  "HammingDist a b = sum_list (map (\<lambda>(x, y). length (filter (bit (x XOR y)) [0..<8])) (zip a b))"

subsection \<open>\<open>ScalarQuantizer8Bit\<close>\<close>

definition f_1e_6 :: float32 where "f_1e_6 = 0x358637BD"

record sq8 =
  sq_dim :: nat
  sq_trained :: bool
  sq_min :: float32
  sq_scale :: float32
  sq_inv_scale :: float32

definition sq8_new :: "nat \<Rightarrow> sq8" where
  "sq8_new dim = \<lparr>sq_dim = dim, sq_trained = False, sq_min = f_0, sq_scale = f_0, sq_inv_scale = f_0\<rparr>"

definition sq8_bounds :: "ieee \<Rightarrow> VectorView \<Rightarrow> float32 \<times> float32" where
  "sq8_bounds fp data =
     fold (\<lambda>v (mn, mx). (if f_lt fp v mn then v else mn, if f_lt fp mx v then v else mx)) (tl data) (hd data, hd data)"

definition sq8_Train :: "ieee \<Rightarrow> sq8 \<Rightarrow> VectorView \<Rightarrow> nat \<Rightarrow> status \<times> sq8" where
  "sq8_Train fp q data num_vectors =
     (if num_vectors = 0 \<or> sq_dim q = 0 then (InvalidArgument ''Empty dimensions or vectors for training'', q)
      else let total = num_vectors * sq_dim q in
      if length data < total then (InvalidArgument ''Data span is smaller than num_vectors * dim'', q)
      else let (mn, mx) = sq8_bounds fp (take total data);
               range = f_sub fp mx mn;
               q = q\<lparr>sq_min := mn\<rparr>;
               q = (if f_le fp range f_1e_6 then q\<lparr>sq_scale := f_0, sq_inv_scale := f_0\<rparr>
                    else q\<lparr>sq_scale := f_div fp f_255 range, sq_inv_scale := f_div fp range f_255\<rparr>)
           in (Ok, q\<lparr>sq_trained := True\<rparr>))"

definition sq8_Encode :: "ieee \<Rightarrow> sq8 \<Rightarrow> VectorView \<Rightarrow> byte list" where
  "sq8_Encode fp q v =
     (if \<not> sq_trained q \<or> length v \<noteq> sq_dim q then []
      else map (\<lambda>x. let f = f_mul fp (f_sub fp x (sq_min q)) (sq_scale q);
                         f = f_add fp f f_0_5;
                         f = (if f_lt fp f f_255 then f else f_255);
                         f = (if f_lt fp f_0 f then f else f_0)
                     in f_to_byte fp f) v)"

definition sq8_Decode :: "ieee \<Rightarrow> sq8 \<Rightarrow> byte list \<Rightarrow> VectorView" where
  "sq8_Decode fp q codes =
     (if \<not> sq_trained q \<or> length codes \<noteq> sq_dim q then []
      else map (\<lambda>c. f_add fp (sq_min q) (f_mul fp (f_of_byte fp c) (sq_inv_scale q))) codes)"

definition sq8_LoadState :: "ieee \<Rightarrow> sq8 \<Rightarrow> float32 \<Rightarrow> float32 \<Rightarrow> sq8" where
  "sq8_LoadState fp q mn inv_scale =
     q\<lparr>sq_min := mn, sq_inv_scale := inv_scale,
       sq_scale := (if f_lt fp f_1e_6 inv_scale then f_div fp f_1 inv_scale else f_0), sq_trained := True\<rparr>"

text \<open>A concrete instance of the float operations for examples: it orders the numbers that are
  not below zero, and a negative number before zero, as IEEE 754 does.\<close>

definition sample_fp :: ieee where
  "sample_fp = \<lparr>f_lt = (\<lambda>a b. sint a < sint b), f_le = (\<lambda>a b. sint a \<le> sint b), f_add = (\<lambda>a b. a), f_sub = (\<lambda>a b. a),
     f_mul = (\<lambda>a b. a), f_div = (\<lambda>a b. a), f_of_byte = (\<lambda>b. f_0), f_to_byte = (\<lambda>a. 0), d_lt = (\<lambda>a b. sint a < sint b),
     d_add = (\<lambda>a b. a), d_sub = (\<lambda>a b. a), d_mul = (\<lambda>a b. a), d_div = (\<lambda>a b. a), d_of_u64 = (\<lambda>n. n),
     d_cos = (\<lambda>a. a), d_sqrt = (\<lambda>a. a), d_log = (\<lambda>a. a)\<rparr>"

subsection \<open>Lemmas on the bit fields\<close>

lemma fields:
  assumes "\<forall>k. bit s k \<longrightarrow> 31 \<le> k" "\<forall>k. bit e k \<longrightarrow> k < 8" "\<forall>k. bit m k \<longrightarrow> k < 23"
  shows "drop_bit 23 (s OR push_bit 23 e OR m) AND 0xFF = (e :: u32)"
    and "(s OR push_bit 23 e OR m) AND 0x007FFFFF = m"
    and "drop_bit 16 (s OR push_bit 23 e OR m) AND 0x8000 = drop_bit 16 s"
proof -
  note s = assms(1) [rule_format] and e = assms(2) [rule_format] and m = assms(3) [rule_format]
  have k8: "(0xFF :: u32) = mask 8" and k23: "(0x007FFFFF :: u32) = mask 23" and k15: "(0x8000 :: u32) = push_bit 15 1"
    by (simp_all add: mask_eq_decr_exp push_bit_eq_mult)
  show "drop_bit 23 (s OR push_bit 23 e OR m) AND 0xFF = (e :: u32)"
    unfolding k8 by (rule bit_word_eqI) (auto simp: bit_simps dest: s e m)
  show "(s OR push_bit 23 e OR m) AND 0x007FFFFF = m"
    unfolding k23 by (rule bit_word_eqI) (auto simp: bit_simps dest: s e m)
  have k: "bit (0x8000 :: u32) n \<longleftrightarrow> n = 15" for n unfolding k15 bit_push_bit_iff by (auto simp: bit_1_iff)
  show "drop_bit 16 (s OR push_bit 23 e OR m) AND 0x8000 = drop_bit 16 s"
  proof (rule bit_word_eqI)
    fix n assume "n < LENGTH(32)"
    show "bit (drop_bit 16 (s OR push_bit 23 e OR m) AND 0x8000) n = bit (drop_bit 16 s) n"
      using e [of 8] m [of 31] s [of "16 + n"] bit_imp_le_length [of s "16 + n"]
      unfolding bit_and_iff k by (cases "n = 15") (auto simp: bit_or_iff bit_drop_bit_eq bit_push_bit_iff)
  qed
qed

lemma bit_small: "unat (w :: 'a::len word) < 2 ^ k \<Longrightarrow> bit w n \<Longrightarrow> n < k"
  by (metis bit_take_bit_iff take_bit_nat_eq_self_iff unsigned_take_bit_eq word_unat_eq_iff)

lemma bit_23:
  assumes "unat (m :: u32) < 2 ^ 24"
  shows "m AND 0x00800000 = 0 \<longleftrightarrow> unat m < 2 ^ 23"
proof -
  have "m AND 0x00800000 = 0 \<longleftrightarrow> \<not> bit m 23"
    using and_exp_eq_0_iff_not_bit [of m 23] by simp
  also have "bit m 23 \<longleftrightarrow> odd (unat m div 2 ^ 23)"
    unfolding bit_iff_odd [of "unat m" 23, symmetric] bit_unsigned_iff by simp
  also have "\<not> odd (unat m div 2 ^ 23) \<longleftrightarrow> unat m < 2 ^ 23"
  proof -
    have "unat m div 2 ^ 23 < 2" using assms by (simp add: less_mult_imp_div_less)
    then have "even (unat m div 2 ^ 23) \<longleftrightarrow> unat m div 2 ^ 23 = 0" by (auto simp: less_2_cases_iff)
    then show ?thesis by (simp add: div_eq_0_iff)
  qed
  finally show ?thesis .
qed

text \<open>The loop ends on every non-zero mantissa and only moves the leading bit to position 23.\<close>

lemma normalise_returns:
  "0 < unat m \<Longrightarrow> unat m < 2 ^ 24 \<Longrightarrow>
   \<exists>k. normalise m e = Some (word_of_nat (unat m * 2 ^ k), e - word_of_nat k) \<and> 2 ^ 23 \<le> unat m * 2 ^ k \<and> unat m * 2 ^ k < 2 ^ 24"
proof (induction "2 ^ 24 - unat m" arbitrary: m e rule: less_induct)
  case less
  note a = bit_23 [OF less.prems(2)]
  show ?case
  proof (cases "m AND 0x00800000 = 0")
    case True
    then have l: "unat m < 2 ^ 23" using a by simp
    have d: "unat (push_bit 1 m) = 2 * unat m"
      using l by (simp add: push_bit_eq_mult unat_mult_lem [THEN iffD1])
    have "2 ^ 24 - 2 * unat m < 2 ^ 24 - unat m" "0 < 2 * unat m" "2 * unat m < 2 ^ 24" using less.prems(1) l by simp_all
    from less.hyps [of "push_bit 1 m" "e - 1", unfolded d, OF this]
    obtain k where "normalise (push_bit 1 m) (e - 1) = Some (word_of_nat (2 * unat m * 2 ^ k), e - 1 - word_of_nat k)"
        "2 ^ 23 \<le> 2 * unat m * 2 ^ k" "2 * unat m * 2 ^ k < 2 ^ 24"
      by blast
    moreover have "2 * unat m * 2 ^ k = unat m * 2 ^ Suc k" "e - 1 - word_of_nat k = e - word_of_nat (Suc k)" by simp_all
    ultimately show ?thesis
      by (intro exI [of _ "Suc k"]) (simp only: normalise.simps [of m e] True if_True simp_thms)
  next
    case False
    then show ?thesis
      using less.prems a by (intro exI [of _ 0]) (simp add: normalise.simps [of m e])
  qed
qed

text \<open>The three fields of a half, as 32-bit words.\<close>

definition h_sign :: "u16 \<Rightarrow> u32" where "h_sign h = push_bit 16 (ucast (h AND 0x8000))"
definition h_exp :: "u16 \<Rightarrow> u32" where "h_exp h = drop_bit 10 (ucast (h AND 0x7C00))"
definition h_man :: "u16 \<Rightarrow> u32" where "h_man h = ucast (h AND 0x03FF)"

lemma bit_half_masks:
  "bit (0x8000 :: u16) n \<longleftrightarrow> n = 15" "bit (0x7C00 :: u16) n \<longleftrightarrow> 10 \<le> n \<and> n < 15" "bit (0x03FF :: u16) n \<longleftrightarrow> n < 10"
proof -
  have "(0x8000 :: u16) = push_bit 15 1" "(0x7C00 :: u16) = push_bit 10 (mask 5)" "(0x03FF :: u16) = mask 10"
    by (simp_all add: mask_eq_decr_exp push_bit_eq_mult)
  then show "bit (0x8000 :: u16) n \<longleftrightarrow> n = 15" "bit (0x7C00 :: u16) n \<longleftrightarrow> 10 \<le> n \<and> n < 15" "bit (0x03FF :: u16) n \<longleftrightarrow> n < 10"
    by (simp_all only: bit_push_bit_iff bit_mask_iff) (auto simp: bit_1_iff)
qed

lemma bit_half_fields:
  "bit (h_sign h) n \<longleftrightarrow> n = 31 \<and> bit h 15"
  "bit (h_exp h) n \<longleftrightarrow> n < 5 \<and> bit h (10 + n)"
  "bit (h_man h) n \<longleftrightarrow> n < 10 \<and> bit h n"
  unfolding h_sign_def h_exp_def h_man_def bit_push_bit_iff bit_drop_bit_eq comp_def bit_unsigned_iff bit_and_iff bit_half_masks
  by (auto simp: add.commute)

lemma half_recompose:
  "(ucast (drop_bit 16 (h_sign h) OR push_bit 10 (h_exp h) OR h_man h) :: u16) = h"
proof (rule bit_word_eqI)
  fix n assume "n < LENGTH(16)"
  then consider "n < 10" | "10 \<le> n" "n - 10 < 5" | "n = 15" by force
  then show "bit (ucast (drop_bit 16 (h_sign h) OR push_bit 10 (h_exp h) OR h_man h) :: u16) n = bit h n"
    by cases (auto simp: bit_unsigned_iff bit_or_iff bit_drop_bit_eq bit_push_bit_iff bit_half_fields)
qed

lemma unat_half_fields: "unat (h_exp h) < 32" "unat (h_man h) < 1024"
proof -
  have "take_bit 5 (h_exp h) = h_exp h" "take_bit 10 (h_man h) = h_man h"
    by (rule bit_word_eqI; auto simp: bit_take_bit_iff bit_half_fields)+
  then have "take_bit 5 (unat (h_exp h)) = unat (h_exp h)" "take_bit 10 (unat (h_man h)) = unat (h_man h)"
    by (metis unsigned_take_bit_eq)+
  then show "unat (h_exp h) < 32" "unat (h_man h) < 1024"
    by (simp_all add: take_bit_nat_eq_self_iff)
qed

lemma is_nan16_fields: "is_nan16 h \<longleftrightarrow> h_exp h = 31 \<and> h_man h \<noteq> 0"
proof -
  have "h AND c = c \<longleftrightarrow> (\<forall>k. bit c k \<longrightarrow> bit h k)" for c
    unfolding bit_eq_iff bit_and_iff using bit_imp_le_length [of c] by (simp, blast)
  also have "(\<forall>k. bit (0x7C00 :: u16) k \<longrightarrow> bit h k) \<longleftrightarrow> (\<forall>k. 10 \<le> k \<and> k < 15 \<longrightarrow> bit h k)"
    unfolding bit_half_masks ..
  also have "\<dots> \<longleftrightarrow> (\<forall>n<5. bit h (10 + n))"
    by (auto dest: le_Suc_ex)
  finally have "h AND 0x7C00 = 0x7C00 \<longleftrightarrow> (\<forall>n<5. bit h (10 + n))" .
  moreover have "h_exp h = 31 \<longleftrightarrow> (\<forall>n<5. bit h (10 + n))"
  proof -
    have m: "(31 :: u32) = mask 5" by (simp add: mask_eq_decr_exp)
    show ?thesis unfolding m
    proof
      assume "h_exp h = mask 5"
      then have "bit (h_exp h) n = bit (mask 5 :: u32) n" for n by simp
      then show "\<forall>n<5. bit h (10 + n)" by (force simp: bit_half_fields bit_mask_iff)
    qed (auto simp: bit_half_fields bit_mask_iff intro: bit_word_eqI)
  qed
  moreover have "h_man h = 0 \<longleftrightarrow> h AND 0x03FF = 0"
  proof -
    have "unat (h AND 0x03FF) < 2 ^ 32" by (rule order_less_trans [OF unsigned_less]) simp
    then show ?thesis
      unfolding h_man_def by (simp add: unat_eq_0 [symmetric] unsigned_ucast_eq take_bit_nat_eq_self)
  qed
  ultimately show ?thesis by (simp add: is_nan16_def)
qed

lemma encode_fields:
  assumes e: "unat e < 256" and m: "unat m < 2 ^ 23"
  shows "float32_to_float16 (h_sign h OR push_bit 23 e OR m) =
    (let sign = drop_bit 16 (h_sign h); exponent = uint e - 127 in
     if exponent \<le> -15 then
       (if exponent < -24 then ucast sign else ucast (sign OR drop_bit 13 (drop_bit (nat (- 14 - exponent)) (m OR 0x00800000))))
     else if exponent \<ge> 16 then ucast (sign OR 0x7C00)
     else ucast (sign OR push_bit 10 (word_of_int (exponent + 15)) OR drop_bit 13 m))"
proof -
  have "\<forall>k. bit (h_sign h) k \<longrightarrow> 31 \<le> k" "\<forall>k. bit e k \<longrightarrow> k < 8" "\<forall>k. bit m k \<longrightarrow> k < 23"
    using bit_small [of e 8] bit_small [of m 23] e m by (simp_all add: bit_half_fields)
  from fields [OF this] show ?thesis
    unfolding float32_to_float16_def Let_def by presburger
qed

lemma unat_push_13: "unat (m :: u32) < 1024 \<Longrightarrow> unat (push_bit 13 m) = unat m * 2 ^ 13"
  by (simp add: push_bit_eq_mult unat_mult_lem [THEN iffD1])

lemma drop_push_13: "unat (m :: u32) < 1024 \<Longrightarrow> drop_bit 13 (push_bit 13 m) = m"
  unfolding word_unat_eq_iff unat_drop_bit_eq by (simp add: unat_push_13 drop_bit_eq_div)

lemma decode_fields:
  "float16_to_float32 h =
    (if h_exp h = 0 then
       (if h_man h = 0 then Some (h_sign h OR push_bit 23 0 OR 0)
        else case normalise (push_bit 13 (h_man h)) (h_exp h) of
          None \<Rightarrow> None
        | Some (m, e) \<Rightarrow> Some (h_sign h OR push_bit 23 (e + 1 + 112) OR (m AND 0x007FFFFF)))
     else if h_exp h = 31 then Some (h_sign h OR push_bit 23 255 OR push_bit 13 (h_man h))
     else Some (h_sign h OR push_bit 23 (h_exp h + 112) OR push_bit 13 (h_man h)))"
proof -
  have "push_bit 13 (h_man h) = 0 \<longleftrightarrow> h_man h = 0"
    using unat_push_13 [OF unat_half_fields(2) [of h]] by (simp add: unat_eq_0 [symmetric])
  then show ?thesis
    unfolding float16_to_float32_def Let_def h_sign_def [symmetric] h_exp_def [symmetric] h_man_def [symmetric] by simp
qed

lemma half_normal:
  assumes "h_exp h \<noteq> 0" "h_exp h \<noteq> 31"
  shows "float32_to_float16 (h_sign h OR push_bit 23 (h_exp h + 112) OR push_bit 13 (h_man h)) = h"
proof -
  have "unat (h_exp h) \<noteq> 0" "unat (h_exp h) \<noteq> 31" using assms unfolding word_unat_eq_iff by simp_all
  then have r: "1 \<le> unat (h_exp h)" "unat (h_exp h) \<le> 30" using unat_half_fields(1) [of h] by auto
  then have u: "unat (h_exp h + 112) = unat (h_exp h) + 112" by (simp add: unat_add_lem [THEN iffD1])
  then have i: "uint (h_exp h + 112) = uint (h_exp h) + 112" unfolding uint_nat u by simp
  have "1 \<le> uint (h_exp h)" "uint (h_exp h) \<le> 30" unfolding uint_nat using r by linarith+
  then have c: "\<not> uint (h_exp h + 112) - 127 \<le> -15" "\<not> uint (h_exp h + 112) - 127 \<ge> 16" unfolding i by linarith+
  have "unat (push_bit 13 (h_man h)) < 2 ^ 23" using unat_half_fields(2) [of h] by (simp add: unat_push_13)
  moreover have "unat (h_exp h + 112) < 256" using u r by simp
  ultimately show ?thesis
    using c by (simp add: encode_fields Let_def i drop_push_13 unat_half_fields half_recompose)
qed

lemma unat_low_23: "unat ((m :: u32) AND 0x007FFFFF) < 2 ^ 23"
proof -
  have "(0x007FFFFF :: u32) = mask 23" by (simp add: mask_eq_decr_exp)
  then have "unat (m AND 0x007FFFFF) = take_bit 23 (unat m)"
    by (simp only: take_bit_eq_mask [symmetric] unsigned_take_bit_eq)
  then show ?thesis using take_bit_nat_less_exp [of 23 "unat m"] by simp
qed

lemma leading_bit:
  assumes "2 ^ 23 \<le> unat (m :: u32)" "unat m < 2 ^ 24"
  shows "m AND 0x007FFFFF OR 0x00800000 = m"
proof (rule bit_word_eqI)
  fix n assume "n < LENGTH(32)"
  have "(0x007FFFFF :: u32) = mask 23" "(0x00800000 :: u32) = push_bit 23 1" by (simp_all add: mask_eq_decr_exp push_bit_eq_mult)
  then have k: "bit (0x007FFFFF :: u32) n \<longleftrightarrow> n < 23" "bit (0x00800000 :: u32) n \<longleftrightarrow> n = 23"
    by (simp_all only: bit_mask_iff bit_push_bit_iff) (auto simp: bit_1_iff)
  have "bit m 23" using bit_23 [OF assms(2)] assms(1) and_exp_eq_0_iff_not_bit [of m 23] by simp
  then show "bit (m AND 0x007FFFFF OR 0x00800000) n = bit m n"
    unfolding bit_or_iff bit_and_iff k using bit_small [OF assms(2), of n] by auto
qed

text \<open>A subnormal: the normalised mantissa, shifted back by as many places.\<close>

lemma half_subnormal:
  assumes "h_exp h = 0" "h_man h \<noteq> 0"
  shows "\<exists>f. float16_to_float32 h = Some f \<and> float32_to_float16 f = h"
proof -
  let ?M = "unat (h_man h)"
  have M: "0 < ?M" "?M < 1024" using assms(2) unat_half_fields(2) [of h] by (auto simp: unat_gt_0)
  have p: "unat (push_bit 13 (h_man h)) = ?M * 2 ^ 13" using M by (simp add: unat_push_13)
  obtain k where k: "normalise (push_bit 13 (h_man h)) 0 = Some (word_of_nat (?M * 2 ^ 13 * 2 ^ k), 0 - word_of_nat k)"
      "2 ^ 23 \<le> ?M * 2 ^ 13 * 2 ^ k" "?M * 2 ^ 13 * 2 ^ k < 2 ^ 24"
    using normalise_returns [of "push_bit 13 (h_man h)" 0] M unfolding p by auto
  have k1: "1 \<le> k" using k(2) M by (cases k) auto
  have "2 ^ k < (2 :: nat) ^ 11"
  proof -
    have "2 ^ 13 * 2 ^ k \<le> ?M * 2 ^ 13 * 2 ^ k" using M by simp
    then have "2 ^ 13 * 2 ^ k < (2 :: nat) ^ 24" using k(3) by linarith
    then show ?thesis by simp
  qed
  then have k10: "k \<le> 10" using power_less_imp_less_exp [of "2 :: nat" k 11] by linarith
  define m where "m = (word_of_nat (?M * 2 ^ 13 * 2 ^ k) :: u32)"
  define e where "e = (0 - word_of_nat k + 1 + 112 :: u32)"
  have um: "unat m = ?M * 2 ^ 13 * 2 ^ k" unfolding m_def unat_of_nat using k(3) by (intro mod_less) simp
  have e: "e = word_of_nat (113 - k)" using k10 by (simp add: e_def of_nat_diff)
  have ue: "unat e = 113 - k" unfolding e unat_of_nat by (intro mod_less) simp
  have d: "float16_to_float32 h = Some (h_sign h OR push_bit 23 e OR (m AND 0x007FFFFF))"
    using assms by (simp add: decode_fields k(1) m_def e_def)
  have mm: "m AND 0x007FFFFF OR 0x00800000 = m"
    using k(2,3) by (intro leading_bit) (simp_all add: um)
  have "drop_bit 13 (drop_bit k m) = h_man h"
    unfolding word_unat_eq_iff unat_drop_bit_eq um by (simp add: drop_bit_eq_div)
  moreover have "uint e = 113 - int k" unfolding uint_nat ue using k10 by (simp add: of_nat_diff)
  moreover note unat_low_23 [of m]
  ultimately have "float32_to_float16 (h_sign h OR push_bit 23 e OR (m AND 0x007FFFFF)) = ucast (drop_bit 16 (h_sign h) OR h_man h)"
    using k1 k10 ue by (simp add: encode_fields Let_def mm)
  then show ?thesis
    using d half_recompose [of h] assms(1) by simp
qed

lemma half_infinity: "(ucast (drop_bit 16 (h_sign h) OR 0x7C00) :: u16) = (h AND 0x8000) OR 0x7C00"
proof (rule bit_word_eqI)
  fix n assume n: "n < LENGTH(16)"
  have "(0x7C00 :: u32) = push_bit 10 (mask 5)" by (simp add: mask_eq_decr_exp push_bit_eq_mult)
  then have k: "bit (0x7C00 :: u32) n \<longleftrightarrow> 10 \<le> n \<and> n < 15"
    by (simp only: bit_push_bit_iff bit_mask_iff) auto
  have "16 + n = 31 \<longleftrightarrow> n = 15" by auto
  then show "bit (ucast (drop_bit 16 (h_sign h) OR 0x7C00) :: u16) n = bit ((h AND 0x8000) OR 0x7C00) n"
    unfolding bit_unsigned_iff bit_or_iff bit_and_iff bit_drop_bit_eq comp_def bit_half_fields bit_half_masks k using n by auto
qed

lemma half_decode_encode:
  "\<exists>f. float16_to_float32 h = Some f \<and> (if is_nan16 h then float32_to_float16 f = (h AND 0x8000) OR 0x7C00 else float32_to_float16 f = h)"
proof -
  consider "h_exp h = 0" "h_man h = 0" | "h_exp h = 0" "h_man h \<noteq> 0" | "h_exp h = 31" | "h_exp h \<noteq> 0" "h_exp h \<noteq> 31" by blast
  then show ?thesis
  proof cases
    case 1
    then have "float16_to_float32 h = Some (h_sign h OR push_bit 23 0 OR 0)" by (simp add: decode_fields)
    moreover have "float32_to_float16 (h_sign h OR push_bit 23 0 OR 0) = h"
      using half_recompose [of h] 1 by (subst encode_fields) (simp_all add: Let_def)
    ultimately show ?thesis using 1 by (simp add: is_nan16_fields)
  next
    case 2
    then show ?thesis using half_subnormal by (simp add: is_nan16_fields)
  next
    case 3
    have d: "float16_to_float32 h = Some (h_sign h OR push_bit 23 255 OR push_bit 13 (h_man h))" using 3 by (simp add: decode_fields)
    have e: "float32_to_float16 (h_sign h OR push_bit 23 255 OR push_bit 13 (h_man h)) = ucast (drop_bit 16 (h_sign h) OR 0x7C00)"
      using unat_half_fields(2) [of h] by (subst encode_fields) (simp_all add: unat_push_13 Let_def)
    have "h = (h AND 0x8000) OR 0x7C00" if "h_man h = 0"
      using half_recompose [of h] that 3 by (simp add: half_infinity)
    then show ?thesis using d e 3 by (auto simp: is_nan16_fields half_infinity)
  next
    case 4
    then show ?thesis using half_normal [of h] by (simp add: decode_fields is_nan16_fields)
  qed
qed

lemma bit_single_masks:
  "bit (0x8000 :: u32) n \<longleftrightarrow> n = 15" "bit (0x007FFFFF :: u32) n \<longleftrightarrow> n < 23"
  "bit (0xFFFFE000 :: u32) n \<longleftrightarrow> 13 \<le> n \<and> n < 32" "bit (0x00800000 :: u32) n \<longleftrightarrow> n = 23" "bit (0xFF :: u32) n \<longleftrightarrow> n < 8"
proof -
  have "(0x8000 :: u32) = push_bit 15 1" "(0x007FFFFF :: u32) = mask 23" "(0xFFFFE000 :: u32) = push_bit 13 (mask 19)" "(0x00800000 :: u32) = push_bit 23 1" "(0xFF :: u32) = mask 8"
    by (simp_all add: mask_eq_decr_exp push_bit_eq_mult)
  then show "bit (0x8000 :: u32) n \<longleftrightarrow> n = 15" "bit (0x007FFFFF :: u32) n \<longleftrightarrow> n < 23"
    "bit (0xFFFFE000 :: u32) n \<longleftrightarrow> 13 \<le> n \<and> n < 32" "bit (0x00800000 :: u32) n \<longleftrightarrow> n = 23" "bit (0xFF :: u32) n \<longleftrightarrow> n < 8"
    by (simp_all only: bit_push_bit_iff bit_mask_iff) (auto simp: bit_1_iff)
qed

text \<open>In the range of the normal halves: the exponent is kept and the thirteen low bits of the
  mantissa are dropped.\<close>

lemma encode_normal:
  assumes e: "113 \<le> unat (drop_bit 23 f AND 0xFF)" "unat (drop_bit 23 f AND 0xFF) \<le> 142"
  obtains E where "drop_bit 23 f AND 0xFF = E + (112 :: u32)" "1 \<le> unat E" "unat E < 31"
    "h_exp (float32_to_float16 f) = E"
    "\<forall>n. bit (float32_to_float16 f) n \<longleftrightarrow> n < 16 \<and> (n = 15 \<and> bit f 31 \<or> 10 \<le> n \<and> n < 15 \<and> bit E (n - 10) \<or> n < 10 \<and> bit f (13 + n))"
proof -
  define E where "E = (drop_bit 23 f AND 0xFF) - (112 :: u32)"
  define h where "h = float32_to_float16 f"
  have uE: "unat E = unat (drop_bit 23 f AND 0xFF) - 112"
    unfolding E_def using e by (subst unat_sub) (simp_all add: word_le_nat_alt)
  then have E: "1 \<le> unat E" "unat E < 31" using e by auto
  have i: "uint (drop_bit 23 f AND 0xFF) = uint E + 112" "1 \<le> uint E" "uint E < 31"
    unfolding uint_nat uE using e by linarith+
  have h: "h = ucast ((drop_bit 16 f AND 0x8000) OR push_bit 10 E OR drop_bit 13 (f AND 0x007FFFFF))"
    using i by (simp add: h_def float32_to_float16_def Let_def)
  have bE: "bit E n \<Longrightarrow> n < 5" for n using bit_small [of E 5 n] E by simp
  have b: "bit h n \<longleftrightarrow> n < 16 \<and> (n = 15 \<and> bit f 31 \<or> 10 \<le> n \<and> n < 15 \<and> bit E (n - 10) \<or> n < 10 \<and> bit f (13 + n))" for n
    unfolding h bit_unsigned_iff bit_or_iff bit_and_iff bit_drop_bit_eq bit_push_bit_iff comp_def bit_single_masks
    by (auto simp: add.commute dest: bE)
  have "h_exp h = E"
    by (rule bit_word_eqI) (auto simp: bit_half_fields b dest: bE)
  then show ?thesis using E b by (intro that [of E]) (simp_all add: E_def [symmetric] h_def, simp add: E_def)
qed

lemma half_truncates:
  assumes "113 \<le> unat (drop_bit 23 f AND 0xFF)" "unat (drop_bit 23 f AND 0xFF) \<le> 142"
  shows "float16_to_float32 (float32_to_float16 f) = Some (f AND 0xFFFFE000)"
proof -
  obtain E where E: "drop_bit 23 f AND 0xFF = E + (112 :: u32)" "1 \<le> unat E" "unat E < 31" "h_exp (float32_to_float16 f) = E"
    and b: "\<forall>n. bit (float32_to_float16 f) n \<longleftrightarrow> n < 16 \<and> (n = 15 \<and> bit f 31 \<or> 10 \<le> n \<and> n < 15 \<and> bit E (n - 10) \<or> n < 10 \<and> bit f (13 + n))"
    using encode_normal [OF assms] .
  have "h_sign (float32_to_float16 f) OR push_bit 23 (E + 112) OR push_bit 13 (h_man (float32_to_float16 f)) = f AND 0xFFFFE000"
    unfolding E(1) [symmetric]
  proof (rule bit_word_eqI)
    fix n assume "n < LENGTH(32)"
    then consider "n < 13" | "13 \<le> n" "n < 23" | "23 \<le> n" "n < 31" | "n = 31" by force
    then show "bit (h_sign (float32_to_float16 f) OR push_bit 23 (drop_bit 23 f AND 0xFF) OR push_bit 13 (h_man (float32_to_float16 f))) n
        = bit (f AND 0xFFFFE000) n"
      unfolding bit_or_iff bit_and_iff bit_push_bit_iff bit_drop_bit_eq comp_def bit_half_fields b [rule_format] bit_single_masks
      by cases auto
  qed
  then show ?thesis using E by (auto simp: decode_fields)
qed

subsection \<open>Codes and vectors\<close>

lemma length_u16_bytes [simp]: "length (u16_bytes h) = 2"
  by (simp add: u16_bytes_def)

lemma bytes_u16_u16: "bytes_u16 (u16_bytes h @ bs) = h"
proof -
  have "unat h < 256 ^ 2" using unsigned_less [of h] by simp
  then show ?thesis by (simp add: bytes_u16_def u16_bytes_def le_nat_le_bytes)
qed

lemma u16_bytes_u16: "2 \<le> length bs \<Longrightarrow> u16_bytes (bytes_u16 bs) = take 2 bs"
proof -
  assume "2 \<le> length bs"
  then have l: "length (take 2 bs) = 2" by simp
  have "le_nat (take 2 bs) < 2 ^ 16" using le_nat_less [of "take 2 bs"] l by simp
  then have "unat (bytes_u16 bs) = le_nat (take 2 bs)" by (simp add: bytes_u16_def unat_of_nat)
  then show ?thesis using le_bytes_le_nat [OF l] by (simp add: u16_bytes_def)
qed

lemma length_bytes_halves [simp]: "length (bytes_halves n bs) = n"
  by (induction n arbitrary: bs) simp_all

lemma bytes_halves_concat: "bytes_halves (length hs) (concat (map u16_bytes hs)) = hs"
  by (induction hs) (simp_all add: bytes_u16_u16)

lemma concat_bytes_halves: "length bs = n * 2 \<Longrightarrow> concat (map u16_bytes (bytes_halves n bs)) = bs"
  by (induction n arbitrary: bs) (simp_all add: u16_bytes_u16)

lemma length_concat_u16 [simp]: "length (concat (map (\<lambda>x. u16_bytes (g x)) v)) = 2 * length v"
  by (induction v) simp_all

lemma length_fp16_Encode: "length (fp16_Encode (length v) v) = length v * 2"
  by (simp add: fp16_Encode_def)

lemma decode_halves:
  "\<exists>vs. those (map float16_to_float32 hs) = Some vs \<and> length vs = length hs \<and>
     (list_all (\<lambda>h. \<not> is_nan16 h) hs \<longrightarrow> map float32_to_float16 vs = hs)"
proof (induction hs)
  case (Cons h hs)
  obtain f where "float16_to_float32 h = Some f" "is_nan16 h \<or> float32_to_float16 f = h"
    using half_decode_encode [of h] by (auto split: if_splits)
  then show ?case using Cons by auto
qed simp

lemma fp16_reencode:
  assumes "length codes = dim * 2" "list_all (\<lambda>h. \<not> is_nan16 h) (bytes_halves dim codes)"
  shows "\<exists>v. fp16_Decode dim codes = Some v \<and> length v = dim \<and> fp16_Encode dim v = codes"
proof -
  obtain vs where v: "those (map float16_to_float32 (bytes_halves dim codes)) = Some vs" "length vs = dim"
      "map float32_to_float16 vs = bytes_halves dim codes"
    using decode_halves [of "bytes_halves dim codes"] assms(2) by auto
  have "concat (map (\<lambda>x. u16_bytes (float32_to_float16 x)) vs) = concat (map u16_bytes (map float32_to_float16 vs))"
    by (simp add: comp_def)
  then show ?thesis
    using v assms(1) concat_bytes_halves [of codes dim] by (auto simp: fp16_Decode_def fp16_Encode_def)
qed

lemma fp16_Decode_Encode:
  assumes "\<forall>x\<in>set v. 113 \<le> unat (drop_bit 23 x AND 0xFF) \<and> unat (drop_bit 23 x AND 0xFF) \<le> 142"
  shows "fp16_Decode (length v) (fp16_Encode (length v) v) = Some (map (\<lambda>x. x AND 0xFFFFE000) v)"
proof -
  have "bytes_halves (length v) (fp16_Encode (length v) v) = map float32_to_float16 v"
    using bytes_halves_concat [of "map float32_to_float16 v"] by (simp add: fp16_Encode_def comp_def)
  moreover have "those (map (\<lambda>x. float16_to_float32 (float32_to_float16 x)) v) = Some (map (\<lambda>x. x AND 0xFFFFE000) v)"
    using assms by (induction v) (simp_all add: half_truncates)
  ultimately show ?thesis by (simp add: fp16_Decode_def comp_def) (simp add: fp16_Encode_def)
qed

definition bit_step :: "ieee \<Rightarrow> VectorView \<Rightarrow> nat \<Rightarrow> byte list \<Rightarrow> byte list" where
  "bit_step fp v i codes =
     (if f_lt fp f_0 (v ! i) then codes[i div 8 := codes ! (i div 8) OR push_bit (i mod 8) 1] else codes)"

lemma BitQuantize_steps: "BitQuantize fp v = fold (bit_step fp v) [0..<length v] (replicate ((length v + 7) div 8) 0)"
  unfolding BitQuantize_def bit_step_def ..

lemma bit_steps:
  assumes "n \<le> length v" "codes = fold (bit_step fp v) [0..<n] (replicate ((length v + 7) div 8) 0)"
  shows "length codes = (length v + 7) div 8 \<and>
    (\<forall>j < length codes. \<forall>b. bit (codes ! j) b \<longleftrightarrow> b < 8 \<and> 8 * j + b < n \<and> f_lt fp f_0 (v ! (8 * j + b)))"
  using assms(1) unfolding assms(2)
proof (induction n)
  case (Suc n)
  let ?c = "fold (bit_step fp v) [0..<n] (replicate ((length v + 7) div 8) 0)"
  have l: "length ?c = (length v + 7) div 8" and IH: "\<And>j b. j < length ?c \<Longrightarrow> bit (?c ! j) b \<longleftrightarrow> b < 8 \<and> 8 * j + b < n \<and> f_lt fp f_0 (v ! (8 * j + b))"
    using Suc by auto
  have i: "n div 8 < length ?c" using Suc.prems l by simp
  have pb: "bit ((2 :: byte) ^ (n mod 8)) b \<longleftrightarrow> b = n mod 8" for b
    by (auto simp: bit_exp_iff)
  have "bit (bit_step fp v n ?c ! j) b \<longleftrightarrow> b < 8 \<and> 8 * j + b < Suc n \<and> f_lt fp f_0 (v ! (8 * j + b))" if "j < length ?c" for j b
  proof (cases "8 * j + b = n \<and> b < 8")
    case True
    then have "n div 8 = j" "n mod 8 = b" by auto
    then show ?thesis using True IH that i pb
      by (auto simp: bit_step_def bit_or_iff)
  next
    case False
    then have "\<not> (n div 8 = j \<and> n mod 8 = b)" by (metis mod_less_divisor mult_div_mod_eq zero_less_numeral)
    then show ?thesis using False IH that i pb
      by (auto simp: bit_step_def bit_or_iff nth_list_update less_Suc_eq)
  qed
  moreover have "length (bit_step fp v n ?c) = length ?c" by (simp add: bit_step_def)
  ultimately show ?case using l by simp
qed simp

lemma BitQuantize_bits:
  "length (BitQuantize fp v) = (length v + 7) div 8"
  "j < (length v + 7) div 8 \<Longrightarrow> bit (BitQuantize fp v ! j) b \<longleftrightarrow> b < 8 \<and> 8 * j + b < length v \<and> f_lt fp f_0 (v ! (8 * j + b))"
  using bit_steps [OF order_refl BitQuantize_steps] by auto

lemma test_bit_and_1: "drop_bit k w AND 1 \<noteq> 0 \<longleftrightarrow> bit (w :: byte) k"
  by (simp add: and_one_eq odd_iff_mod_2_eq_one [symmetric] bit_iff_odd_drop_bit)

lemma bit_Decode_Encode:
  "bit_Decode (length v) (bit_Encode fp (length v) v) = map (\<lambda>x. if f_lt fp f_0 x then f_1 else f_neg_1) v"
proof (rule nth_equalityI)
  fix i assume "i < length (bit_Decode (length v) (bit_Encode fp (length v) v))"
  then have i: "i < length v" by (auto simp: bit_Decode_def split: if_splits)
  show "bit_Decode (length v) (bit_Encode fp (length v) v) ! i = map (\<lambda>x. if f_lt fp f_0 x then f_1 else f_neg_1) v ! i"
    using i by (simp add: bit_Decode_def bit_Encode_def BitQuantize_bits test_bit_and_1)
qed (simp add: bit_Decode_def bit_Encode_def BitQuantize_bits)

lemma bit_reencode:
  assumes fp: "f_lt fp f_0 f_1" "\<not> f_lt fp f_0 f_neg_1"
    and l: "length codes = (dim + 7) div 8"
    and pad: "\<And>j b. j < length codes \<Longrightarrow> bit (codes ! j) b \<Longrightarrow> 8 * j + b < dim"
  shows "bit_Encode fp dim (bit_Decode dim codes) = codes"
proof -
  have d: "length (bit_Decode dim codes) = dim" using l by (simp add: bit_Decode_def)
  have "BitQuantize fp (bit_Decode dim codes) = codes"
  proof (rule nth_equalityI)
    fix j assume "j < length (BitQuantize fp (bit_Decode dim codes))"
    then have j: "j < (dim + 7) div 8" by (simp add: BitQuantize_bits d)
    have "f_lt fp f_0 (bit_Decode dim codes ! (8 * j + b)) \<longleftrightarrow> bit (codes ! j) b" if "b < 8" "8 * j + b < dim" for b
      using that l fp by (auto simp: bit_Decode_def test_bit_and_1)
    then show "BitQuantize fp (bit_Decode dim codes) ! j = codes ! j"
      using j l pad [of j] by (intro bit_word_eqI) (auto simp: BitQuantize_bits d dest: bit_imp_le_length)
  qed (simp add: BitQuantize_bits d l)
  then show ?thesis by (simp add: bit_Encode_def d)
qed

lemma encode_not_nan: "\<not> is_nan16 (float32_to_float16 f)"
proof (cases "113 \<le> unat (drop_bit 23 f AND 0xFF) \<and> unat (drop_bit 23 f AND 0xFF) \<le> 142")
  case True
  then obtain E where "unat E < 31" "h_exp (float32_to_float16 f) = E" using encode_normal [of f] by metis
  then show ?thesis by (auto simp: is_nan16_fields)
next
  case False
  let ?s = "drop_bit 16 f AND 0x8000" and ?e = "uint (drop_bit 23 f AND 0xFF) - 127"
  let ?m = "drop_bit 13 (drop_bit (nat (- 14 - ?e)) ((f AND 0x007FFFFF) OR 0x00800000))"
  have out: "?e \<le> -15 \<or> ?e \<ge> 16" using False unfolding uint_nat by linarith
  have k: "bit (0x7C00 :: u32) n \<longleftrightarrow> 10 \<le> n \<and> n < 15" for n
  proof -
    have "(0x7C00 :: u32) = push_bit 10 (mask 5)" by (simp add: mask_eq_decr_exp push_bit_eq_mult)
    then show ?thesis by (simp only: bit_push_bit_iff bit_mask_iff) auto
  qed
  have inf: "h_man (ucast (?s OR 0x7C00)) = 0"
    by (rule bit_word_eqI) (simp only: bit_half_fields bit_unsigned_iff bit_or_iff bit_and_iff bit_single_masks k, auto)
  have z: "h_exp (ucast (?s OR x)) = 0" if "\<And>n. bit x n \<Longrightarrow> n < 10" for x
    using that by (intro bit_word_eqI) (simp only: bit_half_fields bit_unsigned_iff bit_or_iff bit_and_iff bit_single_masks, fastforce)
  have "bit ?m n \<Longrightarrow> n < 10" if "?e \<le> -15" for n
  proof -
    assume "bit ?m n"
    then have "bit ((f AND 0x007FFFFF) OR 0x00800000) (nat (- 14 - ?e) + (13 + n))" unfolding bit_drop_bit_eq comp_def .
    then have "nat (- 14 - ?e) + (13 + n) < 24"
      unfolding bit_or_iff bit_and_iff bit_single_masks by auto
    then show "n < 10" using that by linarith
  qed
  then show ?thesis
    using out inf z [of 0] z [of ?m] by (auto simp: float32_to_float16_def Let_def is_nan16_fields)
qed

subsection \<open>Properties\<close>

text \<open>C18: Every half is decoded (the loop that normalises subnormals always ends), and
  \<open>float32_to_float16\<close> gives the half back; a NaN comes back as an infinity of its sign.\<close>

theorem half_roundtrip:
  "\<exists>f. float16_to_float32 h = Some f \<and>
     float32_to_float16 f = (if is_nan16 h then (h AND 0x8000) OR 0x7C00 else h)"
  using half_decode_encode [of h] by auto

text \<open>C29: Compressing what was decompressed loses nothing more: for every vector the codes of the
  decoded FP16 codes are the same codes, and likewise for the one-bit codes.\<close>

theorem Requantise_lossless:
  assumes "f_lt fp f_0 f_1" "\<not> f_lt fp f_0 f_neg_1"
  shows "(\<exists>w. fp16_Decode (length v) (fp16_Encode (length v) v) = Some w \<and>
           fp16_Encode (length v) w = fp16_Encode (length v) v) \<and>
         bit_Encode fp (length v) (bit_Decode (length v) (bit_Encode fp (length v) v)) = bit_Encode fp (length v) v"
proof
  have "bytes_halves (length v) (fp16_Encode (length v) v) = map float32_to_float16 v"
    using bytes_halves_concat [of "map float32_to_float16 v"] by (simp add: fp16_Encode_def comp_def)
  then have "list_all (\<lambda>h. \<not> is_nan16 h) (bytes_halves (length v) (fp16_Encode (length v) v))"
    by (simp add: list_all_iff encode_not_nan)
  then show "\<exists>w. fp16_Decode (length v) (fp16_Encode (length v) v) = Some w \<and> fp16_Encode (length v) w = fp16_Encode (length v) v"
    using fp16_reencode [of "fp16_Encode (length v) v" "length v"] by (auto simp: length_fp16_Encode)
  show "bit_Encode fp (length v) (bit_Decode (length v) (bit_Encode fp (length v) v)) = bit_Encode fp (length v) v"
    using assms by (intro bit_reencode) (simp_all add: bit_Encode_def BitQuantize_bits)
qed

theorem Requantise_lossless_witness:
  "f_lt sample_fp f_0 f_1 \<and> \<not> f_lt sample_fp f_0 f_neg_1 \<and>
   (\<exists>w. fp16_Decode 2 (fp16_Encode 2 [f_255, f_1e_6]) = Some w \<and> fp16_Encode 2 w = fp16_Encode 2 [f_255, f_1e_6]) \<and>
   bit_Encode sample_fp 2 (bit_Decode 2 (bit_Encode sample_fp 2 [f_255, f_1e_6])) = bit_Encode sample_fp 2 [f_255, f_1e_6]"
proof -
  have "f_lt sample_fp f_0 f_1" "\<not> f_lt sample_fp f_0 f_neg_1"
    by (simp_all add: sample_fp_def f_0_def f_1_def f_neg_1_def)
  then show ?thesis using Requantise_lossless [of sample_fp "[f_255, f_1e_6]"] by (simp add: numeral_2_eq_2)
qed

end
