(* ===== verification/Segment.thy ===== *)
theory Segment
  imports Posix_File Crc32c Quantizers Lexical
begin

text \<open>
  Immutable segments, \<open>src/table/segment.cc\<close> and \<open>segment.h\<close>: the builder that sorts its entries
  and streams them to a file, and the reader over the mapped file.

  The builder is modelled for the vectors it stores as floats or with the three quantisers of
  \<open>Quantizers\<close>; product quantisation (\<open>kPq8\<close>), whose codebook lives in a file of its own,
  is not.  A reader is modelled without the sidecar files: no HNSW or IVF index and no codebook.
  \<open>std::sort\<close> is a parameter, for the entries and for the time index.  A time entry
  is written with the four bytes of padding its struct has; the language leaves them
  unspecified, so they are a parameter too.  Reads through the mapping are \<open>take\<close> and
  \<open>drop\<close>; a read past the end of the file, undefined in the source, gives fewer bytes.
\<close>

unbundle bit_operations_syntax

subsection \<open>Format\<close>

definition kMagic :: string where "kMagic = ''pomai.seg.v1''"

datatype SegmentQuant = qNone | qSq8 | qFp16 | qBit

fun quant_code :: "SegmentQuant \<Rightarrow> byte" where
  "quant_code qNone = 0"
| "quant_code qSq8 = 1"
| "quant_code qFp16 = 2"
| "quant_code qBit = 3"

record seg_header =
  sh_version :: u32
  sh_count :: u32
  sh_dim :: u32
  sh_metadata_offset :: u32
  sh_quant_type :: byte
  sh_quant_min :: float32
  sh_quant_inv_scale :: float32
  sh_entries_start_offset :: u32
  sh_entry_size :: u32
  sh_temporal_index_offset :: u32

definition header_size :: nat where "header_size = 56"

definition header_bytes :: "seg_header \<Rightarrow> byte list" where
  "header_bytes h = bytes_of kMagic @ u32_bytes (sh_version h) @ u32_bytes (sh_count h) @ u32_bytes (sh_dim h) @
     u32_bytes (sh_metadata_offset h) @ [sh_quant_type h, 0, 0, 0] @ u32_bytes (sh_quant_min h) @
     u32_bytes (sh_quant_inv_scale h) @ u32_bytes (sh_entries_start_offset h) @ u32_bytes (sh_entry_size h) @
     u32_bytes (sh_temporal_index_offset h) @ [0, 0, 0, 0]"

definition kFlagNone :: byte where "kFlagNone = 0"
definition seg_kFlagTombstone :: byte where "seg_kFlagTombstone = 1"

subsection \<open>\<open>SegmentBuilder\<close>\<close>

record seg_entry =
  sn_id :: VectorId
  sn_vec :: VectorView
  sn_deleted :: bool
  sn_meta :: Metadata

record seg_builder =
  sb_path :: string
  sb_dim :: u32
  sb_quant :: SegmentQuant
  sb_entries :: "seg_entry list"

definition SegmentBuilder :: "string \<Rightarrow> u32 \<Rightarrow> SegmentQuant \<Rightarrow> seg_builder" where
  "SegmentBuilder path dim quant = \<lparr>sb_path = path, sb_dim = dim, sb_quant = quant, sb_entries = []\<rparr>"

text \<open>A deleted entry keeps a null view, which is never read.\<close>

definition sb_Add :: "seg_builder \<Rightarrow> VectorId \<Rightarrow> VectorView \<Rightarrow> bool \<Rightarrow> Metadata \<Rightarrow> status \<times> seg_builder" where
  "sb_Add b vid vec is_deleted meta =
     (if is_deleted then
        (Ok, b\<lparr>sb_entries := sb_entries b @ [\<lparr>sn_id = vid, sn_vec = [], sn_deleted = True, sn_meta = meta\<rparr>]\<rparr>)
      else if vv_dim vec \<noteq> sb_dim b then (InvalidArgument ''dimension mismatch'', b)
      else (Ok, b\<lparr>sb_entries := sb_entries b @ [\<lparr>sn_id = vid, sn_vec = vec, sn_deleted = False, sn_meta = meta\<rparr>]\<rparr>))"

definition sb_Add0 :: "seg_builder \<Rightarrow> VectorId \<Rightarrow> VectorView \<Rightarrow> bool \<Rightarrow> status \<times> seg_builder" where
  "sb_Add0 b vid vec is_deleted = sb_Add b vid vec is_deleted Metadata0"

definition sb_Count :: "seg_builder \<Rightarrow> u32" where
  "sb_Count b = word_of_nat (length (sb_entries b))"

fun vec_bytes :: "SegmentQuant \<Rightarrow> nat \<Rightarrow> nat" where
  "vec_bytes qNone dim = dim * 4"
| "vec_bytes qSq8 dim = dim"
| "vec_bytes qFp16 dim = dim * 2"
| "vec_bytes qBit dim = (dim + 7) div 8"

text \<open>Training: the scalar quantiser learns its bounds, the others only check.\<close>

definition training_data :: "seg_entry list \<Rightarrow> VectorView" where
  "training_data es = concat (map sn_vec (filter (\<lambda>e. \<not> sn_deleted e) es))"

definition train :: "ieee \<Rightarrow> SegmentQuant \<Rightarrow> nat \<Rightarrow> seg_entry list \<Rightarrow> status \<times> sq8" where
  "train fp quant dim es =
     (let d = training_data es; q = sq8_new dim in
      case quant of
        qSq8 \<Rightarrow> if d = [] then (Ok, q) else sq8_Train fp q d (length d div dim)
      | qFp16 \<Rightarrow> if d = [] then (Ok, q) else (fp16_Train dim (length d div dim), q)
      | _ \<Rightarrow> (Ok, q))"

text \<open>The bytes of a vector in its entry.\<close>

definition vector_code :: "ieee \<Rightarrow> SegmentQuant \<Rightarrow> nat \<Rightarrow> sq8 \<Rightarrow> seg_entry \<Rightarrow> byte list" where
  "vector_code fp quant dim q e =
     (if sn_deleted e then replicate (vec_bytes quant dim) 0
      else case quant of
        qNone \<Rightarrow> float_bytes (sn_vec e)
      | qSq8 \<Rightarrow> sq8_Encode fp q (sn_vec e)
      | qFp16 \<Rightarrow> fp16_Encode dim (sn_vec e)
      | qBit \<Rightarrow> bit_Encode fp dim (sn_vec e))"

definition entry_size_of :: "SegmentQuant \<Rightarrow> nat \<Rightarrow> nat" where
  "entry_size_of quant dim = (8 + 4 + vec_bytes quant dim + 63) div 64 * 64"

definition entry_bytes :: "ieee \<Rightarrow> SegmentQuant \<Rightarrow> nat \<Rightarrow> sq8 \<Rightarrow> seg_entry \<Rightarrow> byte list" where
  "entry_bytes fp quant dim q e =
     (let used = u64_bytes (sn_id e) @ [if sn_deleted e then seg_kFlagTombstone else kFlagNone, 0, 0, 0] @ vector_code fp quant dim q e
      in used @ replicate (entry_size_of quant dim - length used) 0)"

definition add_str :: "string \<Rightarrow> byte list" where
  "add_str s = (let len = word_of_nat (length s) :: u32 in u32_bytes len @ (if len > 0 then bytes_of s else []))"

definition md_record :: "Metadata \<Rightarrow> byte list" where
  "md_record m = u64_bytes (md_src_vid m) @ u64_bytes (md_timestamp m) @ u64_bytes (md_lsn m) @ u64_bytes (md_lat m) @
     u64_bytes (md_lon m) @ add_str (md_device_id m) @ add_str (md_location_id m) @ add_str (md_tenant m) @
     add_str (md_text m) @ add_str (md_payload m)"

fun meta_offsets :: "nat \<Rightarrow> byte list list \<Rightarrow> nat list" where
  "meta_offsets n [] = [n]"
| "meta_offsets n (b # bs) = n # meta_offsets (n + length b) bs"

definition time_entries :: "seg_entry list \<Rightarrow> (u64 \<times> u32) list" where
  "time_entries es = map (\<lambda>(i, e). (md_timestamp (sn_meta e), word_of_nat i)) (enumerate 0 es)"

definition time_bytes :: "(nat \<Rightarrow> u32) \<Rightarrow> (u64 \<times> u32) list \<Rightarrow> byte list" where
  "time_bytes padding ts = concat (map (\<lambda>(j, (t, i)). u64_bytes t @ u32_bytes i @ u32_bytes (padding j)) (enumerate 0 ts))"

text \<open>A run of \<open>Append\<close>s, each followed by a return when it fails.\<close>

fun appends :: "posix_env \<Rightarrow> iofile \<Rightarrow> byte list list \<Rightarrow> status \<times> posix_env \<times> iofile" where
  "appends e f [] = (Ok, e, f)"
| "appends e f (b # bs) = (case iop_Append e f b of (s, e, f) \<Rightarrow> if \<not> st_ok s then (s, e, f) else appends e f bs)"

definition crc_blocks :: "byte list list \<Rightarrow> u32" where
  "crc_blocks bs = foldl (\<lambda>crc b. Crc32c b crc) 0 bs"

text \<open>The header before the metadata is laid out, and the one that replaces it.\<close>

definition first_header :: "SegmentQuant \<Rightarrow> u32 \<Rightarrow> sq8 \<Rightarrow> seg_entry list \<Rightarrow> seg_header" where
  "first_header quant dim q es =
     (let entry_size = entry_size_of quant (unat dim) in
      \<lparr>sh_version = 6, sh_count = word_of_nat (length es), sh_dim = dim,
       sh_metadata_offset = word_of_nat (128 + length es * entry_size), sh_quant_type = quant_code quant,
       sh_quant_min = (if quant = qSq8 then sq_min q else f_0), sh_quant_inv_scale = (if quant = qSq8 then sq_inv_scale q else f_0),
       sh_entries_start_offset = 128, sh_entry_size = word_of_nat entry_size, sh_temporal_index_offset = 0\<rparr>)"

definition meta_blob :: "seg_entry list \<Rightarrow> byte list" where
  "meta_blob es = concat (map (\<lambda>e. md_record (sn_meta e)) es)"

definition offset_bytes :: "seg_entry list \<Rightarrow> byte list" where
  "offset_bytes es = concat (map (\<lambda>n. u64_bytes (word_of_nat n)) (meta_offsets 0 (map (\<lambda>e. md_record (sn_meta e)) es)))"

definition final_header :: "seg_header \<Rightarrow> seg_entry list \<Rightarrow> seg_header" where
  "final_header h es =
     h\<lparr>sh_temporal_index_offset := word_of_nat (unat (sh_metadata_offset h) + length (offset_bytes es) + length (meta_blob es))\<rparr>"

text \<open>The streaming part: blocks, the header again over the first one, more blocks, the checksum.\<close>

definition stream_segment :: "posix_env \<Rightarrow> iofile \<Rightarrow> byte list list \<Rightarrow> byte list \<Rightarrow> byte list list \<Rightarrow> status \<times> posix_env" where
  "stream_segment e f head header tail =
     (let crc = crc_blocks (head @ tail) in
      case appends e f head of (s, e, f) \<Rightarrow>
      if \<not> st_ok s then (s, e) else
      case iop_Pwrite e f 0 header of (s, e, f) \<Rightarrow>
      if \<not> st_ok s then (s, e) else
      case appends e f (tail @ [u32_bytes crc]) of (s, e, f) \<Rightarrow>
      if \<not> st_ok s then (s, e) else
      case iop_Sync e f of (s, e) \<Rightarrow>
      if \<not> st_ok s then (s, e) else
      case iop_Close e f of (s, e, f) \<Rightarrow> (s, e))"

definition sb_Finish :: "ieee \<Rightarrow> (seg_entry list \<Rightarrow> seg_entry list) \<Rightarrow> ((u64 \<times> u32) list \<Rightarrow> (u64 \<times> u32) list) \<Rightarrow>
    (nat \<Rightarrow> u32) \<Rightarrow> posix_env \<Rightarrow> seg_builder \<Rightarrow> status \<times> posix_env \<times> seg_builder" where
  "sb_Finish fp srt tsrt padding e b =
     (let es = srt (sb_entries b); b = b\<lparr>sb_entries := es\<rparr>; tmp_path = sb_path b @ ''.tmp'';
          quant = sb_quant b; dim = unat (sb_dim b) in
      case iop_NewWritableFile e tmp_path of
        (s, None, e) \<Rightarrow> (s, e, b)
      | (s, Some f, e) \<Rightarrow>
        (case train fp quant dim es of (s, q) \<Rightarrow>
         if \<not> st_ok s then (s, e, b) else
         let h = first_header quant (sb_dim b) q es;
             head = header_bytes h # replicate (128 - header_size) 0 # map (entry_bytes fp quant dim q) es;
             tail = [offset_bytes es] @ (if meta_blob es = [] then [] else [meta_blob es]) @
                    [time_bytes padding (tsrt (time_entries es))]
         in case stream_segment e f head (header_bytes (final_header h es)) tail of (s, e) \<Rightarrow>
         if \<not> st_ok s then (s, e, b) else
         case fs_rename e tmp_path (sb_path b) of (failed, e) \<Rightarrow>
         if failed then (IOError ''rename failed'', e, b) else (Ok, e, b)))"

subsection \<open>\<open>SegmentReader\<close>\<close>

record seg_reader =
  sr_path :: string
  sr_data :: "byte list"
  sr_count :: u32
  sr_dim :: u32
  sr_entry_size :: nat
  sr_start :: u32
  sr_metadata_offset :: u32
  sr_temporal_index_offset :: u32
  sr_quant_type :: byte
  sr_sq8 :: sq8

definition rd :: "nat \<Rightarrow> nat \<Rightarrow> byte list \<Rightarrow> byte list" where
  "rd n off d = take n (drop off d)"

definition rd32 :: "nat \<Rightarrow> byte list \<Rightarrow> u32" where
  "rd32 off d = bytes_u32 (rd 4 off d)"

definition rd64 :: "nat \<Rightarrow> byte list \<Rightarrow> u64" where
  "rd64 off d = bytes_u64 (rd 8 off d)"

definition rd8 :: "nat \<Rightarrow> byte list \<Rightarrow> byte" where
  "rd8 off d = (case rd 1 off d of b # _ \<Rightarrow> b | [] \<Rightarrow> 0)"

definition parse_header :: "byte list \<Rightarrow> seg_header" where
  "parse_header d = \<lparr>sh_version = rd32 12 d, sh_count = rd32 16 d, sh_dim = rd32 20 d, sh_metadata_offset = rd32 24 d,
     sh_quant_type = rd8 28 d, sh_quant_min = rd32 32 d, sh_quant_inv_scale = rd32 36 d,
     sh_entries_start_offset = rd32 40 d, sh_entry_size = rd32 44 d, sh_temporal_index_offset = rd32 48 d\<rparr>"

text \<open>The size of an entry before version 5, which the header does not hold.\<close>

definition old_entry_size :: "byte \<Rightarrow> nat \<Rightarrow> nat" where
  "old_entry_size q dim =
     8 + 4 + (if q = quant_code qSq8 then dim else if q = quant_code qFp16 then dim * 2
              else if q = quant_code qBit then (dim + 7) div 8 else dim * 4)"

definition sr_Open :: "ieee \<Rightarrow> posix_env \<Rightarrow> string \<Rightarrow> status \<times> seg_reader option \<times> posix_env" where
  "sr_Open fp e path =
     (case iop_NewMemoryMappedFile e path of
        (s, None, e) \<Rightarrow> (s, None, e)
      | (s, Some d, e) \<Rightarrow>
        if length d < header_size then (Corruption ''file too small'', None, e)
        else if rd 12 0 d \<noteq> bytes_of kMagic then (Corruption ''bad magic'', None, e)
        else let h = parse_header d; v = sh_version h in
        if v < 2 \<or> v > 6 then (Corruption ''unsupported version'', None, e)
        else let q = (if v \<ge> 4 then sh_quant_type h else quant_code qNone);
                 esize = (if v \<ge> 5 then unat (sh_entry_size h) else old_entry_size q (unat (sh_dim h)));
                 start = (if v \<ge> 5 then sh_entries_start_offset h else word_of_nat header_size);
                 sq = sq8_new (unat (sh_dim h));
                 r = \<lparr>sr_path = path, sr_data = d, sr_count = sh_count h, sr_dim = sh_dim h, sr_entry_size = esize, sr_start = start,
                      sr_metadata_offset = (if v \<ge> 3 then sh_metadata_offset h else 0),
                      sr_temporal_index_offset = (if v \<ge> 6 then sh_temporal_index_offset h else 0),
                      sr_quant_type = q,
                      sr_sq8 = (if q = quant_code qSq8 then sq8_LoadState fp sq (sh_quant_min h) (sh_quant_inv_scale h) else sq)\<rparr>;
                 expected_min = (unat start + unat (sh_count h) * esize + 4) mod 2 ^ 64
             in if length d < expected_min then (Corruption ''segment truncated'', None, e) else (Ok, Some r, e))"

definition entry_at :: "seg_reader \<Rightarrow> nat \<Rightarrow> nat" where
  "entry_at r i = unat (sr_start r) + i * sr_entry_size r"

subsubsection \<open>Metadata\<close>

definition read_str :: "byte list \<Rightarrow> nat \<Rightarrow> string \<times> nat" where
  "read_str blob cursor =
     (let len = unat (rd32 cursor blob); cursor = cursor + 4
      in if len > 0 then (string_of (rd len cursor blob), cursor + len) else ([], cursor))"

definition md_parse :: "byte list \<Rightarrow> Metadata" where
  "md_parse blob =
     (let (device, c) = read_str blob 40; (location, c) = read_str blob c; (tenant, c) = read_str blob c;
          (txt, c) = read_str blob c; (payload, c) = read_str blob c
      in \<lparr>md_tenant = tenant, md_device_id = device, md_location_id = location, md_src_vid = rd64 0 blob,
          md_timestamp = rd64 8 blob, md_lsn = rd64 16 blob, md_text = txt, md_payload = payload,
          md_lat = rd64 24 blob, md_lon = rd64 32 blob\<rparr>)"

text \<open>The record of an entry, if the block has one; \<open>count_ + 1\<close> is computed in 32 bits.\<close>

definition meta_at :: "seg_reader \<Rightarrow> nat \<Rightarrow> Metadata option" where
  "meta_at r i =
     (let base = unat (sr_metadata_offset r); blob = base + unat (sr_count r + 1) * 8;
          start = rd64 (base + i * 8) (sr_data r); fin = rd64 (base + (i + 1) * 8) (sr_data r)
      in if fin > start then Some (md_parse (drop (blob + unat start) (sr_data r))) else None)"

definition GetMetadata :: "seg_reader \<Rightarrow> nat \<Rightarrow> Metadata \<Rightarrow> Metadata" where
  "GetMetadata r i out =
     (if sr_metadata_offset r = 0 \<or> i \<ge> unat (sr_count r) then out
      else case meta_at r i of Some m \<Rightarrow> m | None \<Rightarrow> out)"

subsubsection \<open>Point lookups\<close>

function find_loop :: "seg_reader \<Rightarrow> VectorId \<Rightarrow> int \<Rightarrow> int \<Rightarrow> nat option" where
  "find_loop r vid left right =
     (if left \<le> right then
        let mid = left + (right - left) div 2; read_id = rd64 (entry_at r (nat mid)) (sr_data r)
        in if read_id = vid then Some (nat mid)
           else if read_id < vid then find_loop r vid (mid + 1) right
           else find_loop r vid left (mid - 1)
      else None)"
  by pat_completeness auto
termination
  by (relation "measure (\<lambda>(r, vid, left, right). nat (right - left + 1))") auto

declare find_loop.simps [simp del]

datatype FindResult = kFound | kFoundTombstone | kNotFound

text \<open>\<open>FindRaw\<close>: the result, where the vector starts (0 for the null pointer) and the metadata.\<close>

definition FindRaw :: "seg_reader \<Rightarrow> VectorId \<Rightarrow> Metadata \<Rightarrow> FindResult \<times> nat \<times> Metadata" where
  "FindRaw r vid out_meta =
     (if sr_count r = 0 then (kNotFound, 0, out_meta)
      else case find_loop r vid 0 (int (unat (sr_count r)) - 1) of
        None \<Rightarrow> (kNotFound, 0, out_meta)
      | Some mid \<Rightarrow>
          if rd8 (entry_at r mid + 8) (sr_data r) AND seg_kFlagTombstone \<noteq> 0
          then (kFoundTombstone, 0, GetMetadata r mid out_meta)
          else (kFound, entry_at r mid + 12, GetMetadata r mid out_meta))"

definition slice_bytes :: "byte \<Rightarrow> nat \<Rightarrow> nat" where
  "slice_bytes q dim =
     (if q = quant_code qSq8 then dim else if q = quant_code qFp16 then dim * 2
      else if q = quant_code qBit then (dim + 7) div 8 else dim * 4)"

definition sr_Get :: "seg_reader \<Rightarrow> VectorId \<Rightarrow> Metadata \<Rightarrow> status \<times> byte list \<times> Metadata" where
  "sr_Get r vid out_meta =
     (case FindRaw r vid out_meta of (res, p, m) \<Rightarrow>
        (case res of
           kFound \<Rightarrow> (Ok, rd (slice_bytes (sr_quant_type r) (unat (sr_dim r))) p (sr_data r), m)
         | kFoundTombstone \<Rightarrow> (NotFound ''tombstone'', [], m)
         | kNotFound \<Rightarrow> (NotFound ''id not found in segment'', [], m)))"

definition code_bytes :: "byte \<Rightarrow> nat \<Rightarrow> nat" where
  "code_bytes q dim = (if q = quant_code qFp16 then dim * 2 else if q = quant_code qBit then (dim + 7) div 8 else dim)"

definition GetQuantized :: "seg_reader \<Rightarrow> VectorId \<Rightarrow> Metadata \<Rightarrow> status \<times> byte list \<times> Metadata" where
  "GetQuantized r vid out_meta =
     (if sr_quant_type r = quant_code qNone then (InvalidArgument ''Segment is not quantized'', [], out_meta)
      else case FindRaw r vid out_meta of (res, p, m) \<Rightarrow>
        (case res of
           kFound \<Rightarrow> (Ok, rd (code_bytes (sr_quant_type r) (unat (sr_dim r))) p (sr_data r), m)
         | kFoundTombstone \<Rightarrow> (NotFound ''tombstone'', [], m)
         | kNotFound \<Rightarrow> (NotFound ''id not found in segment'', [], m)))"

definition floats_at :: "seg_reader \<Rightarrow> nat \<Rightarrow> VectorView" where
  "floats_at r p = bytes_floats (unat (sr_dim r)) (drop p (sr_data r))"

definition sr_Find :: "seg_reader \<Rightarrow> VectorId \<Rightarrow> Metadata \<Rightarrow> FindResult \<times> VectorView \<times> Metadata" where
  "sr_Find r vid out_meta =
     (if sr_quant_type r \<noteq> quant_code qNone then (kNotFound, [], out_meta)
      else case FindRaw r vid out_meta of (res, p, m) \<Rightarrow>
        (res, if res = kFound then floats_at r p else [], m))"

text \<open>The quantiser a reader has; \<open>None\<close> is a null pointer (a kind this reader has no quantiser for).\<close>

definition sr_Decode :: "ieee \<Rightarrow> seg_reader \<Rightarrow> byte list \<Rightarrow> VectorView option" where
  "sr_Decode fp r codes =
     (if sr_quant_type r = quant_code qSq8 then Some (sq8_Decode fp (sr_sq8 r) codes)
      else if sr_quant_type r = quant_code qFp16 then fp16_Decode (unat (sr_dim r)) codes
      else if sr_quant_type r = quant_code qBit then Some (bit_Decode (unat (sr_dim r)) codes)
      else None)"

text \<open>\<open>FindAndDecode\<close> hands the quantiser \<open>dim_\<close> bytes, twice as many for FP16.\<close>

definition FindAndDecode :: "ieee \<Rightarrow> seg_reader \<Rightarrow> VectorId \<Rightarrow> Metadata \<Rightarrow> FindResult \<times> VectorView option \<times> Metadata" where
  "FindAndDecode fp r vid out_meta =
     (case FindRaw r vid out_meta of (res, p, m) \<Rightarrow>
        if res = kFound then
          (if sr_quant_type r \<noteq> quant_code qNone then
             let n = (if sr_quant_type r = quant_code qFp16 then unat (sr_dim r) * 2 else unat (sr_dim r))
             in (res, sr_Decode fp r (rd n p (sr_data r)), m)
           else (res, Some (floats_at r p), m))
        else (res, Some [], m))"

subsubsection \<open>Reads by position\<close>

definition deleted_at :: "seg_reader \<Rightarrow> nat \<Rightarrow> bool" where
  "deleted_at r i \<longleftrightarrow> rd8 (entry_at r i + 8) (sr_data r) AND seg_kFlagTombstone \<noteq> 0"

definition ReadAt :: "seg_reader \<Rightarrow> nat \<Rightarrow> Metadata \<Rightarrow> status \<times> VectorId \<times> VectorView \<times> bool \<times> Metadata" where
  "ReadAt r i out_meta =
     (if i \<ge> unat (sr_count r) then (InvalidArgument ''index out of range'', 0, [], False, out_meta)
      else (Ok, rd64 (entry_at r i) (sr_data r),
            if deleted_at r i \<or> sr_quant_type r \<noteq> quant_code qNone then [] else floats_at r (entry_at r i + 12),
            deleted_at r i, GetMetadata r i out_meta))"

definition ReadAtCodes :: "seg_reader \<Rightarrow> nat \<Rightarrow> Metadata \<Rightarrow> status \<times> VectorId \<times> byte list \<times> bool \<times> Metadata" where
  "ReadAtCodes r i out_meta =
     (if i \<ge> unat (sr_count r) then (InvalidArgument ''index out of range'', 0, [], False, out_meta)
      else (Ok, rd64 (entry_at r i) (sr_data r),
            if deleted_at r i \<or> sr_quant_type r = quant_code qNone then []
            else rd (code_bytes (sr_quant_type r) (unat (sr_dim r))) (entry_at r i + 12) (sr_data r),
            deleted_at r i, GetMetadata r i out_meta))"

definition ReadAtMetadata :: "seg_reader \<Rightarrow> nat \<Rightarrow> Metadata \<Rightarrow> status \<times> bool \<times> Metadata" where
  "ReadAtMetadata r i out_meta =
     (if i \<ge> unat (sr_count r) then (InvalidArgument ''index out of range'', False, out_meta)
      else (Ok, deleted_at r i, GetMetadata r i out_meta))"

text \<open>\<open>ForEach\<close>: what the callback is given, entry by entry; the vector is \<open>None\<close> only for a
  conversion that does not return.\<close>

definition for_each_entry :: "ieee \<Rightarrow> seg_reader \<Rightarrow> nat \<Rightarrow> VectorId \<times> VectorView option \<times> bool \<times> Metadata option" where
  "for_each_entry fp r i =
     (let p = entry_at r i; q = sr_quant_type r in
      (rd64 p (sr_data r),
       if deleted_at r i then Some []
       else if q = quant_code qSq8 \<or> q = quant_code qFp16 \<or> q = quant_code qBit
       then sr_Decode fp r (rd (code_bytes q (unat (sr_dim r))) (p + 12) (sr_data r))
       else Some (floats_at r (p + 12)),
       deleted_at r i,
       if sr_metadata_offset r > 0 then meta_at r i else None))"

definition sr_ForEach :: "ieee \<Rightarrow> seg_reader \<Rightarrow> (VectorId \<times> VectorView option \<times> bool \<times> Metadata option) list" where
  "sr_ForEach fp r = map (for_each_entry fp r) [0..<unat (sr_count r)]"

subsubsection \<open>Time range and text\<close>

text \<open>\<open>std::lower_bound\<close> and \<open>std::upper_bound\<close>: bisection for the first position where the test fails.\<close>

function partition_point :: "(nat \<Rightarrow> bool) \<Rightarrow> nat \<Rightarrow> nat \<Rightarrow> nat" where
  "partition_point P first len =
     (if len = 0 then first
      else let half = len div 2 in
           if P (first + half) then partition_point P (first + half + 1) (len - half - 1)
           else partition_point P first half)"
  by pat_completeness auto
termination
  by (relation "measure (\<lambda>(P, first, len). len)") auto

declare partition_point.simps [simp del]

definition time_at :: "seg_reader \<Rightarrow> nat \<Rightarrow> u64 \<times> u32" where
  "time_at r j = (let p = unat (sr_temporal_index_offset r) + j * 16 in (rd64 p (sr_data r), rd32 (p + 8) (sr_data r)))"

text \<open>The loop runs until the two iterators meet; it never ends when the first is past the second.\<close>

partial_function (option) collect :: "(nat \<Rightarrow> 'a) \<Rightarrow> nat \<Rightarrow> nat \<Rightarrow> 'a list option" where
  "collect g i fin =
     (if i = fin then Some []
      else Option.bind (collect g (i + 1) fin) (\<lambda>xs. Some (g i # xs)))"

declare collect.simps [code]

definition SearchTemporal :: "seg_reader \<Rightarrow> u64 \<Rightarrow> u64 \<Rightarrow> u32 list option" where
  "SearchTemporal r start_ts end_ts =
     (if sr_temporal_index_offset r = 0 \<or> sr_count r = 0 then Some []
      else let n = unat (sr_count r);
               it_start = partition_point (\<lambda>j. fst (time_at r j) < start_ts) 0 n;
               it_end = partition_point (\<lambda>j. \<not> end_ts < fst (time_at r j)) 0 n
           in collect (\<lambda>j. snd (time_at r j)) it_start it_end)"

definition EnsureLexicalIndexBuilt :: "ieee \<Rightarrow> seg_reader \<Rightarrow> lexical option \<Rightarrow> lexical" where
  "EnsureLexicalIndexBuilt fp r cached =
     (case cached of
        Some lx \<Rightarrow> lx
      | None \<Rightarrow>
          if sr_metadata_offset r = 0 \<or> sr_count r = 0 then LexicalIndex_new
          else foldl (\<lambda>lx i. let m = GetMetadata r i Metadata0 in
                        if md_text m \<noteq> [] then lex_Add fp lx (rd64 (entry_at r i) (sr_data r)) (md_text m) else lx)
                 LexicalIndex_new [0..<unat (sr_count r)])"

definition SearchLexical :: "ieee \<Rightarrow> seg_reader \<Rightarrow> lexical option \<Rightarrow> string \<Rightarrow> lexical \<times> (VectorId \<rightharpoonup> float64)" where
  "SearchLexical fp r cached query = lex_Search fp (EnsureLexicalIndexBuilt fp r cached) query"

subsection \<open>What \<open>Finish\<close> leaves on disk\<close>

definition others :: "string \<Rightarrow> posix_env \<Rightarrow> posix_env \<Rightarrow> bool" where
  "others p e0 e \<longleftrightarrow> (\<forall>q. q \<noteq> p \<longrightarrow> ev_files e q = ev_files e0 q) \<and> ev_err e = ev_err e0 \<and> ev_chunk e = ev_chunk e0"

definition writing :: "string \<Rightarrow> posix_env \<Rightarrow> byte list \<Rightarrow> posix_env \<Rightarrow> iofile \<Rightarrow> bool" where
  "writing p e0 c e f \<longleftrightarrow> others p e0 e \<and> io_open f \<and> io_path f = p \<and> io_pos f = length c \<and> ev_files e p = Some c"

definition full_writes :: "posix_env \<Rightarrow> nat \<Rightarrow> bool" where
  "full_writes e n \<longleftrightarrow> (\<forall>k. n \<le> ev_chunk e k + 1)"

lemma calls_ok_others: "others p e0 e \<Longrightarrow> calls_ok e = calls_ok e0"
  by (simp add: others_def calls_ok_def)

lemma iop_Append_writing:
  assumes "writing p e0 c e f" "full_writes e0 (length b)" "iop_Append e f b = (s, e', f')"
  shows "(st_ok s \<longrightarrow> writing p e0 (c @ b) e' f') \<and> (\<not> st_ok s \<longrightarrow> others p e0 e') \<and> (calls_ok e0 \<longrightarrow> st_ok s)"
proof -
  have "min (length b) (ev_chunk e (ev_tick e) + 1) = length b"
    using assms(1,2) by (simp add: full_writes_def writing_def others_def)
  then show ?thesis
    using assms(1,3) by (auto simp: iop_Append_def sys_unfold Let_def writing_def others_def put_bytes_def pwrite_at_end calls_ok_def
        split: option.splits if_splits)
qed

lemma appends_writing:
  "writing p e0 c e f \<Longrightarrow> \<forall>b\<in>set bs. full_writes e0 (length b) \<Longrightarrow> appends e f bs = (s, e', f') \<Longrightarrow>
   (st_ok s \<longrightarrow> writing p e0 (c @ concat bs) e' f') \<and> (\<not> st_ok s \<longrightarrow> others p e0 e') \<and> (calls_ok e0 \<longrightarrow> st_ok s)"
proof (induction bs arbitrary: c e f)
  case (Cons b bs)
  obtain s1 e1 f1 where a: "iop_Append e f b = (s1, e1, f1)" by (cases "iop_Append e f b")
  show ?case
  proof (cases "st_ok s1")
    case True
    then have "writing p e0 (c @ b) e1 f1" using iop_Append_writing [OF Cons.prems(1) _ a] Cons.prems(2) by simp
    from Cons.IH [OF this] show ?thesis using Cons.prems a True by (auto split: if_splits)
  next
    case False
    then show ?thesis using iop_Append_writing [OF Cons.prems(1) _ a] Cons.prems(2,3) a by (auto split: if_splits)
  qed
qed auto

lemma iop_Pwrite_writing:
  assumes "writing p e0 (b0 @ c) e f" "full_writes e0 (length b)" "length b = length b0" "iop_Pwrite e f 0 b = (s, e', f')"
  shows "(st_ok s \<longrightarrow> writing p e0 (b @ c) e' f') \<and> (\<not> st_ok s \<longrightarrow> others p e0 e') \<and> (calls_ok e0 \<longrightarrow> st_ok s)"
proof -
  have "min (length b) (ev_chunk e (ev_tick e) + 1) = length b"
    using assms(1,2) by (simp add: full_writes_def writing_def others_def)
  then show ?thesis
    using assms(1,3,4) by (auto simp: iop_Pwrite_def sys_unfold Let_def writing_def others_def put_bytes_def pwrite_at_def calls_ok_def
        split: option.splits if_splits)
qed

lemma close_writing:
  assumes "writing p e0 c e f"
  shows "iop_Sync e f = (s, e1) \<Longrightarrow> (st_ok s \<longrightarrow> writing p e0 c e1 f) \<and> (\<not> st_ok s \<longrightarrow> others p e0 e1) \<and> (calls_ok e0 \<longrightarrow> st_ok s)"
    and "iop_Close e f = (s, e2, f2) \<Longrightarrow> others p e0 e2 \<and> ev_files e2 p = Some c \<and> (calls_ok e0 \<longrightarrow> st_ok s)"
  using assms by (auto simp: iop_Sync_def iop_Close_def sys_unfold writing_def others_def calls_ok_def split: option.splits)

text \<open>The file of a finished segment.\<close>

definition seg_tail :: "((u64 \<times> u32) list \<Rightarrow> (u64 \<times> u32) list) \<Rightarrow> (nat \<Rightarrow> u32) \<Rightarrow> seg_entry list \<Rightarrow> byte list" where
  "seg_tail tsrt padding es = offset_bytes es @ meta_blob es @ time_bytes padding (tsrt (time_entries es))"

definition seg_body :: "ieee \<Rightarrow> SegmentQuant \<Rightarrow> nat \<Rightarrow> sq8 \<Rightarrow> seg_entry list \<Rightarrow> byte list" where
  "seg_body fp quant dim q es = replicate (128 - header_size) 0 @ concat (map (entry_bytes fp quant dim q) es)"

definition seg_crc :: "byte list \<Rightarrow> byte list \<Rightarrow> u32" where
  "seg_crc h rest = Crc32c (h @ rest) 0"

definition seg_file :: "ieee \<Rightarrow> ((u64 \<times> u32) list \<Rightarrow> (u64 \<times> u32) list) \<Rightarrow> (nat \<Rightarrow> u32) \<Rightarrow> SegmentQuant \<Rightarrow> u32 \<Rightarrow> sq8 \<Rightarrow>
    seg_entry list \<Rightarrow> byte list" where
  "seg_file fp tsrt padding quant dim q es =
     (let h = first_header quant dim q es; rest = seg_body fp quant (unat dim) q es @ seg_tail tsrt padding es
      in header_bytes (final_header h es) @ rest @ u32_bytes (seg_crc (header_bytes h) rest))"

lemma crc_blocks_concat: "crc_blocks bs = Crc32c (concat bs) 0"
proof -
  have "foldl (\<lambda>crc b. Crc32c b crc) c bs = Crc32c (concat bs) c" for c
    by (induction bs arbitrary: c) (simp_all add: Crc32c_def crc_loop_append)
  then show ?thesis by (simp add: crc_blocks_def)
qed

lemma length_header_bytes [simp]: "length (header_bytes h) = header_size"
  by (simp add: header_bytes_def header_size_def kMagic_def)

lemma stream_segment_result:
  assumes w: "writing p e0 [] e f" and r: "stream_segment e f (h0 # hs) h1 tail = (s, e')" and l: "length h1 = length h0"
    and full: "\<forall>b \<in> {h0, h1} \<union> set hs \<union> set tail. full_writes e0 (length b)" "full_writes e0 4"
  shows "others p e0 e' \<and> (st_ok s \<longrightarrow> ev_files e' p = Some (h1 @ concat hs @ concat tail @ u32_bytes (crc_blocks (h0 # hs @ tail)))) \<and>
    (calls_ok e0 \<longrightarrow> st_ok s)"
proof -
  let ?t = "tail @ [u32_bytes (crc_blocks (h0 # hs @ tail))]"
  obtain s1 e1 f1 where 1: "appends e f (h0 # hs) = (s1, e1, f1)" by (cases "appends e f (h0 # hs)")
  obtain s2 e2 f2 where 2: "iop_Pwrite e1 f1 0 h1 = (s2, e2, f2)" by (cases "iop_Pwrite e1 f1 0 h1")
  obtain s3 e3 f3 where 3: "appends e2 f2 ?t = (s3, e3, f3)" by (cases "appends e2 f2 ?t")
  obtain s4 e4 where 4: "iop_Sync e3 f3 = (s4, e4)" by (cases "iop_Sync e3 f3")
  obtain s5 e5 f5 where 5: "iop_Close e4 f3 = (s5, e5, f5)" by (cases "iop_Close e4 f3")
  have wo: "writing p e0 c x y \<Longrightarrow> others p e0 x" for c x y by (simp add: writing_def)
  have R: "stream_segment e f (h0 # hs) h1 tail =
      (if \<not> st_ok s1 then (s1, e1) else if \<not> st_ok s2 then (s2, e2) else if \<not> st_ok s3 then (s3, e3)
       else if \<not> st_ok s4 then (s4, e4) else (s5, e5))"
    using 1 2 3 4 5 by (simp add: stream_segment_def Let_def del: appends.simps)
  have A1: "(st_ok s1 \<longrightarrow> writing p e0 (h0 @ concat hs) e1 f1) \<and> (\<not> st_ok s1 \<longrightarrow> others p e0 e1) \<and> (calls_ok e0 \<longrightarrow> st_ok s1)"
    using appends_writing [OF w _ 1] full by simp
  have A2: "st_ok s1 \<Longrightarrow> (st_ok s2 \<longrightarrow> writing p e0 (h1 @ concat hs) e2 f2) \<and> (\<not> st_ok s2 \<longrightarrow> others p e0 e2) \<and> (calls_ok e0 \<longrightarrow> st_ok s2)"
    using A1 iop_Pwrite_writing [OF _ _ l 2] full by simp
  have A3: "st_ok s1 \<Longrightarrow> st_ok s2 \<Longrightarrow>
      (st_ok s3 \<longrightarrow> writing p e0 ((h1 @ concat hs) @ concat ?t) e3 f3) \<and> (\<not> st_ok s3 \<longrightarrow> others p e0 e3) \<and> (calls_ok e0 \<longrightarrow> st_ok s3)"
    using A2 full by (intro appends_writing [OF _ _ 3]) auto
  have A4: "st_ok s1 \<Longrightarrow> st_ok s2 \<Longrightarrow> st_ok s3 \<Longrightarrow>
      (st_ok s4 \<longrightarrow> writing p e0 ((h1 @ concat hs) @ concat ?t) e4 f3) \<and> (\<not> st_ok s4 \<longrightarrow> others p e0 e4) \<and> (calls_ok e0 \<longrightarrow> st_ok s4)"
    using A3 close_writing(1) [OF _ 4] by simp
  have A5: "st_ok s1 \<Longrightarrow> st_ok s2 \<Longrightarrow> st_ok s3 \<Longrightarrow> st_ok s4 \<Longrightarrow>
      others p e0 e5 \<and> ev_files e5 p = Some ((h1 @ concat hs) @ concat ?t) \<and> (calls_ok e0 \<longrightarrow> st_ok s5)"
    using A4 close_writing(2) [OF _ 5] by simp
  show ?thesis
    using r A1 A2 A3 A4 A5 unfolding R by (auto split: if_splits dest: wo)
qed

lemma full_writes_mono: "full_writes e n \<Longrightarrow> m \<le> n \<Longrightarrow> full_writes e m"
  by (auto simp: full_writes_def intro: order_trans)

lemma length_in_concat: "x \<in> set xs \<Longrightarrow> length x \<le> length (concat xs)"
  by (induction xs) auto

lemma sb_Finish_result:
  assumes r: "sb_Finish fp srt tsrt padding e b = (s, e', b')" and es: "es = srt (sb_entries b)"
    and q: "train fp (sb_quant b) (unat (sb_dim b)) es = (ts, q)"
    and full: "full_writes e (length (seg_file fp tsrt padding (sb_quant b) (sb_dim b) q es))"
  shows "(st_ok s \<longrightarrow> s = Ok \<and> ev_files e' (sb_path b) = Some (seg_file fp tsrt padding (sb_quant b) (sb_dim b) q es)) \<and>
    (\<not> st_ok s \<longrightarrow> ev_files e' (sb_path b) = ev_files e (sb_path b)) \<and>
    (\<forall>p. p \<noteq> sb_path b \<and> p \<noteq> sb_path b @ ''.tmp'' \<longrightarrow> ev_files e' p = ev_files e p) \<and>
    ev_err e' = ev_err e \<and> ev_chunk e' = ev_chunk e \<and> (calls_ok e \<and> st_ok ts \<longrightarrow> st_ok s)"
proof -
  let ?tmp = "sb_path b @ ''.tmp''" and ?F = "seg_file fp tsrt padding (sb_quant b) (sb_dim b) q es"
  let ?h = "first_header (sb_quant b) (sb_dim b) q es"
  let ?hs = "replicate (128 - header_size) 0 # map (entry_bytes fp (sb_quant b) (unat (sb_dim b)) q) es"
  let ?tail = "[offset_bytes es] @ (if meta_blob es = [] then [] else [meta_blob es]) @ [time_bytes padding (tsrt (time_entries es))]"
  let ?H = "header_bytes (final_header ?h es)"
  have F: "?H @ concat ?hs @ concat ?tail @ u32_bytes (crc_blocks (header_bytes ?h # ?hs @ ?tail)) = ?F"
    by (simp add: seg_file_def Let_def seg_body_def seg_tail_def seg_crc_def crc_blocks_concat)
  have part: "full_writes e (length x)" if "x \<in> {header_bytes ?h, ?H} \<union> set ?hs \<union> set ?tail" for x
  proof (rule full_writes_mono [OF full])
    have "length ?F = header_size + length (concat ?hs) + length (concat ?tail) + 4" unfolding F [symmetric] by simp
    then show "length x \<le> length ?F" using that length_in_concat [of x ?hs] length_in_concat [of x ?tail] by auto
  qed
  have part4: "full_writes e 4" by (rule full_writes_mono [OF full]) (simp add: F [symmetric])
  show ?thesis
  proof (cases "ev_err e (ev_tick e)")
    case (Some msg)
    then show ?thesis using r by (auto simp: sb_Finish_def iop_NewWritableFile_def sys_unfold Let_def calls_ok_def)
  next
    case None
    define f where "f = \<lparr>io_open = True, io_path = ?tmp, io_pos = 0, io_written = 0\<rparr>"
    define e1 where "e1 = e\<lparr>ev_tick := Suc (ev_tick e), ev_files := (ev_files e)(?tmp \<mapsto> [])\<rparr>"
    have o: "iop_NewWritableFile e ?tmp = (Ok, Some f, e1)"
      using None by (simp add: iop_NewWritableFile_def sys_unfold f_def e1_def)
    have w: "writing ?tmp e [] e1 f" by (simp add: writing_def others_def f_def e1_def)
    obtain s2 e2 where st: "stream_segment e1 f (header_bytes ?h # ?hs) ?H ?tail = (s2, e2)"
      by (cases "stream_segment e1 f (header_bytes ?h # ?hs) ?H ?tail")
    have S: "others ?tmp e e2" "st_ok s2 \<Longrightarrow> ev_files e2 ?tmp = Some ?F" "calls_ok e \<Longrightarrow> st_ok s2"
      using stream_segment_result [OF w st _ _ part4] part unfolding F by auto
    obtain failed e3 where rn: "fs_rename e2 ?tmp (sb_path b) = (failed, e3)" by (cases "fs_rename e2 ?tmp (sb_path b)")
    have R: "(s, e') = (if \<not> st_ok ts then (ts, e1) else if \<not> st_ok s2 then (s2, e2) else if failed then (IOError ''rename failed'', e3) else (Ok, e3))"
      using r o q st rn es by (auto simp: sb_Finish_def Let_def split: if_splits)
    have rn': "others ?tmp e e2 \<Longrightarrow> st_ok s2 \<Longrightarrow> if failed then ev_files e3 = ev_files e2 \<and> ev_err e3 = ev_err e2 \<and> ev_chunk e3 = ev_chunk e2 \<and> \<not> calls_ok e
        else ev_files e3 = ((ev_files e2)(?tmp := None))(sb_path b \<mapsto> ?F) \<and> ev_err e3 = ev_err e2 \<and> ev_chunk e3 = ev_chunk e2"
      using rn S(2) by (auto simp: fs_rename_def RenameFile_def sys_unfold others_def calls_ok_def ErrnoStatus_def split: option.splits)
    have "others ?tmp e e1" using w by (simp add: writing_def)
    then show ?thesis
      using R S rn' by (auto simp: others_def split: if_splits)
  qed
qed

end
