(* ===== verification/Segment_Read.thy ===== *)
theory Segment_Read
  imports Segment "HOL-Library.Multiset"
begin

text \<open>
  What a reader finds in the file a builder has finished: \<open>SegmentReader::Open\<close> accepts it, and
  the point lookups, the reads by position, the time range and the checksum of
  \<open>src/table/segment.cc\<close> are related to the entries that were added.
\<close>

unbundle bit_operations_syntax

subsection \<open>The layout of the file\<close>

definition short_strings :: "Metadata \<Rightarrow> bool" where
  "short_strings m \<longleftrightarrow> length (md_tenant m) < 2 ^ 32 \<and> length (md_device_id m) < 2 ^ 32 \<and> length (md_location_id m) < 2 ^ 32 \<and>
     length (md_text m) < 2 ^ 32 \<and> length (md_payload m) < 2 ^ 32"

definition good_entries :: "nat \<Rightarrow> seg_entry list \<Rightarrow> bool" where
  "good_entries dim es \<longleftrightarrow> (\<forall>e\<in>set es. (\<not> sn_deleted e \<longrightarrow> length (sn_vec e) = dim) \<and> short_strings (sn_meta e))"

lemma drop_concat_uniform:
  "\<forall>x\<in>set xs. length x = k \<Longrightarrow> i \<le> length xs \<Longrightarrow> drop (i * k) (concat xs) = concat (drop i xs)"
proof (induction xs arbitrary: i)
  case (Cons x xs)
  then show ?case by (cases i) (auto simp: add.commute)
qed simp

lemma length_concat_uniform: "\<forall>x\<in>set xs. length x = k \<Longrightarrow> length (concat xs) = length xs * k"
  by (induction xs) auto

lemma sq8_Train_ok:
  assumes "dim \<noteq> 0" "length d = m * dim" "m \<noteq> 0"
  shows "\<exists>q. sq8_Train fp (sq8_new dim) d m = (Ok, q) \<and> sq_trained q \<and> sq_dim q = dim"
  using assms by (auto simp: sq8_Train_def sq8_new_def Let_def split: prod.splits)

lemma training_length: "good_entries dim es \<Longrightarrow> length (training_data es) = length (filter (\<lambda>e. \<not> sn_deleted e) es) * dim"
  unfolding training_data_def by (subst length_concat_uniform [of _ dim]) (auto simp: good_entries_def)

text \<open>Training cannot fail on entries that \<open>Add\<close> accepted, and every vector gets a code of
  the length its kind prescribes.\<close>

lemma train_ok:
  assumes g: "good_entries dim es"
  shows "\<exists>q. train fp quant dim es = (Ok, q) \<and> sq_dim q = dim \<and> (quant = qSq8 \<and> training_data es \<noteq> [] \<longrightarrow> sq_trained q)"
proof (cases "training_data es = []")
  case True
  then show ?thesis by (cases quant) (simp_all add: train_def Let_def sq8_new_def)
next
  case False
  let ?m = "length (filter (\<lambda>e. \<not> sn_deleted e) es)"
  have l: "length (training_data es) = ?m * dim" by (rule training_length [OF g])
  have "?m * dim \<noteq> 0" using False unfolding l [symmetric] by simp
  then have nz: "dim \<noteq> 0" "?m \<noteq> 0" by simp_all
  then have d: "length (training_data es) div dim = ?m" using l by simp
  obtain q where "sq8_Train fp (sq8_new dim) (training_data es) ?m = (Ok, q)" "sq_trained q" "sq_dim q = dim"
    using sq8_Train_ok [OF nz(1) l nz(2)] by blast
  then show ?thesis
    using False nz unfolding train_def Let_def d by (cases quant) (simp_all add: fp16_Train_def sq8_new_def)
qed

lemma length_vector_code:
  assumes g: "good_entries dim es" and e: "e \<in> set es" and q: "train fp quant dim es = (Ok, q)"
  shows "length (vector_code fp quant dim q e) = vec_bytes quant dim"
proof (cases "sn_deleted e")
  case False
  then have v: "length (sn_vec e) = dim" using g e by (simp add: good_entries_def)
  have "length (sq8_Encode fp q (sn_vec e)) = dim" if "quant = qSq8"
  proof (cases "dim = 0")
    case True
    then show ?thesis using v by (simp add: sq8_Encode_def)
  next
    case False
    then have "training_data es \<noteq> []" using e v \<open>\<not> sn_deleted e\<close> by (force simp: training_data_def)
    then show ?thesis using train_ok [OF g, of fp quant] q that v by (simp add: sq8_Encode_def)
  qed
  then show ?thesis using v False
    by (cases quant) (simp_all add: vector_code_def fp16_Encode_def bit_Encode_def BitQuantize_bits)
qed (simp add: vector_code_def)

definition time_sorts :: "((u64 \<times> u32) list \<Rightarrow> (u64 \<times> u32) list) \<Rightarrow> bool" where
  "time_sorts tsrt \<longleftrightarrow> (\<forall>ts. mset (tsrt ts) = mset ts \<and> sorted (map fst (tsrt ts)))"

definition well_formed :: "ieee \<Rightarrow> ((u64 \<times> u32) list \<Rightarrow> (u64 \<times> u32) list) \<Rightarrow> SegmentQuant \<Rightarrow> u32 \<Rightarrow> sq8 \<Rightarrow> seg_entry list \<Rightarrow> bool" where
  "well_formed fp tsrt quant dim q es \<longleftrightarrow>
     good_entries (unat dim) es \<and> train fp quant (unat dim) es = (Ok, q) \<and> time_sorts tsrt"

text \<open>A file whose offsets fit their 32-bit fields.\<close>

definition laid_out :: "ieee \<Rightarrow> ((u64 \<times> u32) list \<Rightarrow> (u64 \<times> u32) list) \<Rightarrow> (nat \<Rightarrow> u32) \<Rightarrow> SegmentQuant \<Rightarrow> u32 \<Rightarrow> sq8 \<Rightarrow>
    seg_entry list \<Rightarrow> bool" where
  "laid_out fp tsrt padding quant dim q es \<longleftrightarrow>
     well_formed fp tsrt quant dim q es \<and>
     entry_size_of quant (unat dim) < 2 ^ 32 \<and> length (seg_file fp tsrt padding quant dim q es) < 2 ^ 32"

lemma laid_out_wf: "laid_out fp tsrt padding quant dim q es \<Longrightarrow> well_formed fp tsrt quant dim q es"
  by (simp add: laid_out_def)

lemma entry_size_fits: "12 + vec_bytes quant dim \<le> entry_size_of quant dim"
  using div_mult_mod_eq [of "8 + 4 + vec_bytes quant dim + 63" 64] mod_less_divisor [of 64 "8 + 4 + vec_bytes quant dim + 63"]
  unfolding entry_size_of_def by linarith

lemma length_entry_bytes:
  assumes "well_formed fp tsrt quant dim q es" "e \<in> set es"
  shows "length (entry_bytes fp quant (unat dim) q e) = entry_size_of quant (unat dim)"
  using assms length_vector_code [of "unat dim" es e fp quant q] entry_size_fits [of quant "unat dim"]
  by (simp add: entry_bytes_def Let_def well_formed_def)

lemma length_meta_offsets [simp]: "length (meta_offsets k bs) = length bs + 1"
  by (induction bs arbitrary: k) simp_all

lemma length_offset_bytes: "length (offset_bytes es) = (length es + 1) * 8"
  unfolding offset_bytes_def by (subst length_concat_uniform [of _ 8]) auto

lemma length_time_bytes: "length (time_bytes padding ts) = length ts * 16"
  unfolding time_bytes_def by (subst length_concat_uniform [of _ 16]) auto

lemma length_time_entries [simp]: "length (time_entries es) = length es"
  by (simp add: time_entries_def)

lemma length_seg_entries:
  assumes "well_formed fp tsrt quant dim q es"
  shows "length (concat (map (entry_bytes fp quant (unat dim) q) es)) = length es * entry_size_of quant (unat dim)"
  by (subst length_concat_uniform [of _ "entry_size_of quant (unat dim)"]) (auto simp: length_entry_bytes [OF assms])

lemma length_seg_file:
  assumes "well_formed fp tsrt quant dim q es"
  shows "length (seg_file fp tsrt padding quant dim q es) =
    128 + length es * entry_size_of quant (unat dim) + (length es + 1) * 8 + length (meta_blob es) + length es * 16 + 4"
proof -
  have "length (tsrt ts) = length ts" for ts using assms by (metis well_formed_def time_sorts_def size_mset)
  then show ?thesis
    by (simp add: seg_file_def Let_def seg_body_def seg_tail_def length_offset_bytes length_time_bytes length_seg_entries [OF assms] header_size_def)
qed

lemma laid_outI:
  assumes "well_formed fp tsrt quant dim q es" "entry_size_of quant (unat dim) < 2 ^ 32"
    "128 + length es * entry_size_of quant (unat dim) + (length es + 1) * 8 + length (meta_blob es) + length es * 16 + 4 < 2 ^ 32"
  shows "laid_out fp tsrt padding quant dim q es"
  using assms length_seg_file [OF assms(1)] by (simp add: laid_out_def)

text \<open>The file from each of its blocks on.\<close>

definition seg_footer :: "ieee \<Rightarrow> ((u64 \<times> u32) list \<Rightarrow> (u64 \<times> u32) list) \<Rightarrow> (nat \<Rightarrow> u32) \<Rightarrow> SegmentQuant \<Rightarrow> u32 \<Rightarrow> sq8 \<Rightarrow>
    seg_entry list \<Rightarrow> byte list" where
  "seg_footer fp tsrt padding quant dim q es =
     u32_bytes (seg_crc (header_bytes (first_header quant dim q es)) (seg_body fp quant (unat dim) q es @ seg_tail tsrt padding es))"

lemma file_blocks:
  assumes "laid_out fp tsrt padding quant dim q es"
  defines "D \<equiv> seg_file fp tsrt padding quant dim q es" and "n \<equiv> length es" and "k \<equiv> entry_size_of quant (unat dim)"
  shows "i \<le> n \<Longrightarrow> drop (128 + i * k) D =
      concat (map (entry_bytes fp quant (unat dim) q) (drop i es)) @ seg_tail tsrt padding es @ seg_footer fp tsrt padding quant dim q es"
    and "drop (128 + n * k) D = seg_tail tsrt padding es @ seg_footer fp tsrt padding quant dim q es"
proof -
  show *: "i \<le> n \<Longrightarrow> drop (128 + i * k) D =
      concat (map (entry_bytes fp quant (unat dim) q) (drop i es)) @ seg_tail tsrt padding es @ seg_footer fp tsrt padding quant dim q es" for i
  proof -
    assume i: "i \<le> n"
    have "drop (i * k) (concat (map (entry_bytes fp quant (unat dim) q) es)) = concat (map (entry_bytes fp quant (unat dim) q) (drop i es))"
      using i drop_concat_uniform [of "map (entry_bytes fp quant (unat dim) q) es" k i] length_entry_bytes [OF laid_out_wf [OF assms(1)]]
      by (simp add: n_def k_def drop_map)
    moreover have "i * k \<le> length es * k" using i by (simp add: n_def)
    ultimately show ?thesis
      unfolding D_def seg_file_def Let_def seg_body_def seg_footer_def
      by (simp add: header_size_def length_seg_entries [OF laid_out_wf [OF assms(1)]] k_def)
  qed
  show "drop (128 + n * k) D = seg_tail tsrt padding es @ seg_footer fp tsrt padding quant dim q es"
    using * [of n] by (simp add: n_def)
qed

lemma entry_in_file:
  assumes L: "laid_out fp tsrt padding quant dim q es" and i: "i < length es"
  obtains rest where "drop (128 + i * entry_size_of quant (unat dim)) (seg_file fp tsrt padding quant dim q es) =
    u64_bytes (sn_id (es ! i)) @ [if sn_deleted (es ! i) then seg_kFlagTombstone else kFlagNone, 0, 0, 0] @
      vector_code fp quant (unat dim) q (es ! i) @ rest" "rest \<noteq> []"
proof -
  have "seg_footer fp tsrt padding quant dim q es \<noteq> []" by (simp add: seg_footer_def flip: length_greater_0_conv)
  then show ?thesis
    using file_blocks(1) [OF L less_imp_le [OF i]] that Cons_nth_drop_Suc [OF i, symmetric]
    by (auto simp: entry_bytes_def Let_def)
qed

lemma rd_append: "length a = k \<Longrightarrow> rd n (k + m) (a @ b) = rd n m b"
  by (simp add: rd_def)

lemma rd_drop: "rd n m (drop k d) = rd n (k + m) d"
  by (simp add: rd_def add.commute)

lemmas rd_defs = rd32_def rd64_def rd8_def rd_def

lemma entry_fields:
  assumes L: "laid_out fp tsrt padding quant dim q es" and i: "i < length es"
  defines "p \<equiv> 128 + i * entry_size_of quant (unat dim)" and "D \<equiv> seg_file fp tsrt padding quant dim q es"
  shows "rd64 p D = sn_id (es ! i)" "rd8 (p + 8) D AND seg_kFlagTombstone \<noteq> 0 \<longleftrightarrow> sn_deleted (es ! i)"
    "\<exists>rest. drop (p + 12) D = vector_code fp quant (unat dim) q (es ! i) @ rest \<and> rest \<noteq> []"
proof -
  obtain rest where d: "drop p D = u64_bytes (sn_id (es ! i)) @ [if sn_deleted (es ! i) then seg_kFlagTombstone else kFlagNone, 0, 0, 0] @
      vector_code fp quant (unat dim) q (es ! i) @ rest" "rest \<noteq> []"
    using entry_in_file [OF L i] unfolding p_def D_def .
  show "rd64 p D = sn_id (es ! i)" unfolding rd64_def rd_def d(1) by (simp add: codec)
  have "drop (p + 8) D = drop 8 (drop p D)" by (simp add: add.commute)
  then show "rd8 (p + 8) D AND seg_kFlagTombstone \<noteq> 0 \<longleftrightarrow> sn_deleted (es ! i)"
    unfolding rd8_def rd_def d(1) by (simp add: seg_kFlagTombstone_def kFlagNone_def)
  have "drop (p + 12) D = drop 12 (drop p D)" by (simp add: add.commute)
  then show "\<exists>rest. drop (p + 12) D = vector_code fp quant (unat dim) q (es ! i) @ rest \<and> rest \<noteq> []" using d(2) unfolding d(1) by simp
qed

subsubsection \<open>The metadata block\<close>

lemma meta_offsets_nth: "i \<le> length bs \<Longrightarrow> meta_offsets k bs ! i = k + length (concat (take i bs))"
proof (induction bs arbitrary: i k)
  case (Cons b bs)
  then show ?case by (cases i) simp_all
qed simp

lemma read_str_add_str:
  assumes "length s < 2 ^ 32" "drop c blob = add_str s @ rest"
  shows "read_str blob c = (s, c + length (add_str s)) \<and> drop (c + length (add_str s)) blob = rest"
proof -
  have u: "unat (word_of_nat (length s) :: u32) = length s" using assms(1) by (simp add: unat_of_nat)
  then have z: "(word_of_nat (length s) :: u32) > 0 \<longleftrightarrow> s \<noteq> []" by (metis length_greater_0_conv unat_gt_0 word_gt_0)
  have a: "add_str s = u32_bytes (word_of_nat (length s)) @ bytes_of s"
    using z by (auto simp: add_str_def Let_def bytes_of_def)
  have r: "rd32 c blob = word_of_nat (length s)" unfolding rd32_def rd_def assms(2) a by (simp add: codec)
  have "drop (c + 4) blob = drop 4 (drop c blob)" by (simp add: add.commute)
  then have "rd (length s) (c + 4) blob = bytes_of s" unfolding rd_def assms(2) a by simp
  moreover have "drop (c + length (add_str s)) blob = drop (length (add_str s)) (drop c blob)" by (simp add: add.commute)
  ultimately show ?thesis using assms(2) u by (simp add: read_str_def r Let_def a)
qed

lemma length_add_str: "length s < 2 ^ 32 \<Longrightarrow> length (add_str s) = 4 + length s"
proof -
  assume "length s < 2 ^ 32"
  then have "unat (word_of_nat (length s) :: u32) = length s" by (simp add: unat_of_nat)
  then have "(word_of_nat (length s) :: u32) > 0 \<longleftrightarrow> s \<noteq> []" by (metis length_greater_0_conv unat_gt_0 word_gt_0)
  then show ?thesis by (auto simp: add_str_def Let_def)
qed

lemma md_parse_bytes:
  assumes "short_strings m"
  shows "md_parse (md_record m @ rest) = m"
proof -
  let ?B = "md_record m @ rest"
  let ?s1 = "add_str (md_device_id m)" and ?s2 = "add_str (md_location_id m)" and ?s3 = "add_str (md_tenant m)"
    and ?s4 = "add_str (md_text m)" and ?s5 = "add_str (md_payload m)"
  note short = assms [unfolded short_strings_def]
  have "drop 40 ?B = ?s1 @ ?s2 @ ?s3 @ ?s4 @ ?s5 @ rest" by (simp add: md_record_def)
  from read_str_add_str [OF _ this] short
  have 1: "read_str ?B 40 = (md_device_id m, 40 + length ?s1)" "drop (40 + length ?s1) ?B = ?s2 @ ?s3 @ ?s4 @ ?s5 @ rest" by blast+
  from read_str_add_str [OF _ 1(2)] short
  have 2: "read_str ?B (40 + length ?s1) = (md_location_id m, 40 + length ?s1 + length ?s2)"
    "drop (40 + length ?s1 + length ?s2) ?B = ?s3 @ ?s4 @ ?s5 @ rest" by blast+
  from read_str_add_str [OF _ 2(2)] short
  have 3: "read_str ?B (40 + length ?s1 + length ?s2) = (md_tenant m, 40 + length ?s1 + length ?s2 + length ?s3)"
    "drop (40 + length ?s1 + length ?s2 + length ?s3) ?B = ?s4 @ ?s5 @ rest" by blast+
  from read_str_add_str [OF _ 3(2)] short
  have 4: "read_str ?B (40 + length ?s1 + length ?s2 + length ?s3) = (md_text m, 40 + length ?s1 + length ?s2 + length ?s3 + length ?s4)"
    "drop (40 + length ?s1 + length ?s2 + length ?s3 + length ?s4) ?B = ?s5 @ rest" by blast+
  from read_str_add_str [OF _ 4(2)] short
  have 5: "\<exists>c. read_str ?B (40 + length ?s1 + length ?s2 + length ?s3 + length ?s4) = (md_payload m, c)" by blast
  have "rd64 0 ?B = md_src_vid m" "rd64 8 ?B = md_timestamp m" "rd64 16 ?B = md_lsn m" "rd64 24 ?B = md_lat m" "rd64 32 ?B = md_lon m"
    by (simp_all add: rd64_def rd_def md_record_def codec)
  then show ?thesis using 1(1) 2(1) 3(1) 4(1) 5 unfolding md_parse_def by auto
qed

text \<open>What \<open>Open\<close> takes from the header of such a file.\<close>

definition seg_opened :: "ieee \<Rightarrow> string \<Rightarrow> ((u64 \<times> u32) list \<Rightarrow> (u64 \<times> u32) list) \<Rightarrow> (nat \<Rightarrow> u32) \<Rightarrow> SegmentQuant \<Rightarrow> u32 \<Rightarrow> sq8 \<Rightarrow>
    seg_entry list \<Rightarrow> seg_reader" where
  "seg_opened fp path tsrt padding quant dim q es =
     (let h = final_header (first_header quant dim q es) es; sq = sq8_new (unat dim) in
      \<lparr>sr_path = path, sr_data = seg_file fp tsrt padding quant dim q es, sr_count = word_of_nat (length es), sr_dim = dim,
       sr_entry_size = entry_size_of quant (unat dim), sr_start = 128, sr_metadata_offset = sh_metadata_offset h,
       sr_temporal_index_offset = sh_temporal_index_offset h, sr_quant_type = quant_code quant,
       sr_sq8 = (if quant = qSq8 then sq8_LoadState fp sq (sq_min q) (sq_inv_scale q) else sq)\<rparr>)"

lemma unat_small: "n < 2 ^ 32 \<Longrightarrow> unat (word_of_nat n :: u32) = n"
  by (simp add: unat_of_nat)

lemma seg_opened_numbers:
  assumes L: "laid_out fp tsrt padding quant dim q es" and r_def: "r = seg_opened fp path tsrt padding quant dim q es"
    and k_def: "k = entry_size_of quant (unat dim)"
  shows "unat (sr_count r) = length es" "unat (sr_count r + 1) = length es + 1" "unat (sr_start r) = 128" "sr_entry_size r = k"
    "unat (sr_metadata_offset r) = 128 + length es * k" "sr_metadata_offset r \<noteq> 0"
    "unat (sr_temporal_index_offset r) = 128 + length es * k + (length es + 1) * 8 + length (meta_blob es)"
    "sr_temporal_index_offset r \<noteq> 0" "sr_data r = seg_file fp tsrt padding quant dim q es" "sr_dim r = dim"
    "sr_quant_type r = quant_code quant"
proof -
  have b: "128 + length es * k + (length es + 1) * 8 + length (meta_blob es) + length es * 16 + 4 < 2 ^ 32"
    using L length_seg_file [OF laid_out_wf [OF L]] by (simp add: laid_out_def k_def)
  then have n: "length es + 1 < 2 ^ 32" "length es < 2 ^ 32" by linarith+
  show "unat (sr_count r) = length es" using n by (simp add: r_def seg_opened_def Let_def unat_small)
  have "(sr_count r) + 1 = word_of_nat (length es + 1)" by (simp add: r_def seg_opened_def Let_def)
  then show "unat (sr_count r + 1) = length es + 1" using n(1) by (simp only: unat_small)
  show "unat (sr_start r) = 128" "sr_entry_size r = k" "sr_data r = seg_file fp tsrt padding quant dim q es" "sr_dim r = dim"
    "sr_quant_type r = quant_code quant"
    by (simp_all add: r_def k_def seg_opened_def Let_def)
  have "sr_metadata_offset r = word_of_nat (128 + length es * k)"
    by (simp add: r_def seg_opened_def Let_def final_header_def first_header_def k_def)
  moreover have "128 + length es * k < 2 ^ 32" using b by linarith
  ultimately show m: "unat (sr_metadata_offset r) = 128 + length es * k" by (simp only: unat_small)
  then show "sr_metadata_offset r \<noteq> 0" by auto
  have "sr_temporal_index_offset r = word_of_nat (unat (sr_metadata_offset r) + length (offset_bytes es) + length (meta_blob es))"
    by (simp add: r_def seg_opened_def Let_def final_header_def first_header_def)
  moreover have "128 + length es * k + (length es + 1) * 8 + length (meta_blob es) < 2 ^ 32" using b by linarith
  ultimately show "unat (sr_temporal_index_offset r) = 128 + length es * k + (length es + 1) * 8 + length (meta_blob es)"
    by (simp only: unat_small m length_offset_bytes)
  then show "sr_temporal_index_offset r \<noteq> 0" by auto
qed

lemma GetMetadata_opened:
  assumes L: "laid_out fp tsrt padding quant dim q es" and i: "i < length es"
  shows "meta_at (seg_opened fp path tsrt padding quant dim q es) i = Some (sn_meta (es ! i))"
    "GetMetadata (seg_opened fp path tsrt padding quant dim q es) i out = sn_meta (es ! i)"
proof -
  let ?r = "seg_opened fp path tsrt padding quant dim q es" and ?k = "entry_size_of quant (unat dim)"
  let ?ms = "map (\<lambda>e. md_record (sn_meta e)) es" and ?D = "seg_file fp tsrt padding quant dim q es"
  note N = seg_opened_numbers [OF L refl refl]
  let ?b = "128 + length es * ?k"
  have t: "drop ?b ?D = offset_bytes es @ meta_blob es @ time_bytes padding (tsrt (time_entries es)) @ seg_footer fp tsrt padding quant dim q es"
    using file_blocks(2) [OF L] by (simp add: seg_tail_def)
  have off: "rd64 (?b + j * 8) ?D = word_of_nat (length (concat (take j ?ms)))" if "j \<le> length es" for j
  proof -
    let ?os = "map (\<lambda>n. u64_bytes (word_of_nat n)) (meta_offsets 0 ?ms)"
    have "drop (?b + j * 8) ?D = drop (j * 8) (drop ?b ?D)" by (simp add: add.commute)
    also have "\<dots> = drop (j * 8) (offset_bytes es) @ meta_blob es @ time_bytes padding (tsrt (time_entries es)) @ seg_footer fp tsrt padding quant dim q es"
      unfolding t using that by (simp add: length_offset_bytes)
    also have "drop (j * 8) (offset_bytes es) = concat (drop j ?os)"
      unfolding offset_bytes_def using that by (intro drop_concat_uniform) auto
    also have "drop j ?os = ?os ! j # drop (Suc j) ?os" using that by (intro Cons_nth_drop_Suc [symmetric]) simp
    finally show ?thesis
      using that by (simp add: rd64_def rd_def codec meta_offsets_nth)
  qed
  define A where "A = length (concat (take i ?ms))"
  define B where "B = A + length (?ms ! i)"
  have "concat (take (Suc i) ?ms) = concat (take i ?ms) @ ?ms ! i" using i by (simp add: take_Suc_conv_app_nth)
  then have B: "length (concat (take (Suc i) ?ms)) = B" by (simp add: A_def B_def)
  have split: "meta_blob es = concat (take i ?ms) @ ?ms ! i @ concat (drop (Suc i) ?ms)"
    unfolding meta_blob_def using i id_take_nth_drop [of i ?ms] by (metis concat.simps(2) concat_append length_map)
  then have "B \<le> length (meta_blob es)" by (simp add: A_def B_def)
  then have b32: "B < 2 ^ 32" using L length_seg_file [OF laid_out_wf [OF L]] by (simp add: laid_out_def)
  have AB: "A < B" using i by (simp add: B_def md_record_def)
  have u: "unat (word_of_nat A :: u64) = A" "unat (word_of_nat B :: u64) = B" using AB b32 by (simp_all add: unat_of_nat)
  then have lt: "(word_of_nat A :: u64) < word_of_nat B" using AB by (simp only: word_less_nat_alt)
  have "drop (?b + (length es + 1) * 8 + A) ?D = drop A (drop ((length es + 1) * 8) (drop ?b ?D))"
    by (simp only: drop_drop add.commute add.left_commute)
  also have "\<dots> = ?ms ! i @ concat (drop (Suc i) ?ms) @ time_bytes padding (tsrt (time_entries es)) @ seg_footer fp tsrt padding quant dim q es"
    unfolding t by (simp add: length_offset_bytes split A_def)
  finally have "md_parse (drop (?b + (length es + 1) * 8 + A) ?D) = sn_meta (es ! i)"
    using i L by (simp add: md_parse_bytes laid_out_def well_formed_def good_entries_def)
  then show "meta_at ?r i = Some (sn_meta (es ! i))"
    using off [of i] off [of "Suc i"] i lt u unfolding meta_at_def Let_def N A_def [symmetric] B
    by (simp add: A_def [symmetric])
  then show "GetMetadata ?r i out = sn_meta (es ! i)" using N i by (simp add: GetMetadata_def)
qed

subsubsection \<open>Opening\<close>

lemma parse_header_bytes: "parse_header (header_bytes h @ rest) = h"
  by (simp add: parse_header_def header_bytes_def rd_defs codec kMagic_def bytes_of_def)

lemma quant_code_inject [simp]: "quant_code a = quant_code b \<longleftrightarrow> a = b"
  by (cases a; cases b) simp_all

lemma quant_code_values [simp]:
  "quant_code a = 0 \<longleftrightarrow> a = qNone" "quant_code a = 1 \<longleftrightarrow> a = qSq8" "quant_code a = 2 \<longleftrightarrow> a = qFp16" "quant_code a = 3 \<longleftrightarrow> a = qBit"
  by (cases a; simp)+

lemma sr_Open_opened:
  assumes L: "laid_out fp tsrt padding quant dim q es" and ok: "calls_ok e"
    and f: "ev_files e path = Some (seg_file fp tsrt padding quant dim q es)"
  shows "\<exists>t. sr_Open fp e path = (Ok, Some (seg_opened fp path tsrt padding quant dim q es), e\<lparr>ev_tick := t\<rparr>)"
proof -
  let ?D = "seg_file fp tsrt padding quant dim q es" and ?h = "final_header (first_header quant dim q es) es"
  obtain rest where D: "?D = header_bytes ?h @ rest" by (simp add: seg_file_def Let_def)
  have lD: "length ?D = 128 + length es * entry_size_of quant (unat dim) + (length es + 1) * 8 + length (meta_blob es) + length es * 16 + 4"
    by (rule length_seg_file [OF laid_out_wf [OF L]])
  have ne: "?D \<noteq> []" using lD by auto
  have small: "length ?D < 2 ^ 32" using L by (simp add: laid_out_def)
  have k: "entry_size_of quant (unat dim) < 2 ^ 32" "length es < 2 ^ 32"
    using L small lD by (simp_all add: laid_out_def)
  have "\<exists>t. iop_NewMemoryMappedFile e path = (Ok, Some ?D, e\<lparr>ev_tick := t\<rparr>)"
    using ok f ne by (auto simp: iop_NewMemoryMappedFile_def sys_ok)
  moreover have "rd 12 0 ?D = bytes_of kMagic" unfolding D by (simp add: rd_def header_bytes_def kMagic_def bytes_of_def)
  moreover have "parse_header ?D = ?h" unfolding D by (rule parse_header_bytes)
  moreover have "\<not> length ?D < header_size" using lD by (simp add: header_size_def)
  moreover have "\<not> length ?D < (128 + length es * entry_size_of quant (unat dim) + 4) mod 2 ^ 64" using lD by (simp add: mod_less_eq_dividend le_trans)
  ultimately show ?thesis
    using k by (auto simp: sr_Open_def Let_def seg_opened_def first_header_def final_header_def unat_small)
qed

subsection \<open>Bisection\<close>

text \<open>The binary search finds the position of an id in sorted entries.\<close>

lemma find_loop_sorted:
  assumes key: "\<forall>i < length ks. rd64 (entry_at r i) (sr_data r) = ks ! i" and ks: "sorted ks"
  shows "0 \<le> left \<Longrightarrow> right < int (length ks) \<Longrightarrow> (\<forall>i < length ks. ks ! i = vid \<longrightarrow> left \<le> int i \<and> int i \<le> right) \<Longrightarrow>
    (case find_loop r vid left right of Some i \<Rightarrow> i < length ks \<and> ks ! i = vid | None \<Rightarrow> vid \<notin> set ks)"
proof (induction "nat (right - left + 1)" arbitrary: left right rule: less_induct)
  case less
  show ?case
  proof (cases "left \<le> right")
    case False
    then have "vid \<notin> set ks" using less.prems(3) by (fastforce simp: in_set_conv_nth)
    then show ?thesis using False by (simp add: find_loop.simps)
  next
    case True
    define mid where "mid = left + (right - left) div 2"
    define m where "m = nat mid"
    have md: "left \<le> mid" "mid \<le> right" using True by (auto simp: mid_def)
    then have mn: "int m = mid" "m < length ks" using less.prems(1,2) by (auto simp: m_def)
    have k: "rd64 (entry_at r m) (sr_data r) = ks ! m" using key mn by simp
    have R: "find_loop r vid left right = (if ks ! m = vid then Some m
        else if ks ! m < vid then find_loop r vid (mid + 1) right else find_loop r vid left (mid - 1))"
      using True by (subst find_loop.simps) (simp add: Let_def mid_def [symmetric] m_def [symmetric] k)
    have lo: "mid + 1 \<le> int i" if "ks ! m < vid" "i < length ks" "ks ! i = vid" for i
    proof (rule ccontr)
      assume "\<not> mid + 1 \<le> int i"
      then have "i \<le> m" using mn by linarith
      then show False using sorted_nth_mono [OF ks, of i m] that mn by simp
    qed
    have hi: "int i \<le> mid - 1" if "\<not> ks ! m < vid" "ks ! m \<noteq> vid" "i < length ks" "ks ! i = vid" for i
    proof (rule ccontr)
      assume "\<not> int i \<le> mid - 1"
      then have "m \<le> i" using mn by linarith
      then show False using sorted_nth_mono [OF ks, of m i] that by auto
    qed
    show ?thesis
      unfolding R using mn less.hyps [of right "mid + 1"] less.hyps [of "mid - 1" left] less.prems md lo hi by auto
  qed
qed

subsection \<open>Point lookups\<close>

definition seg_view :: "seg_entry list \<Rightarrow> VectorId \<rightharpoonup> seg_entry" where
  "seg_view es = map_of (map (\<lambda>e. (sn_id e, e)) es)"

lemma seg_view_Some: "distinct (map sn_id es) \<Longrightarrow> seg_view es vid = Some e \<longleftrightarrow> e \<in> set es \<and> sn_id e = vid"
  unfolding seg_view_def by (subst map_of_eq_Some_iff) (auto simp: comp_def)

lemma seg_view_None: "seg_view es vid = None \<longleftrightarrow> vid \<notin> sn_id ` set es"
  by (force simp: seg_view_def map_of_eq_None_iff)

definition entry_sorts :: "(seg_entry list \<Rightarrow> seg_entry list) \<Rightarrow> bool" where
  "entry_sorts srt \<longleftrightarrow> (\<forall>es. mset (srt es) = mset es \<and> sorted (map sn_id (srt es)))"

lemma entry_sorts_view:
  assumes "entry_sorts srt" "distinct (map sn_id es)"
  shows "seg_view (srt es) = seg_view es" "distinct (map sn_id (srt es))" "set (srt es) = set es" "length (srt es) = length es"
proof -
  have m: "mset (srt es) = mset es" using assms(1) by (simp add: entry_sorts_def)
  then show s: "set (srt es) = set es" "length (srt es) = length es" by (metis set_mset_mset, metis size_mset)
  have "mset (map sn_id (srt es)) = mset (map sn_id es)" using m by simp
  then show d: "distinct (map sn_id (srt es))" using assms(2) by (metis mset_eq_imp_distinct_iff)
  show "seg_view (srt es) = seg_view es"
  proof
    fix v
    have "seg_view (srt es) v = Some e \<longleftrightarrow> seg_view es v = Some e" for e
      using seg_view_Some [OF d, of v] seg_view_Some [OF assms(2), of v] s(1) by simp
    then show "seg_view (srt es) v = seg_view es v" by (metis not_None_eq)
  qed
qed

lemma FindRaw_opened:
  assumes L: "laid_out fp tsrt padding quant dim q es" and s: "sorted (map sn_id es)" "distinct (map sn_id es)"
  shows "case seg_view es vid of
      None \<Rightarrow> FindRaw (seg_opened fp path tsrt padding quant dim q es) vid out = (kNotFound, 0, out)
    | Some e \<Rightarrow> if sn_deleted e then FindRaw (seg_opened fp path tsrt padding quant dim q es) vid out = (kFoundTombstone, 0, sn_meta e)
        else \<exists>p rest. FindRaw (seg_opened fp path tsrt padding quant dim q es) vid out = (kFound, p, sn_meta e) \<and>
          drop p (seg_file fp tsrt padding quant dim q es) = vector_code fp quant (unat dim) q e @ rest \<and> rest \<noteq> []"
proof -
  let ?r = "seg_opened fp path tsrt padding quant dim q es"
  note N = seg_opened_numbers [OF L refl refl, of path]
  have E: "entry_at ?r i = 128 + i * entry_size_of quant (unat dim)" for i unfolding entry_at_def N by simp
  have key: "\<forall>i < length (map sn_id es). rd64 (entry_at ?r i) (sr_data ?r) = map sn_id es ! i"
    unfolding E N using entry_fields(1) [OF L] by simp
  have c: "sr_count ?r = 0 \<longleftrightarrow> es = []" using N(1) by (metis length_0_conv unat_eq_0)
  have F: "case find_loop ?r vid 0 (int (unat (sr_count ?r)) - 1) of
      Some i \<Rightarrow> i < length es \<and> sn_id (es ! i) = vid | None \<Rightarrow> vid \<notin> sn_id ` set es"
    using find_loop_sorted [OF key s(1), of 0 "int (unat (sr_count ?r)) - 1" vid] N(1) by (auto split: option.splits)
  show ?thesis
  proof (cases "find_loop ?r vid 0 (int (unat (sr_count ?r)) - 1)")
    case None
    then show ?thesis using F seg_view_None [of es vid] by (auto simp: FindRaw_def)
  next
    case (Some i)
    then have i: "i < length es" "sn_id (es ! i) = vid" using F by auto
    then have v: "seg_view es vid = Some (es ! i)" using seg_view_Some [OF s(2)] by simp
    have d: "rd8 (entry_at ?r i + 8) (sr_data ?r) AND seg_kFlagTombstone \<noteq> 0 \<longleftrightarrow> sn_deleted (es ! i)"
      unfolding E N by (rule entry_fields(2) [OF L i(1)])
    have "FindRaw ?r vid out = (if sn_deleted (es ! i) then (kFoundTombstone, 0, sn_meta (es ! i)) else (kFound, entry_at ?r i + 12, sn_meta (es ! i)))"
      using i c unfolding FindRaw_def Some option.case d GetMetadata_opened(2) [OF L i(1)] by auto
    then show ?thesis using v entry_fields(3) [OF L i(1)] unfolding E by auto
  qed
qed

text \<open>What \<open>Get\<close> should answer for an entry.\<close>

definition get_entry :: "ieee \<Rightarrow> SegmentQuant \<Rightarrow> nat \<Rightarrow> sq8 \<Rightarrow> Metadata \<Rightarrow> seg_entry option \<Rightarrow> status \<times> byte list \<times> Metadata" where
  "get_entry fp quant dim q out en =
     (case en of
        None \<Rightarrow> (NotFound ''id not found in segment'', [], out)
      | Some e \<Rightarrow> if sn_deleted e then (NotFound ''tombstone'', [], sn_meta e) else (Ok, vector_code fp quant dim q e, sn_meta e))"

lemma slice_bytes_quant: "slice_bytes (quant_code quant) dim = vec_bytes quant dim"
  by (cases quant) (simp_all add: slice_bytes_def)

lemma sr_Get_opened:
  assumes L: "laid_out fp tsrt padding quant dim q es" and s: "sorted (map sn_id es)" "distinct (map sn_id es)"
  shows "sr_Get (seg_opened fp path tsrt padding quant dim q es) vid out = get_entry fp quant (unat dim) q out (seg_view es vid)"
proof -
  note N = seg_opened_numbers [OF L refl refl, of path]
  show ?thesis
  proof (cases "seg_view es vid")
    case (Some e)
    then have "e \<in> set es" using seg_view_Some [OF s(2)] by simp
    then have "length (vector_code fp quant (unat dim) q e) = vec_bytes quant (unat dim)"
      using L by (intro length_vector_code [of _ es]) (simp_all add: laid_out_def well_formed_def)
    then show ?thesis
      using FindRaw_opened [OF L s, where vid = vid and path = path and out = out] Some
      by (auto simp: sr_Get_def get_entry_def N slice_bytes_quant rd_def split: if_splits)
  qed (use FindRaw_opened [OF L s, where vid = vid and path = path and out = out] in \<open>simp add: sr_Get_def get_entry_def\<close>)
qed

lemma FindAndDecode_opened:
  assumes L: "laid_out fp tsrt padding quant dim q es" and s: "sorted (map sn_id es)" "distinct (map sn_id es)"
    and e: "seg_view es vid = Some e" "\<not> sn_deleted e"
  shows "quant = qNone \<Longrightarrow> FindAndDecode fp (seg_opened fp path tsrt padding quant dim q es) vid out = (kFound, Some (sn_vec e), sn_meta e)"
    and "quant = qFp16 \<Longrightarrow> FindAndDecode fp (seg_opened fp path tsrt padding quant dim q es) vid out =
      (kFound, fp16_Decode (unat dim) (fp16_Encode (unat dim) (sn_vec e)), sn_meta e)"
    and "quant = qBit \<Longrightarrow> 2 \<le> unat dim \<Longrightarrow> FindAndDecode fp (seg_opened fp path tsrt padding quant dim q es) vid out = (kFound, Some [], sn_meta e)"
proof -
  let ?r = "seg_opened fp path tsrt padding quant dim q es"
  note N = seg_opened_numbers [OF L refl refl, of path]
  have es: "e \<in> set es" using seg_view_Some [OF s(2)] e(1) by simp
  then have v: "length (sn_vec e) = unat dim" using L e(2) by (simp add: laid_out_def well_formed_def good_entries_def)
  obtain p rest where F: "FindRaw ?r vid out = (kFound, p, sn_meta e)"
    and D: "drop p (seg_file fp tsrt padding quant dim q es) = vector_code fp quant (unat dim) q e @ rest" and R: "rest \<noteq> []"
    using FindRaw_opened [OF L s, where vid = vid and path = path and out = out] e by auto
  show "FindAndDecode fp ?r vid out = (kFound, Some (sn_vec e), sn_meta e)" if "quant = qNone"
    using that e(2) bytes_floats_float_bytes [of "sn_vec e" rest] v
    unfolding FindAndDecode_def F prod.case floats_at_def N D by (simp add: vector_code_def)
  show "FindAndDecode fp ?r vid out = (kFound, fp16_Decode (unat dim) (fp16_Encode (unat dim) (sn_vec e)), sn_meta e)" if "quant = qFp16"
  proof -
    have "length (fp16_Encode (unat dim) (sn_vec e)) = unat dim * 2" using v length_fp16_Encode [of "sn_vec e"] by simp
    then show ?thesis
      using that e(2) unfolding FindAndDecode_def F prod.case sr_Decode_def N rd_def D by (simp add: vector_code_def)
  qed
  show "FindAndDecode fp ?r vid out = (kFound, Some [], sn_meta e)" if "quant = qBit" "2 \<le> unat dim"
  proof -
    let ?c = "bit_Encode fp (unat dim) (sn_vec e)"
    have c: "length ?c = (unat dim + 7) div 8" using v by (simp add: bit_Encode_def BitQuantize_bits)
    have "(unat dim + 7) div 8 < unat dim" using that(2) by (simp add: div_less_iff_less_mult)
    then have "length (take (unat dim) (?c @ rest)) \<noteq> (unat dim + 7) div 8" using c R by (cases rest) auto
    then show ?thesis
      using that e(2) unfolding FindAndDecode_def F prod.case sr_Decode_def N rd_def D
      by (simp add: vector_code_def bit_Decode_def del: length_take)
  qed
qed

subsection \<open>The time index\<close>

lemma partition_point_split:
  "(\<forall>i j. a \<le> i \<and> i \<le> j \<and> j < a + len \<and> P j \<longrightarrow> P i) \<Longrightarrow>
   a \<le> partition_point P a len \<and> partition_point P a len \<le> a + len \<and>
   (\<forall>i. a \<le> i \<and> i < partition_point P a len \<longrightarrow> P i) \<and> (\<forall>i. partition_point P a len \<le> i \<and> i < a + len \<longrightarrow> \<not> P i)"
proof (induction P a len rule: partition_point.induct)
  case (1 P a len)
  show ?case
  proof (cases "len = 0")
    case True
    then show ?thesis by (auto simp: partition_point.simps)
  next
    case False
    define half where "half = len div 2"
    have h: "half < len" using False by (simp add: half_def)
    have R: "partition_point P a len = (if P (a + half) then partition_point P (a + half + 1) (len - half - 1) else partition_point P a half)"
      using False by (subst partition_point.simps) (simp add: half_def Let_def)
    show ?thesis
    proof (cases "P (a + half)")
      case True
      note IH = "1.IH"(1) [OF False half_def True]
      have e: "a + half + 1 + (len - half - 1) = a + len" using h by simp
      have "\<forall>i j. a + half + 1 \<le> i \<and> i \<le> j \<and> j < a + half + 1 + (len - half - 1) \<and> P j \<longrightarrow> P i" using "1.prems" e by auto
      note IH = IH [OF this, unfolded e]
      have "P i" if "a \<le> i" "i \<le> a + half" for i using "1.prems" [rule_format, of i "a + half"] True that h by simp
      then show ?thesis using IH R True by (metis Suc_eq_plus1 add_leD1 not_less_eq_eq order_trans)
    next
      case nP: False
      have "\<forall>i j. a \<le> i \<and> i \<le> j \<and> j < a + half \<and> P j \<longrightarrow> P i"
        using "1.prems" h by (meson add_strict_left_mono less_trans)
      note IH = "1.IH"(2) [OF False half_def nP this]
      have "\<not> P i" if "a + half \<le> i" "i < a + len" for i using "1.prems" [rule_format, of "a + half" i] nP that by auto
      then show ?thesis using IH R nP h by (metis add_le_cancel_left less_imp_le not_le order_trans)
    qed
  qed
qed

lemma partition_point_iff:
  assumes "\<forall>i j. i \<le> j \<and> j < n \<and> P j \<longrightarrow> P i"
  shows "partition_point P 0 n \<le> n" "j < n \<Longrightarrow> j < partition_point P 0 n \<longleftrightarrow> P j"
proof -
  have "\<forall>i j. 0 \<le> i \<and> i \<le> j \<and> j < 0 + n \<and> P j \<longrightarrow> P i" using assms by simp
  from partition_point_split [OF this] have *: "partition_point P 0 n \<le> n" "\<And>i. i < partition_point P 0 n \<Longrightarrow> P i"
    "\<And>i. partition_point P 0 n \<le> i \<Longrightarrow> i < n \<Longrightarrow> \<not> P i"
    by simp_all
  show "partition_point P 0 n \<le> n" by (rule *(1))
  show "j < n \<Longrightarrow> j < partition_point P 0 n \<longleftrightarrow> P j" using *(2) [of j] *(3) [of j] by (cases "j < partition_point P 0 n") auto
qed

lemma collect_le: "i \<le> fin \<Longrightarrow> collect g i fin = Some (map g [i..<fin])"
proof (induction "fin - i" arbitrary: i)
  case (Suc d)
  then have "i < fin" by simp
  then show ?case using Suc.hyps(1) [of "Suc i"] Suc.hyps(2) by (subst collect.simps) (simp add: upt_conv_Cons)
qed (simp add: collect.simps)

lemma collect_returns:
  assumes "collect g i fin = Some xs"
  shows "i \<le> fin"
proof (rule collect.raw_induct [OF _ assms, where P = "\<lambda>g i fin xs. i \<le> fin"])
  fix self :: "(nat \<Rightarrow> 'a) \<Rightarrow> nat \<Rightarrow> nat \<Rightarrow> 'a list option" and g i fin xs
  assume "\<And>g i fin xs. self g i fin = Some xs \<Longrightarrow> i \<le> fin"
    "(if i = fin then Some [] else Option.bind (self g (i + 1) fin) (\<lambda>xs. Some (g i # xs))) = Some xs"
  then show "i \<le> fin" by (cases "i = fin") (auto simp: bind_eq_Some_conv intro: Suc_leD)
qed

lemma time_at_opened:
  assumes L: "laid_out fp tsrt padding quant dim q es" and j: "j < length es"
  shows "time_at (seg_opened fp path tsrt padding quant dim q es) j = tsrt (time_entries es) ! j"
proof -
  let ?D = "seg_file fp tsrt padding quant dim q es" and ?k = "entry_size_of quant (unat dim)"
  let ?ts = "tsrt (time_entries es)" and ?r = "seg_opened fp path tsrt padding quant dim q es"
  let ?T = "128 + length es * ?k + (length es + 1) * 8 + length (meta_blob es)"
  note N = seg_opened_numbers [OF L refl refl, of path]
  have l: "length ?ts = length es" using L by (metis laid_out_def well_formed_def time_sorts_def size_mset length_time_entries)
  let ?f = "\<lambda>(j, (t, i)). u64_bytes t @ u32_bytes i @ u32_bytes (padding j)"
  have "drop ?T ?D = drop (length (meta_blob es)) (drop ((length es + 1) * 8) (drop (128 + length es * ?k) ?D))"
    by (simp only: drop_drop add.commute add.left_commute)
  also have "\<dots> = time_bytes padding ?ts @ seg_footer fp tsrt padding quant dim q es"
    unfolding file_blocks(2) [OF L] seg_tail_def by (simp add: length_offset_bytes)
  finally have t: "drop ?T ?D = time_bytes padding ?ts @ seg_footer fp tsrt padding quant dim q es" .
  have "drop (?T + j * 16) ?D = drop (j * 16) (drop ?T ?D)" by (simp only: drop_drop add.commute)
  also have "\<dots> = drop (j * 16) (time_bytes padding ?ts) @ seg_footer fp tsrt padding quant dim q es"
    unfolding t using j l by (simp add: length_time_bytes)
  also have "drop (j * 16) (time_bytes padding ?ts) = concat (drop j (map ?f (enumerate 0 ?ts)))"
    unfolding time_bytes_def using j l by (intro drop_concat_uniform) auto
  also have "drop j (map ?f (enumerate 0 ?ts)) = map ?f (enumerate 0 ?ts) ! j # drop (Suc j) (map ?f (enumerate 0 ?ts))"
    using j l by (intro Cons_nth_drop_Suc [symmetric]) simp
  also have "map ?f (enumerate 0 ?ts) ! j = u64_bytes (fst (?ts ! j)) @ u32_bytes (snd (?ts ! j)) @ u32_bytes (padding j)"
    using j l by (simp add: nth_enumerate_eq case_prod_beta)
  finally obtain rest where d: "drop (?T + j * 16) ?D = u64_bytes (fst (?ts ! j)) @ u32_bytes (snd (?ts ! j)) @ rest" by auto
  have "drop (?T + j * 16 + 8) ?D = drop 8 (drop (?T + j * 16) ?D)" by (simp only: drop_drop add.commute)
  then have "rd32 (?T + j * 16 + 8) ?D = snd (?ts ! j)" unfolding rd32_def rd_def d by (simp add: codec)
  moreover have "rd64 (?T + j * 16) ?D = fst (?ts ! j)" unfolding rd64_def rd_def d by (simp add: codec)
  ultimately show ?thesis unfolding time_at_def Let_def N by simp
qed

lemma SearchTemporal_cuts:
  assumes L: "laid_out fp tsrt padding quant dim q es" and ne: "es \<noteq> []"
  obtains a b where "SearchTemporal (seg_opened fp path tsrt padding quant dim q es) s t = collect (\<lambda>j. snd (time_at (seg_opened fp path tsrt padding quant dim q es) j)) a b"
    "a \<le> length es" "b \<le> length es"
    "\<forall>j < length es. j < a \<longleftrightarrow> fst (tsrt (time_entries es) ! j) < s" "\<forall>j < length es. j < b \<longleftrightarrow> fst (tsrt (time_entries es) ! j) \<le> t"
proof -
  let ?r = "seg_opened fp path tsrt padding quant dim q es" and ?ts = "tsrt (time_entries es)"
  note N = seg_opened_numbers [OF L refl refl, of path]
  have l: "length ?ts = length es" using L by (metis laid_out_def well_formed_def time_sorts_def size_mset length_time_entries)
  have "sorted (map fst ?ts)" using L by (simp add: laid_out_def well_formed_def time_sorts_def)
  then have mono: "fst (?ts ! i) \<le> fst (?ts ! j)" if "i \<le> j" "j < length es" for i j
    using sorted_nth_mono [of "map fst ?ts" i j] that l by simp
  let ?P = "\<lambda>j. fst (time_at ?r j) < s" and ?Q = "\<lambda>j. \<not> t < fst (time_at ?r j)"
  have P: "\<forall>i j. i \<le> j \<and> j < length es \<and> ?P j \<longrightarrow> ?P i" and Q: "\<forall>i j. i \<le> j \<and> j < length es \<and> ?Q j \<longrightarrow> ?Q i"
    by (auto simp: time_at_opened [OF L] not_less intro: le_less_trans [OF mono] order_trans [OF mono])
  have S: "SearchTemporal ?r s t = collect (\<lambda>j. snd (time_at ?r j)) (partition_point ?P 0 (length es)) (partition_point ?Q 0 (length es))"
  proof -
    have "sr_count ?r \<noteq> 0" using ne N(1) by (auto simp flip: unat_eq_0)
    then show ?thesis unfolding SearchTemporal_def Let_def N(1) using N(8) by simp
  qed
  have c: "j < partition_point ?P 0 (length es) \<longleftrightarrow> fst (?ts ! j) < s" "j < partition_point ?Q 0 (length es) \<longleftrightarrow> fst (?ts ! j) \<le> t" if "j < length es" for j
    using partition_point_iff(2) [OF P that] partition_point_iff(2) [OF Q that] time_at_opened [OF L that, of path] by (simp_all add: not_less)
  show ?thesis
    using that [OF S partition_point_iff(1) [OF P] partition_point_iff(1) [OF Q]] c by blast
qed

lemma time_entries_nth: "i < length es \<Longrightarrow> time_entries es ! i = (md_timestamp (sn_meta (es ! i)), word_of_nat i)"
  by (simp add: time_entries_def nth_enumerate_eq)

lemma SearchTemporal_exact:
  assumes L: "laid_out fp tsrt padding quant dim q es" and "s \<le> t"
  shows "\<exists>xs. SearchTemporal (seg_opened fp path tsrt padding quant dim q es) s t = Some xs \<and>
    mset xs = image_mset snd (filter_mset (\<lambda>(ts, i). s \<le> ts \<and> ts \<le> t) (mset (time_entries es)))"
proof (cases "es = []")
  case True
  then show ?thesis by (simp add: SearchTemporal_def seg_opened_def Let_def time_entries_def)
next
  case False
  let ?r = "seg_opened fp path tsrt padding quant dim q es" and ?ts = "tsrt (time_entries es)"
  have m: "mset ?ts = mset (time_entries es)" using L by (simp add: laid_out_def well_formed_def time_sorts_def)
  then have l: "length ?ts = length es" by (metis size_mset length_time_entries)
  obtain a b where S: "SearchTemporal ?r s t = collect (\<lambda>j. snd (time_at ?r j)) a b" and ab: "a \<le> length es" "b \<le> length es"
    and a: "\<forall>j < length es. j < a \<longleftrightarrow> fst (?ts ! j) < s" and b: "\<forall>j < length es. j < b \<longleftrightarrow> fst (?ts ! j) \<le> t"
    using SearchTemporal_cuts [OF L False] .
  have "a \<le> b"
  proof (rule ccontr)
    assume "\<not> a \<le> b"
    then have "fst (?ts ! b) < s" "\<not> fst (?ts ! b) \<le> t" using a [rule_format, of b] b [rule_format, of b] ab by simp_all
    then show False using \<open>s \<le> t\<close> by simp
  qed
  have "filter (\<lambda>(ts, i). s \<le> ts \<and> ts \<le> t) ?ts = map ((!) ?ts) [a..<b]"
  proof -
    have u: "[0..<length ?ts] = [0..<a] @ [a..<b] @ [b..<length es]"
      using ab l \<open>a \<le> b\<close> upt_add_eq_append [of 0 a "length es - a"] upt_add_eq_append [of a b "length es - b"] by simp
    have "filter (\<lambda>(ts, i). s \<le> ts \<and> ts \<le> t) ?ts = map ((!) ?ts) (filter (\<lambda>j. s \<le> fst (?ts ! j) \<and> fst (?ts ! j) \<le> t) [0..<length ?ts])"
      by (subst map_nth [of ?ts, symmetric], subst filter_map) (simp add: comp_def case_prod_beta)
    also have "filter (\<lambda>j. s \<le> fst (?ts ! j) \<and> fst (?ts ! j) \<le> t) [0..<length ?ts] = [a..<b]"
    proof -
      have "s \<le> fst (?ts ! j) \<and> fst (?ts ! j) \<le> t \<longleftrightarrow> a \<le> j \<and> j < b" if "j < length es" for j
        using a [rule_format, OF that] b [rule_format, OF that] by (simp add: not_less [symmetric])
      then show ?thesis unfolding u using ab by (auto simp: filter_empty_conv filter_id_conv)
    qed
    finally show ?thesis .
  qed
  moreover have "map (\<lambda>j. snd (time_at ?r j)) [a..<b] = map snd (map ((!) ?ts) [a..<b])"
    using ab time_at_opened [OF L, of _ path] by simp
  ultimately have "mset (map (\<lambda>j. snd (time_at ?r j)) [a..<b]) = image_mset snd (filter_mset (\<lambda>(ts, i). s \<le> ts \<and> ts \<le> t) (mset ?ts))"
    by (simp only: mset_map mset_filter [symmetric])
  then show ?thesis unfolding S collect_le [OF \<open>a \<le> b\<close>] m by blast
qed

lemma SearchTemporal_inverted:
  assumes L: "laid_out fp tsrt padding quant dim q es" and i: "i < length es" "t < md_timestamp (sn_meta (es ! i))" "md_timestamp (sn_meta (es ! i)) < s"
  shows "SearchTemporal (seg_opened fp path tsrt padding quant dim q es) s t = None"
proof -
  let ?r = "seg_opened fp path tsrt padding quant dim q es" and ?ts = "tsrt (time_entries es)"
  have m: "mset ?ts = mset (time_entries es)" using L by (simp add: laid_out_def well_formed_def time_sorts_def)
  then have l: "length ?ts = length es" by (metis size_mset length_time_entries)
  have "time_entries es ! i \<in> set ?ts" using m i(1) by (metis length_time_entries mset_eq_setD nth_mem)
  then obtain j where j: "j < length es" "fst (?ts ! j) = md_timestamp (sn_meta (es ! i))"
    using l i(1) by (auto simp: in_set_conv_nth time_entries_nth)
  obtain a b where S: "SearchTemporal ?r s t = collect (\<lambda>j. snd (time_at ?r j)) a b"
    and ab: "\<forall>j < length es. j < a \<longleftrightarrow> fst (?ts ! j) < s" "\<forall>j < length es. j < b \<longleftrightarrow> fst (?ts ! j) \<le> t"
  proof -
    have "es \<noteq> []" using i(1) by auto
    then show ?thesis using that SearchTemporal_cuts [OF L] by metis
  qed
  have "j < a" "\<not> j < b" using ab j i(2,3) by simp_all
  then have "b < a" by simp
  then show ?thesis unfolding S using collect_returns [of _ a b] by (cases "collect (\<lambda>j. snd (time_at ?r j)) a b") auto
qed

subsection \<open>Properties\<close>

text \<open>C4: Segments lose nothing. For entries with distinct ids, of every kind of quantisation,
  \<open>Finish\<close> succeeds, \<open>Open\<close> accepts the file, and \<open>Get\<close> answers for every id what was added under
  it: the stored code of its vector and its metadata, a tombstone, or that there is no such id; without
  quantisation \<open>FindAndDecode\<close> returns the very vector.\<close>

theorem Segment_roundtrip:
  assumes "entry_sorts srt" "distinct (map sn_id (sb_entries b))"
    and "laid_out fp tsrt padding (sb_quant b) (sb_dim b) q (srt (sb_entries b))"
    and "calls_ok e" "full_writes e (length (seg_file fp tsrt padding (sb_quant b) (sb_dim b) q (srt (sb_entries b))))"
  shows "\<exists>e1 b1 r e2. sb_Finish fp srt tsrt padding e b = (Ok, e1, b1) \<and> sr_Open fp e1 (sb_path b) = (Ok, Some r, e2) \<and>
    (\<forall>vid out. sr_Get r vid out = get_entry fp (sb_quant b) (unat (sb_dim b)) q out (seg_view (sb_entries b) vid)) \<and>
    (\<forall>vid out en. sb_quant b = qNone \<and> seg_view (sb_entries b) vid = Some en \<and> \<not> sn_deleted en \<longrightarrow>
       FindAndDecode fp r vid out = (kFound, Some (sn_vec en), sn_meta en))"
proof -
  let ?es = "srt (sb_entries b)"
  obtain s e1 b1 where F: "sb_Finish fp srt tsrt padding e b = (s, e1, b1)" by (cases "sb_Finish fp srt tsrt padding e b")
  have "train fp (sb_quant b) (unat (sb_dim b)) ?es = (Ok, q)" using assms(3) by (simp add: laid_out_def well_formed_def)
  from sb_Finish_result [OF F refl this assms(5)] have R: "s = Ok" "calls_ok e1"
      "ev_files e1 (sb_path b) = Some (seg_file fp tsrt padding (sb_quant b) (sb_dim b) q ?es)"
    using assms(4) by (auto simp: calls_ok_def)
  from sr_Open_opened [OF assms(3) R(2,3)]
  obtain t where O: "sr_Open fp e1 (sb_path b) = (Ok, Some (seg_opened fp (sb_path b) tsrt padding (sb_quant b) (sb_dim b) q ?es), e1\<lparr>ev_tick := t\<rparr>)" ..
  have s: "sorted (map sn_id ?es)" using assms(1) by (simp add: entry_sorts_def)
  note V = entry_sorts_view [OF assms(1,2)]
  show ?thesis
    using F R(1) O sr_Get_opened [OF assms(3) s V(2)] FindAndDecode_opened(1) [OF assms(3) s V(2)] unfolding V(1) by blast
qed

text \<open>A concrete builder and environment.\<close>

definition sample_builder :: "SegmentQuant \<Rightarrow> seg_builder" where
  "sample_builder quant = \<lparr>sb_path = ''s.dat'', sb_dim = 2, sb_quant = quant,
     sb_entries = [\<lparr>sn_id = 7, sn_vec = [f_1, f_0], sn_deleted = False, sn_meta = Metadata0\<lparr>md_timestamp := 50\<rparr>\<rparr>,
                   \<lparr>sn_id = 3, sn_vec = [], sn_deleted = True, sn_meta = Metadata0\<rparr>]\<rparr>"

definition sample_env :: posix_env where
  "sample_env = \<lparr>ev_files = Map.empty, ev_tick = 0, ev_err = (\<lambda>_. None), ev_chunk = (\<lambda>_. 4096)\<rparr>"

lemma sample_sorts: "entry_sorts (sort_key sn_id)" "time_sorts (sort_key fst)"
  by (simp_all add: entry_sorts_def time_sorts_def)

lemma sample_wf:
  assumes "quant \<noteq> qSq8"
  shows "well_formed sample_fp (sort_key fst) quant 2 (sq8_new 2) (sort_key sn_id (sb_entries (sample_builder quant)))"
  using assms sample_sorts(2)
  by (cases quant) (simp_all add: well_formed_def good_entries_def sample_builder_def short_strings_def Metadata0_def train_def
      training_data_def Let_def fp16_Train_def insort_key_def)

lemma sample_laid_out:
  assumes "quant \<noteq> qSq8"
  shows "laid_out sample_fp (sort_key fst) (\<lambda>_. 0) quant 2 (sq8_new 2) (sort_key sn_id (sb_entries (sample_builder quant)))"
    "full_writes sample_env (length (seg_file sample_fp (sort_key fst) (\<lambda>_. 0) quant 2 (sq8_new 2) (sort_key sn_id (sb_entries (sample_builder quant)))))"
proof -
  let ?es = "sort_key sn_id (sb_entries (sample_builder quant))"
  have k: "entry_size_of quant 2 = 64" by (cases quant) (simp_all add: entry_size_of_def)
  have m: "length (meta_blob ?es) = 120"
    by (simp add: meta_blob_def sample_builder_def md_record_def Metadata0_def length_add_str)
  have n: "length ?es = 2" by (simp add: sample_builder_def)
  show "laid_out sample_fp (sort_key fst) (\<lambda>_. 0) quant 2 (sq8_new 2) ?es"
    using k m n by (intro laid_outI [OF sample_wf [OF assms]]) simp_all
  show "full_writes sample_env (length (seg_file sample_fp (sort_key fst) (\<lambda>_. 0) quant 2 (sq8_new 2) ?es))"
    using k m n length_seg_file [OF sample_wf [OF assms]] by (simp add: full_writes_def sample_env_def)
qed

theorem Segment_roundtrip_witness:
  "\<exists>e1 b1 r e2. sb_Finish sample_fp (sort_key sn_id) (sort_key fst) (\<lambda>_. 0) sample_env (sample_builder qNone) = (Ok, e1, b1) \<and>
    sr_Open sample_fp e1 ''s.dat'' = (Ok, Some r, e2) \<and>
    sr_Get r 7 Metadata0 = (Ok, float_bytes [f_1, f_0], Metadata0\<lparr>md_timestamp := 50\<rparr>) \<and>
    sr_Get r 3 Metadata0 = (NotFound ''tombstone'', [], Metadata0) \<and>
    sr_Get r 5 Metadata0 = (NotFound ''id not found in segment'', [], Metadata0) \<and>
    FindAndDecode sample_fp r 7 Metadata0 = (kFound, Some [f_1, f_0], Metadata0\<lparr>md_timestamp := 50\<rparr>)"
proof -
  have d: "distinct (map sn_id (sb_entries (sample_builder qNone)))" by (simp add: sample_builder_def)
  have p: "sb_path (sample_builder qNone) = ''s.dat''" "sb_dim (sample_builder qNone) = 2" "sb_quant (sample_builder qNone) = qNone"
    by (simp_all add: sample_builder_def)
  have v: "seg_view (sb_entries (sample_builder qNone)) 7 = Some \<lparr>sn_id = 7, sn_vec = [f_1, f_0], sn_deleted = False, sn_meta = Metadata0\<lparr>md_timestamp := 50\<rparr>\<rparr>"
      "seg_view (sb_entries (sample_builder qNone)) 3 = Some \<lparr>sn_id = 3, sn_vec = [], sn_deleted = True, sn_meta = Metadata0\<rparr>"
      "seg_view (sb_entries (sample_builder qNone)) 5 = None"
    by (simp_all add: seg_view_def sample_builder_def)
  have ok: "calls_ok sample_env" by (simp add: calls_ok_def sample_env_def)
  from Segment_roundtrip [OF sample_sorts(1) d, of sample_fp "sort_key fst" "\<lambda>_. 0" "sq8_new 2" sample_env, unfolded p] sample_laid_out [of qNone] ok
  obtain e1 b1 r e2 where "sb_Finish sample_fp (sort_key sn_id) (sort_key fst) (\<lambda>_. 0) sample_env (sample_builder qNone) = (Ok, e1, b1)"
      "sr_Open sample_fp e1 ''s.dat'' = (Ok, Some r, e2)"
      "\<And>vid out. sr_Get r vid out = get_entry sample_fp qNone 2 (sq8_new 2) out (seg_view (sb_entries (sample_builder qNone)) vid)"
      "\<And>vid out en. seg_view (sb_entries (sample_builder qNone)) vid = Some en \<Longrightarrow> \<not> sn_deleted en \<Longrightarrow>
         FindAndDecode sample_fp r vid out = (kFound, Some (sn_vec en), sn_meta en)"
    by auto
  then show ?thesis using v by (auto simp: get_entry_def vector_code_def)
qed

text \<open>C17: \<open>Finish\<close> replaces the segment or leaves it alone. Whatever system calls fail, when no write is
  short, the file at the final path is the complete new segment if \<open>Finish\<close> reports \<open>Ok\<close> and is what it was
  before otherwise; files other than it and its temporary name are never touched.\<close>

theorem Segment_Finish_atomic:
  assumes "sb_Finish fp srt tsrt padding e b = (s, e', b')"
    and "train fp (sb_quant b) (unat (sb_dim b)) (srt (sb_entries b)) = (Ok, q)"
    and "full_writes e (length (seg_file fp tsrt padding (sb_quant b) (sb_dim b) q (srt (sb_entries b))))"
  shows "ev_files e' (sb_path b) = (if st_ok s then Some (seg_file fp tsrt padding (sb_quant b) (sb_dim b) q (srt (sb_entries b)))
      else ev_files e (sb_path b)) \<and>
    (\<forall>p. p \<noteq> sb_path b \<and> p \<noteq> sb_path b @ ''.tmp'' \<longrightarrow> ev_files e' p = ev_files e p)"
  using sb_Finish_result [OF assms(1) refl assms(2,3)] by auto

theorem Segment_Finish_atomic_witness:
  "\<exists>s e' b'. sb_Finish sample_fp (sort_key sn_id) (sort_key fst) (\<lambda>_. 0)
       (sample_env\<lparr>ev_files := [''s.dat'' \<mapsto> [1]], ev_err := (\<lambda>n. if n = 4 then Some ''EIO'' else None)\<rparr>) (sample_builder qNone) = (s, e', b') \<and>
     (st_ok s \<or> ev_files e' ''s.dat'' = Some [1])"
proof -
  let ?e = "sample_env\<lparr>ev_files := [''s.dat'' \<mapsto> [1]], ev_err := (\<lambda>n. if n = 4 then Some ''EIO'' else None)\<rparr>"
  obtain s e' b' where F: "sb_Finish sample_fp (sort_key sn_id) (sort_key fst) (\<lambda>_. 0) ?e (sample_builder qNone) = (s, e', b')"
    by (cases "sb_Finish sample_fp (sort_key sn_id) (sort_key fst) (\<lambda>_. 0) ?e (sample_builder qNone)")
  have p: "sb_path (sample_builder qNone) = ''s.dat''" "sb_dim (sample_builder qNone) = 2" "sb_quant (sample_builder qNone) = qNone"
    by (simp_all add: sample_builder_def)
  note L = sample_laid_out [of qNone, simplified]
  have "full_writes ?e n = full_writes sample_env n" for n by (simp add: full_writes_def)
  then show ?thesis
    using Segment_Finish_atomic [OF F, unfolded p, of "sq8_new 2"] L F by (auto simp: laid_out_def well_formed_def)
qed

text \<open>C37: The checksum a segment ends with never matches it: it is computed over the header as it was
  before \<open>temporal_index_offset\<close> was filled in.\<close>

theorem Segment_crc_stale:
  assumes "sb_Finish fp srt tsrt padding e b = (s, e', b')" "st_ok s"
    and "laid_out fp tsrt padding (sb_quant b) (sb_dim b) q (srt (sb_entries b))"
    and "full_writes e (length (seg_file fp tsrt padding (sb_quant b) (sb_dim b) q (srt (sb_entries b))))"
  shows "\<exists>D crc. ev_files e' (sb_path b) = Some (D @ u32_bytes crc) \<and> crc \<noteq> Crc32c D 0"
proof -
  let ?es = "srt (sb_entries b)" and ?h = "first_header (sb_quant b) (sb_dim b) q (srt (sb_entries b))"
  let ?rest = "seg_body fp (sb_quant b) (unat (sb_dim b)) q ?es @ seg_tail tsrt padding ?es"
  have q: "train fp (sb_quant b) (unat (sb_dim b)) ?es = (Ok, q)" using assms(3) by (simp add: laid_out_def well_formed_def)
  have T: "sh_temporal_index_offset (final_header ?h ?es) \<noteq> 0"
    using seg_opened_numbers(8) [OF assms(3) refl refl, of "[]"] by (simp add: seg_opened_def Let_def)
  define pre where "pre = bytes_of kMagic @ u32_bytes (sh_version ?h) @ u32_bytes (sh_count ?h) @ u32_bytes (sh_dim ?h) @
     u32_bytes (sh_metadata_offset ?h) @ [sh_quant_type ?h, 0, 0, 0] @ u32_bytes (sh_quant_min ?h) @
     u32_bytes (sh_quant_inv_scale ?h) @ u32_bytes (sh_entries_start_offset ?h) @ u32_bytes (sh_entry_size ?h)"
  have H: "header_bytes (final_header ?h ?es) = pre @ u32_bytes (sh_temporal_index_offset (final_header ?h ?es)) @ [0, 0, 0, 0]"
      "header_bytes ?h = pre @ u32_bytes 0 @ [0, 0, 0, 0]"
    by (simp_all add: header_bytes_def final_header_def pre_def) (simp add: first_header_def Let_def)
  have "Crc32c (header_bytes ?h @ ?rest) 0 \<noteq> Crc32c (header_bytes (final_header ?h ?es) @ ?rest) 0"
    unfolding H using T crc_loop_burst [of "u32_bytes 0" "u32_bytes (sh_temporal_index_offset (final_header ?h ?es))" "crc_loop (NOT 0) pre" "[0, 0, 0, 0] @ ?rest"]
    by (auto simp: Crc32c_def crc_loop_append u32_bytes_inject)
  moreover have "ev_files e' (sb_path b) = Some ((header_bytes (final_header ?h ?es) @ ?rest) @ u32_bytes (seg_crc (header_bytes ?h) ?rest))"
    using sb_Finish_result [OF assms(1) refl q assms(4)] assms(2) by (simp add: seg_file_def Let_def)
  ultimately show ?thesis unfolding seg_crc_def by blast
qed

theorem Segment_crc_stale_witness:
  "\<exists>e' b' D crc. sb_Finish sample_fp (sort_key sn_id) (sort_key fst) (\<lambda>_. 0) sample_env (sample_builder qNone) = (Ok, e', b') \<and>
     ev_files e' ''s.dat'' = Some (D @ u32_bytes crc) \<and> crc \<noteq> Crc32c D 0"
proof -
  obtain s e' b' where F: "sb_Finish sample_fp (sort_key sn_id) (sort_key fst) (\<lambda>_. 0) sample_env (sample_builder qNone) = (s, e', b')"
    by (cases "sb_Finish sample_fp (sort_key sn_id) (sort_key fst) (\<lambda>_. 0) sample_env (sample_builder qNone)")
  have p: "sb_path (sample_builder qNone) = ''s.dat''" "sb_dim (sample_builder qNone) = 2" "sb_quant (sample_builder qNone) = qNone"
    by (simp_all add: sample_builder_def)
  note L = sample_laid_out [of qNone, simplified]
  have "calls_ok sample_env" by (simp add: calls_ok_def sample_env_def)
  then have "s = Ok"
    using sb_Finish_result [OF F refl, unfolded p, of Ok "sq8_new 2"] L by (simp add: laid_out_def well_formed_def)
  then show ?thesis using Segment_crc_stale [OF F, unfolded p, of "sq8_new 2"] L F by auto
qed

text \<open>C28: The time index is exact. For a range that is not inverted \<open>SearchTemporal\<close> returns the positions
  of exactly the entries whose timestamp is in the closed range. For an inverted range with an entry strictly
  between its ends it does not return.\<close>

theorem SearchTemporal_range:
  assumes "laid_out fp tsrt padding quant dim q es" and "r = seg_opened fp path tsrt padding quant dim q es"
  shows "(s \<le> t \<longrightarrow> (\<exists>xs. SearchTemporal r s t = Some xs \<and>
      mset xs = mset (map word_of_nat (filter (\<lambda>i. s \<le> md_timestamp (sn_meta (es ! i)) \<and> md_timestamp (sn_meta (es ! i)) \<le> t) [0..<length es])))) \<and>
    ((\<exists>en\<in>set es. t < md_timestamp (sn_meta en) \<and> md_timestamp (sn_meta en) < s) \<longrightarrow> SearchTemporal r s t = None)"
proof -
  have te: "time_entries es = map (\<lambda>i. (md_timestamp (sn_meta (es ! i)), word_of_nat i)) [0..<length es]"
    by (rule nth_equalityI) (simp_all add: time_entries_nth)
  have "image_mset snd (filter_mset (\<lambda>(ts, i). s \<le> ts \<and> ts \<le> t) (mset (time_entries es))) =
      mset (map word_of_nat (filter (\<lambda>i. s \<le> md_timestamp (sn_meta (es ! i)) \<and> md_timestamp (sn_meta (es ! i)) \<le> t) [0..<length es]))"
    unfolding te mset_filter [symmetric] mset_map [symmetric] by (simp only: filter_map map_map comp_def prod.case snd_conv)
  then show ?thesis
    using SearchTemporal_exact [OF assms(1), of s t path] SearchTemporal_inverted [OF assms(1), of _ t s path] unfolding assms(2)
    by (auto simp: in_set_conv_nth)
qed

theorem SearchTemporal_range_witness:
  "\<exists>r. r = seg_opened sample_fp ''s.dat'' (sort_key fst) (\<lambda>_. 0) qNone 2 (sq8_new 2) (sort_key sn_id (sb_entries (sample_builder qNone))) \<and>
     (\<exists>xs. SearchTemporal r 10 60 = Some xs \<and> mset xs = {#1#}) \<and> SearchTemporal r 60 10 = None"
  using SearchTemporal_range [OF sample_laid_out(1) [of qNone] refl, of 10 60 "''s.dat''"]
    SearchTemporal_range [OF sample_laid_out(1) [of qNone] refl, of 60 10 "''s.dat''"]
  by (simp add: sample_builder_def Metadata0_def upt_rec)

text \<open>Decoding one-bit vectors by id gives nothing: in a segment quantised with \<open>kBit\<close> and of two or more
  dimensions, \<open>FindAndDecode\<close> reports every stored vector as found and returns it empty, since it hands the quantiser a
  slice of the wrong length.\<close>

theorem FindAndDecode_bit_empty:
  assumes "laid_out fp tsrt padding qBit dim q es" "sorted (map sn_id es)" "distinct (map sn_id es)" "2 \<le> unat dim"
    and "en \<in> set es" "\<not> sn_deleted en"
  shows "FindAndDecode fp (seg_opened fp path tsrt padding qBit dim q es) (sn_id en) out = (kFound, Some [], sn_meta en)"
  using FindAndDecode_opened(3) [OF assms(1-3) _ assms(6) refl assms(4)] assms(5) by (simp add: seg_view_Some [OF assms(3)])

theorem FindAndDecode_bit_empty_witness:
  "FindAndDecode sample_fp (seg_opened sample_fp ''s.dat'' (sort_key fst) (\<lambda>_. 0) qBit 2 (sq8_new 2) (sort_key sn_id (sb_entries (sample_builder qBit))))
     7 Metadata0 = (kFound, Some [], Metadata0\<lparr>md_timestamp := 50\<rparr>)"
  using FindAndDecode_bit_empty [OF sample_laid_out(1) [of qBit], of
      "\<lparr>sn_id = 7, sn_vec = [f_1, f_0], sn_deleted = False, sn_meta = Metadata0\<lparr>md_timestamp := 50\<rparr>\<rparr>" "''s.dat''" Metadata0]
  by (simp add: sample_builder_def)

end
