(* ===== verification/Runtime.thy ===== *)
theory Runtime
  imports Wal_Recovery Segment_Read Segment_Manifest
begin

text \<open>
  The shard runtime, \<open>src/core/shard/runtime.cc\<close>, with the lookup through its layers of
  \<open>layer_lookup.cc\<close>: writes go to the log and the active memtable, full memtables are set
  aside, and reads take the newest version of an id.  The jobs that turn memtables into segments and
  merge segments are in \<open>Background\<close>.

  The state is the runtime's fields; the file system is passed along and clock readings are
  arguments.  The counters for statistics and the coarse index, which only searches read, are left out.
\<close>

unbundle bit_operations_syntax

subsection \<open>State\<close>

definition kMaxFrozenMemtables :: nat where "kMaxFrozenMemtables = 4"
definition kMemtableSoftLimit :: nat where "kMemtableSoftLimit = 5000"

record snapshot =
  vs_version :: u64
  vs_frozen :: "memtable list"
  vs_segments :: "seg_reader list"

record runtime =
  rt_dir :: string
  rt_dim :: u32
  rt_vector :: bool
  rt_started :: bool
  rt_quant :: SegmentQuant
  rt_quantize_inmem :: bool
  rt_ttl :: u32
  rt_wal :: wal
  rt_mem :: memtable
  rt_frozen :: "memtable list"
  rt_segments :: "seg_reader list"
  rt_snapshot :: "snapshot option"
  rt_next_version :: u64
  rt_epoch :: u64
  rt_ops :: u64
  rt_window :: u32
  rt_batch_size :: u32
  rt_coalesce :: "(VectorId \<times> VectorView \<times> Metadata) list"
  rt_coalesce_start :: u64

definition VectorRuntime :: "string \<Rightarrow> u32 \<Rightarrow> bool \<Rightarrow> wal \<Rightarrow> memtable \<Rightarrow> SegmentQuant \<Rightarrow> bool \<Rightarrow> u32 \<Rightarrow> u32 \<Rightarrow> u32 \<Rightarrow> runtime" where
  "VectorRuntime dir dim vector w mem quant quantize_inmem window batch_size ttl =
     \<lparr>rt_dir = dir, rt_dim = dim, rt_vector = vector, rt_started = False, rt_quant = quant, rt_quantize_inmem = quantize_inmem,
      rt_ttl = ttl, rt_wal = w, rt_mem = mem, rt_frozen = [], rt_segments = [], rt_snapshot = None, rt_next_version = 1,
      rt_epoch = 0, rt_ops = 0, rt_window = window, rt_batch_size = batch_size, rt_coalesce = [], rt_coalesce_start = 0\<rparr>"

definition VectorMetaExpired :: "u32 \<Rightarrow> u64 \<Rightarrow> Metadata \<Rightarrow> bool" where
  "VectorMetaExpired ttl now m \<longleftrightarrow> ttl > 0 \<and> md_timestamp m > 0 \<and> now \<ge> md_timestamp m \<and> now - md_timestamp m \<ge> ucast ttl"

definition PublishSnapshot :: "runtime \<Rightarrow> runtime" where
  "PublishSnapshot rt =
     rt\<lparr>rt_snapshot := Some \<lparr>vs_version = rt_next_version rt, vs_frozen = rt_frozen rt, vs_segments = rt_segments rt\<rparr>,
        rt_next_version := rt_next_version rt + 1\<rparr>"

definition RotateMemTable :: "runtime \<Rightarrow> runtime" where
  "RotateMemTable rt =
     (if mt_GetCount (rt_mem rt) = 0 then rt
      else PublishSnapshot (rt\<lparr>rt_frozen := rt_frozen rt @ [rt_mem rt],
                               rt_mem := MemTable_new (rt_dim rt) (2 ^ 20) (rt_quantize_inmem rt)\<rparr>))"

fun open_all :: "ieee \<Rightarrow> posix_env \<Rightarrow> string \<Rightarrow> string list \<Rightarrow> seg_reader list \<Rightarrow> status \<times> seg_reader list \<times> posix_env" where
  "open_all fp e d [] rs = (Ok, rs, e)"
| "open_all fp e d (n # ns) rs =
     (case sr_Open fp e (path_join d n) of
        (s, None, e) \<Rightarrow> (s, rs, e)
      | (s, Some r, e) \<Rightarrow> open_all fp e d ns (rs @ [r]))"

definition LoadSegments :: "ieee \<Rightarrow> posix_env \<Rightarrow> runtime \<Rightarrow> status \<times> posix_env \<times> runtime" where
  "LoadSegments fp e rt =
     (case sm_Load e (rt_dir rt) of (s, out, e) \<Rightarrow>
      if \<not> st_ok s then (s, e, rt)
      else case open_all fp e (rt_dir rt) (case out of Some ns \<Rightarrow> ns | None \<Rightarrow> []) [] of (s, rs, e) \<Rightarrow>
        let rt = rt\<lparr>rt_segments := rs\<rparr>
        in if \<not> st_ok s then (s, e, rt) else (Ok, e, PublishSnapshot rt))"

definition rt_Start :: "ieee \<Rightarrow> posix_env \<Rightarrow> runtime \<Rightarrow> status \<times> posix_env \<times> runtime" where
  "rt_Start fp e rt =
     (if rt_started rt then (Aborted ''shard already started'', e, rt)
      else let rt = rt\<lparr>rt_started := True\<rparr>;
               rt = (if mt_GetCount (rt_mem rt) > 0 then RotateMemTable rt else rt)
           in case LoadSegments fp e rt of (s, e, rt) \<Rightarrow>
              if \<not> st_ok s then (s, e, rt\<lparr>rt_started := False\<rparr>) else (Ok, e, rt))"

subsection \<open>Lookup\<close>

datatype LookupState = LsNotFound | LsTombstone | LsFound

text \<open>One memtable: not there, a tombstone, or the \<open>dim\<close> floats at the pointer it returns.\<close>

definition probe_memtable :: "(u64 \<Rightarrow> u64) \<Rightarrow> memtable \<Rightarrow> VectorId \<Rightarrow> nat \<Rightarrow> LookupState \<times> VectorView option \<times> Metadata" where
  "probe_memtable hash mt i dim =
     (if mt_IsTombstone hash mt i then (LsTombstone, Some [], Metadata0)
      else case mt_Get hash mt i of
        (s, Some p, m) \<Rightarrow>
          if st_ok s then (LsFound, map_option (bytes_floats dim) (ar_read (mt_arena mt) p (4 * dim)), case m of Some m \<Rightarrow> m | None \<Rightarrow> Metadata0)
          else (LsNotFound, Some [], Metadata0)
      | (s, None, m) \<Rightarrow> (LsNotFound, Some [], Metadata0))"

text \<open>One segment.  The slice handed to the quantiser has a byte for each dimension, also where a code is shorter (one-bit codes); their decoder
  refuses it for its length and never reads the bytes behind the code, which are zero here.\<close>

definition probe_segment :: "ieee \<Rightarrow> seg_reader \<Rightarrow> VectorId \<Rightarrow> nat \<Rightarrow> LookupState \<times> VectorView option \<times> Metadata" where
  "probe_segment fp r i dim =
     (case sr_Get r i Metadata0 of (s, pinned, m) \<Rightarrow>
      if st_ok s then
        (LsFound,
         if sr_quant_type r = quant_code qNone then Some (bytes_floats dim pinned)
         else (let n = (if sr_quant_type r = quant_code qFp16 then dim * 2 else dim) in sr_Decode fp r (take n (pinned @ replicate n 0))),
         m)
      else if s = NotFound ''tombstone'' then (LsTombstone, Some [], Metadata0)
      else (LsNotFound, Some [], Metadata0))"

fun first_hit :: "('l \<Rightarrow> LookupState \<times> 'v) \<Rightarrow> 'l list \<Rightarrow> (LookupState \<times> 'v) option" where
  "first_hit probe [] = None"
| "first_hit probe (l # ls) = (case probe l of (s, v) \<Rightarrow> if s \<noteq> LsNotFound then Some (s, v) else first_hit probe ls)"

definition LookupById :: "ieee \<Rightarrow> (u64 \<Rightarrow> u64) \<Rightarrow> memtable option \<Rightarrow> snapshot option \<Rightarrow> VectorId \<Rightarrow> nat \<Rightarrow>
    LookupState \<times> VectorView option \<times> Metadata" where
  "LookupById fp hash active snap i dim =
     (case first_hit (\<lambda>mt. probe_memtable hash mt i dim) (case active of Some mt \<Rightarrow> [mt] | None \<Rightarrow> []) of
        Some hit \<Rightarrow> hit
      | None \<Rightarrow>
          (case snap of
             None \<Rightarrow> (LsNotFound, Some [], Metadata0)
           | Some vs \<Rightarrow>
               (case first_hit (\<lambda>mt. probe_memtable hash mt i dim) (rev (vs_frozen vs)) of
                  Some hit \<Rightarrow> hit
                | None \<Rightarrow>
                    (case first_hit (\<lambda>r. probe_segment fp r i dim) (vs_segments vs) of
                       Some hit \<Rightarrow> hit
                     | None \<Rightarrow> (LsNotFound, Some [], Metadata0)))))"

definition answer :: "u32 \<Rightarrow> u64 \<Rightarrow> LookupState \<times> VectorView option \<times> Metadata \<Rightarrow> status \<times> (VectorView option \<times> Metadata) option" where
  "answer ttl now l =
     (case l of (s, v, m) \<Rightarrow>
        if s = LsTombstone then (NotFound ''tombstone'', None)
        else if s = LsFound then
          (if VectorMetaExpired ttl now m then (NotFound ''vector expired'', None) else (Ok, Some (v, m)))
        else (NotFound ''vector not found'', None))"

definition rt_Get :: "ieee \<Rightarrow> (u64 \<Rightarrow> u64) \<Rightarrow> u64 \<Rightarrow> runtime \<Rightarrow> VectorId \<Rightarrow> status \<times> (VectorView option \<times> Metadata) option" where
  "rt_Get fp hash now rt i =
     (case rt_snapshot rt of
        None \<Rightarrow> (Aborted ''shard not ready'', None)
      | Some vs \<Rightarrow> answer (rt_ttl rt) now (LookupById fp hash (Some (rt_mem rt)) (Some vs) i (unat (rt_dim rt))))"

definition GetFromSnapshot :: "ieee \<Rightarrow> (u64 \<Rightarrow> u64) \<Rightarrow> u64 \<Rightarrow> runtime \<Rightarrow> snapshot option \<Rightarrow> VectorId \<Rightarrow>
    status \<times> (VectorView option \<times> Metadata) option" where
  "GetFromSnapshot fp hash now rt snap i = answer (rt_ttl rt) now (LookupById fp hash None snap i (unat (rt_dim rt)))"

definition rt_Exists :: "ieee \<Rightarrow> (u64 \<Rightarrow> u64) \<Rightarrow> u64 \<Rightarrow> runtime \<Rightarrow> VectorId \<Rightarrow> status \<times> bool" where
  "rt_Exists fp hash now rt i =
     (case rt_snapshot rt of
        None \<Rightarrow> (Aborted ''shard not ready'', False)
      | Some vs \<Rightarrow>
          (case LookupById fp hash (Some (rt_mem rt)) (Some vs) i (unat (rt_dim rt)) of (s, v, m) \<Rightarrow>
             if s \<noteq> LsFound then (Ok, False) else (Ok, \<not> VectorMetaExpired (rt_ttl rt) now m)))"

definition ExistsInSnapshot :: "ieee \<Rightarrow> (u64 \<Rightarrow> u64) \<Rightarrow> u64 \<Rightarrow> runtime \<Rightarrow> snapshot option \<Rightarrow> VectorId \<Rightarrow> status \<times> bool" where
  "ExistsInSnapshot fp hash now rt snap i =
     (case LookupById fp hash None snap i (unat (rt_dim rt)) of (s, v, m) \<Rightarrow>
        if s \<noteq> LsFound then (Ok, False) else (Ok, \<not> VectorMetaExpired (rt_ttl rt) now m))"

subsection \<open>Writes\<close>

definition FlushCoalesceBuffer :: "ieee \<Rightarrow> (u64 \<Rightarrow> u64) \<Rightarrow> aes_gcm \<Rightarrow> posix_env \<Rightarrow> runtime \<Rightarrow> status \<times> posix_env \<times> runtime" where
  "FlushCoalesceBuffer fp hash aes e rt =
     (if rt_coalesce rt = [] then (Ok, e, rt)
      else case Wal_AppendBatch aes e (rt_wal rt) (map fst (rt_coalesce rt)) (map (fst \<circ> snd) (rt_coalesce rt)) of (s, e, w) \<Rightarrow>
        let rt = rt\<lparr>rt_wal := w\<rparr> in
        if \<not> st_ok s then (s, e, rt\<lparr>rt_coalesce := []\<rparr>)
        else
          let m = foldl (\<lambda>m (i, v, meta). snd (mt_Put fp hash m i v (meta\<lparr>md_lsn := wal_seq w\<rparr>))) (rt_mem rt) (rt_coalesce rt);
              rt = rt\<lparr>rt_epoch := rt_epoch rt + 1, rt_mem := m, rt_coalesce := []\<rparr>
          in (Ok, e, if mt_GetCount m \<ge> kMemtableSoftLimit then RotateMemTable rt else rt))"

definition backpressure :: "runtime \<Rightarrow> bool" where
  "backpressure rt \<longleftrightarrow> length (rt_frozen rt) \<ge> kMaxFrozenMemtables \<and> mt_GetCount (rt_mem rt) \<ge> kMemtableSoftLimit"

text \<open>The branch of \<open>HandlePut\<close> that only buffers the write; \<open>clock\<close> is the steady clock in microseconds.\<close>

definition coalesce_put :: "ieee \<Rightarrow> (u64 \<Rightarrow> u64) \<Rightarrow> aes_gcm \<Rightarrow> u64 \<Rightarrow> posix_env \<Rightarrow> runtime \<Rightarrow> VectorId \<Rightarrow> VectorView \<Rightarrow> Metadata \<Rightarrow>
    status \<times> posix_env \<times> runtime" where
  "coalesce_put fp hash aes clock e rt i v meta =
     (let elapsed = ucast (clock - rt_coalesce_start rt) :: u32 in
      case (if rt_coalesce rt \<noteq> [] \<and> (elapsed \<ge> rt_window rt \<or> length (rt_coalesce rt) \<ge> unat (rt_batch_size rt))
            then FlushCoalesceBuffer fp hash aes e rt else (Ok, e, rt)) of (s, e, rt) \<Rightarrow>
      if \<not> st_ok s then (s, e, rt)
      else let rt = (if rt_coalesce rt = [] then rt\<lparr>rt_coalesce_start := clock\<rparr> else rt)
           in (Ok, e, rt\<lparr>rt_coalesce := rt_coalesce rt @ [(i, v, meta)]\<rparr>))"

definition HandlePut :: "ieee \<Rightarrow> (u64 \<Rightarrow> u64) \<Rightarrow> aes_gcm \<Rightarrow> u64 \<Rightarrow> posix_env \<Rightarrow> runtime \<Rightarrow> VectorId \<Rightarrow> VectorView \<Rightarrow> Metadata \<Rightarrow>
    status \<times> posix_env \<times> runtime" where
  "HandlePut fp hash aes clock e rt i v meta =
     (if \<not> rt_vector rt then (InvalidArgument ''VECTOR membrane required for Put'', e, rt)
      else if vv_dim v \<noteq> rt_dim rt then (InvalidArgument ''dim mismatch'', e, rt)
      else if backpressure rt then (ResourceExhausted ''too many frozen memtables; backpressure'', e, rt)
      else if rt_window rt > 0 then coalesce_put fp hash aes clock e rt i v meta
      else case Wal_AppendPut aes e (rt_wal rt) i v meta of (s, e, w) \<Rightarrow>
        let rt = rt\<lparr>rt_wal := w\<rparr> in
        if \<not> st_ok s then (s, e, rt)
        else let rt = rt\<lparr>rt_epoch := rt_epoch rt + 1\<rparr> in
          case mt_Put fp hash (rt_mem rt) i v (meta\<lparr>md_lsn := wal_seq w\<rparr>) of (s, m) \<Rightarrow>
          let rt = rt\<lparr>rt_mem := m\<rparr> in
          if \<not> st_ok s then (s, e, rt)
          else (Ok, e, if mt_GetCount m \<ge> kMemtableSoftLimit then RotateMemTable rt else rt))"

definition count_op :: "status \<times> posix_env \<times> runtime \<Rightarrow> status \<times> posix_env \<times> runtime" where
  "count_op r = (case r of (s, e, rt) \<Rightarrow> (s, e, if st_ok s then rt\<lparr>rt_ops := rt_ops rt + 1\<rparr> else rt))"

definition rt_Put :: "ieee \<Rightarrow> (u64 \<Rightarrow> u64) \<Rightarrow> aes_gcm \<Rightarrow> u64 \<Rightarrow> posix_env \<Rightarrow> runtime \<Rightarrow> VectorId \<Rightarrow> VectorView \<Rightarrow> Metadata \<Rightarrow>
    status \<times> posix_env \<times> runtime" where
  "rt_Put fp hash aes clock e rt i v meta =
     (if \<not> rt_vector rt then (InvalidArgument ''VECTOR membrane required for Put'', e, rt)
      else if length v \<noteq> unat (rt_dim rt) then (InvalidArgument ''dim mismatch'', e, rt)
      else if \<not> rt_started rt then (Aborted ''shard not started'', e, rt)
      else count_op (HandlePut fp hash aes clock e rt i v meta))"

definition HandleBatchPut :: "(u64 \<Rightarrow> u64) \<Rightarrow> aes_gcm \<Rightarrow> posix_env \<Rightarrow> runtime \<Rightarrow> VectorId list \<Rightarrow> VectorView list \<Rightarrow>
    status \<times> posix_env \<times> runtime" where
  "HandleBatchPut hash aes e rt ids vectors =
     (if \<not> rt_vector rt then (InvalidArgument ''VECTOR membrane required for PutBatch'', e, rt)
      else if length ids \<noteq> length vectors then (InvalidArgument ''ids and vectors size mismatch'', e, rt)
      else if backpressure rt then (ResourceExhausted ''too many frozen memtables; backpressure'', e, rt)
      else case Wal_AppendBatch aes e (rt_wal rt) ids vectors of (s, e, w) \<Rightarrow>
        let rt = rt\<lparr>rt_wal := w\<rparr> in
        if \<not> st_ok s then (s, e, rt)
        else case mt_PutBatch hash (rt_mem rt) ids vectors of (s, m) \<Rightarrow>
          let rt = rt\<lparr>rt_epoch := rt_epoch rt + 1, rt_mem := m\<rparr> in
          if \<not> st_ok s then (s, e, rt)
          else (Ok, e, if mt_GetCount m \<ge> kMemtableSoftLimit then RotateMemTable rt else rt))"

definition rt_PutBatch :: "(u64 \<Rightarrow> u64) \<Rightarrow> aes_gcm \<Rightarrow> posix_env \<Rightarrow> runtime \<Rightarrow> VectorId list \<Rightarrow> VectorView list \<Rightarrow>
    status \<times> posix_env \<times> runtime" where
  "rt_PutBatch hash aes e rt ids vectors =
     (if \<not> rt_vector rt then (InvalidArgument ''VECTOR membrane required for PutBatch'', e, rt)
      else if length ids \<noteq> length vectors then (InvalidArgument ''ids and vectors size mismatch'', e, rt)
      else if ids = [] then (Ok, e, rt)
      else if list_ex (\<lambda>v. length v \<noteq> unat (rt_dim rt)) vectors then (InvalidArgument ''dim mismatch'', e, rt)
      else if \<not> rt_started rt then (Aborted ''shard not started'', e, rt)
      else count_op (HandleBatchPut hash aes e rt ids vectors))"

definition HandleDel :: "ieee \<Rightarrow> (u64 \<Rightarrow> u64) \<Rightarrow> aes_gcm \<Rightarrow> posix_env \<Rightarrow> runtime \<Rightarrow> VectorId \<Rightarrow> status \<times> posix_env \<times> runtime" where
  "HandleDel fp hash aes e rt i =
     (case Wal_AppendDelete aes e (rt_wal rt) i of (s, e, w) \<Rightarrow>
      let rt = rt\<lparr>rt_wal := w\<rparr> in
      if \<not> st_ok s then (s, e, rt)
      else case mt_Delete fp hash (rt_mem rt) i of (s, m) \<Rightarrow>
        let rt = rt\<lparr>rt_epoch := rt_epoch rt + 1, rt_mem := m\<rparr> in if \<not> st_ok s then (s, e, rt) else (Ok, e, rt))"

definition rt_Delete :: "ieee \<Rightarrow> (u64 \<Rightarrow> u64) \<Rightarrow> aes_gcm \<Rightarrow> posix_env \<Rightarrow> runtime \<Rightarrow> VectorId \<Rightarrow> status \<times> posix_env \<times> runtime" where
  "rt_Delete fp hash aes e rt i =
     (if \<not> rt_started rt then (Aborted ''shard not started'', e, rt) else count_op (HandleDel fp hash aes e rt i))"

definition flush_pending :: "ieee \<Rightarrow> (u64 \<Rightarrow> u64) \<Rightarrow> aes_gcm \<Rightarrow> (posix_env \<Rightarrow> wal \<Rightarrow> status \<times> posix_env \<times> wal) \<Rightarrow> posix_env \<Rightarrow> runtime \<Rightarrow>
    status \<times> posix_env \<times> runtime" where
  "flush_pending fp hash aes mark e rt =
     (case (if rt_coalesce rt \<noteq> [] then FlushCoalesceBuffer fp hash aes e rt else (Ok, e, rt)) of (s, e, rt) \<Rightarrow>
      if \<not> st_ok s then (s, e, rt) else case mark e (rt_wal rt) of (s, e, w) \<Rightarrow> (s, e, rt\<lparr>rt_wal := w\<rparr>))"

definition rt_BeginBatch :: "ieee \<Rightarrow> (u64 \<Rightarrow> u64) \<Rightarrow> aes_gcm \<Rightarrow> posix_env \<Rightarrow> runtime \<Rightarrow> status \<times> posix_env \<times> runtime" where
  "rt_BeginBatch fp hash aes = flush_pending fp hash aes (Wal_BeginBatch aes)"

definition rt_EndBatch :: "ieee \<Rightarrow> (u64 \<Rightarrow> u64) \<Rightarrow> aes_gcm \<Rightarrow> posix_env \<Rightarrow> runtime \<Rightarrow> status \<times> posix_env \<times> runtime" where
  "rt_EndBatch fp hash aes = flush_pending fp hash aes (Wal_EndBatch aes)"

definition rt_Flush :: "posix_env \<Rightarrow> runtime \<Rightarrow> status \<times> posix_env" where
  "rt_Flush e rt = (if \<not> rt_started rt then (Aborted ''shard not started'', e) else Wal_Flush e (rt_wal rt))"

subsection \<open>Newest version wins\<close>

text \<open>What a layer holds: for each id nothing, a tombstone, or a vector with its metadata; and the
  answer of a lookup for each of the three.\<close>

type_synonym versions = "VectorId \<rightharpoonup> (VectorView option \<times> Metadata) option"

fun reply :: "(VectorView option \<times> Metadata) option option \<Rightarrow> LookupState \<times> VectorView option \<times> Metadata" where
  "reply None = (LsNotFound, Some [], Metadata0)"
| "reply (Some None) = (LsTombstone, Some [], Metadata0)"
| "reply (Some (Some (v, m))) = (LsFound, v, m)"

definition layered :: "('l \<Rightarrow> versions) \<Rightarrow> 'l list \<Rightarrow> versions" where
  "layered vs ls = foldr (\<lambda>l m. m ++ vs l) ls Map.empty"

definition mem_versions :: "ieee \<Rightarrow> memtable \<Rightarrow> versions" where
  "mem_versions fp mt i = map_option (map_option (map_prod id (case_option Metadata0 id))) (mt_view fp mt i)"

definition seg_versions :: "ieee \<Rightarrow> seg_reader \<Rightarrow> versions" where
  "seg_versions fp r =
     map_of (map (\<lambda>(i, v, deleted, m). (i, if deleted then None else Some (v, case_option Metadata0 id m))) (sr_ForEach fp r))"

text \<open>The layers a runtime has: unquantised memtables of its dimension, and readers of complete, unquantised segment
  files.\<close>

definition mem_ok :: "(u64 \<Rightarrow> u64) \<Rightarrow> u32 \<Rightarrow> memtable \<Rightarrow> bool" where
  "mem_ok hash dim mt \<longleftrightarrow> mt_inv hash mt \<and> \<not> mt_quant mt \<and> mt_dim mt = dim"

definition seg_holds :: "ieee \<Rightarrow> u32 \<Rightarrow> seg_reader \<Rightarrow> seg_entry list \<Rightarrow> bool" where
  "seg_holds fp dim r es \<longleftrightarrow> sorted (map sn_id es) \<and> distinct (map sn_id es) \<and>
     (\<exists>tsrt padding q. laid_out fp tsrt padding qNone dim q es \<and> r = seg_opened fp (sr_path r) tsrt padding qNone dim q es)"

definition seg_ok :: "ieee \<Rightarrow> u32 \<Rightarrow> seg_reader \<Rightarrow> bool" where
  "seg_ok fp dim r \<longleftrightarrow> (\<exists>es. seg_holds fp dim r es)"

text \<open>A layer answers a probe by what it holds; then a search through a list of layers, newest first, answers
  by the newest version.\<close>

locale layer =
  fixes probe :: "'l \<Rightarrow> VectorId \<Rightarrow> LookupState \<times> VectorView option \<times> Metadata"
    and holds :: "'l \<Rightarrow> versions"
    and ok :: "'l \<Rightarrow> bool"
  assumes probe_reply: "ok l \<Longrightarrow> i \<noteq> sentinel \<Longrightarrow> probe l i = reply (holds l i)"
begin

lemma first_hit_layered:
  assumes "list_all ok ls" "i \<noteq> sentinel"
  shows "first_hit (\<lambda>l. probe l i) ls = map_option (\<lambda>v. reply (Some v)) (layered holds ls i)"
  using assms(1)
proof (induction ls)
  case (Cons l ls)
  have p: "probe l i = reply (holds l i)" using Cons.prems assms(2) by (simp add: probe_reply)
  show ?case
  proof (cases "holds l i")
    case None
    then show ?thesis using Cons p by (simp add: layered_def map_add_def)
  next
    case (Some v)
    then have "fst (probe l i) \<noteq> LsNotFound" "probe l i = reply (Some v)" using p by (cases v; auto)+
    then show ?thesis using Some by (auto simp: layered_def split: prod.splits)
  qed
qed (simp add: layered_def)

end

lemma layered_simps [simp]:
  "layered vs [] = Map.empty" "layered vs (l # ls) = layered vs ls ++ vs l"
  by (simp_all add: layered_def)

lemma layered_append: "layered vs (a @ b) = layered vs b ++ layered vs a"
  by (induction a) simp_all

lemma probe_memtable_reply:
  assumes "mem_ok hash dim mt" "i \<noteq> sentinel"
  shows "probe_memtable hash mt i (unat dim) = reply (mem_versions fp mt i)"
proof -
  have inv: "mt_inv hash mt" "\<not> mt_quant mt" "mt_dim mt = dim" using assms(1) by (simp_all add: mem_ok_def)
  have f: "fh_Find hash (mt_map mt) i = flat_map (mt_map mt) i" by (rule fh_Find_map [OF mt_inv_flat [OF inv(1)] assms(2)])
  show ?thesis
    using inv(2,3)
    by (cases "flat_map (mt_map mt) i"; cases "the (flat_map (mt_map mt) i)"; cases "mt_meta mt i")
      (simp_all add: probe_memtable_def mt_IsTombstone_def mt_Get_def f mem_versions_def mt_view_def entry_vec_def)
qed

interpretation mem_layer: layer "\<lambda>mt i. probe_memtable hash mt i (unat dim)" "mem_versions fp" "mem_ok hash dim" for hash dim fp
  by unfold_locales (rule probe_memtable_reply)

definition entry_version :: "seg_entry \<Rightarrow> (VectorView option \<times> Metadata) option" where
  "entry_version e = (if sn_deleted e then None else Some (Some (sn_vec e), sn_meta e))"

lemma seg_holds_unfold:
  assumes "seg_holds fp dim r es"
  obtains tsrt padding q where "laid_out fp tsrt padding qNone dim q es" "r = seg_opened fp (sr_path r) tsrt padding qNone dim q es"
    "sorted (map sn_id es)" "distinct (map sn_id es)"
  using assms unfolding seg_holds_def by blast

lemma vec_length:
  assumes "laid_out fp tsrt padding quant dim q es" "e \<in> set es" "\<not> sn_deleted e"
  shows "length (sn_vec e) = unat dim"
  using assms by (simp add: laid_out_def well_formed_def good_entries_def)

lemma for_each_opened:
  assumes L: "laid_out fp tsrt padding qNone dim q es" and i: "i < length es"
    and r_def: "r = seg_opened fp path tsrt padding qNone dim q es"
  shows "for_each_entry fp r i =
    (sn_id (es ! i), Some (if sn_deleted (es ! i) then [] else sn_vec (es ! i)), sn_deleted (es ! i), Some (sn_meta (es ! i)))"
proof -
  note N = seg_opened_numbers [OF L r_def refl]
  have E: "entry_at r i = 128 + i * entry_size_of qNone (unat dim)" unfolding entry_at_def N by simp
  note F = entry_fields [OF L i]
  have d: "deleted_at r i = sn_deleted (es ! i)" unfolding deleted_at_def E N by (rule F(2))
  have m: "meta_at r i = Some (sn_meta (es ! i))" unfolding r_def by (rule GetMetadata_opened(1) [OF L i])
  have v: "floats_at r (entry_at r i + 12) = sn_vec (es ! i)" if live: "\<not> sn_deleted (es ! i)"
  proof -
    have len: "length (sn_vec (es ! i)) = unat dim" using vec_length [OF L _ live] i by simp
    obtain rest where "drop (entry_at r i + 12) (sr_data r) = float_bytes (sn_vec (es ! i)) @ rest"
      using F(3) live unfolding E N by (auto simp: vector_code_def)
    then show ?thesis using bytes_floats_float_bytes [of "sn_vec (es ! i)" rest] len by (simp add: floats_at_def N)
  qed
  have id: "rd64 (entry_at r i) (sr_data r) = sn_id (es ! i)" unfolding E N by (rule F(1))
  show ?thesis
    using v N(6) by (simp add: for_each_entry_def Let_def d m id N(11) word_neq_0_conv)
qed

lemma seg_versions_opened:
  assumes "seg_holds fp dim r es"
  shows "seg_versions fp r i = map_option entry_version (seg_view es i)"
proof -
  obtain tsrt padding q where L: "laid_out fp tsrt padding qNone dim q es" and r: "r = seg_opened fp (sr_path r) tsrt padding qNone dim q es"
    using assms by (rule seg_holds_unfold)
  have n: "unat (sr_count r) = length es" using seg_opened_numbers(1) [OF L r refl] .
  have f: "for_each_entry fp r j = (sn_id (es ! j), Some (if sn_deleted (es ! j) then [] else sn_vec (es ! j)), sn_deleted (es ! j), Some (sn_meta (es ! j)))"
    if "j < length es" for j
    by (rule for_each_opened [OF L that r])
  have m: "map g (sr_ForEach fp r) = map (\<lambda>e. g (sn_id e, Some (if sn_deleted e then [] else sn_vec e), sn_deleted e, Some (sn_meta e))) es"
    for g :: "_ \<Rightarrow> VectorId \<times> (VectorView option \<times> Metadata) option"
    by (rule nth_equalityI) (simp_all add: sr_ForEach_def n f)
  show ?thesis
    unfolding seg_versions_def m
    by (induction es) (auto simp: seg_view_def entry_version_def)
qed

lemma probe_segment_reply:
  assumes "seg_ok fp dim r"
  shows "probe_segment fp r i (unat dim) = reply (seg_versions fp r i)"
proof -
  obtain es where es: "seg_holds fp dim r es" using assms by (auto simp: seg_ok_def)
  then obtain tsrt padding q where L: "laid_out fp tsrt padding qNone dim q es" and r: "r = seg_opened fp (sr_path r) tsrt padding qNone dim q es"
    and s: "sorted (map sn_id es)" "distinct (map sn_id es)" by (rule seg_holds_unfold)
  have G: "sr_Get r i out = get_entry fp qNone (unat dim) q out (seg_view es i)" for out
    using sr_Get_opened [OF L s, of "sr_path r" i out] by (simp only: r [symmetric])
  have q: "sr_quant_type r = quant_code qNone" using seg_opened_numbers(11) [OF L r refl] .
  show ?thesis
  proof (cases "seg_view es i")
    case None
    have "NotFound ''id not found in segment'' \<noteq> NotFound ''tombstone''" by (simp add: NotFound_def)
    then show ?thesis using None by (simp add: probe_segment_def G get_entry_def seg_versions_opened [OF es])
  next
    case (Some e)
    then have "e \<in> set es" using seg_view_Some [OF s(2)] by simp
    then have "\<not> sn_deleted e \<Longrightarrow> bytes_floats (unat dim) (float_bytes (sn_vec e)) = sn_vec e"
      using vec_length [OF L, of e] bytes_floats_float_bytes [of "sn_vec e" "[]"] by simp
    then show ?thesis
      using Some q by (auto simp: probe_segment_def G get_entry_def seg_versions_opened [OF es] entry_version_def vector_code_def)
  qed
qed

interpretation seg_layer: layer "\<lambda>r i. probe_segment fp r i (unat dim)" "seg_versions fp" "seg_ok fp dim" for fp dim
  by unfold_locales (rule probe_segment_reply)

subsection \<open>The state as one map\<close>

definition stack :: "ieee \<Rightarrow> memtable list \<Rightarrow> seg_reader list \<Rightarrow> versions" where
  "stack fp frozen segs = layered (seg_versions fp) segs ++ layered (mem_versions fp) (rev frozen)"

definition rt_versions :: "ieee \<Rightarrow> runtime \<Rightarrow> versions" where
  "rt_versions fp rt =
     (case rt_snapshot rt of None \<Rightarrow> Map.empty | Some vs \<Rightarrow> stack fp (vs_frozen vs) (vs_segments vs)) ++ mem_versions fp (rt_mem rt)"

text \<open>The entries that are neither deleted nor older than the time to live.\<close>

definition live :: "u32 \<Rightarrow> u64 \<Rightarrow> versions \<Rightarrow> VectorId \<rightharpoonup> VectorView option \<times> Metadata" where
  "live ttl now vs i =
     (case vs i of Some (Some (v, m)) \<Rightarrow> if VectorMetaExpired ttl now m then None else Some (v, m) | _ \<Rightarrow> None)"

definition layers_ok :: "ieee \<Rightarrow> (u64 \<Rightarrow> u64) \<Rightarrow> u32 \<Rightarrow> memtable list \<Rightarrow> seg_reader list \<Rightarrow> bool" where
  "layers_ok fp hash dim frozen segs \<longleftrightarrow> list_all (mem_ok hash dim) frozen \<and> list_all (seg_ok fp dim) segs"

text \<open>The published snapshot may lag behind the lists of the runtime, but it holds the same versions.\<close>

definition rt_inv :: "ieee \<Rightarrow> (u64 \<Rightarrow> u64) \<Rightarrow> runtime \<Rightarrow> bool" where
  "rt_inv fp hash rt \<longleftrightarrow>
     mem_ok hash (rt_dim rt) (rt_mem rt) \<and> layers_ok fp hash (rt_dim rt) (rt_frozen rt) (rt_segments rt) \<and>
     \<not> rt_quantize_inmem rt \<and> 4 * unat (rt_dim rt) \<le> 2 ^ 20 \<and>
     (\<exists>vs. rt_snapshot rt = Some vs \<and> layers_ok fp hash (rt_dim rt) (vs_frozen vs) (vs_segments vs) \<and>
        stack fp (vs_frozen vs) (vs_segments vs) = stack fp (rt_frozen rt) (rt_segments rt))"

lemma stack_snoc: "stack fp (frozen @ [mt]) segs = stack fp frozen segs ++ mem_versions fp mt"
  by (simp add: stack_def layered_append)

lemma LookupById_newest:
  assumes "rt_inv fp hash rt" "i \<noteq> sentinel" "rt_snapshot rt = Some vs"
  shows "LookupById fp hash (Some (rt_mem rt)) (Some vs) i (unat (rt_dim rt)) = reply (rt_versions fp rt i)"
proof -
  have ok: "list_all (mem_ok hash (rt_dim rt)) [rt_mem rt]" "list_all (mem_ok hash (rt_dim rt)) (rev (vs_frozen vs))"
    "list_all (seg_ok fp (rt_dim rt)) (vs_segments vs)"
    using assms(1,3) by (auto simp: rt_inv_def layers_ok_def list_all_iff)
  show ?thesis
    unfolding LookupById_def option.case
      mem_layer.first_hit_layered [OF ok(1) assms(2), where fp = fp] mem_layer.first_hit_layered [OF ok(2) assms(2), where fp = fp]
      seg_layer.first_hit_layered [OF ok(3) assms(2)]
    by (simp add: rt_versions_def assms(3) stack_def map_add_def split: option.split)
qed

lemma answer_live:
  "snd (answer ttl now (reply (vs i))) = live ttl now vs i" "st_ok (fst (answer ttl now (reply (vs i)))) \<longleftrightarrow> live ttl now vs i \<noteq> None"
  by (cases "vs i" rule: reply.cases; simp add: answer_def live_def)+

subsection \<open>Writes update the map\<close>

lemma PublishSnapshot_inv:
  assumes "mem_ok hash (rt_dim rt) (rt_mem rt)" "layers_ok fp hash (rt_dim rt) (rt_frozen rt) (rt_segments rt)"
    "\<not> rt_quantize_inmem rt" "4 * unat (rt_dim rt) \<le> 2 ^ 20"
  shows "rt_inv fp hash (PublishSnapshot rt)"
    "rt_versions fp (PublishSnapshot rt) = stack fp (rt_frozen rt) (rt_segments rt) ++ mem_versions fp (rt_mem rt)"
  using assms by (simp_all add: rt_inv_def PublishSnapshot_def rt_versions_def)

lemma mem_new:
  assumes "4 * unat dim \<le> 2 ^ 20"
  shows "mem_ok hash dim (MemTable_new dim (2 ^ 20) False)" "mem_versions fp (MemTable_new dim (2 ^ 20) False) = Map.empty"
  using mt_new_inv(1) [of "2 ^ 20" False dim hash] mt_new_inv(2) [of "2 ^ 20" False dim fp] assms
  by (simp_all add: mem_ok_def mem_versions_def fun_eq_iff MemTable_new_def)

lemma RotateMemTable_inv:
  assumes "rt_inv fp hash rt"
  shows "rt_inv fp hash (RotateMemTable rt)" "rt_versions fp (RotateMemTable rt) = rt_versions fp rt"
proof -
  let ?r = "rt\<lparr>rt_frozen := rt_frozen rt @ [rt_mem rt], rt_mem := MemTable_new (rt_dim rt) (2 ^ 20) (rt_quantize_inmem rt)\<rparr>"
  have "mem_ok hash (rt_dim ?r) (rt_mem ?r)" "layers_ok fp hash (rt_dim ?r) (rt_frozen ?r) (rt_segments ?r)"
    "\<not> rt_quantize_inmem ?r" "4 * unat (rt_dim ?r) \<le> 2 ^ 20" "mem_versions fp (rt_mem ?r) = Map.empty"
    using assms mem_new [of "rt_dim rt"] by (auto simp: rt_inv_def layers_ok_def)
  note P = PublishSnapshot_inv [OF this(1-4)] this(5)
  have V: "rt_versions fp rt = stack fp (rt_frozen rt) (rt_segments rt) ++ mem_versions fp (rt_mem rt)"
    using assms by (auto simp: rt_inv_def rt_versions_def)
  show "rt_inv fp hash (RotateMemTable rt)" using assms P(1) by (simp add: RotateMemTable_def)
  show "rt_versions fp (RotateMemTable rt) = rt_versions fp rt"
    using P(2,3) V by (auto simp: RotateMemTable_def stack_snoc)
qed

lemma rt_inv_mem:
  assumes "rt_inv fp hash rt" "mem_ok hash (rt_dim rt) mt"
  shows "rt_inv fp hash (rt\<lparr>rt_mem := mt\<rparr>)"
    "mem_versions fp mt = mem_versions fp (rt_mem rt) \<Longrightarrow> rt_versions fp (rt\<lparr>rt_mem := mt\<rparr>) = rt_versions fp rt"
    "mem_versions fp mt = (mem_versions fp (rt_mem rt))(i \<mapsto> x) \<Longrightarrow> rt_versions fp (rt\<lparr>rt_mem := mt\<rparr>) = (rt_versions fp rt)(i \<mapsto> x)"
  using assms by (auto simp: rt_inv_def rt_versions_def)

lemma rt_inv_other [simp]:
  "rt_inv fp hash (rt\<lparr>rt_wal := w\<rparr>) = rt_inv fp hash rt" "rt_versions fp (rt\<lparr>rt_wal := w\<rparr>) = rt_versions fp rt"
  "rt_inv fp hash (rt\<lparr>rt_epoch := n\<rparr>) = rt_inv fp hash rt" "rt_versions fp (rt\<lparr>rt_epoch := n\<rparr>) = rt_versions fp rt"
  "rt_inv fp hash (rt\<lparr>rt_ops := n\<rparr>) = rt_inv fp hash rt" "rt_versions fp (rt\<lparr>rt_ops := n\<rparr>) = rt_versions fp rt"
  by (simp_all add: rt_inv_def rt_versions_def)

definition kept_meta :: "u64 \<Rightarrow> Metadata \<Rightarrow> Metadata" where
  "kept_meta q m = (if has_meta m then m\<lparr>md_lsn := q\<rparr> else Metadata0)"

lemma mem_Put:
  assumes "mem_ok hash dim mt" "i \<noteq> sentinel" "length v = unat dim" "mt_Put fp hash mt i v (m\<lparr>md_lsn := q\<rparr>) = (s, mt')"
  shows "s = Ok" "mem_ok hash dim mt'" "mem_versions fp mt' = (mem_versions fp mt)(i \<mapsto> Some (Some v, kept_meta q m))"
proof -
  have inv: "mt_inv hash mt" "length v = unat (mt_dim mt)" "\<not> mt_quant mt" "mt_dim mt = dim"
    using assms(1,3) by (simp_all add: mem_ok_def)
  note P = mt_Put_correct [OF inv(1) assms(2) inv(2) assms(4)]
  show "s = Ok" "mem_ok hash dim mt'" using P inv by (simp_all add: mem_ok_def)
  show "mem_versions fp mt' = (mem_versions fp mt)(i \<mapsto> Some (Some v, kept_meta q m))"
    unfolding mem_versions_def P(3) using inv(3) by (auto simp: fun_eq_iff stored_vec_def kept_meta_def has_meta_def)
qed

lemma mem_Delete:
  assumes "mem_ok hash dim mt" "i \<noteq> sentinel" "mt_Delete fp hash mt i = (s, mt')"
  shows "s = Ok" "mem_ok hash dim mt'" "mem_versions fp mt' = (mem_versions fp mt)(i \<mapsto> None)"
proof -
  have inv: "mt_inv hash mt" "\<not> mt_quant mt" "mt_dim mt = dim" using assms(1) by (simp_all add: mem_ok_def)
  note P = mt_Delete_correct [OF inv(1) assms(2,3)]
  show "s = Ok" "mem_ok hash dim mt'" using P inv by (simp_all add: mem_ok_def)
  show "mem_versions fp mt' = (mem_versions fp mt)(i \<mapsto> None)" unfolding mem_versions_def P(3) by (simp add: fun_eq_iff)
qed

text \<open>The write operations and what they should do to the map; \<open>q\<close> is the sequence number of the log record.\<close>

datatype rt_op = RtPut VectorId VectorView Metadata | RtDelete VectorId

fun rt_do :: "ieee \<Rightarrow> (u64 \<Rightarrow> u64) \<Rightarrow> aes_gcm \<Rightarrow> u64 \<Rightarrow> posix_env \<Rightarrow> runtime \<Rightarrow> rt_op \<Rightarrow> status \<times> posix_env \<times> runtime" where
  "rt_do fp hash aes clock e rt (RtPut i v m) = rt_Put fp hash aes clock e rt i v m"
| "rt_do fp hash aes clock e rt (RtDelete i) = rt_Delete fp hash aes e rt i"

fun op_id :: "rt_op \<Rightarrow> VectorId" where
  "op_id (RtPut i v m) = i"
| "op_id (RtDelete i) = i"

fun op_effect :: "u64 \<Rightarrow> rt_op \<Rightarrow> versions \<Rightarrow> versions" where
  "op_effect q (RtPut i v m) vs = vs(i \<mapsto> Some (Some v, kept_meta q m))"
| "op_effect q (RtDelete i) vs = vs(i \<mapsto> None)"

lemma rt_do_refines:
  assumes inv: "rt_inv fp hash rt" and i: "op_id x \<noteq> sentinel" and w: "rt_window rt = 0"
    and r: "rt_do fp hash aes clock e rt x = (s, e', rt')"
  shows "rt_inv fp hash rt' \<and> rt_window rt' = 0 \<and>
    rt_versions fp rt' = (if st_ok s then op_effect (wal_seq (rt_wal rt')) x (rt_versions fp rt) else rt_versions fp rt)"
proof -
  have mem: "mem_ok hash (rt_dim rt) (rt_mem rt)" using inv by (simp add: rt_inv_def)
  have ro: "rt_window (RotateMemTable r) = rt_window r" "rt_wal (RotateMemTable r) = rt_wal r" for r
    by (simp_all add: RotateMemTable_def PublishSnapshot_def)
  show ?thesis
  proof (cases x)
    case (RtDelete j)
    obtain s1 e1 w1 where a: "Wal_AppendDelete aes e (rt_wal rt) j = (s1, e1, w1)" by (cases "Wal_AppendDelete aes e (rt_wal rt) j")
    obtain s2 m2 where d: "mt_Delete fp hash (rt_mem rt) j = (s2, m2)" by (cases "mt_Delete fp hash (rt_mem rt) j")
    have j: "j \<noteq> sentinel" using i RtDelete by simp
    note D = mem_Delete [OF mem j d] and I = rt_inv_mem [OF inv, of m2]
    let ?r = "rt\<lparr>rt_wal := w1, rt_epoch := rt_epoch rt + 1, rt_mem := m2\<rparr>"
    have "rt_inv fp hash ?r" "rt_versions fp ?r = op_effect (wal_seq w1) x (rt_versions fp rt)"
      using I(1) [OF D(2)] I(3) [OF D(2) D(3)] RtDelete by (simp_all add: rt_inv_def rt_versions_def)
    then show ?thesis
      using r RtDelete a d D(1) inv w
      by (auto simp: rt_Delete_def HandleDel_def count_op_def Let_def split: if_splits)
  next
    case (RtPut j v m)
    obtain s1 e1 w1 where a: "Wal_AppendPut aes e (rt_wal rt) j v m = (s1, e1, w1)" by (cases "Wal_AppendPut aes e (rt_wal rt) j v m")
    obtain s2 m2 where d: "mt_Put fp hash (rt_mem rt) j v (m\<lparr>md_lsn := wal_seq w1\<rparr>) = (s2, m2)"
      by (cases "mt_Put fp hash (rt_mem rt) j v (m\<lparr>md_lsn := wal_seq w1\<rparr>)")
    show ?thesis
    proof (cases "length v = unat (rt_dim rt)")
      case True
      let ?r = "rt\<lparr>rt_wal := w1, rt_epoch := rt_epoch rt + 1, rt_mem := m2\<rparr>"
      have j: "j \<noteq> sentinel" using i RtPut by simp
      note D = mem_Put [OF mem j True d] and I = rt_inv_mem [OF inv, of m2]
      have R: "rt_inv fp hash ?r" "rt_versions fp ?r = op_effect (wal_seq w1) x (rt_versions fp rt)"
        using I(1) [OF D(2)] I(3) [OF D(2) D(3)] RtPut by (simp_all add: rt_inv_def rt_versions_def)
      note Ro = RotateMemTable_inv [OF R(1)]
      show ?thesis
        using r RtPut a d D(1) R Ro inv w ro
        by (auto simp: rt_Put_def HandlePut_def count_op_def Let_def split: if_splits)
    next
      case False
      then show ?thesis using r RtPut inv w by (auto simp: rt_Put_def split: if_splits)
    qed
  qed
qed

subsection \<open>Writes and the log\<close>

fun op_rec :: "rt_op \<Rightarrow> lrec" where
  "op_rec (RtPut i v m) = LPut i v m"
| "op_rec (RtDelete i) = LDel i"

text \<open>The checks a write passes before it reaches the log.\<close>

fun accepts :: "runtime \<Rightarrow> rt_op \<Rightarrow> bool" where
  "accepts rt (RtPut i v m) \<longleftrightarrow> rt_vector rt \<and> rt_started rt \<and> length v = unat (rt_dim rt) \<and> \<not> backpressure rt"
| "accepts rt (RtDelete i) \<longleftrightarrow> rt_started rt"

lemma rotated_fields [simp]:
  "rt_wal (RotateMemTable rt) = rt_wal rt" "rt_vector (RotateMemTable rt) = rt_vector rt" "rt_started (RotateMemTable rt) = rt_started rt"
  "rt_window (RotateMemTable rt) = rt_window rt" "rt_dir (RotateMemTable rt) = rt_dir rt" "rt_dim (RotateMemTable rt) = rt_dim rt"
  "rt_ttl (RotateMemTable rt) = rt_ttl rt" "rt_segments (RotateMemTable rt) = rt_segments rt" "rt_quant (RotateMemTable rt) = rt_quant rt"
  "rt_epoch (RotateMemTable rt) = rt_epoch rt" "rt_coalesce (RotateMemTable rt) = rt_coalesce rt"
  by (simp_all add: RotateMemTable_def PublishSnapshot_def)

definition rt_cfg :: "runtime \<Rightarrow> string \<times> u32 \<times> bool \<times> bool \<times> SegmentQuant \<times> u32 \<times> u32" where
  "rt_cfg rt = (rt_dir rt, rt_dim rt, rt_vector rt, rt_started rt, rt_quant rt, rt_ttl rt, rt_window rt)"

lemma rt_do_log:
  assumes inv: "rt_inv fp hash rt" and i: "op_id x \<noteq> sentinel" and w: "rt_window rt = 0"
    and log: "log_holds aes e (rt_wal rt) rs" "aes_law aes" "key_ok (rt_wal rt)" "loggable (op_rec x)"
    and r: "rt_do fp hash aes clock e rt x = (s, e', rt')"
  shows "rt_cfg rt' = rt_cfg rt \<and> wal_cfg (rt_wal rt') = wal_cfg (rt_wal rt) \<and> rt_segments rt' = rt_segments rt \<and>
    (accepts rt x \<longrightarrow> s = Ok \<and> append_rec aes e (rt_wal rt) (op_rec x) = (Ok, e', rt_wal rt') \<and> wal_seq (rt_wal rt') = wal_seq (rt_wal rt) + 1 \<and>
       log_holds aes e' (rt_wal rt') (rs @ [(wal_seq (rt_wal rt) + 1, op_rec x)])) \<and>
    (\<not> accepts rt x \<longrightarrow> \<not> st_ok s \<and> rt' = rt \<and> e' = e)"
proof -
  have mem: "mem_ok hash (rt_dim rt) (rt_mem rt)" using inv by (simp add: rt_inv_def)
  obtain s1 e1 w1 where a: "append_rec aes e (rt_wal rt) (op_rec x) = (s1, e1, w1)" by (cases "append_rec aes e (rt_wal rt) (op_rec x)")
  note A = append_rec_log [OF log a]
  show ?thesis
  proof (cases x)
    case (RtDelete j)
    obtain s2 m2 where d: "mt_Delete fp hash (rt_mem rt) j = (s2, m2)" by (cases "mt_Delete fp hash (rt_mem rt) j")
    have "s2 = Ok" using mem_Delete(1) [OF mem _ d] i RtDelete by simp
    then show ?thesis
      using r RtDelete a A d by (auto simp: rt_cfg_def rt_Delete_def HandleDel_def count_op_def Let_def split: if_splits)
  next
    case (RtPut j v m)
    obtain s2 m2 where d: "mt_Put fp hash (rt_mem rt) j v (m\<lparr>md_lsn := wal_seq w1\<rparr>) = (s2, m2)"
      by (cases "mt_Put fp hash (rt_mem rt) j v (m\<lparr>md_lsn := wal_seq w1\<rparr>)")
    have "length v = unat (rt_dim rt) \<Longrightarrow> s2 = Ok" using mem_Put(1) [OF mem _ _ d] i RtPut by simp
    then show ?thesis
      using r RtPut a A d w
      by (auto simp: rt_cfg_def rt_Put_def HandlePut_def count_op_def Let_def vv_dim_def split: if_splits)
  qed
qed

subsection \<open>Correctness of reads and writes\<close>

fun rt_run :: "ieee \<Rightarrow> (u64 \<Rightarrow> u64) \<Rightarrow> aes_gcm \<Rightarrow> u64 \<Rightarrow> posix_env \<Rightarrow> runtime \<Rightarrow> rt_op list \<Rightarrow> (status \<times> u64) list \<times> posix_env \<times> runtime" where
  "rt_run fp hash aes clock e rt [] = ([], e, rt)"
| "rt_run fp hash aes clock e rt (x # xs) =
     (case rt_do fp hash aes clock e rt x of (s, e, rt) \<Rightarrow>
      case rt_run fp hash aes clock e rt xs of (rs, e', rt') \<Rightarrow> ((s, wal_seq (rt_wal rt)) # rs, e', rt'))"

definition applied :: "rt_op list \<Rightarrow> (status \<times> u64) list \<Rightarrow> versions \<Rightarrow> versions" where
  "applied xs rs vs = fold (\<lambda>(x, s, q) vs. if st_ok s then op_effect q x vs else vs) (zip xs rs) vs"

lemma rt_run_refines:
  assumes "rt_inv fp hash rt" "\<forall>x\<in>set xs. op_id x \<noteq> sentinel" "rt_window rt = 0" "rt_run fp hash aes clock e rt xs = (rs, e', rt')"
  shows "rt_inv fp hash rt' \<and> rt_versions fp rt' = applied xs rs (rt_versions fp rt)"
  using assms
proof (induction xs arbitrary: e rt rs)
  case (Cons x xs)
  obtain s e1 rt1 where d: "rt_do fp hash aes clock e rt x = (s, e1, rt1)" by (cases "rt_do fp hash aes clock e rt x")
  obtain rs1 where r: "rt_run fp hash aes clock e1 rt1 xs = (rs1, e', rt')" "rs = (s, wal_seq (rt_wal rt1)) # rs1"
    using Cons.prems(4) d by (auto split: prod.splits)
  have D: "rt_inv fp hash rt1 \<and> rt_window rt1 = 0 \<and>
      rt_versions fp rt1 = (if st_ok s then op_effect (wal_seq (rt_wal rt1)) x (rt_versions fp rt) else rt_versions fp rt)"
    using rt_do_refines [OF Cons.prems(1) _ Cons.prems(3) d] Cons.prems(2) by simp
  then show ?case using Cons.IH [OF _ _ _ r(1)] Cons.prems(2) r(2) by (simp add: applied_def)
qed (simp add: applied_def)

lemma rt_Get_live:
  assumes "rt_inv fp hash rt" "i \<noteq> sentinel"
  shows "snd (rt_Get fp hash now rt i) = live (rt_ttl rt) now (rt_versions fp rt) i"
    "st_ok (fst (rt_Get fp hash now rt i)) \<longleftrightarrow> live (rt_ttl rt) now (rt_versions fp rt) i \<noteq> None"
    "rt_Exists fp hash now rt i = (Ok, live (rt_ttl rt) now (rt_versions fp rt) i \<noteq> None)"
proof -
  obtain vs where vs: "rt_snapshot rt = Some vs" using assms(1) by (auto simp: rt_inv_def)
  note L = LookupById_newest [OF assms vs]
  show "snd (rt_Get fp hash now rt i) = live (rt_ttl rt) now (rt_versions fp rt) i"
    "st_ok (fst (rt_Get fp hash now rt i)) \<longleftrightarrow> live (rt_ttl rt) now (rt_versions fp rt) i \<noteq> None"
    by (simp_all add: rt_Get_def vs L answer_live)
  show "rt_Exists fp hash now rt i = (Ok, live (rt_ttl rt) now (rt_versions fp rt) i \<noteq> None)"
    by (cases "rt_versions fp rt i" rule: reply.cases) (simp_all add: rt_Exists_def vs L live_def)
qed

text \<open>C3: Reads return the newest version, on a runtime without a coalescing window whose memtables and segments are not quantised. Run any
  sequence of \<open>Put\<close>s and \<open>Delete\<close>s on it, for ids other than the reserved one and vectors that fit a block of the arena, with whatever system calls fail and through any rotations of memtables: the map of versions the
  runtime stands for has exactly the writes that reported \<open>Ok\<close> applied, in their order, and \<open>Get\<close> and \<open>Exists\<close> answer from that map,
  leaving out what is deleted or past its time to live.\<close>

theorem Runtime_refines:
  assumes "rt_inv fp hash rt" "\<forall>x\<in>set xs. op_id x \<noteq> sentinel" "rt_window rt = 0" "rt_run fp hash aes clock e rt xs = (rs, e', rt')"
  shows "rt_inv fp hash rt' \<and> rt_versions fp rt' = applied xs rs (rt_versions fp rt) \<and>
    (\<forall>now i. i \<noteq> sentinel \<longrightarrow>
       snd (rt_Get fp hash now rt' i) = live (rt_ttl rt') now (applied xs rs (rt_versions fp rt)) i \<and>
       rt_Exists fp hash now rt' i = (Ok, live (rt_ttl rt') now (applied xs rs (rt_versions fp rt)) i \<noteq> None))"
proof -
  have "rt_inv fp hash rt'" "rt_versions fp rt' = applied xs rs (rt_versions fp rt)"
    using rt_run_refines [OF assms] by blast+
  then show ?thesis using rt_Get_live [of fp hash rt'] by simp
qed

definition sample_rt :: "wal \<Rightarrow> runtime" where
  "sample_rt w =
     PublishSnapshot ((VectorRuntime ''d/data'' 1 True w (MemTable_new 1 (2 ^ 20) False) qNone False 0 10 0)\<lparr>rt_started := True\<rparr>)"

lemma sample_rt_ok:
  "rt_inv fp hash (sample_rt w)" "rt_versions fp (sample_rt w) = Map.empty" "rt_wal (sample_rt w) = w" "rt_window (sample_rt w) = 0"
  "rt_vector (sample_rt w)" "rt_started (sample_rt w)" "rt_dim (sample_rt w) = 1" "rt_ttl (sample_rt w) = 0" "\<not> backpressure (sample_rt w)"
  "rt_coalesce (sample_rt w) = []"
proof -
  let ?r = "(VectorRuntime ''d/data'' 1 True w (MemTable_new 1 (2 ^ 20) False) qNone False 0 10 0)\<lparr>rt_started := True\<rparr>"
  have m: "mem_ok hash 1 (MemTable_new 1 (2 ^ 20) False)" "mem_versions fp (MemTable_new 1 (2 ^ 20) False) = Map.empty"
    by (rule mem_new; simp)+
  then show "rt_inv fp hash (sample_rt w)" "rt_versions fp (sample_rt w) = Map.empty"
    using PublishSnapshot_inv [of hash ?r fp] by (simp_all add: sample_rt_def VectorRuntime_def layers_ok_def stack_def)
  show "rt_wal (sample_rt w) = w" "rt_window (sample_rt w) = 0" "rt_vector (sample_rt w)" "rt_started (sample_rt w)"
    "rt_dim (sample_rt w) = 1" "rt_ttl (sample_rt w) = 0" "\<not> backpressure (sample_rt w)" "rt_coalesce (sample_rt w) = []"
    by (simp_all add: sample_rt_def VectorRuntime_def PublishSnapshot_def backpressure_def kMaxFrozenMemtables_def)
qed

definition sample_wal :: wal where
  "sample_wal = Wal_new ''d'' 0 4096 kAlways False []"

lemma sample_wal_open:
  "\<exists>e w. Wal_Open env0 sample_wal = Some (Ok, e, w) \<and> log_holds aes e w [] \<and> key_ok w \<and> wal_seq w = 0"
proof -
  obtain e w where o: "Wal_Open env0 sample_wal = Some (Ok, e, w)" "wal_cfg w = wal_cfg sample_wal" "wal_seq w = wal_seq sample_wal"
      "log_holds aes e w []"
    using log_holds_empty [OF env0_ok, of sample_wal aes] by blast
  have "key_ok w" unfolding key_ok_cong [OF o(2)] unfolding sample_wal_def by (rule key_ok_new)
  then show ?thesis using o by (auto simp: sample_wal_def Wal_new_def Let_def)
qed

theorem Runtime_refines_witness:
  "\<exists>e w rs e' rt'. Wal_Open env0 sample_wal = Some (Ok, e, w) \<and>
     rt_run sample_fp id aes_id 0 e (sample_rt w) [RtPut 7 [5] Metadata0, RtDelete 7] = (rs, e', rt') \<and>
     rs = [(Ok, 1), (Ok, 2)] \<and> rt_versions sample_fp rt' = [7 \<mapsto> None] \<and> snd (rt_Get sample_fp id 0 rt' 7) = None"
proof -
  let ?xs = "[RtPut 7 [5] Metadata0, RtDelete 7]"
  obtain e w where W: "Wal_Open env0 sample_wal = Some (Ok, e, w)" "log_holds aes_id e w []" "key_ok w" "wal_seq w = 0"
    using sample_wal_open by blast
  obtain s1 e1 rt1 where d1: "rt_do sample_fp id aes_id 0 e (sample_rt w) (RtPut 7 [5] Metadata0) = (s1, e1, rt1)"
    by (cases "rt_do sample_fp id aes_id 0 e (sample_rt w) (RtPut 7 [5] Metadata0)")
  have l: "loggable (op_rec (RtPut 7 [5] Metadata0))" "loggable (op_rec (RtDelete 7))"
    by (simp_all add: loggable_def meta_small_def Metadata0_def has_wal_meta_def put_plain_def del_plain_def)
  have log: "log_holds aes_id e (rt_wal (sample_rt w)) []" "key_ok (rt_wal (sample_rt w))" using W by (simp_all add: sample_rt_ok)
  have id: "op_id (RtPut 7 [5] Metadata0) \<noteq> sentinel" "op_id (RtDelete 7) \<noteq> sentinel" by (simp_all add: sentinel_def)
  have D1: "s1 = Ok" "wal_seq (rt_wal rt1) = 1" "rt_cfg rt1 = rt_cfg (sample_rt w)" "wal_cfg (rt_wal rt1) = wal_cfg w"
      "log_holds aes_id e1 (rt_wal rt1) [(1, LPut 7 [5] Metadata0)]"
    using rt_do_log [OF sample_rt_ok(1) id(1) sample_rt_ok(4) log(1) aes_id_law log(2) l(1) d1] by (simp_all add: sample_rt_ok W(4))
  obtain s2 e2 rt2 where d2: "rt_do sample_fp id aes_id 0 e1 rt1 (RtDelete 7) = (s2, e2, rt2)"
    by (cases "rt_do sample_fp id aes_id 0 e1 rt1 (RtDelete 7)")
  have c: "rt_window rt1 = 0" "rt_started rt1" using D1(3) by (simp_all add: rt_cfg_def sample_rt_ok)
  have inv1: "rt_inv sample_fp id rt1" using rt_do_refines [OF sample_rt_ok(1) id(1) sample_rt_ok(4) d1] by simp
  have k1: "key_ok (rt_wal rt1)" using W(3) by (simp add: key_ok_cong [OF D1(4)])
  have D2: "s2 = Ok" "wal_seq (rt_wal rt2) = 2"
    using rt_do_log [OF inv1 id(2) c(1) D1(5) aes_id_law k1 l(2) d2] c(2) D1(2) by simp_all
  have run: "rt_run sample_fp id aes_id 0 e (sample_rt w) ?xs = ([(Ok, 1), (Ok, 2)], e2, rt2)"
    using d1 d2 D1(1,2) D2 by simp
  have ids: "\<forall>x\<in>set ?xs. op_id x \<noteq> sentinel" using id by simp
  have v: "applied ?xs [(Ok, 1), (Ok, 2)] (rt_versions sample_fp (sample_rt w)) = [7 \<mapsto> None]"
    by (simp add: applied_def sample_rt_ok)
  show ?thesis
    using W(1) run Runtime_refines [OF sample_rt_ok(1) ids sample_rt_ok(4) run] unfolding v
    by (auto simp: live_def sentinel_def)
qed

text \<open>C38: A delayed write outlives a later delete. With a coalescing window, \<open>Put\<close> reports \<open>Ok\<close> but
  nothing of it can be read yet; a \<open>Delete\<close> of the same id that follows it and reports \<open>Ok\<close> does not touch the buffer,
  so the next flush applies the older \<open>Put\<close> on top of the deletion.\<close>

theorem Coalesced_put_outlives_delete:
  assumes inv: "rt_inv fp hash rt" and i: "i \<noteq> sentinel"
    and rt: "rt_vector rt" "rt_started rt" "0 < rt_window rt" "rt_coalesce rt = []" "\<not> backpressure rt" and v: "length v = unat (rt_dim rt)"
    and log: "log_holds aes e (rt_wal rt) rs" "aes_law aes" "key_ok (rt_wal rt)" "loggable (LPut i v Metadata0)"
  shows "\<exists>rt1 e2 rt2 e3 rt3 q. rt_Put fp hash aes clock e rt i v meta = (Ok, e, rt1) \<and> rt_versions fp rt1 = rt_versions fp rt \<and>
    rt_Delete fp hash aes e rt1 i = (Ok, e2, rt2) \<and> rt_versions fp rt2 i = Some None \<and>
    rt_EndBatch fp hash aes e2 rt2 = (Ok, e3, rt3) \<and> rt_versions fp rt3 i = Some (Some (Some v, kept_meta q meta))"
proof -
  let ?r = "rt\<lparr>rt_coalesce_start := clock, rt_coalesce := [(i, v, meta)], rt_ops := rt_ops rt + 1\<rparr>"
  have p: "rt_Put fp hash aes clock e rt i v meta = (Ok, e, ?r)"
    using rt v by (simp add: rt_Put_def HandlePut_def coalesce_put_def count_op_def vv_dim_def)
  have inv1: "rt_inv fp hash ?r" "rt_versions fp ?r = rt_versions fp rt" "mem_ok hash (rt_dim rt) (rt_mem rt)"
    using inv by (simp_all add: rt_inv_def rt_versions_def)
  obtain sa e2 w2 where a: "append_rec aes e (rt_wal rt) (LDel i) = (sa, e2, w2)" by (cases "append_rec aes e (rt_wal rt) (LDel i)")
  have l: "loggable (LDel i)" by (simp add: loggable_def del_plain_def)
  note A = append_rec_log [OF log(1-3) l a]
  obtain sd m2 where d: "mt_Delete fp hash (rt_mem rt) i = (sd, m2)" by (cases "mt_Delete fp hash (rt_mem rt) i")
  note D = mem_Delete [OF inv1(3) i d]
  let ?r2 = "?r\<lparr>rt_wal := w2, rt_epoch := rt_epoch rt + 1, rt_mem := m2, rt_ops := rt_ops rt + 1 + 1\<rparr>"
  have q: "rt_Delete fp hash aes e ?r i = (Ok, e2, ?r2)"
    using rt(2) a A(1) d D(1) by (simp add: rt_Delete_def HandleDel_def count_op_def)
  have k: "key_ok w2" using log(3) by (simp add: key_ok_cong [OF A(2)])
  obtain sb e3 w3 where b: "Wal_AppendBatch aes e2 w2 [i] [v] = (sb, e3, w3)" by (cases "Wal_AppendBatch aes e2 w2 [i] [v]")
  have B: "sb = Ok" "wal_cfg w3 = wal_cfg w2" "log_holds aes e3 w3 (rs @ [(wal_seq (rt_wal rt) + 1, LDel i)] @ batch_recs (wal_seq w2) (zip [i] [v]))"
    using AppendBatch_log [OF A(4) log(2) k _ _ b] log(4) by simp_all
  obtain sp m3 where mp: "mt_Put fp hash m2 i v (meta\<lparr>md_lsn := wal_seq w3\<rparr>) = (sp, m3)"
    by (cases "mt_Put fp hash m2 i v (meta\<lparr>md_lsn := wal_seq w3\<rparr>)")
  note P = mem_Put [OF D(2) i v mp]
  have inv2: "rt_inv fp hash ?r2" "rt_versions fp ?r2 = (rt_versions fp rt)(i \<mapsto> None)"
    using inv D(2,3) by (auto simp: rt_inv_def rt_versions_def)
  let ?r3 = "?r2\<lparr>rt_wal := w3, rt_epoch := rt_epoch rt + 1 + 1, rt_mem := m3, rt_coalesce := []\<rparr>"
  have inv3: "rt_inv fp hash ?r3" "rt_versions fp ?r3 i = Some (Some (Some v, kept_meta (wal_seq w3) meta))"
    using inv P(2,3) by (auto simp: rt_inv_def rt_versions_def)
  define r4 where "r4 = (if mt_GetCount m3 \<ge> kMemtableSoftLimit then RotateMemTable ?r3 else ?r3)"
  have f: "FlushCoalesceBuffer fp hash aes e2 ?r2 = (Ok, e3, r4)"
    using b B(1) mp by (simp add: FlushCoalesceBuffer_def r4_def)
  have r4: "rt_versions fp r4 i = Some (Some (Some v, kept_meta (wal_seq w3) meta))" "rt_wal r4 = w3"
    using inv3 RotateMemTable_inv [OF inv3(1)] by (simp_all add: r4_def)
  have lr: "loggable (LRaw kBatchEnd [] [])" by (simp add: loggable_def raw_plain_def)
  have k3: "key_ok w3" using k by (simp add: key_ok_cong [OF B(2)])
  obtain sx e4 w4 where x: "append_rec aes e3 w3 (LRaw kBatchEnd [] []) = (sx, e4, w4)" by (cases "append_rec aes e3 w3 (LRaw kBatchEnd [] [])")
  note X = append_rec_log [OF B(3) log(2) k3 lr x]
  have "rt_EndBatch fp hash aes e2 ?r2 = (Ok, e4, r4\<lparr>rt_wal := w4\<rparr>)"
    using f x X(1) r4(2) by (simp add: rt_EndBatch_def flush_pending_def Wal_EndBatch_def)
  then show ?thesis
    using p inv1(2) q inv2(2) r4(1) by (intro exI [of _ ?r] exI [of _ e2] exI [of _ ?r2] exI [of _ e4] exI [of _ "r4\<lparr>rt_wal := w4\<rparr>"] exI [of _ "wal_seq w3"]) simp
qed

theorem Coalesced_put_outlives_delete_witness:
  "\<exists>e w rt1 e2 rt2 e3 rt3 q. Wal_Open env0 sample_wal = Some (Ok, e, w) \<and>
     rt_Put sample_fp id aes_id 3 e ((sample_rt w)\<lparr>rt_window := 100\<rparr>) 7 [5] Metadata0 = (Ok, e, rt1) \<and> rt_versions sample_fp rt1 = Map.empty \<and>
     rt_Delete sample_fp id aes_id e rt1 7 = (Ok, e2, rt2) \<and> rt_EndBatch sample_fp id aes_id e2 rt2 = (Ok, e3, rt3) \<and>
     rt_versions sample_fp rt3 7 = Some (Some (Some [5], kept_meta q Metadata0))"
proof -
  obtain e w where W: "Wal_Open env0 sample_wal = Some (Ok, e, w)" "log_holds aes_id e w []" "key_ok w"
    using sample_wal_open by blast
  let ?r = "(sample_rt w)\<lparr>rt_window := 100\<rparr>"
  have r: "rt_inv sample_fp id ?r" "rt_versions sample_fp ?r = Map.empty" "\<not> backpressure ?r"
    using sample_rt_ok(1) [of sample_fp id w] sample_rt_ok(2) [of sample_fp w] sample_rt_ok(9) [of w]
    by (simp_all add: rt_inv_def rt_versions_def backpressure_def)
  have l: "loggable (LPut 7 [5] Metadata0)"
    by (simp add: loggable_def meta_small_def Metadata0_def has_wal_meta_def put_plain_def)
  have s: "(7 :: u64) \<noteq> sentinel" by (simp add: sentinel_def)
  show ?thesis
    using Coalesced_put_outlives_delete [OF r(1) s, of "[5]" aes_id e "[]" 3 Metadata0] sample_rt_ok(3,5,6,7,10) [of w] r(2,3) W l by fastforce
qed

end
