(* ===== verification/Background.thy ===== *)
theory Background
  imports Runtime
begin

text \<open>
  The background jobs of the shard runtime, \<open>src/core/shard/runtime.cc\<close>: \<open>Freeze\<close> writes the frozen memtables to
  segments, \<open>Compact\<close> merges all segments into new ones.

  A job is a state machine over phases.  The call that starts it pumps it in ticks until it is done or the
  time limit has passed; a tick ends between any two steps, so the number of steps that fit into the limit is an
  argument of the model (\<open>fuel\<close>), and the clock readings are functions of the step.  Only one job
  exists at a time and none survives the call that starts it.  A step is \<open>None\<close> where the source
  has no defined value: a loop over the log files that does not end, a builder that would keep a view into
  the buffer a quantised memtable decodes to, a quantiser that is not there.  \<open>SegmentBuilder::BuildIndex\<close>, which writes the
  index files beside a segment, is a parameter; so is what \<open>Segment\<close> leaves open.
\<close>

subsection \<open>Freezing\<close>

definition kMaxSegmentEntries :: nat where "kMaxSegmentEntries = 20000"

record segment_tools =
  tl_fp :: ieee
  tl_sort :: "seg_entry list \<Rightarrow> seg_entry list"
  tl_tsort :: "(u64 \<times> u32) list \<Rightarrow> (u64 \<times> u32) list"
  tl_padding :: "nat \<Rightarrow> u32"
  tl_index :: "posix_env \<Rightarrow> seg_builder \<Rightarrow> status \<times> posix_env"

datatype Phase = kBuild | kFinalizeSegment | kCommitManifest | kInstall | kResetWal | kCleanup | kPublish | kDone

record freeze_state =
  fz_phase :: Phase
  fz_memtables :: "memtable list"
  fz_target :: nat
  fz_mem_index :: nat
  fz_part :: nat
  fz_cursor :: "cursor option"
  fz_builder :: "seg_builder option"
  fz_filename :: string
  fz_done_after :: bool
  fz_built :: "(string \<times> seg_reader) list"
  fz_epoch :: u64

text \<open>A step ends the job with its result or goes on with a new state.\<close>

type_synonym 's step = "((status \<times> posix_env \<times> runtime) + (posix_env \<times> runtime \<times> 's)) option"

definition failed :: "string \<Rightarrow> status \<Rightarrow> status" where
  "failed what s = Internal (what @ '' failed: '' @ st_msg s)"

text \<open>\<open>IvfCoarse::Put\<close> as far as its status goes.\<close>

definition ivf_Put :: "u32 \<Rightarrow> VectorView \<Rightarrow> status" where
  "ivf_Put dim v = (if vv_dim v \<noteq> dim then InvalidArgument ''dim mismatch'' else Ok)"

definition freeze_name :: "nat \<Rightarrow> freeze_state \<Rightarrow> string" where
  "freeze_name stamp f = ''seg_'' @ to_string stamp @ ''_'' @ to_string (fz_mem_index f) @ ''_'' @ to_string (fz_part f) @ ''.dat''"

text \<open>The state with a cursor on its memtable, and with a builder.\<close>

definition with_builder :: "runtime \<Rightarrow> nat \<Rightarrow> freeze_state \<Rightarrow> freeze_state \<times> seg_builder" where
  "with_builder rt stamp f =
     (case fz_builder f of
        Some b \<Rightarrow> (f, b)
      | None \<Rightarrow> let name = freeze_name stamp f
                in (f\<lparr>fz_filename := name\<rparr>, SegmentBuilder (path_join (rt_dir rt) name) (rt_dim rt) (rt_quant rt)))"

definition freeze_add :: "posix_env \<Rightarrow> runtime \<Rightarrow> u64 \<Rightarrow> nat \<Rightarrow> memtable \<Rightarrow> freeze_state \<Rightarrow>
    VectorId \<times> VectorView option \<times> bool \<times> Metadata option \<Rightarrow> freeze_state step" where
  "freeze_add e rt now stamp mem f en =
     (case en of (i, v, deleted, m) \<Rightarrow>
      case with_builder rt stamp f of (f, b) \<Rightarrow>
      let meta = case_option Metadata0 id m;
          gone = (deleted \<or> VectorMetaExpired (rt_ttl rt) now meta);
          vec = case_option [] id v in
      if mt_quant mem \<and> \<not> gone then None else
      case sb_Add b i vec gone meta of (s, b) \<Rightarrow>
      if \<not> st_ok s then Some (Inl (failed ''Freeze: SegmentBuilder::Add'' s, e, rt)) else
      let s = (if gone then Ok else ivf_Put (rt_dim rt) vec) in
      if \<not> st_ok s then Some (Inl (failed ''Freeze: IVF::Put'' s, e, rt)) else
      let f = f\<lparr>fz_builder := Some b\<rparr>
      in Some (Inr (e, rt, if unat (sb_Count b) \<ge> kMaxSegmentEntries then f\<lparr>fz_done_after := False, fz_phase := kFinalizeSegment\<rparr> else f)))"

definition freeze_build :: "segment_tools \<Rightarrow> posix_env \<Rightarrow> runtime \<Rightarrow> u64 \<Rightarrow> nat \<Rightarrow> freeze_state \<Rightarrow> freeze_state step" where
  "freeze_build tk e rt now stamp f =
     (if fz_mem_index f \<ge> length (fz_memtables f) then Some (Inr (e, rt, f\<lparr>fz_phase := kCommitManifest\<rparr>))
      else let mem = fz_memtables f ! fz_mem_index f;
               cu = (case fz_cursor f of Some cu \<Rightarrow> cu | None \<Rightarrow> mt_CreateCursor mem) in
        case mt_Next (tl_fp tk) mem cu of
          (None, cu) \<Rightarrow>
            let f = f\<lparr>fz_cursor := None\<rparr> in
            (case fz_builder f of
               Some b \<Rightarrow> if sb_Count b > 0 then Some (Inr (e, rt, f\<lparr>fz_done_after := True, fz_phase := kFinalizeSegment\<rparr>))
                         else Some (Inr (e, rt, f\<lparr>fz_mem_index := fz_mem_index f + 1\<rparr>))
             | None \<Rightarrow> Some (Inr (e, rt, f\<lparr>fz_mem_index := fz_mem_index f + 1\<rparr>)))
        | (Some en, cu) \<Rightarrow> freeze_add e rt now stamp mem (f\<lparr>fz_cursor := Some cu\<rparr>) en)"

text \<open>Finishing a segment, the same in both jobs: index, file, directory, reader.\<close>

definition finish_segment :: "segment_tools \<Rightarrow> string \<Rightarrow> posix_env \<Rightarrow> runtime \<Rightarrow> seg_builder \<Rightarrow> status \<times> seg_reader option \<times> posix_env" where
  "finish_segment tk job e rt b =
     (case tl_index tk e b of (s, e) \<Rightarrow>
      if \<not> st_ok s then (failed (job @ '': BuildIndex'') s, None, e) else
      case sb_Finish (tl_fp tk) (tl_sort tk) (tl_tsort tk) (tl_padding tk) e b of (s, e, b) \<Rightarrow>
      if \<not> st_ok s then (failed (job @ '': SegmentBuilder::Finish'') s, None, e) else
      case FsyncDir e (rt_dir rt) of (s, e) \<Rightarrow>
      if \<not> st_ok s then (failed (job @ '': FsyncDir after segment'') s, None, e) else
      case sr_Open (tl_fp tk) e (sb_path b) of
        (s, None, e) \<Rightarrow> (failed (job @ '': SegmentReader::Open'') s, None, e)
      | (s, Some r, e) \<Rightarrow> (Ok, Some r, e))"

definition freeze_finalize :: "segment_tools \<Rightarrow> posix_env \<Rightarrow> runtime \<Rightarrow> freeze_state \<Rightarrow> freeze_state step" where
  "freeze_finalize tk e rt f =
     (case fz_builder f of
        None \<Rightarrow> None
      | Some b \<Rightarrow>
          (case finish_segment tk ''Freeze'' e rt b of
             (s, None, e) \<Rightarrow> Some (Inl (s, e, rt))
           | (s, Some r, e) \<Rightarrow>
               let f = f\<lparr>fz_built := fz_built f @ [(fz_filename f, r)], fz_builder := None, fz_part := fz_part f + 1\<rparr>;
                   f = (if fz_done_after f
                        then f\<lparr>fz_mem_index := fz_mem_index f + 1, fz_cursor := None, fz_done_after := False\<rparr> else f)
               in Some (Inr (e, rt, f\<lparr>fz_phase := kBuild\<rparr>))))"

text \<open>The new names go before the old ones, in the order the segments were built.\<close>

definition freeze_commit :: "posix_env \<Rightarrow> runtime \<Rightarrow> freeze_state \<Rightarrow> freeze_state step" where
  "freeze_commit e rt f =
     (if fz_built f = [] then Some (Inr (e, rt, f\<lparr>fz_phase := kResetWal\<rparr>))
      else case sm_Load e (rt_dir rt) of (s, names, e) \<Rightarrow>
        if \<not> st_ok s then Some (Inl (failed ''Freeze: SegmentManifest::Load'' s, e, rt)) else
        case sm_Commit e (rt_dir rt) (map fst (fz_built f) @ case_option [] id names) of (s, e) \<Rightarrow>
        if \<not> st_ok s then Some (Inl (failed ''Freeze: SegmentManifest::Commit'' s, e, rt))
        else Some (Inr (e, rt, f\<lparr>fz_phase := kInstall\<rparr>)))"

definition freeze_install :: "posix_env \<Rightarrow> runtime \<Rightarrow> freeze_state \<Rightarrow> freeze_state step" where
  "freeze_install e rt f =
     Some (Inr (e, rt\<lparr>rt_segments := map snd (fz_built f) @ rt_segments rt\<rparr>, f\<lparr>fz_phase := kResetWal\<rparr>))"

definition freeze_reset :: "posix_env \<Rightarrow> runtime \<Rightarrow> freeze_state \<Rightarrow> freeze_state step" where
  "freeze_reset e rt f =
     (let rt = (if fz_target f > 0 \<and> fz_target f \<le> length (rt_frozen rt) then rt\<lparr>rt_frozen := drop (fz_target f) (rt_frozen rt)\<rparr> else rt) in
      if rt_epoch rt = fz_epoch f then
        (case Wal_Reset e (rt_wal rt) of
           None \<Rightarrow> None
         | Some (s, e, w) \<Rightarrow>
             let rt = rt\<lparr>rt_wal := w\<rparr> in
             if \<not> st_ok s then Some (Inl (failed ''Freeze: WAL::Reset'' s, e, rt)) else Some (Inr (e, rt, f\<lparr>fz_phase := kPublish\<rparr>)))
      else Some (Inr (e, rt, f\<lparr>fz_phase := kPublish\<rparr>)))"

definition freeze_step :: "segment_tools \<Rightarrow> posix_env \<Rightarrow> runtime \<Rightarrow> u64 \<Rightarrow> nat \<Rightarrow> freeze_state \<Rightarrow> freeze_state step" where
  "freeze_step tk e rt now stamp f =
     (case fz_phase f of
        kBuild \<Rightarrow> freeze_build tk e rt now stamp f
      | kFinalizeSegment \<Rightarrow> freeze_finalize tk e rt f
      | kCommitManifest \<Rightarrow> freeze_commit e rt f
      | kInstall \<Rightarrow> freeze_install e rt f
      | kResetWal \<Rightarrow> freeze_reset e rt f
      | kPublish \<Rightarrow> Some (Inr (e, PublishSnapshot rt, f\<lparr>fz_phase := kDone\<rparr>))
      | _ \<Rightarrow> Some (Inl (Ok, e, rt)))"

fun freeze_pump :: "segment_tools \<Rightarrow> (nat \<Rightarrow> u64) \<Rightarrow> (nat \<Rightarrow> nat) \<Rightarrow> nat \<Rightarrow> posix_env \<Rightarrow> runtime \<Rightarrow> freeze_state \<Rightarrow> (status \<times> posix_env \<times> runtime) option" where
  "freeze_pump tk now stamp 0 e rt f = Some (Aborted ''Freeze timed out'', e, rt)"
| "freeze_pump tk now stamp (Suc n) e rt f =
     (case freeze_step tk e rt (now n) (stamp n) f of
        None \<Rightarrow> None
      | Some (Inl r) \<Rightarrow> Some r
      | Some (Inr (e, rt, f)) \<Rightarrow> freeze_pump tk now stamp n e rt f)"

definition HandleFreeze :: "segment_tools \<Rightarrow> (nat \<Rightarrow> u64) \<Rightarrow> (nat \<Rightarrow> nat) \<Rightarrow> nat \<Rightarrow> posix_env \<Rightarrow> runtime \<Rightarrow> (status \<times> posix_env \<times> runtime) option" where
  "HandleFreeze tk now stamp fuel e rt =
     (let rt = (if mt_GetCount (rt_mem rt) > 0 then RotateMemTable rt else rt) in
      if rt_frozen rt = [] then Some (Ok, e, rt)
      else freeze_pump tk now stamp fuel e rt
        \<lparr>fz_phase = kBuild, fz_memtables = rt_frozen rt, fz_target = length (rt_frozen rt), fz_mem_index = 0, fz_part = 0, fz_cursor = None,
         fz_builder = None, fz_filename = '''', fz_done_after = False, fz_built = [], fz_epoch = rt_epoch rt\<rparr>)"

definition rt_Freeze :: "segment_tools \<Rightarrow> (nat \<Rightarrow> u64) \<Rightarrow> (nat \<Rightarrow> nat) \<Rightarrow> nat \<Rightarrow> posix_env \<Rightarrow> runtime \<Rightarrow> (status \<times> posix_env \<times> runtime) option" where
  "rt_Freeze tk now stamp fuel e rt =
     (if \<not> rt_started rt then Some (Aborted ''shard not started'', e, rt) else HandleFreeze tk now stamp fuel e rt)"

subsection \<open>Compaction\<close>

record compact_cursor =
  cc_id :: VectorId
  cc_seg :: nat
  cc_entry :: nat
  cc_deleted :: bool

text \<open>The priority queue holds at most one cursor per segment; the first is the one with the least id, the newest
  segment first.\<close>

definition cc_before :: "compact_cursor \<Rightarrow> compact_cursor \<Rightarrow> bool" where
  "cc_before a b \<longleftrightarrow> (if cc_id a \<noteq> cc_id b then cc_id a < cc_id b else cc_seg a < cc_seg b)"

definition heap_top :: "compact_cursor \<Rightarrow> compact_cursor list \<Rightarrow> compact_cursor" where
  "heap_top c cs = foldl (\<lambda>m x. if cc_before x m then x else m) c cs"

record compact_state =
  ct_phase :: Phase
  ct_inputs :: "seg_reader list"
  ct_heap :: "compact_cursor list"
  ct_last :: VectorId
  ct_first :: bool
  ct_builder :: "seg_builder option"
  ct_filename :: string
  ct_part :: nat
  ct_built :: "(string \<times> seg_reader) list"

definition push_cursor :: "seg_reader list \<Rightarrow> nat \<Rightarrow> nat \<Rightarrow> compact_cursor list \<Rightarrow> compact_cursor list" where
  "push_cursor segs s n heap =
     (case ReadAt (segs ! s) n Metadata0 of (st, i, v, deleted, m) \<Rightarrow>
        if st_ok st then \<lparr>cc_id = i, cc_seg = s, cc_entry = n, cc_deleted = deleted\<rparr> # heap else heap)"

definition compact_refill :: "seg_reader list \<Rightarrow> compact_cursor list" where
  "compact_refill segs = foldl (\<lambda>heap s. push_cursor segs s 0 heap) [] [0..<length segs]"

text \<open>The end of a round of the merging loop: the cursor moves on to the next entry of its segment.\<close>

definition compact_advance :: "posix_env \<Rightarrow> runtime \<Rightarrow> compact_state \<Rightarrow> compact_cursor \<Rightarrow> compact_state step" where
  "compact_advance e rt c tp =
     (let c = c\<lparr>ct_heap := push_cursor (ct_inputs c) (cc_seg tp) (cc_entry tp + 1) (ct_heap c)\<rparr>
      in Some (Inr (e, rt, if ct_heap c = [] \<and> ct_builder c \<noteq> None then c\<lparr>ct_phase := kFinalizeSegment\<rparr> else c)))"

definition compact_name :: "nat \<Rightarrow> compact_state \<Rightarrow> string" where
  "compact_name stamp c = ''seg_'' @ to_string stamp @ ''_compacted_'' @ to_string (ct_part c) @ ''.dat''"

definition compact_keep :: "posix_env \<Rightarrow> runtime \<Rightarrow> nat \<Rightarrow> compact_state \<Rightarrow> compact_cursor \<Rightarrow> VectorView \<Rightarrow> Metadata \<Rightarrow> compact_state step" where
  "compact_keep e rt stamp c tp vec meta =
     (case (case ct_builder c of
              Some b \<Rightarrow> (c, b)
            | None \<Rightarrow> let name = compact_name stamp c
                      in (c\<lparr>ct_filename := name\<rparr>, SegmentBuilder (path_join (rt_dir rt) name) (rt_dim rt) (rt_quant rt))) of (c, b) \<Rightarrow>
      case sb_Add b (cc_id tp) vec False meta of (s, b) \<Rightarrow>
      if \<not> st_ok s then Some (Inl (failed ''Compact: SegmentBuilder::Add'' s, e, rt))
      else if \<not> st_ok (ivf_Put (rt_dim rt) vec) then Some (Inl (failed ''Compact: IVF::Put'' (ivf_Put (rt_dim rt) vec), e, rt))
      else let c = c\<lparr>ct_builder := Some b\<rparr> in
        if unat (sb_Count b) \<ge> kMaxSegmentEntries then Some (Inr (e, rt, c\<lparr>ct_phase := kFinalizeSegment\<rparr>))
        else compact_advance e rt (c\<lparr>ct_last := cc_id tp, ct_first := False\<rparr>) tp)"

definition compact_round :: "segment_tools \<Rightarrow> posix_env \<Rightarrow> runtime \<Rightarrow> u64 \<Rightarrow> nat \<Rightarrow> compact_state \<Rightarrow> compact_cursor \<Rightarrow> compact_state step" where
  "compact_round tk e rt now stamp c tp =
     (let c = c\<lparr>ct_heap := remove1 tp (ct_heap c)\<rparr>; skip = c\<lparr>ct_last := cc_id tp, ct_first := False\<rparr> in
      if ct_first c \<or> cc_id tp \<noteq> ct_last c then
        if cc_deleted tp then compact_advance e rt skip tp
        else case FindAndDecode (tl_fp tk) (ct_inputs c ! cc_seg tp) (cc_id tp) Metadata0 of (res, vec, meta) \<Rightarrow>
          if res \<noteq> kFound \<or> VectorMetaExpired (rt_ttl rt) now meta then compact_advance e rt skip tp
          else (case vec of None \<Rightarrow> None | Some vec \<Rightarrow> compact_keep e rt stamp c tp vec meta)
      else compact_advance e rt c tp)"

definition compact_build :: "segment_tools \<Rightarrow> posix_env \<Rightarrow> runtime \<Rightarrow> u64 \<Rightarrow> nat \<Rightarrow> compact_state \<Rightarrow> compact_state step" where
  "compact_build tk e rt now stamp c =
     (let c = (if ct_heap c = [] \<and> ct_builder c = None then c\<lparr>ct_heap := compact_refill (ct_inputs c)\<rparr> else c) in
      case ct_heap c of
        [] \<Rightarrow> Some (Inr (e, rt, if ct_builder c = None then c\<lparr>ct_phase := kCommitManifest\<rparr> else c\<lparr>ct_phase := kFinalizeSegment\<rparr>))
      | x # xs \<Rightarrow> compact_round tk e rt now stamp c (heap_top x xs))"

definition compact_finalize :: "segment_tools \<Rightarrow> posix_env \<Rightarrow> runtime \<Rightarrow> compact_state \<Rightarrow> compact_state step" where
  "compact_finalize tk e rt c =
     (case ct_builder c of
        None \<Rightarrow> Some (Inr (e, rt, c\<lparr>ct_phase := kCommitManifest\<rparr>))
      | Some b \<Rightarrow>
          (case finish_segment tk ''Compact'' e rt b of
             (s, None, e) \<Rightarrow> Some (Inl (s, e, rt))
           | (s, Some r, e) \<Rightarrow>
               Some (Inr (e, rt, c\<lparr>ct_built := ct_built c @ [(ct_filename c, r)], ct_builder := None, ct_part := ct_part c + 1,
                                   ct_phase := (if ct_heap c = [] then kCommitManifest else kBuild)\<rparr>))))"

definition compact_commit :: "posix_env \<Rightarrow> runtime \<Rightarrow> compact_state \<Rightarrow> compact_state step" where
  "compact_commit e rt c =
     (case sm_Commit e (rt_dir rt) (map fst (rev (ct_built c))) of (s, e) \<Rightarrow>
      if \<not> st_ok s then Some (Inl (failed ''Compact: SegmentManifest::Commit'' s, e, rt))
      else Some (Inr (e, rt, c\<lparr>ct_phase := kInstall\<rparr>)))"

fun remove_files :: "posix_env \<Rightarrow> string list \<Rightarrow> posix_env" where
  "remove_files e [] = e"
| "remove_files e (p # ps) = remove_files (snd (DeleteFile e p)) ps"

definition compact_step :: "segment_tools \<Rightarrow> posix_env \<Rightarrow> runtime \<Rightarrow> u64 \<Rightarrow> nat \<Rightarrow> compact_state \<Rightarrow> compact_state step" where
  "compact_step tk e rt now stamp c =
     (case ct_phase c of
        kBuild \<Rightarrow> compact_build tk e rt now stamp c
      | kFinalizeSegment \<Rightarrow> compact_finalize tk e rt c
      | kCommitManifest \<Rightarrow> compact_commit e rt c
      | kInstall \<Rightarrow> Some (Inr (e, rt\<lparr>rt_segments := map snd (rev (ct_built c))\<rparr>, c\<lparr>ct_phase := kCleanup\<rparr>))
      | kCleanup \<Rightarrow> Some (Inr (remove_files e (map sr_path (ct_inputs c)), rt, c\<lparr>ct_phase := kPublish\<rparr>))
      | kPublish \<Rightarrow> Some (Inr (e, PublishSnapshot rt, c\<lparr>ct_phase := kDone\<rparr>))
      | _ \<Rightarrow> Some (Inl (Ok, e, rt)))"

fun compact_pump :: "segment_tools \<Rightarrow> (nat \<Rightarrow> u64) \<Rightarrow> (nat \<Rightarrow> nat) \<Rightarrow> nat \<Rightarrow> posix_env \<Rightarrow> runtime \<Rightarrow> compact_state \<Rightarrow> (status \<times> posix_env \<times> runtime) option" where
  "compact_pump tk now stamp 0 e rt c = Some (Aborted ''Compaction timed out'', e, rt)"
| "compact_pump tk now stamp (Suc n) e rt c =
     (case compact_step tk e rt (now n) (stamp n) c of
        None \<Rightarrow> None
      | Some (Inl r) \<Rightarrow> Some r
      | Some (Inr (e, rt, c)) \<Rightarrow> compact_pump tk now stamp n e rt c)"

text \<open>\<open>fs::file_size\<close> of each segment, which throws; the sizes themselves have no effect.\<close>

fun file_sizes :: "posix_env \<Rightarrow> string list \<Rightarrow> bool \<times> posix_env" where
  "file_sizes e [] = (True, e)"
| "file_sizes e (p # ps) =
     (case sys e of (Some msg, e) \<Rightarrow> (False, e) | (None, e) \<Rightarrow> if ev_files e p = None then (False, e) else file_sizes e ps)"

definition compact_start :: "runtime \<Rightarrow> compact_state" where
  "compact_start rt =
     \<lparr>ct_phase = kBuild, ct_inputs = rt_segments rt, ct_heap = [], ct_last = - 1, ct_first = True, ct_builder = None, ct_filename = '''',
      ct_part = 0, ct_built = []\<rparr>"

text \<open>The compaction manager's choice only matters for at most one segment, and then its score, a quarter of the number
  of segments, is below the threshold of one.\<close>

definition HandleCompact :: "segment_tools \<Rightarrow> (nat \<Rightarrow> u64) \<Rightarrow> (nat \<Rightarrow> nat) \<Rightarrow> nat \<Rightarrow> posix_env \<Rightarrow> runtime \<Rightarrow> (status \<times> posix_env \<times> runtime) option" where
  "HandleCompact tk now stamp fuel e rt =
     (case file_sizes e (map sr_path (rt_segments rt)) of (ok, e) \<Rightarrow>
      if \<not> ok then Some (Thrown, e, rt)
      else if length (rt_segments rt) \<le> 1 then Some (Ok, e, rt)
      else compact_pump tk now stamp fuel e rt (compact_start rt))"

definition rt_Compact :: "segment_tools \<Rightarrow> (nat \<Rightarrow> u64) \<Rightarrow> (nat \<Rightarrow> nat) \<Rightarrow> nat \<Rightarrow> posix_env \<Rightarrow> runtime \<Rightarrow> (status \<times> posix_env \<times> runtime) option" where
  "rt_Compact tk now stamp fuel e rt =
     (if \<not> rt_started rt then Some (Aborted ''shard not started'', e, rt) else HandleCompact tk now stamp fuel e rt)"

end
