(* ===== verification/Freeze.thy ===== *)
theory Freeze
  imports Background
begin

text \<open>
  What \<open>Freeze\<close> does to the data of a shard: as long as no id is in two of the frozen memtables, it changes nothing
  a read can see, whatever system calls fail and whenever its time runs out.  An id in two memtables gets the older of its
  versions back.
\<close>

subsection \<open>Versions that only lose what has expired\<close>

definition faded :: "u32 \<Rightarrow> u64 \<Rightarrow> (VectorView option \<times> Metadata) option \<Rightarrow> (VectorView option \<times> Metadata) option \<Rightarrow> bool" where
  "faded ttl T a b \<longleftrightarrow> a = b \<or> b = None \<and> (\<exists>v m. a = Some (v, m) \<and> VectorMetaExpired ttl T m)"

definition fades :: "u32 \<Rightarrow> u64 \<Rightarrow> versions \<Rightarrow> versions \<Rightarrow> bool" where
  "fades ttl T vs vs' \<longleftrightarrow> (\<forall>i. rel_option (faded ttl T) (vs i) (vs' i))"

lemma expired_later: "VectorMetaExpired ttl T m \<Longrightarrow> T \<le> t \<Longrightarrow> VectorMetaExpired ttl t m"
  by (auto simp: VectorMetaExpired_def word_le_nat_alt unat_sub_if' split: if_splits)

lemma fades_refl [simp]: "fades ttl T vs vs"
  by (simp add: fades_def faded_def option.rel_refl)

lemma fades_add:
  assumes "fades ttl T a a'" "fades ttl T b b'"
  shows "fades ttl T (a ++ b) (a' ++ b')"
  unfolding fades_def
proof
  fix i
  have "rel_option (faded ttl T) (a i) (a' i)" "rel_option (faded ttl T) (b i) (b' i)" using assms by (simp_all add: fades_def)
  then show "rel_option (faded ttl T) ((a ++ b) i) ((a' ++ b') i)" by (cases "b i"; cases "b' i") (auto simp: map_add_def)
qed

lemma fades_live:
  assumes "fades ttl T vs vs'" "T \<le> t"
  shows "live ttl t vs' = live ttl t vs"
proof
  fix i
  have "rel_option (faded ttl T) (vs i) (vs' i)" using assms(1) by (simp add: fades_def)
  then show "live ttl t vs' i = live ttl t vs i"
    using expired_later [OF _ assms(2), of ttl] by (auto simp: live_def faded_def elim!: option.rel_cases)
qed

lemma fades_no_ttl: "fades 0 T vs vs' \<Longrightarrow> vs' = vs"
  by (auto simp: fades_def faded_def VectorMetaExpired_def option.rel_eq fun_eq_iff cong: option.rel_cong)

subsection \<open>Entries of memtables and segments\<close>

type_synonym item = "VectorId \<times> VectorView option \<times> bool \<times> Metadata option"

fun item_version :: "VectorView option \<times> bool \<times> Metadata option \<Rightarrow> (VectorView option \<times> Metadata) option" where
  "item_version (v, deleted, m) = (if deleted then None else Some (v, case_option Metadata0 id m))"

fun item_meta :: "item \<Rightarrow> Metadata" where
  "item_meta (i, v, deleted, m) = case_option Metadata0 id m"

definition items_versions :: "item list \<Rightarrow> versions" where
  "items_versions xs = map_of (map (\<lambda>(i, x). (i, item_version x)) xs)"

definition all_items :: "ieee \<Rightarrow> memtable list \<Rightarrow> item list" where
  "all_items fp mems = concat (map (mt_IterateWithMetadata fp) mems)"

lemma items_versions_append: "items_versions (xs @ ys) = items_versions ys ++ items_versions xs"
  by (simp add: items_versions_def)

lemma mem_versions_items:
  assumes "mt_inv hash mt"
  shows "mem_versions fp mt = items_versions (mt_IterateWithMetadata fp mt)" "distinct (map fst (mt_IterateWithMetadata fp mt))"
proof -
  note S = mt_scan_exact [OF assms lessI, of fp]
  show "distinct (map fst (mt_IterateWithMetadata fp mt))" using S by blast
  have "items_versions (mt_IterateWithMetadata fp mt) i = mem_versions fp mt i" for i
  proof -
    have "items_versions (mt_IterateWithMetadata fp mt) i = map_option item_version (map_of (mt_IterateWithMetadata fp mt) i)"
      unfolding items_versions_def by (rule map_of_map_keyed)
    then show ?thesis
      using S [of i] by (cases "mt_view fp mt i"; cases "the (mt_view fp mt i)") (auto simp: mem_versions_def)
  qed
  then show "mem_versions fp mt = items_versions (mt_IterateWithMetadata fp mt)" by auto
qed

lemma dom_items: "dom (items_versions xs) = fst ` set xs"
  by (auto simp: items_versions_def dom_map_of_conv_image_fst image_image case_prod_unfold)

lemma layered_items:
  assumes "list_all (mem_ok hash dim) mems"
  shows "layered (mem_versions fp) mems = items_versions (all_items fp mems)"
  using assms
proof (induction mems)
  case (Cons mt mems)
  have "mt_inv hash mt" using Cons.prems by (simp add: mem_ok_def)
  then show ?case using Cons by (simp add: all_items_def items_versions_append mem_versions_items(1))
qed (simp add: all_items_def items_versions_def)

text \<open>When no id is in two tables their order does not matter.\<close>

lemma layered_mems:
  assumes "list_all (mem_ok hash dim) mems" "distinct (map fst (all_items fp mems))"
  shows "layered (mem_versions fp) (rev mems) = items_versions (all_items fp mems)"
  using assms
proof (induction mems)
  case (Cons mt mems)
  let ?xs = "mt_IterateWithMetadata fp mt" and ?ys = "all_items fp mems"
  have a: "all_items fp (mt # mems) = ?xs @ ?ys" by (simp add: all_items_def)
  have "mt_inv hash mt" using Cons.prems(1) by (simp add: mem_ok_def)
  then have m: "mem_versions fp mt = items_versions ?xs" by (rule mem_versions_items)
  have IH: "layered (mem_versions fp) (rev mems) = items_versions ?ys"
    using Cons unfolding a by simp
  have "dom (items_versions ?ys) \<inter> dom (items_versions ?xs) = {}"
    using Cons.prems(2) unfolding a dom_items by auto
  then show ?case
    unfolding a items_versions_append by (simp add: layered_append IH m map_add_comm [of "items_versions ?ys"])
qed (simp add: all_items_def items_versions_def)

definition frozen_as :: "u32 \<Rightarrow> u64 \<Rightarrow> item \<Rightarrow> seg_entry \<Rightarrow> bool" where
  "frozen_as ttl T x en \<longleftrightarrow>
     (case x of (i, v, deleted, m) \<Rightarrow> sn_id en = i \<and> sn_meta en = item_meta x \<and>
        (if sn_deleted en then deleted \<or> VectorMetaExpired ttl T (sn_meta en) else \<not> deleted \<and> v = Some (sn_vec en)))"

definition entries_versions :: "seg_entry list \<Rightarrow> versions" where
  "entries_versions es i = map_option entry_version (seg_view es i)"

lemma entries_versions_append: "entries_versions (xs @ ys) = entries_versions ys ++ entries_versions xs"
  by (auto simp: entries_versions_def seg_view_def fun_eq_iff map_add_def split: option.split)

lemma frozen_as_fades:
  "list_all2 (frozen_as ttl T) xs es \<Longrightarrow> fades ttl T (items_versions xs) (entries_versions es)"
proof (induction xs es rule: list_all2_induct)
  case (Cons x xs en es)
  obtain i v deleted m where x: "x = (i, v, deleted, m)" by (cases x) auto
  have c: "items_versions (x # xs) = (items_versions xs)(i \<mapsto> item_version (v, deleted, m))"
    "entries_versions (en # es) = (entries_versions es)(sn_id en \<mapsto> entry_version en)"
    by (auto simp: items_versions_def x entries_versions_def seg_view_def fun_eq_iff)
  have f: "sn_id en = i" "faded ttl T (item_version (v, deleted, m)) (entry_version en)"
    using Cons(1) by (auto simp: frozen_as_def x faded_def entry_version_def split: if_splits)
  show ?case using Cons.IH f by (simp add: fades_def c del: item_version.simps)
qed (simp add: items_versions_def entries_versions_def seg_view_def fades_def)

lemma frozen_as_ids: "list_all2 (frozen_as ttl T) xs es \<Longrightarrow> map sn_id es = map fst xs"
  by (induction xs es rule: list_all2_induct) (auto simp: frozen_as_def)

lemma frozen_as_metas: "list_all2 (frozen_as ttl T) xs es \<Longrightarrow> map sn_meta es = map item_meta xs"
  by (induction xs es rule: list_all2_induct) (auto simp: frozen_as_def)

lemma layered_segs:
  assumes "list_all2 (\<lambda>r es. seg_holds fp dim r (srt es) \<and> distinct (map sn_id es)) rs ess" "entry_sorts srt"
  shows "layered (seg_versions fp) rs = entries_versions (concat ess)"
  using assms(1)
proof (induction rs ess rule: list_all2_induct)
  case (Cons r rs es ess)
  then have "seg_versions fp r = entries_versions es"
    using seg_versions_opened [of fp dim r "srt es"] entry_sorts_view(1) [OF assms(2)] by (simp add: fun_eq_iff entries_versions_def)
  then show ?case using Cons by (simp add: entries_versions_append)
qed (simp add: entries_versions_def seg_view_def fun_eq_iff)

subsection \<open>Finishing a segment\<close>

text \<open>Entries with these metadata fit into one segment file: its offsets have 32 bits.\<close>

definition fits :: "u32 \<Rightarrow> Metadata list \<Rightarrow> bool" where
  "fits dim ms \<longleftrightarrow> (\<forall>m\<in>set ms. short_strings m) \<and> entry_size_of qNone (unat dim) < 2 ^ 32 \<and>
     128 + length ms * entry_size_of qNone (unat dim) + (length ms + 1) * 8 + sum_list (map (\<lambda>m. length (md_record m)) ms) +
       length ms * 16 + 4 < 2 ^ 32"

lemma fits_append: "fits dim (xs @ ys) \<Longrightarrow> fits dim xs \<and> fits dim ys"
  by (auto simp: fits_def distrib_right)

lemma fits_laid_out:
  assumes srt: "entry_sorts srt" and ts: "time_sorts tsrt" and f: "fits dim (map sn_meta es)"
    and v: "\<forall>e\<in>set es. \<not> sn_deleted e \<longrightarrow> length (sn_vec e) = unat dim"
  shows "laid_out fp tsrt padding qNone dim (sq8_new (unat dim)) (srt es)"
proof (rule laid_outI)
  have m: "mset (srt es) = mset es" using srt by (simp add: entry_sorts_def)
  then have s: "set (srt es) = set es" "length (srt es) = length es" by (metis set_mset_mset, metis size_mset)
  show "well_formed fp tsrt qNone dim (sq8_new (unat dim)) (srt es)"
    using ts f v unfolding well_formed_def good_entries_def s(1) by (auto simp: train_def Let_def fits_def)
  show "entry_size_of qNone (unat dim) < 2 ^ 32" using f by (simp add: fits_def)
  have "mset (map (\<lambda>e. length (md_record (sn_meta e))) (srt es)) = mset (map (\<lambda>e. length (md_record (sn_meta e))) es)" using m by simp
  then have "sum_list (map (\<lambda>e. length (md_record (sn_meta e))) (srt es)) = sum_list (map (\<lambda>e. length (md_record (sn_meta e))) es)"
    by (metis sum_mset_sum_list)
  then show "128 + length (srt es) * entry_size_of qNone (unat dim) + (length (srt es) + 1) * 8 + length (meta_blob (srt es)) +
      length (srt es) * 16 + 4 < 2 ^ 32"
    using f unfolding s(2) by (simp add: fits_def meta_blob_def length_concat comp_def)
qed

lemma sr_Open_result:
  assumes L: "laid_out fp tsrt padding quant dim q es" and f: "ev_files e path = Some (seg_file fp tsrt padding quant dim q es)"
    and r: "sr_Open fp e path = (s, Some r, e')"
  shows "s = Ok" "r = seg_opened fp path tsrt padding quant dim q es" "ev_files e' = ev_files e" "ev_chunk e' = ev_chunk e" "ev_err e' = ev_err e"
proof -
  have m: "iop_NewMemoryMappedFile (healthy e) path = (Ok, d, healthy e') \<and> ev_files e' = ev_files e \<and> ev_chunk e' = ev_chunk e \<and> ev_err e' = ev_err e"
    if "iop_NewMemoryMappedFile e path = (s, d, e')" "d \<noteq> None" for s d e'
    using that by (auto simp: iop_NewMemoryMappedFile_def sys_unfold healthy_def split: option.splits if_splits)
  obtain s1 d e1 where a: "iop_NewMemoryMappedFile e path = (s1, d, e1)" by (cases "iop_NewMemoryMappedFile e path")
  have d: "d \<noteq> None" using r a by (cases d) (simp_all add: sr_Open_def)
  obtain t where h: "sr_Open fp (healthy e) path = (Ok, Some (seg_opened fp path tsrt padding quant dim q es), (healthy e)\<lparr>ev_tick := t\<rparr>)"
    using sr_Open_opened [OF L, of "healthy e" path] f by auto
  obtain c where c: "d = Some c" using d by blast
  note mh = m [OF a d, THEN conjunct1, unfolded c] and sr = sr_Open_def Let_def prod.case option.case fst_conv snd_conv
  have e: "e' = e1" using arg_cong [OF r, of "\<lambda>x. snd (snd x)"] unfolding sr a c by (simp only: if_distrib [of "\<lambda>x. snd (snd x)"] snd_conv if_cancel)
  have "fst (sr_Open fp (healthy e) path) = fst (sr_Open fp e path)" "fst (snd (sr_Open fp (healthy e) path)) = fst (snd (sr_Open fp e path))"
    unfolding sr a c mh by (simp_all only: if_distrib [of fst] if_distrib [of snd] fst_conv snd_conv)
  then have "fst (sr_Open fp (healthy e) path) = s \<and> fst (snd (sr_Open fp (healthy e) path)) = Some r" using r by simp
  then show "s = Ok" "r = seg_opened fp path tsrt padding quant dim q es" using h by simp_all
  show "ev_files e' = ev_files e" "ev_chunk e' = ev_chunk e" "ev_err e' = ev_err e" using m [OF a d] e by simp_all
qed

text \<open>Building the index writes only the index files of the segment.\<close>

definition index_files :: "string \<Rightarrow> string set" where
  "index_files p = {p @ ''.hnsw.tmp'', p @ ''.idx.tmp'', take (length p - 4) p @ ''.hnsw'', take (length p - 4) p @ ''.idx'', p @ ''.hnsw'', p @ ''.idx''}"

definition index_frame :: "segment_tools \<Rightarrow> bool" where
  "index_frame tk \<longleftrightarrow> (\<forall>e b s e'. tl_index tk e b = (s, e') \<longrightarrow>
     ev_chunk e' = ev_chunk e \<and> ev_err e' = ev_err e \<and> (\<forall>p. p \<notin> index_files (sb_path b) \<longrightarrow> ev_files e' p = ev_files e p))"

definition tools_ok :: "segment_tools \<Rightarrow> bool" where
  "tools_ok tk \<longleftrightarrow> entry_sorts (tl_sort tk) \<and> time_sorts (tl_tsort tk) \<and> index_frame tk"

lemma FsyncDir_frame: "FsyncDir e d = (s, e') \<Longrightarrow> ev_files e' = ev_files e \<and> ev_chunk e' = ev_chunk e \<and> ev_err e' = ev_err e"
  by (auto simp: FsyncDir_def sys_unfold split: option.splits)

definition build_ok :: "u32 \<Rightarrow> seg_builder \<Rightarrow> bool" where
  "build_ok dim b \<longleftrightarrow> sb_dim b = dim \<and> sb_quant b = qNone \<and> distinct (map sn_id (sb_entries b)) \<and> fits dim (map sn_meta (sb_entries b)) \<and>
     (\<forall>e\<in>set (sb_entries b). \<not> sn_deleted e \<longrightarrow> length (sn_vec e) = unat dim)"

lemma finish_segment_result:
  assumes tk: "tools_ok tk" and b: "build_ok dim b" and full: "full_writes e (2 ^ 32)"
    and r: "finish_segment tk job e rt b = (s, Some r, e')"
  shows "s = Ok" "seg_holds (tl_fp tk) dim r (tl_sort tk (sb_entries b))" "sr_path r = sb_path b" "ev_files e' (sr_path r) = Some (sr_data r)"
    "\<forall>p. p \<notin> index_files (sb_path b) \<and> p \<noteq> sb_path b \<and> p \<noteq> sb_path b @ ''.tmp'' \<longrightarrow> ev_files e' p = ev_files e p"
    "full_writes e' (2 ^ 32)" "ev_err e' = ev_err e"
proof -
  let ?es = "tl_sort tk (sb_entries b)" and ?q = "sq8_new (unat dim)"
  let ?F = "seg_file (tl_fp tk) (tl_tsort tk) (tl_padding tk) qNone dim ?q ?es"
  have S: "entry_sorts (tl_sort tk)" "time_sorts (tl_tsort tk)" "index_frame tk" using tk by (simp_all add: tools_ok_def)
  have B: "sb_dim b = dim" "sb_quant b = qNone" "distinct (map sn_id (sb_entries b))" "fits dim (map sn_meta (sb_entries b))"
    "\<forall>e\<in>set (sb_entries b). \<not> sn_deleted e \<longrightarrow> length (sn_vec e) = unat dim" using b by (simp_all add: build_ok_def)
  have L: "laid_out (tl_fp tk) (tl_tsort tk) (tl_padding tk) qNone dim ?q ?es" by (rule fits_laid_out [OF S(1,2) B(4,5)])
  obtain s1 e1 where i: "tl_index tk e b = (s1, e1)" by (cases "tl_index tk e b")
  obtain s2 e2 b2 where f: "sb_Finish (tl_fp tk) (tl_sort tk) (tl_tsort tk) (tl_padding tk) e1 b = (s2, e2, b2)"
    by (cases "sb_Finish (tl_fp tk) (tl_sort tk) (tl_tsort tk) (tl_padding tk) e1 b")
  obtain s3 e3 where d: "FsyncDir e2 (rt_dir rt) = (s3, e3)" by (cases "FsyncDir e2 (rt_dir rt)")
  have p2: "sb_path b2 = sb_path b" using f by (auto simp: sb_Finish_def Let_def split: prod.splits option.splits if_splits)
  obtain s4 where o: "sr_Open (tl_fp tk) e3 (sb_path b) = (s4, Some r, e')" and s: "s = Ok" and ok2: "st_ok s2"
    using r i f d p2 by (auto simp: finish_segment_def split: if_splits prod.splits option.splits)
  show "s = Ok" by (rule s)
  have I: "ev_chunk e1 = ev_chunk e" "ev_err e1 = ev_err e" "\<And>p. p \<notin> index_files (sb_path b) \<Longrightarrow> ev_files e1 p = ev_files e p"
    using S(3) i unfolding index_frame_def by blast+
  have len: "length ?F \<le> 2 ^ 32" using L by (simp add: laid_out_def)
  have fw: "full_writes e1 (length ?F)" using full_writes_mono [OF _ len, of e1] full I(1) by (simp add: full_writes_def)
  have tr: "train (tl_fp tk) (sb_quant b) (unat (sb_dim b)) ?es = (Ok, ?q)" using L B by (simp add: laid_out_def well_formed_def)
  note R = sb_Finish_result [OF f refl tr, unfolded B(1,2), OF fw]
  note D = FsyncDir_frame [OF d]
  have fl: "ev_files e3 (sb_path b) = Some ?F" using R ok2 D by simp
  note O = sr_Open_result [OF L fl o]
  have dd: "distinct (map sn_id ?es)" using entry_sorts_view(2) [OF S(1) B(3)] .
  have rp: "sr_path r = sb_path b" "sr_data r = ?F" using O(2) by (simp_all add: seg_opened_def Let_def)
  then show "sr_path r = sb_path b" "ev_files e' (sr_path r) = Some (sr_data r)" using fl O(3) by simp_all
  have "r = seg_opened (tl_fp tk) (sr_path r) (tl_tsort tk) (tl_padding tk) qNone dim ?q ?es" using O(2) rp(1) by simp
  then show "seg_holds (tl_fp tk) dim r ?es" using S(1) dd L unfolding seg_holds_def entry_sorts_def by blast
  show "\<forall>p. p \<notin> index_files (sb_path b) \<and> p \<noteq> sb_path b \<and> p \<noteq> sb_path b @ ''.tmp'' \<longrightarrow> ev_files e' p = ev_files e p"
    using O(3) D R I(3) by simp
  show "full_writes e' (2 ^ 32)" "ev_err e' = ev_err e" using O(4,5) D R I(1,2) full by (simp_all add: full_writes_def)
qed

lemma sr_Open_frame: "sr_Open fp e p = (s, ro, e') \<Longrightarrow> ev_files e' = ev_files e \<and> ev_chunk e' = ev_chunk e \<and> ev_err e' = ev_err e"
proof -
  assume r: "sr_Open fp e p = (s, ro, e')"
  obtain s1 d e1 where a: "iop_NewMemoryMappedFile e p = (s1, d, e1)" by (cases "iop_NewMemoryMappedFile e p")
  have m: "ev_files e1 = ev_files e \<and> ev_chunk e1 = ev_chunk e \<and> ev_err e1 = ev_err e"
    using a by (auto simp: iop_NewMemoryMappedFile_def sys_unfold split: option.splits if_splits)
  have "snd (snd (sr_Open fp e p)) = e1"
    unfolding sr_Open_def Let_def a prod.case
    by (cases d) (simp_all only: option.case if_distrib [of "\<lambda>x. snd (snd x)"] snd_conv if_cancel)
  then show ?thesis using m r by simp
qed

text \<open>Finishing a segment touches only the files of that segment.\<close>

definition segment_files :: "string \<Rightarrow> string set" where
  "segment_files p = insert p (insert (p @ ''.tmp'') (index_files p))"

lemma finish_segment_frame:
  assumes tk: "tools_ok tk" and b: "build_ok dim b" and full: "full_writes e (2 ^ 32)"
    and r: "finish_segment tk job e rt b = (s, ro, e')"
  shows "ev_err e' = ev_err e \<and> ev_chunk e' = ev_chunk e \<and> (\<forall>p. p \<notin> segment_files (sb_path b) \<longrightarrow> ev_files e' p = ev_files e p)"
proof -
  let ?es = "tl_sort tk (sb_entries b)" and ?q = "sq8_new (unat dim)"
  let ?F = "seg_file (tl_fp tk) (tl_tsort tk) (tl_padding tk) qNone dim ?q ?es"
  have S: "entry_sorts (tl_sort tk)" "time_sorts (tl_tsort tk)" "index_frame tk" using tk by (simp_all add: tools_ok_def)
  have B: "sb_dim b = dim" "sb_quant b = qNone" "fits dim (map sn_meta (sb_entries b))"
    "\<forall>e\<in>set (sb_entries b). \<not> sn_deleted e \<longrightarrow> length (sn_vec e) = unat dim" using b by (simp_all add: build_ok_def)
  have L: "laid_out (tl_fp tk) (tl_tsort tk) (tl_padding tk) qNone dim ?q ?es" by (rule fits_laid_out [OF S(1,2) B(3,4)])
  obtain s1 e1 where i: "tl_index tk e b = (s1, e1)" by (cases "tl_index tk e b")
  obtain s2 e2 b2 where f: "sb_Finish (tl_fp tk) (tl_sort tk) (tl_tsort tk) (tl_padding tk) e1 b = (s2, e2, b2)"
    by (cases "sb_Finish (tl_fp tk) (tl_sort tk) (tl_tsort tk) (tl_padding tk) e1 b")
  obtain s3 e3 where d: "FsyncDir e2 (rt_dir rt) = (s3, e3)" by (cases "FsyncDir e2 (rt_dir rt)")
  obtain s4 r4 e4 where o: "sr_Open (tl_fp tk) e3 (sb_path b2) = (s4, r4, e4)" by (cases "sr_Open (tl_fp tk) e3 (sb_path b2)")
  have I: "ev_chunk e1 = ev_chunk e" "ev_err e1 = ev_err e" "\<And>p. p \<notin> index_files (sb_path b) \<Longrightarrow> ev_files e1 p = ev_files e p"
    using S(3) i unfolding index_frame_def by blast+
  have "length ?F \<le> 2 ^ 32" using L by (simp add: laid_out_def)
  then have fw: "full_writes e1 (length ?F)" using full_writes_mono [of e1 "2 ^ 32"] full I(1) by (simp add: full_writes_def)
  have tr: "train (tl_fp tk) (sb_quant b) (unat (sb_dim b)) ?es = (Ok, ?q)" using L B by (simp add: laid_out_def well_formed_def)
  note R = sb_Finish_result [OF f refl tr, unfolded B(1,2), OF fw]
  note D = FsyncDir_frame [OF d] and O = sr_Open_frame [OF o]
  have "e' \<in> {e1, e2, e3, e4}" using r i f d o by (auto simp: finish_segment_def split: if_splits prod.splits option.splits)
  moreover define Q where "Q x \<longleftrightarrow> ev_err x = ev_err e \<and> ev_chunk x = ev_chunk e \<and> (\<forall>p. p \<notin> segment_files (sb_path b) \<longrightarrow> ev_files x p = ev_files e p)" for x :: posix_env
  have "Q e1" using I by (simp add: Q_def segment_files_def)
  moreover have "Q e2" using I R unfolding Q_def segment_files_def by simp
  moreover from this have "Q e3" "Q e4" using D O by (simp_all add: Q_def)
  ultimately show ?thesis unfolding Q_def [symmetric] by blast
qed

subsection \<open>The invariant of the job\<close>

text \<open>The entries already given to a builder: those of the tables before the current one, and a part of its own.\<close>

definition fz_current :: "ieee \<Rightarrow> freeze_state \<Rightarrow> item list" where
  "fz_current fp f =
     (if fz_done_after f then mt_IterateWithMetadata fp (fz_memtables f ! fz_mem_index f)
      else case fz_cursor f of None \<Rightarrow> [] | Some cu \<Rightarrow> take (cu_idx cu) (mt_IterateWithMetadata fp (fz_memtables f ! fz_mem_index f)))"

definition fz_consumed :: "ieee \<Rightarrow> freeze_state \<Rightarrow> item list" where
  "fz_consumed fp f = all_items fp (take (fz_mem_index f) (fz_memtables f)) @ fz_current fp f"

definition fz_pending :: "freeze_state \<Rightarrow> seg_entry list" where
  "fz_pending f = (case fz_builder f of None \<Rightarrow> [] | Some b \<Rightarrow> sb_entries b)"

definition fz_cursor_ok :: "freeze_state \<Rightarrow> bool" where
  "fz_cursor_ok f \<longleftrightarrow>
     (\<forall>cu. fz_cursor f = Some cu \<longrightarrow> fz_mem_index f < length (fz_memtables f) \<and>
        cu_snap cu = fh_ForEach (mt_map (fz_memtables f ! fz_mem_index f)) \<and> cu_idx cu \<le> length (cu_snap cu)) \<and>
     (fz_done_after f \<longrightarrow> fz_cursor f = None \<and> fz_mem_index f < length (fz_memtables f))"

definition fz_written :: "segment_tools \<Rightarrow> u32 \<Rightarrow> (string \<times> seg_reader) list \<Rightarrow> seg_entry list list \<Rightarrow> bool" where
  "fz_written tk dim built ess \<longleftrightarrow> list_all2 (\<lambda>nr es. seg_holds (tl_fp tk) dim (snd nr) (tl_sort tk es) \<and> distinct (map sn_id es)) built ess"

text \<open>A segment under construction has entries of one table only.\<close>

definition fz_progress :: "segment_tools \<Rightarrow> u64 \<Rightarrow> runtime \<Rightarrow> freeze_state \<Rightarrow> bool" where
  "fz_progress tk T rt f \<longleftrightarrow>
     fz_memtables f = rt_frozen rt \<and> fz_target f = length (rt_frozen rt) \<and> fz_cursor_ok f \<and>
     (\<forall>b. fz_builder f = Some b \<longrightarrow> sb_dim b = rt_dim rt \<and> sb_quant b = qNone \<and> sb_path b = path_join (rt_dir rt) (fz_filename f) \<and>
        sb_entries b \<noteq> [] \<and> fz_mem_index f < length (fz_memtables f) \<and>
        (\<exists>k. map sn_id (sb_entries b) = map fst (drop k (fz_current (tl_fp tk) f)))) \<and>
     (\<exists>ess. fz_written tk (rt_dim rt) (fz_built f) ess \<and>
        list_all2 (frozen_as (rt_ttl rt) T) (fz_consumed (tl_fp tk) f) (concat ess @ fz_pending f))"

definition freezable :: "ieee \<Rightarrow> (u64 \<Rightarrow> u64) \<Rightarrow> runtime \<Rightarrow> bool" where
  "freezable fp hash rt \<longleftrightarrow> list_all (mem_ok hash (rt_dim rt)) (rt_frozen rt) \<and> rt_quant rt = qNone \<and>
     fits (rt_dim rt) (map item_meta (all_items fp (rt_frozen rt)))"

lemma all_items_take_nth:
  "k < length mems \<Longrightarrow> all_items fp (take k mems) @ mt_IterateWithMetadata fp (mems ! k) = all_items fp (take (Suc k) mems)"
  by (simp add: all_items_def take_Suc_conv_app_nth)

lemma consumed_prefix:
  assumes "fz_cursor_ok f"
  shows "\<exists>rest. all_items fp (fz_memtables f) = fz_consumed fp f @ rest"
proof -
  let ?m = "fz_mem_index f" and ?ms = "fz_memtables f"
  have all: "all_items fp ?ms = all_items fp (take n ?ms) @ all_items fp (drop n ?ms)" for n
    by (metis all_items_def append_take_drop_id concat_append map_append)
  show ?thesis
  proof (cases "fz_done_after f \<or> fz_cursor f \<noteq> None")
    case True
    then have m: "?m < length ?ms" using assms by (auto simp: fz_cursor_ok_def)
    let ?x = "mt_IterateWithMetadata fp (?ms ! ?m)"
    have "\<exists>k. fz_consumed fp f = all_items fp (take ?m ?ms) @ take k ?x"
      using True by (cases "fz_done_after f") (auto simp: fz_consumed_def fz_current_def intro: exI [of _ "length ?x"])
    then obtain k where "fz_consumed fp f = all_items fp (take ?m ?ms) @ take k ?x" ..
    then have "all_items fp (take (Suc ?m) ?ms) = fz_consumed fp f @ drop k ?x"
      using all_items_take_nth [OF m, of fp] by simp
    then show ?thesis using all [of "Suc ?m"] by simp
  next
    case False
    then show ?thesis using all [of ?m] by (simp add: fz_consumed_def fz_current_def)
  qed
qed

lemma item_vector:
  assumes "mem_ok hash dim mt" "(i, v, deleted, m) \<in> set (mt_IterateWithMetadata fp mt)"
  shows "\<not> deleted \<Longrightarrow> \<exists>w. v = Some w \<and> length w = unat dim"
proof -
  assume d: "\<not> deleted"
  have inv: "mt_inv hash mt" "\<not> mt_quant mt" "mt_dim mt = dim" using assms(1) by (simp_all add: mem_ok_def)
  obtain p where p: "(i, Some p) \<in> set (fh_ForEach (mt_map mt))" "v = entry_vec fp mt p"
    using assms(2) d by (auto simp: mt_IterateWithMetadata_def split: option.splits)
  then have "flat_map (mt_map mt) i = Some (Some p)"
    using distinct_ForEach [OF mt_inv_flat [OF inv(1)]] by (simp add: flat_map_def)
  from mt_inv_ptr [OF inv(1) this] obtain bs where "ar_read (mt_arena mt) p (4 * unat dim) = Some bs"
    using inv by (auto simp: obj_size_def)
  moreover have "length (bytes_floats n b) = n" for n b by (induction n b rule: bytes_floats.induct) simp_all
  ultimately show "\<exists>w. v = Some w \<and> length w = unat dim" using p(2) inv by (simp add: entry_vec_def)
qed

lemma all_items_vector:
  assumes "freezable fp hash rt" "(i, v, deleted, m) \<in> set (all_items fp (rt_frozen rt))" "\<not> deleted"
  shows "\<exists>w. v = Some w \<and> length w = unat (rt_dim rt)"
  using assms item_vector [of hash "rt_dim rt"] by (fastforce simp: freezable_def all_items_def list_all_iff)

lemma pending_ok:
  assumes fz: "freezable (tl_fp tk) hash rt" and p: "fz_progress tk T rt f" and b: "fz_builder f = Some b"
  shows "build_ok (rt_dim rt) b"
proof -
  let ?fp = "tl_fp tk" and ?xs = "fz_consumed (tl_fp tk) f"
  obtain ess where L: "list_all2 (frozen_as (rt_ttl rt) T) ?xs (concat ess @ sb_entries b)"
    using p b by (auto simp: fz_progress_def fz_pending_def)
  obtain rest where R: "all_items ?fp (rt_frozen rt) = ?xs @ rest" using consumed_prefix [of f ?fp] p by (auto simp: fz_progress_def)
  obtain k where k: "map sn_id (sb_entries b) = map fst (drop k (fz_current ?fp f))" using p b by (auto simp: fz_progress_def)
  have "mt_inv hash (fz_memtables f ! fz_mem_index f)" using fz p b by (auto simp: freezable_def fz_progress_def list_all_length mem_ok_def)
  from mem_versions_items(2) [OF this, of ?fp] have "distinct (map fst (fz_current ?fp f))"
    by (auto simp: fz_current_def take_map [symmetric] split: option.split)
  then have D1: "distinct (map sn_id (sb_entries b))" unfolding k drop_map [symmetric] by (rule distinct_drop)
  have ms: "map sn_meta (concat ess) @ map sn_meta (sb_entries b) = map item_meta ?xs" using frozen_as_metas [OF L] by simp
  have "fits (rt_dim rt) (map item_meta ?xs)"
    using fz fits_append [of "rt_dim rt" "map item_meta ?xs" "map item_meta rest"] unfolding freezable_def R by simp
  then have D2: "fits (rt_dim rt) (map sn_meta (sb_entries b))"
    using fits_append [of "rt_dim rt" "map sn_meta (concat ess)" "map sn_meta (sb_entries b)"] unfolding ms [symmetric] by blast
  have "length (sn_vec en) = unat (rt_dim rt)" if "en \<in> set (sb_entries b)" "\<not> sn_deleted en" for en
  proof -
    have "en \<in> set (concat ess @ sb_entries b)" using that(1) by simp
    then obtain n where n: "n < length (concat ess @ sb_entries b)" "(concat ess @ sb_entries b) ! n = en"
      unfolding in_set_conv_nth by blast
    have "n < length ?xs" using n(1) list_all2_lengthD [OF L] by simp
    then have f: "frozen_as (rt_ttl rt) T (?xs ! n) en" "?xs ! n \<in> set (all_items ?fp (rt_frozen rt))"
      using list_all2_nthD2 [OF L n(1)] nth_mem [of n ?xs] unfolding n(2) R by simp_all
    obtain i v d m where x: "?xs ! n = (i, v, d, m)" by (cases "?xs ! n") auto
    then show ?thesis using f that(2) all_items_vector [OF fz, of i v d m] by (auto simp: frozen_as_def)
  qed
  then show ?thesis using D1 D2 p b by (auto simp: build_ok_def fz_progress_def)
qed

lemma fits_count: "fits dim (map sn_meta (sb_entries b)) \<Longrightarrow> unat (sb_Count b) = length (sb_entries b)"
  by (simp add: fits_def sb_Count_def unat_of_nat)

lemma mt_Next_item:
  assumes "cu_snap cu = fh_ForEach (mt_map mt)"
  shows "mt_Next fp mt cu = (if cu_idx cu < length (mt_IterateWithMetadata fp mt)
    then (Some (mt_IterateWithMetadata fp mt ! cu_idx cu), cu\<lparr>cu_idx := cu_idx cu + 1\<rparr>) else (None, cu))"
  using assms by (auto simp: mt_Next_def mt_IterateWithMetadata_def split: prod.split option.split)

lemma freeze_add_result:
  assumes q: "\<not> mt_quant mem" "rt_quant rt = qNone" and v: "\<not> deleted \<longrightarrow> (\<exists>w. v = Some w \<and> length w = unat (rt_dim rt))" and now: "now \<le> T"
    and b: "\<forall>b. fz_builder f = Some b \<longrightarrow> sb_dim b = rt_dim rt \<and> sb_quant b = qNone \<and> sb_path b = path_join (rt_dir rt) (fz_filename f)"
    and d: "\<not> fz_done_after f"
  shows "\<exists>b en name ph. freeze_add e rt now stamp mem f (i, v, deleted, m) =
      Some (Inr (e, rt, f\<lparr>fz_filename := name, fz_builder := Some b, fz_phase := ph\<rparr>)) \<and> ph \<in> {fz_phase f, kFinalizeSegment} \<and>
    sb_entries b = fz_pending f @ [en] \<and> frozen_as (rt_ttl rt) T (i, v, deleted, m) en \<and>
    sb_dim b = rt_dim rt \<and> sb_quant b = qNone \<and> sb_path b = path_join (rt_dir rt) name \<and>
    name = (if fz_builder f = None then freeze_name stamp f else fz_filename f)"
proof -
  obtain f1 b1 where w: "with_builder rt stamp f = (f1, b1)" by (cases "with_builder rt stamp f")
  define name where "name = fz_filename f1"
  have n: "name = (if fz_builder f = None then freeze_name stamp f else fz_filename f)"
    using w by (auto simp: with_builder_def name_def Let_def split: option.splits)
  have W: "f1 = f\<lparr>fz_filename := name\<rparr>" "sb_entries b1 = fz_pending f" "sb_dim b1 = rt_dim rt" "sb_quant b1 = qNone" "sb_path b1 = path_join (rt_dir rt) name"
    using w b q(2) by (auto simp: with_builder_def fz_pending_def SegmentBuilder_def name_def Let_def split: option.splits)
  define meta where "meta = case_option Metadata0 id m"
  define gone where "gone \<longleftrightarrow> deleted \<or> VectorMetaExpired (rt_ttl rt) now meta"
  define en where "en = \<lparr>sn_id = i, sn_vec = (if gone then [] else case_option [] id v), sn_deleted = gone, sn_meta = meta\<rparr>"
  let ?b = "b1\<lparr>sb_entries := sb_entries b1 @ [en]\<rparr>"
  have dim: "\<not> gone \<Longrightarrow> vv_dim (case_option [] id v) = rt_dim rt" using v by (auto simp: gone_def vv_dim_def)
  have add: "sb_Add b1 i (case_option [] id v) gone meta = (Ok, ?b)"
    using dim W(3) by (cases gone) (simp_all add: sb_Add_def en_def)
  have ivf: "\<not> gone \<Longrightarrow> ivf_Put (rt_dim rt) (case_option [] id v) = Ok" using dim by (simp add: ivf_Put_def)
  define ph where "ph = (if unat (sb_Count ?b) \<ge> kMaxSegmentEntries then kFinalizeSegment else fz_phase f)"
  have r: "freeze_add e rt now stamp mem f (i, v, deleted, m) = Some (Inr (e, rt, f\<lparr>fz_filename := name, fz_builder := Some ?b, fz_phase := ph\<rparr>))"
    using add ivf q(1) d by (cases gone) (auto simp: freeze_add_def w W(1) Let_def ph_def meta_def [symmetric] gone_def [symmetric])
  have fr: "frozen_as (rt_ttl rt) T (i, v, deleted, m) en"
    using v expired_later [OF _ now, of "rt_ttl rt" meta] by (auto simp: frozen_as_def en_def gone_def meta_def)
  show ?thesis
    using r fr W n by (intro exI [of _ ?b] exI [of _ en] exI [of _ name] exI [of _ ph]) (simp add: ph_def)
qed

definition installed :: "freeze_state \<Rightarrow> runtime \<Rightarrow> runtime" where
  "installed f rt = rt\<lparr>rt_segments := map snd (fz_built f) @ rt_segments rt\<rparr>"

definition fz_complete :: "segment_tools \<Rightarrow> runtime \<Rightarrow> freeze_state \<Rightarrow> bool" where
  "fz_complete tk rt f \<longleftrightarrow> fz_consumed (tl_fp tk) f = all_items (tl_fp tk) (rt_frozen rt) \<and> fz_builder f = None"

definition fz_inv :: "segment_tools \<Rightarrow> u64 \<Rightarrow> runtime \<Rightarrow> posix_env \<Rightarrow> runtime \<Rightarrow> freeze_state \<Rightarrow> bool" where
  "fz_inv tk T rt0 e rt f \<longleftrightarrow> fz_progress tk T rt0 f \<and> fz_epoch f = rt_epoch rt0 \<and>
     (fz_phase f \<in> {kBuild, kFinalizeSegment, kCommitManifest} \<longrightarrow> full_writes e (2 ^ 32)) \<and>
     (case fz_phase f of
        kBuild \<Rightarrow> rt = rt0 \<and> \<not> fz_done_after f
      | kFinalizeSegment \<Rightarrow> rt = rt0 \<and> fz_builder f \<noteq> None
      | kCommitManifest \<Rightarrow> rt = rt0 \<and> fz_complete tk rt0 f
      | kInstall \<Rightarrow> rt = rt0 \<and> fz_complete tk rt0 f
      | kResetWal \<Rightarrow> rt = installed f rt0 \<and> fz_complete tk rt0 f
      | kPublish \<Rightarrow> (\<exists>w. rt = (installed f rt0)\<lparr>rt_frozen := [], rt_wal := w\<rparr>) \<and> fz_complete tk rt0 f
      | kDone \<Rightarrow> (\<exists>w. rt = PublishSnapshot ((installed f rt0)\<lparr>rt_frozen := [], rt_wal := w\<rparr>)) \<and> fz_complete tk rt0 f
      | kCleanup \<Rightarrow> False)"

lemma phase_irrelevant [simp]:
  "fz_progress tk T rt (f\<lparr>fz_phase := p\<rparr>) = fz_progress tk T rt f" "fz_complete tk rt (f\<lparr>fz_phase := p\<rparr>) = fz_complete tk rt f"
  "installed (f\<lparr>fz_phase := p\<rparr>) rt = installed f rt"
proof -
  have "fz_current fp (f\<lparr>fz_phase := p\<rparr>) = fz_current fp f" for fp by (cases "fz_cursor f") (simp_all add: fz_current_def)
  moreover then have "fz_consumed fp (f\<lparr>fz_phase := p\<rparr>) = fz_consumed fp f" for fp by (simp add: fz_consumed_def)
  moreover have "fz_cursor_ok (f\<lparr>fz_phase := p\<rparr>) = fz_cursor_ok f" by (cases "fz_cursor f") (simp_all add: fz_cursor_ok_def)
  ultimately show "fz_progress tk T rt (f\<lparr>fz_phase := p\<rparr>) = fz_progress tk T rt f" "fz_complete tk rt (f\<lparr>fz_phase := p\<rparr>) = fz_complete tk rt f"
    by (simp_all add: fz_progress_def fz_complete_def fz_pending_def)
qed (simp add: installed_def)

lemma pending_count:
  assumes "freezable (tl_fp tk) hash rt" "fz_progress tk T rt f" "fz_builder f = Some b"
  shows "0 < sb_Count b"
proof -
  have "unat (sb_Count b) = length (sb_entries b)" "sb_entries b \<noteq> []"
    using fits_count [of "rt_dim rt" b] pending_ok [OF assms] assms(2,3) by (auto simp: build_ok_def fz_progress_def)
  then have "unat (sb_Count b) \<noteq> 0" by simp
  then show ?thesis by (auto simp: word_neq_0_conv [symmetric])
qed

lemma consumed_cursor:
  assumes "\<not> fz_done_after f" "fz_cursor f = Some cu" "fz_mem_index f < length (fz_memtables f)"
    "cu_idx cu \<ge> length (mt_IterateWithMetadata fp (fz_memtables f ! fz_mem_index f))"
  shows "fz_consumed fp f = all_items fp (take (Suc (fz_mem_index f)) (fz_memtables f))"
  using assms all_items_take_nth [OF assms(3), of fp] by (simp add: fz_consumed_def fz_current_def)

text \<open>What is left to do, as a bound on the number of steps.\<close>

fun phase_steps :: "Phase \<Rightarrow> nat" where
  "phase_steps kBuild = 6"
| "phase_steps kFinalizeSegment = 7"
| "phase_steps kCommitManifest = 5"
| "phase_steps kInstall = 4"
| "phase_steps kResetWal = 3"
| "phase_steps kPublish = 2"
| "phase_steps kDone = 1"
| "phase_steps kCleanup = 1"

definition fz_left :: "ieee \<Rightarrow> freeze_state \<Rightarrow> nat" where
  "fz_left fp f = 3 * (length (all_items fp (fz_memtables f)) - length (fz_consumed fp f)) +
     3 * (length (fz_memtables f) - (fz_mem_index f + (if fz_done_after f then 1 else 0))) + phase_steps (fz_phase f)"

text \<open>A step of the building phase keeps the segments built so far, and names a new one by the clock and its part.\<close>

definition same_built :: "ieee \<Rightarrow> nat \<Rightarrow> freeze_state \<Rightarrow> freeze_state \<Rightarrow> bool" where
  "same_built fp stamp f f' \<longleftrightarrow> fz_built f' = fz_built f \<and> fz_part f' = fz_part f \<and>
     fz_phase f' \<in> {kBuild, kFinalizeSegment, kCommitManifest} \<and>
     (fz_builder f' \<noteq> None \<longrightarrow> fz_mem_index f' = fz_mem_index f \<and>
        fz_filename f' = (if fz_builder f = None then freeze_name stamp f else fz_filename f)) \<and>
     length (fz_consumed fp f) + (if fz_builder f = None \<and> fz_builder f' \<noteq> None then 1 else 0) \<le> length (fz_consumed fp f')"

text \<open>One step in the building phase, with the cursor the step works on.\<close>

definition the_cursor :: "freeze_state \<Rightarrow> cursor" where
  "the_cursor f = (case fz_cursor f of Some cu \<Rightarrow> cu | None \<Rightarrow> mt_CreateCursor (fz_memtables f ! fz_mem_index f))"

lemma with_cursor:
  assumes "fz_cursor_ok f" "\<not> fz_done_after f" "fz_mem_index f < length (fz_memtables f)"
  defines "g \<equiv> f\<lparr>fz_cursor := Some (the_cursor f)\<rparr>"
  shows "fz_cursor_ok g" "fz_current fp g = fz_current fp f" "cu_snap (the_cursor f) = fh_ForEach (mt_map (fz_memtables f ! fz_mem_index f))"
    "cu_idx (the_cursor f) \<le> length (mt_IterateWithMetadata fp (fz_memtables f ! fz_mem_index f))"
  using assms
  by (auto simp: g_def fz_cursor_ok_def the_cursor_def fz_consumed_def fz_current_def mt_CreateCursor_def mt_IterateWithMetadata_def split: option.splits)

lemma freeze_build_item:
  assumes fz: "freezable (tl_fp tk) hash rt" and inv: "fz_inv tk T rt e rt f" and ph: "fz_phase f = kBuild" and now: "now \<le> T"
    and True: "fz_mem_index f < length (fz_memtables f)"
    and more: "cu_idx (the_cursor f) < length (mt_IterateWithMetadata (tl_fp tk) (fz_memtables f ! fz_mem_index f))"
  shows "\<exists>f'. freeze_add e rt now stamp (fz_memtables f ! fz_mem_index f) (f\<lparr>fz_cursor := Some (the_cursor f\<lparr>cu_idx := cu_idx (the_cursor f) + 1\<rparr>)\<rparr>)
      (mt_IterateWithMetadata (tl_fp tk) (fz_memtables f ! fz_mem_index f) ! cu_idx (the_cursor f)) = Some (Inr (e, rt, f')) \<and> fz_inv tk T rt e rt f' \<and>
    same_built (tl_fp tk) stamp f f' \<and> fz_left (tl_fp tk) f' < fz_left (tl_fp tk) f"
proof -
  let ?fp = "tl_fp tk" and ?mem = "fz_memtables f ! fz_mem_index f"
  let ?xs = "mt_IterateWithMetadata (tl_fp tk) (fz_memtables f ! fz_mem_index f)" and ?cu = "the_cursor f"
  have P: "fz_progress tk T rt f" "\<not> fz_done_after f" "full_writes e (2 ^ 32)" "fz_epoch f = rt_epoch rt" using inv ph by (simp_all add: fz_inv_def)
  have PR: "fz_memtables f = rt_frozen rt" "fz_target f = length (rt_frozen rt)" "fz_cursor_ok f" using P(1) by (simp_all add: fz_progress_def)
  obtain ess where E: "fz_written tk (rt_dim rt) (fz_built f) ess"
      "list_all2 (frozen_as (rt_ttl rt) T) (fz_consumed ?fp f) (concat ess @ fz_pending f)" using P(1) by (auto simp: fz_progress_def)
  note W = with_cursor [OF PR(3) P(2) True]
  have mem: "mem_ok hash (rt_dim rt) ?mem" using fz True PR(1) by (simp add: freezable_def list_all_length)
  let ?g = "f\<lparr>fz_cursor := Some (?cu\<lparr>cu_idx := cu_idx ?cu + 1\<rparr>)\<rparr>"
  obtain i v d m where x: "?xs ! cu_idx ?cu = (i, v, d, m)" by (cases "?xs ! cu_idx ?cu") auto
  have "(i, v, d, m) \<in> set ?xs" using nth_mem [OF more] x by simp
  then have v: "\<not> d \<longrightarrow> (\<exists>w. v = Some w \<and> length w = unat (rt_dim rt))" using item_vector [OF mem] by blast
  have q: "\<not> mt_quant ?mem" "rt_quant rt = qNone" using mem fz by (simp_all add: mem_ok_def freezable_def)
  have b: "\<forall>b. fz_builder ?g = Some b \<longrightarrow> sb_dim b = rt_dim rt \<and> sb_quant b = qNone \<and> sb_path b = path_join (rt_dir rt) (fz_filename ?g)"
    "\<not> fz_done_after ?g" using P(1,2) by (simp_all add: fz_progress_def)
  have g: "freeze_name stamp ?g = freeze_name stamp f" "fz_pending ?g = fz_pending f" "fz_builder ?g = fz_builder f"
    "fz_filename ?g = fz_filename f" "fz_phase ?g = kBuild" using ph by (simp_all add: freeze_name_def fz_pending_def)
  obtain b en name ph' where A: "freeze_add e rt now stamp ?mem ?g (i, v, d, m) =
      Some (Inr (e, rt, ?g\<lparr>fz_filename := name, fz_builder := Some b, fz_phase := ph'\<rparr>))" "ph' \<in> {kBuild, kFinalizeSegment}"
    "sb_entries b = fz_pending f @ [en]" "frozen_as (rt_ttl rt) T (i, v, d, m) en" "sb_dim b = rt_dim rt" "sb_quant b = qNone"
    "sb_path b = path_join (rt_dir rt) name" "name = (if fz_builder f = None then freeze_name stamp f else fz_filename f)"
    using freeze_add_result [OF q v now b, of e stamp i m] unfolding g by blast
  let ?f' = "?g\<lparr>fz_filename := name, fz_builder := Some b, fz_phase := ph'\<rparr>"
  have cc: "fz_current ?fp ?f' = fz_current ?fp f @ [(i, v, d, m)]"
    using W(2) [of ?fp] P(2) take_Suc_conv_app_nth [OF more] x by (simp add: fz_current_def)
  then have c: "fz_consumed ?fp ?f' = fz_consumed ?fp f @ [(i, v, d, m)]" by (simp add: fz_consumed_def)
  obtain k where k: "map sn_id (fz_pending f) = map fst (drop k (fz_current ?fp f))" "k \<le> length (fz_current ?fp f)"
  proof (cases "fz_builder f")
    case None
    then show ?thesis using that [of "length (fz_current ?fp f)"] by (simp add: fz_pending_def)
  next
    case (Some b0)
    then obtain k where k: "map sn_id (fz_pending f) = map fst (drop k (fz_current ?fp f))" "fz_pending f \<noteq> []"
      using P(1) by (auto simp: fz_progress_def fz_pending_def)
    then have "k \<le> length (fz_current ?fp f)" by (metis drop_all list.simps(8) map_is_Nil_conv nat_le_linear)
    then show ?thesis using that k by blast
  qed
  then have ids: "\<exists>k. map sn_id (sb_entries b) = map fst (drop k (fz_current ?fp ?f'))"
    unfolding cc A(3) using A(4) by (intro exI [of _ k]) (simp add: frozen_as_def)
  have "list_all2 (frozen_as (rt_ttl rt) T) (fz_consumed ?fp ?f') (concat ess @ fz_pending ?f')"
    unfolding c using E(2) A(3,4) by (simp add: fz_pending_def list_all2_appendI flip: append_assoc)
  moreover have "fz_cursor_ok ?f'" using True W(3) more P(2) by (auto simp: fz_cursor_ok_def mt_IterateWithMetadata_def)
  ultimately have pr: "fz_progress tk T rt ?f'" using A(3,5-7) PR True E(1) ids by (auto simp: fz_progress_def)
  then have "length (fz_consumed ?fp ?f') \<le> length (all_items ?fp (fz_memtables f))"
    using consumed_prefix [of ?f' ?fp] by (auto simp: fz_progress_def)
  then have "length (fz_consumed ?fp ?f') = Suc (length (fz_consumed ?fp f))" "Suc (length (fz_consumed ?fp f)) \<le> length (all_items ?fp (fz_memtables f))"
    unfolding c by simp_all
  then have "fz_left ?fp ?f' < fz_left ?fp f" using A(2) ph P(2) unfolding fz_left_def by auto
  moreover have "same_built ?fp stamp f ?f'" unfolding same_built_def c using A(2,8) by auto
  ultimately show ?thesis using A(1,2) pr more x P(2-4) by (auto simp: fz_inv_def)
qed

lemma freeze_build_end:
  assumes inv: "fz_inv tk T rt e rt f" and ph: "fz_phase f = kBuild" and True: "fz_mem_index f < length (fz_memtables f)"
    and ge: "cu_idx (the_cursor f) \<ge> length (mt_IterateWithMetadata (tl_fp tk) (fz_memtables f ! fz_mem_index f))"
  shows "\<exists>f'. (if fz_builder f \<noteq> None then Some (Inr (e, rt, f\<lparr>fz_cursor := None, fz_done_after := True, fz_phase := kFinalizeSegment\<rparr>))
      else Some (Inr (e, rt, f\<lparr>fz_cursor := None, fz_mem_index := fz_mem_index f + 1\<rparr>))) = Some (Inr (e, rt, f')) \<and> fz_inv tk T rt e rt f' \<and>
    same_built (tl_fp tk) stamp f f' \<and> fz_left (tl_fp tk) f' < fz_left (tl_fp tk) f"
proof -
  let ?fp = "tl_fp tk" and ?mem = "fz_memtables f ! fz_mem_index f"
  let ?xs = "mt_IterateWithMetadata (tl_fp tk) (fz_memtables f ! fz_mem_index f)" and ?cu = "the_cursor f"
  have P: "fz_progress tk T rt f" "\<not> fz_done_after f" "full_writes e (2 ^ 32)" "fz_epoch f = rt_epoch rt" using inv ph by (simp_all add: fz_inv_def)
  have PR: "fz_memtables f = rt_frozen rt" "fz_target f = length (rt_frozen rt)" "fz_cursor_ok f" using P(1) by (simp_all add: fz_progress_def)
  obtain ess where E: "fz_written tk (rt_dim rt) (fz_built f) ess"
      "list_all2 (frozen_as (rt_ttl rt) T) (fz_consumed ?fp f) (concat ess @ fz_pending f)" using P(1) by (auto simp: fz_progress_def)
  note W = with_cursor [OF PR(3) P(2) True]
  have c: "fz_consumed ?fp f = all_items ?fp (take (Suc (fz_mem_index f)) (fz_memtables f))"
    using consumed_cursor [of "f\<lparr>fz_cursor := Some ?cu\<rparr>" ?cu ?fp] ge True P(2) W(2) [of ?fp] by (simp add: fz_consumed_def)
  have cur: "fz_current ?fp f = ?xs" using c all_items_take_nth [OF True, of ?fp] unfolding fz_consumed_def by (metis same_append_eq)
  show ?thesis
  proof (cases "fz_builder f")
    case None
    let ?f' = "f\<lparr>fz_cursor := None, fz_mem_index := fz_mem_index f + 1\<rparr>"
    have c': "fz_consumed ?fp ?f' = fz_consumed ?fp f" using c P(2) by (simp add: fz_consumed_def fz_current_def)
    then have "fz_progress tk T rt ?f'" using None PR P(2) E by (auto simp: fz_progress_def fz_cursor_ok_def fz_pending_def)
    moreover have "fz_left ?fp ?f' < fz_left ?fp f" using c' P(2) True by (simp add: fz_left_def)
    moreover have "same_built ?fp stamp f ?f'" unfolding same_built_def c' using None ph by simp
    ultimately show ?thesis using None P(2-4) ph by (auto simp: fz_inv_def)
  next
    case (Some b)
    let ?f' = "f\<lparr>fz_cursor := None, fz_done_after := True, fz_phase := kFinalizeSegment\<rparr>"
    have c': "fz_current ?fp ?f' = fz_current ?fp f" "fz_consumed ?fp ?f' = fz_consumed ?fp f" using cur by (simp_all add: fz_current_def fz_consumed_def)
    then have "fz_progress tk T rt ?f'" using Some PR True E P(1) by (auto simp: fz_progress_def fz_cursor_ok_def fz_pending_def)
    moreover have "fz_left ?fp ?f' < fz_left ?fp f" using c' P(2) True ph by (simp add: fz_left_def)
    moreover have "same_built ?fp stamp f ?f'" unfolding same_built_def c' using Some by simp
    ultimately show ?thesis using Some P(3,4) by (auto simp: fz_inv_def)
  qed
qed

lemma freeze_build_step:
  assumes fz: "freezable (tl_fp tk) hash rt" and inv: "fz_inv tk T rt e rt f" and ph: "fz_phase f = kBuild" and now: "now \<le> T"
  shows "\<exists>f'. freeze_build tk e rt now stamp f = Some (Inr (e, rt, f')) \<and> fz_inv tk T rt e rt f' \<and>
    same_built (tl_fp tk) stamp f f' \<and> fz_left (tl_fp tk) f' < fz_left (tl_fp tk) f"
proof (cases "fz_mem_index f < length (fz_memtables f)")
  case False
  have P: "fz_progress tk T rt f" "\<not> fz_done_after f" using inv ph by (simp_all add: fz_inv_def)
  then have "fz_cursor f = None" "fz_builder f = None" using False by (auto simp: fz_progress_def fz_cursor_ok_def)
  moreover then have "fz_complete tk rt f" using P False by (simp add: fz_complete_def fz_consumed_def fz_current_def fz_progress_def)
  moreover have "fz_consumed (tl_fp tk) (f\<lparr>fz_phase := kCommitManifest\<rparr>) = fz_consumed (tl_fp tk) f"
    using \<open>fz_cursor f = None\<close> by (simp add: fz_consumed_def fz_current_def)
  ultimately show ?thesis
    using inv ph P False by (simp add: freeze_build_def fz_inv_def same_built_def fz_left_def)
next
  case True
  let ?fp = "tl_fp tk" and ?mem = "fz_memtables f ! fz_mem_index f"
  let ?xs = "mt_IterateWithMetadata (tl_fp tk) (fz_memtables f ! fz_mem_index f)" and ?cu = "the_cursor f"
  have P: "fz_progress tk T rt f" "\<not> fz_done_after f" "full_writes e (2 ^ 32)" "fz_epoch f = rt_epoch rt" using inv ph by (simp_all add: fz_inv_def)
  have PR: "fz_memtables f = rt_frozen rt" "fz_target f = length (rt_frozen rt)" "fz_cursor_ok f" using P(1) by (simp_all add: fz_progress_def)
  note W = with_cursor [OF PR(3) P(2) True]
  have N: "mt_Next ?fp ?mem ?cu = (if cu_idx ?cu < length ?xs then (Some (?xs ! cu_idx ?cu), ?cu\<lparr>cu_idx := cu_idx ?cu + 1\<rparr>) else (None, ?cu))"
    by (rule mt_Next_item [OF W(3)])
  have step: "freeze_build tk e rt now stamp f =
      (if cu_idx ?cu < length ?xs then freeze_add e rt now stamp ?mem (f\<lparr>fz_cursor := Some (?cu\<lparr>cu_idx := cu_idx ?cu + 1\<rparr>)\<rparr>) (?xs ! cu_idx ?cu)
       else if fz_builder f \<noteq> None then Some (Inr (e, rt, f\<lparr>fz_cursor := None, fz_done_after := True, fz_phase := kFinalizeSegment\<rparr>))
       else Some (Inr (e, rt, f\<lparr>fz_cursor := None, fz_mem_index := fz_mem_index f + 1\<rparr>)))"
    using True N pending_count [OF fz P(1)] by (auto simp: freeze_build_def Let_def the_cursor_def split: option.splits)
  show ?thesis
  proof (cases "cu_idx ?cu < length ?xs")
    case more: True
    then show ?thesis unfolding step using freeze_build_item [OF fz inv ph now True more, of stamp] by simp
  next
    case False
    then show ?thesis unfolding step if_not_P [OF False] by (intro freeze_build_end [OF inv ph True]) simp
  qed
qed

definition only_job_files :: "runtime \<Rightarrow> freeze_state \<Rightarrow> posix_env \<Rightarrow> posix_env \<Rightarrow> bool" where
  "only_job_files rt f e e' \<longleftrightarrow> ev_err e' = ev_err e \<and> ev_chunk e' = ev_chunk e \<and>
     (\<forall>p. p \<notin> segment_files (path_join (rt_dir rt) (fz_filename f)) \<longrightarrow> ev_files e' p = ev_files e p)"

lemma freeze_finalize_step:
  assumes tk: "tools_ok tk" and fz: "freezable (tl_fp tk) hash rt" and inv: "fz_inv tk T rt e rt f" and ph: "fz_phase f = kFinalizeSegment"
  shows "(\<exists>s e'. freeze_finalize tk e rt f = Some (Inl (s, e', rt)) \<and> \<not> st_ok s \<and> only_job_files rt f e e') \<or>
    (\<exists>e' f' r. freeze_finalize tk e rt f = Some (Inr (e', rt, f')) \<and> fz_inv tk T rt e' rt f' \<and> fz_left (tl_fp tk) f' < fz_left (tl_fp tk) f \<and>
       only_job_files rt f e e' \<and> fz_built f' = fz_built f @ [(fz_filename f, r)] \<and> fz_part f' = fz_part f + 1 \<and> fz_builder f' = None \<and>
       fz_consumed (tl_fp tk) f' = fz_consumed (tl_fp tk) f \<and> fz_phase f' = kBuild \<and>
       sr_path r = path_join (rt_dir rt) (fz_filename f) \<and> ev_files e' (sr_path r) = Some (sr_data r))"
proof -
  let ?fp = "tl_fp tk"
  have P: "fz_progress tk T rt f" "full_writes e (2 ^ 32)" "fz_epoch f = rt_epoch rt" using inv ph by (simp_all add: fz_inv_def)
  obtain b where b: "fz_builder f = Some b" using inv ph by (auto simp: fz_inv_def)
  have B: "build_ok (rt_dim rt) b" by (rule pending_ok [OF fz P(1) b])
  obtain s ro e' where fs: "finish_segment tk ''Freeze'' e rt b = (s, ro, e')" by (cases "finish_segment tk ''Freeze'' e rt b") auto
  have fr: "only_job_files rt f e e'"
    using finish_segment_frame [OF tk B P(2) fs] P(1) b by (simp add: only_job_files_def fz_progress_def)
  show ?thesis
  proof (cases ro)
    case None
    have "\<not> st_ok s" using fs None by (auto simp: finish_segment_def failed_def split: prod.splits option.splits if_splits)
    then show ?thesis using fs None b fr by (simp add: freeze_finalize_def)
  next
    case (Some r)
    note R = finish_segment_result [OF tk B P(2) fs [unfolded Some]]
    let ?g = "f\<lparr>fz_built := fz_built f @ [(fz_filename f, r)], fz_builder := None, fz_part := fz_part f + 1\<rparr>"
    let ?f' = "(if fz_done_after f then ?g\<lparr>fz_mem_index := fz_mem_index f + 1, fz_cursor := None, fz_done_after := False\<rparr> else ?g)\<lparr>fz_phase := kBuild\<rparr>"
    have step: "freeze_finalize tk e rt f = Some (Inr (e', rt, ?f'))" using fs Some b by (simp add: freeze_finalize_def Let_def)
    have PR: "fz_cursor_ok f" "fz_mem_index f < length (fz_memtables f)" "sb_path b = path_join (rt_dir rt) (fz_filename f)" using P(1) b by (auto simp: fz_progress_def)
    obtain ess where E: "fz_written tk (rt_dim rt) (fz_built f) ess"
        "list_all2 (frozen_as (rt_ttl rt) T) (fz_consumed ?fp f) (concat ess @ sb_entries b)" using P(1) b by (auto simp: fz_progress_def fz_pending_def)
    have c: "fz_consumed ?fp ?f' = fz_consumed ?fp f" using PR all_items_take_nth [OF PR(2), of ?fp] by (cases "fz_cursor f") (simp_all add: fz_consumed_def fz_current_def)
    have w: "fz_written tk (rt_dim rt) (fz_built ?f') (ess @ [sb_entries b])"
      using E(1) R(2) B by (simp add: fz_written_def list_all2_appendI build_ok_def)
    have "fz_cursor_ok ?f'" using PR(1,2) by (auto simp: fz_cursor_ok_def)
    moreover have F: "fz_memtables ?f' = fz_memtables f" "fz_target ?f' = fz_target f" "fz_builder ?f' = None" "fz_pending ?f' = []"
      by (simp_all add: fz_pending_def)
    moreover have "concat (ess @ [sb_entries b]) @ [] = concat ess @ sb_entries b" by simp
    ultimately have "fz_progress tk T rt ?f'" using P(1) c w E(2) unfolding fz_progress_def by (metis option.distinct(1))
    moreover have "fz_left ?fp ?f' < fz_left ?fp f" using c PR(2) ph by (auto simp: fz_left_def)
    moreover have "fz_built ?f' = fz_built f @ [(fz_filename f, r)]" "fz_part ?f' = fz_part f + 1" by simp_all
    ultimately show ?thesis
      using step R(3,4,6) P(3) fr PR(3) F(3) c by (intro disjI2 exI [of _ e'] exI [of _ ?f'] exI [of _ r]) (simp add: fz_inv_def)
  qed
qed

definition freeze_result :: "segment_tools \<Rightarrow> u64 \<Rightarrow> runtime \<Rightarrow> status \<Rightarrow> runtime \<Rightarrow> bool" where
  "freeze_result tk T rt0 s rt \<longleftrightarrow> (\<not> st_ok s \<and> rt = rt0) \<or>
     (\<exists>f w. fz_progress tk T rt0 f \<and> fz_complete tk rt0 f \<and>
        (\<not> st_ok s \<and> (rt = installed f rt0 \<or> rt = (installed f rt0)\<lparr>rt_frozen := [], rt_wal := w\<rparr>) \<or>
         rt = PublishSnapshot ((installed f rt0)\<lparr>rt_frozen := [], rt_wal := w\<rparr>)))"

lemma freeze_step_inv:
  assumes tk: "tools_ok tk" and fz: "freezable (tl_fp tk) hash rt0" and ne: "rt_frozen rt0 \<noteq> []" and inv: "fz_inv tk T rt0 e rt f" and now: "now \<le> T"
  shows "case freeze_step tk e rt now stamp f of None \<Rightarrow> True
    | Some (Inl (s, e', rt')) \<Rightarrow> freeze_result tk T rt0 s rt' | Some (Inr (e', rt', f')) \<Rightarrow> fz_inv tk T rt0 e' rt' f'"
proof (cases "fz_phase f")
  case kBuild
  then have r: "rt = rt0" using inv by (simp add: fz_inv_def)
  then show ?thesis using freeze_build_step [OF fz inv [unfolded r] kBuild now, of stamp] kBuild by (auto simp: freeze_step_def)
next
  case kFinalizeSegment
  then have r: "rt = rt0" using inv by (simp add: fz_inv_def)
  then show ?thesis using freeze_finalize_step [OF tk fz inv [unfolded r] kFinalizeSegment] kFinalizeSegment
    by (auto simp: freeze_step_def freeze_result_def)
next
  case kCommitManifest
  then have I: "rt = rt0" "fz_progress tk T rt0 f" "fz_complete tk rt0 f" "fz_epoch f = rt_epoch rt0" using inv by (simp_all add: fz_inv_def)
  show ?thesis using I kCommitManifest
    by (auto simp: freeze_step_def freeze_commit_def fz_inv_def freeze_result_def failed_def installed_def split: option.splits prod.splits if_splits)
next
  case kInstall
  then have I: "rt = rt0" "fz_progress tk T rt0 f" "fz_complete tk rt0 f" "fz_epoch f = rt_epoch rt0" using inv by (simp_all add: fz_inv_def)
  then show ?thesis using kInstall
    by (simp add: freeze_step_def freeze_install_def fz_inv_def) (simp add: installed_def)
next
  case kResetWal
  then have I: "rt = installed f rt0" "fz_progress tk T rt0 f" "fz_complete tk rt0 f" "fz_epoch f = rt_epoch rt0" using inv by (simp_all add: fz_inv_def)
  have t: "fz_target f = length (rt_frozen rt0)" using I(2) by (simp add: fz_progress_def)
  have drp: "rt\<lparr>rt_frozen := drop (fz_target f) (rt_frozen rt)\<rparr> = (installed f rt0)\<lparr>rt_frozen := []\<rparr>" "rt_epoch rt = fz_epoch f" "rt_frozen rt = rt_frozen rt0"
    using I t by (simp_all add: installed_def)
  have ep: "rt_epoch ((installed f rt0)\<lparr>rt_frozen := []\<rparr>) = fz_epoch f" using I(4) by (simp add: installed_def)
  have "freeze_step tk e rt now stamp f =
    (case Wal_Reset e (rt_wal rt0) of None \<Rightarrow> None | Some (s, e, w) \<Rightarrow>
       if \<not> st_ok s then Some (Inl (failed ''Freeze: WAL::Reset'' s, e, (installed f rt0)\<lparr>rt_frozen := [], rt_wal := w\<rparr>))
       else Some (Inr (e, (installed f rt0)\<lparr>rt_frozen := [], rt_wal := w\<rparr>, f\<lparr>fz_phase := kPublish\<rparr>)))"
    using kResetWal ne t drp ep by (simp add: freeze_step_def freeze_reset_def Let_def) (simp add: installed_def split: option.splits prod.splits)
  then show ?thesis using I(2-4) by (auto simp: fz_inv_def freeze_result_def failed_def split: option.splits)
next
  case kPublish
  then show ?thesis using inv
    by (auto simp: freeze_step_def fz_inv_def)
next
  case kDone
  then show ?thesis using inv by (auto simp: freeze_step_def fz_inv_def freeze_result_def)
next
  case kCleanup
  then show ?thesis using inv by (simp add: fz_inv_def)
qed

lemma freeze_pump_result:
  assumes "tools_ok tk" "freezable (tl_fp tk) hash rt0" "rt_frozen rt0 \<noteq> []" "\<forall>n. now n \<le> T"
    and "fz_inv tk T rt0 e rt f" "freeze_pump tk now stamp fuel e rt f = Some (s, e', rt')"
  shows "freeze_result tk T rt0 s rt'"
  using assms(5,6)
proof (induction fuel arbitrary: e rt f)
  case 0
  then have s: "\<not> st_ok s" and r: "rt' = rt" by auto
  show ?case
  proof (cases "fz_phase f")
    case kPublish
    then show ?thesis using 0(1) s r unfolding freeze_result_def fz_inv_def by (simp, blast)
  next
    case kDone
    then show ?thesis using 0(1) s r unfolding freeze_result_def fz_inv_def by (simp, blast)
  qed (use 0(1) s r in \<open>auto simp: freeze_result_def fz_inv_def\<close>)
next
  case (Suc n)
  show ?case using freeze_step_inv [OF assms(1-3) Suc.prems(1) spec [OF assms(4)], of n "stamp n"] Suc.prems(2) Suc.IH
    by (fastforce split: option.splits sum.splits prod.splits)
qed

subsection \<open>What a job leaves behind\<close>

text \<open>The new segments answer like the frozen memtables, searched in the order they were frozen.\<close>

lemma complete_segments:
  assumes tk: "tools_ok tk" and fz: "freezable (tl_fp tk) hash rt" and p: "fz_progress tk T rt f" and c: "fz_complete tk rt f"
  shows "list_all (seg_ok (tl_fp tk) (rt_dim rt)) (map snd (fz_built f))"
    "fades (rt_ttl rt) T (layered (mem_versions (tl_fp tk)) (rt_frozen rt)) (layered (seg_versions (tl_fp tk)) (map snd (fz_built f)))"
proof -
  let ?fp = "tl_fp tk" and ?xs = "all_items (tl_fp tk) (rt_frozen rt)"
  obtain ess where E: "list_all2 (\<lambda>nr es. seg_holds ?fp (rt_dim rt) (snd nr) (tl_sort tk es) \<and> distinct (map sn_id es)) (fz_built f) ess"
      "list_all2 (frozen_as (rt_ttl rt) T) ?xs (concat ess)"
    using p c by (auto simp: fz_progress_def fz_complete_def fz_pending_def fz_written_def)
  then have h: "list_all2 (\<lambda>r es. seg_holds ?fp (rt_dim rt) r (tl_sort tk es) \<and> distinct (map sn_id es)) (map snd (fz_built f)) ess"
    by (simp add: list_all2_map1)
  have "entry_sorts (tl_sort tk)" using tk by (simp add: tools_ok_def)
  then have s: "layered (seg_versions ?fp) (map snd (fz_built f)) = entries_versions (concat ess)" by (rule layered_segs [OF h])
  have m: "layered (mem_versions ?fp) (rt_frozen rt) = items_versions ?xs" using fz by (auto simp: freezable_def intro!: layered_items)
  show "list_all (seg_ok ?fp (rt_dim rt)) (map snd (fz_built f))"
    using E(1) by (auto simp: list_all_length seg_ok_def dest!: list_all2_nthD)
  show "fades (rt_ttl rt) T (layered (mem_versions ?fp) (rt_frozen rt)) (layered (seg_versions ?fp) (map snd (fz_built f)))"
    unfolding s m by (rule frozen_as_fades [OF E(2)])
qed

lemma fades_dom: "fades ttl T a b \<Longrightarrow> dom b = dom a"
proof (intro equalityI subsetI)
  fix i
  assume "fades ttl T a b"
  then have "rel_option (faded ttl T) (a i) (b i)" by (simp add: fades_def)
  then show "i \<in> dom b \<Longrightarrow> i \<in> dom a" "i \<in> dom a \<Longrightarrow> i \<in> dom b" by (auto elim: option.rel_cases)
qed

lemma dom_layered: "dom (layered f xs) = (\<Union>x\<in>set xs. dom (f x))"
  by (induction xs) auto

lemma map_add_covered: "dom b = dom c \<Longrightarrow> (a ++ b) ++ c = a ++ c"
  by (intro ext) (auto simp: map_add_def dom_def set_eq_iff split: option.split; metis option.distinct(1))

text \<open>The versions a runtime would hold if its frozen memtables were searched from the oldest to the newest.\<close>

definition oldest_first :: "ieee \<Rightarrow> runtime \<Rightarrow> versions" where
  "oldest_first fp rt = (layered (seg_versions fp) (rt_segments rt) ++ layered (mem_versions fp) (rt_frozen rt)) ++ mem_versions fp (rt_mem rt)"

definition separate :: "ieee \<Rightarrow> memtable list \<Rightarrow> bool" where
  "separate fp mems \<longleftrightarrow> distinct (map fst (all_items fp mems))"

lemma oldest_first_separate:
  assumes "rt_inv fp hash rt" "separate fp (rt_frozen rt)"
  shows "oldest_first fp rt = rt_versions fp rt"
proof -
  have "list_all (mem_ok hash (rt_dim rt)) (rt_frozen rt)" using assms(1) by (simp add: rt_inv_def layers_ok_def)
  then have "layered (mem_versions fp) (rt_frozen rt) = layered (mem_versions fp) (rev (rt_frozen rt))"
    using layered_items [of hash "rt_dim rt"] layered_mems [of hash "rt_dim rt"] assms(2) by (metis separate_def)
  then show ?thesis using assms(1) by (auto simp: rt_inv_def rt_versions_def oldest_first_def stack_def)
qed

lemma freeze_result_view:
  assumes tk: "tools_ok tk" and inv: "rt_inv (tl_fp tk) hash rt" and fz: "freezable (tl_fp tk) hash rt" and r: "freeze_result tk T rt s rt'"
  shows "rt_ttl rt' = rt_ttl rt \<and> rt_dim rt' = rt_dim rt \<and> (st_ok s \<longrightarrow> rt_frozen rt' = []) \<and>
    (rt_inv (tl_fp tk) hash rt' \<and> fades (rt_ttl rt) T (oldest_first (tl_fp tk) rt) (rt_versions (tl_fp tk) rt') \<or>
     \<not> st_ok s \<and> rt_versions (tl_fp tk) rt' = rt_versions (tl_fp tk) rt \<and>
     (rt_ttl rt = 0 \<and> separate (tl_fp tk) (rt_frozen rt) \<longrightarrow> rt_inv (tl_fp tk) hash rt'))"
proof -
  let ?fp = "tl_fp tk"
  obtain vs where vs: "rt_snapshot rt = Some vs" "layers_ok ?fp hash (rt_dim rt) (vs_frozen vs) (vs_segments vs)"
      "stack ?fp (vs_frozen vs) (vs_segments vs) = stack ?fp (rt_frozen rt) (rt_segments rt)"
    "mem_ok hash (rt_dim rt) (rt_mem rt)" "layers_ok ?fp hash (rt_dim rt) (rt_frozen rt) (rt_segments rt)"
    "\<not> rt_quantize_inmem rt" "4 * unat (rt_dim rt) \<le> 2 ^ 20"
    using inv by (auto simp: rt_inv_def)
  show ?thesis
  proof (cases "\<not> st_ok s \<and> rt' = rt")
    case False
    then obtain f w where f: "fz_progress tk T rt f" "fz_complete tk rt f"
      and c: "\<not> st_ok s \<and> rt' = installed f rt \<or> \<not> st_ok s \<and> rt' = (installed f rt)\<lparr>rt_frozen := [], rt_wal := w\<rparr> \<or>
        rt' = PublishSnapshot ((installed f rt)\<lparr>rt_frozen := [], rt_wal := w\<rparr>)"
      using r by (auto simp: freeze_result_def)
    note C = complete_segments [OF tk fz f]
    let ?news = "map snd (fz_built f)" and ?old = "layered (seg_versions ?fp) (rt_segments rt)"
    have d: "dom (layered (seg_versions ?fp) ?news) = dom (layered (mem_versions ?fp) (rev (rt_frozen rt)))"
      using fades_dom [OF C(2)] by (simp add: dom_layered)
    have same: "stack ?fp (rt_frozen rt) (?news @ rt_segments rt) = stack ?fp (rt_frozen rt) (rt_segments rt)"
      unfolding stack_def layered_append by (rule map_add_covered [OF d])
    have gone: "fades (rt_ttl rt) T (?old ++ layered (mem_versions ?fp) (rt_frozen rt)) (stack ?fp [] (?news @ rt_segments rt))"
      unfolding stack_def layered_append by (simp add: fades_add C(2))
    from c show ?thesis
    proof (elim disjE conjE)
      assume r': "rt' = installed f rt" "\<not> st_ok s"
      then show ?thesis using vs same C(1) by (simp add: rt_inv_def rt_versions_def installed_def layers_ok_def)
    next
      assume r': "rt' = (installed f rt)\<lparr>rt_frozen := [], rt_wal := w\<rparr>" "\<not> st_ok s"
      have "stack ?fp [] (?news @ rt_segments rt) = stack ?fp (rt_frozen rt) (rt_segments rt)"
        if z: "rt_ttl rt = 0 \<and> separate ?fp (rt_frozen rt)"
      proof -
        have "list_all (mem_ok hash (rt_dim rt)) (rt_frozen rt)" using vs(5) by (simp add: layers_ok_def)
        then have "layered (mem_versions ?fp) (rt_frozen rt) = layered (mem_versions ?fp) (rev (rt_frozen rt))"
          using layered_items [of hash "rt_dim rt"] layered_mems [of hash "rt_dim rt"] z by (metis separate_def)
        then show ?thesis using gone z fades_no_ttl by (metis stack_def)
      qed
      then show ?thesis using r' vs C(1) by (simp add: rt_inv_def rt_versions_def installed_def layers_ok_def)
    next
      let ?r = "(installed f rt)\<lparr>rt_frozen := [], rt_wal := w\<rparr>"
      assume r': "rt' = PublishSnapshot ?r"
      have "mem_ok hash (rt_dim ?r) (rt_mem ?r)" "layers_ok ?fp hash (rt_dim ?r) (rt_frozen ?r) (rt_segments ?r)"
        "\<not> rt_quantize_inmem ?r" "4 * unat (rt_dim ?r) \<le> 2 ^ 20" using vs C(1) by (simp_all add: installed_def layers_ok_def)
      note P = PublishSnapshot_inv [OF this]
      have "rt_versions ?fp rt' = stack ?fp [] (?news @ rt_segments rt) ++ mem_versions ?fp (rt_mem rt)"
        unfolding r' P(2) by (simp add: installed_def)
      moreover have "rt_ttl rt' = rt_ttl rt \<and> rt_dim rt' = rt_dim rt \<and> rt_frozen rt' = []" unfolding r' by (simp add: PublishSnapshot_def installed_def)
      ultimately show ?thesis using P(1) r' fades_add [OF gone fades_refl] unfolding oldest_first_def by simp
    qed
  qed (use inv in simp)
qed

text \<open>The runtime the job starts from: the active memtable joins the frozen ones unless it is empty.\<close>

definition to_freeze :: "runtime \<Rightarrow> runtime" where
  "to_freeze rt = (if mt_GetCount (rt_mem rt) > 0 then RotateMemTable rt else rt)"

definition freeze_start :: "runtime \<Rightarrow> freeze_state" where
  "freeze_start rt =
     \<lparr>fz_phase = kBuild, fz_memtables = rt_frozen rt, fz_target = length (rt_frozen rt), fz_mem_index = 0, fz_part = 0, fz_cursor = None,
      fz_builder = None, fz_filename = '''', fz_done_after = False, fz_built = [], fz_epoch = rt_epoch rt\<rparr>"

lemma HandleFreeze_unfold:
  "HandleFreeze tk now stamp fuel e rt =
     (if rt_frozen (to_freeze rt) = [] then Some (Ok, e, to_freeze rt)
      else freeze_pump tk now stamp fuel e (to_freeze rt) (freeze_start (to_freeze rt)))"
  unfolding HandleFreeze_def to_freeze_def freeze_start_def Let_def by (rule refl)

lemma freeze_start_inv: "full_writes e (2 ^ 32) \<Longrightarrow> fz_inv tk T rt e rt (freeze_start rt)"
  by (simp add: fz_inv_def freeze_start_def fz_progress_def fz_cursor_ok_def fz_consumed_def fz_current_def fz_pending_def fz_written_def all_items_def)

lemma to_freeze_inv:
  assumes "rt_inv fp hash rt"
  shows "rt_inv fp hash (to_freeze rt)" "rt_versions fp (to_freeze rt) = rt_versions fp rt" "rt_ttl (to_freeze rt) = rt_ttl rt" "rt_dim (to_freeze rt) = rt_dim rt"
  using assms RotateMemTable_inv [OF assms] by (simp_all add: to_freeze_def)

lemma rt_Freeze_view:
  assumes tk: "tools_ok tk" and inv: "rt_inv (tl_fp tk) hash rt" and fz: "freezable (tl_fp tk) hash (to_freeze rt)"
    and full: "full_writes e (2 ^ 32)" and now: "\<forall>n. now n \<le> T" and r: "rt_Freeze tk now stamp fuel e rt = Some (s, e', rt')" and st: "rt_started rt"
  shows "rt_ttl rt' = rt_ttl rt \<and> rt_dim rt' = rt_dim rt \<and> (st_ok s \<longrightarrow> rt_frozen rt' = []) \<and>
    (rt_inv (tl_fp tk) hash rt' \<and> fades (rt_ttl rt) T (oldest_first (tl_fp tk) (to_freeze rt)) (rt_versions (tl_fp tk) rt') \<or>
     \<not> st_ok s \<and> rt_versions (tl_fp tk) rt' = rt_versions (tl_fp tk) rt \<and>
     (rt_ttl rt = 0 \<and> separate (tl_fp tk) (rt_frozen (to_freeze rt)) \<longrightarrow> rt_inv (tl_fp tk) hash rt'))"
proof -
  let ?fp = "tl_fp tk" and ?r0 = "to_freeze rt"
  note I = to_freeze_inv [OF inv]
  show ?thesis
  proof (cases "rt_frozen ?r0 = []")
    case True
    have "separate ?fp []" by (simp add: separate_def all_items_def)
    then have "oldest_first ?fp ?r0 = rt_versions ?fp rt" using oldest_first_separate [OF I(1)] True I(2) by simp
    then show ?thesis using r st I True by (auto simp: rt_Freeze_def HandleFreeze_unfold)
  next
    case False
    then have "freeze_pump tk now stamp fuel e ?r0 (freeze_start ?r0) = Some (s, e', rt')" using r st by (simp add: rt_Freeze_def HandleFreeze_unfold)
    then have "freeze_result tk T ?r0 s rt'" by (rule freeze_pump_result [OF tk fz False now freeze_start_inv [OF full]])
    from freeze_result_view [OF tk I(1) fz this] show ?thesis unfolding I(2-4) .
  qed
qed

end
