(* ===== verification/Freeze_Disk.thy ===== *)
theory Freeze_Disk
  imports Freeze
begin

text \<open>
  What a shard leaves on disk: its log, its manifest and its segments hold what its memory holds, and a freeze
  keeps it so at every step, wherever it is stopped; with time enough and working calls it ends.
\<close>

subsection \<open>Paths\<close>

definition seg_name :: "string \<Rightarrow> bool" where
  "seg_name n \<longleftrightarrow> (\<exists>x. n = ''seg_'' @ x @ ''.dat'' \<and> nl \<notin> set x)"

lemma path_join_append: "path_join d n = path_join d [] @ n"
  by (simp add: path_join_def)

lemma segment_files_cases:
  assumes "seg_name n" "p \<in> segment_files (path_join d n)"
  shows "p = path_join d n \<or> (\<exists>y. p = path_join d (''seg_'' @ y) \<and> (\<forall>q. p \<noteq> q @ ''.dat''))"
proof -
  obtain x where n: "n = ''seg_'' @ x @ ''.dat''" using assms(1) by (auto simp: seg_name_def)
  define D where "D = path_join d []"
  define P where "P = D @ ''seg_'' @ x"
  have D: "path_join d m = D @ m" for m unfolding D_def by (rule path_join_append)
  have pn: "path_join d n = P @ ''.dat''" by (simp add: D n P_def)
  have t: "take (length (P @ ''.dat'') - 4) (P @ ''.dat'') = P" by simp
  define S where "S = {''.dat.tmp'', ''.dat.hnsw.tmp'', ''.dat.idx.tmp'', ''.hnsw'', ''.idx'', ''.dat.hnsw'', ''.dat.idx''}"
  have "p = P @ ''.dat'' \<or> (\<exists>q\<in>S. p = P @ q)"
    using assms(2) unfolding segment_files_def index_files_def pn t S_def by simp
  moreover have "P @ q \<noteq> r @ ''.dat''" if "q \<in> S" for q r
  proof
    assume "P @ q = r @ ''.dat''"
    then have "rev (P @ q) = rev (r @ ''.dat'')" by (rule arg_cong)
    then have "rev q @ rev P = CHR ''t'' # CHR ''a'' # CHR ''d'' # CHR ''.'' # rev r" by simp
    then show False using that unfolding S_def by (elim insertE emptyE) simp_all
  qed
  moreover have "\<exists>y. P @ q = D @ ''seg_'' @ y" for q unfolding P_def append_assoc by blast
  ultimately have "p = P @ ''.dat'' \<or> (\<exists>y. p = D @ ''seg_'' @ y \<and> (\<forall>r. p \<noteq> r @ ''.dat''))" by blast
  then show ?thesis using pn unfolding D by simp
qed

lemma segment_files_dat:
  assumes "seg_name n" "seg_name n'" "path_join d n' \<in> segment_files (path_join d n)"
  shows "n' = n"
proof -
  obtain x where "n' = ''seg_'' @ x @ ''.dat''" using assms(2) by (auto simp: seg_name_def)
  then have "\<exists>q. path_join d n' = q @ ''.dat''" by (subst path_join_append) auto
  then show ?thesis using segment_files_cases [OF assms(1,3)] by auto
qed

lemma segment_files_apart:
  assumes "seg_name n"
  shows "curr_path d \<notin> segment_files (path_join d n)"
proof
  assume "curr_path d \<in> segment_files (path_join d n)"
  moreover obtain x where "n = ''seg_'' @ x" using assms by (auto simp: seg_name_def)
  ultimately obtain y where "curr_path d = path_join d (''seg_'' @ y)" using segment_files_cases [OF assms] by blast
  then show False by (simp add: curr_path_def)
qed

definition manifest_files :: "string \<Rightarrow> string set" where
  "manifest_files d = {curr_path d, prev_path d, tmp_path d}"

lemma manifest_files_apart: "seg_name n \<Longrightarrow> path_join d n \<notin> manifest_files d"
  by (auto simp: manifest_files_def curr_path_def prev_path_def tmp_path_def seg_name_def)

definition data_dir :: "wal \<Rightarrow> string" where
  "data_dir w = path_join (wal_db_path w) ''data''"

lemma wal_apart: "SegmentPath w g \<noteq> path_join (data_dir w) x"
proof -
  have "path_join (data_dir w) x = data_dir w @ ''/'' @ x" by (simp add: data_dir_def path_join_def)
  moreover have "data_dir w = wal_db_path w @ ''data'' \<or> data_dir w = wal_db_path w @ ''/data''" by (simp add: data_dir_def path_join_def)
  ultimately have "path_join (data_dir w) x = wal_db_path w @ ''data/'' @ x \<or> path_join (data_dir w) x = wal_db_path w @ ''/data/'' @ x" by auto
  then show ?thesis unfolding SegmentPath_def by (elim disjE) simp_all
qed

lemma wal_apart':
  "SegmentPath w g \<notin> manifest_files (data_dir w)" "seg_name n \<Longrightarrow> SegmentPath w g \<notin> segment_files (path_join (data_dir w) n)"
proof -
  show "SegmentPath w g \<notin> manifest_files (data_dir w)"
    by (simp add: manifest_files_def curr_path_def prev_path_def tmp_path_def wal_apart)
  show "SegmentPath w g \<notin> segment_files (path_join (data_dir w) n)" if "seg_name n"
    using segment_files_cases [OF that, of "SegmentPath w g"] wal_apart by metis
qed

subsection \<open>The log and the manifest on disk\<close>

lemma log_holds_frame:
  assumes "log_holds aes e w rs" "ev_err e' = ev_err e" "\<And>g. ev_files e' (SegmentPath w g) = ev_files e (SegmentPath w g)"
  shows "log_holds aes e' w rs"
proof -
  have "calls_ok e' = calls_ok e" using assms(2) by (simp add: calls_ok_def)
  then have "wal_log e' w segs = wal_log e w segs" for segs
    using assms(3) by (auto simp: wal_log_def wal_ready_def wal_files_def no_segments_from_def wf_ready_def)
  then show ?thesis using assms(1) by (simp add: log_holds_def)
qed

lemma log_holds_calls: "log_holds aes e w rs \<Longrightarrow> calls_ok e"
  by (auto simp: log_holds_def wal_log_def)

definition manifest_holds :: "posix_env \<Rightarrow> string \<Rightarrow> string list \<Rightarrow> bool" where
  "manifest_holds e d names \<longleftrightarrow>
     (ev_files e (curr_path d) = Some (manifest_bytes names) \<or> names = [] \<and> ev_files e (curr_path d) = None)"

lemma sm_Load_holds:
  assumes "calls_ok e" "manifest_holds e d names" "names_ok names"
  shows "\<exists>t. sm_Load e d = (Ok, Some names, e\<lparr>ev_tick := t\<rparr>)"
  using assms sm_Load_parse [OF assms(1)] sm_Load_missing [OF assms(1)] parse_manifest_bytes [OF assms(3)]
  by (auto simp: manifest_holds_def)

lemma sm_Commit_ok:
  assumes c: "calls_ok e" and full: "full_writes e (length (manifest_bytes names))"
  shows "\<exists>e'. sm_Commit e d names = (Ok, e') \<and> ev_err e' = ev_err e \<and> ev_chunk e' = ev_chunk e \<and> manifest_holds e' d names \<and>
    (\<forall>p. p \<notin> manifest_files d \<longrightarrow> ev_files e' p = ev_files e p)"
proof -
  let ?B = "manifest_bytes names"
  have n: "ev_err e k = None" for k using c by (simp add: calls_ok_def)
  have w: "take (min (length ?B) (Suc (ev_chunk e k))) ?B = ?B" "min (length ?B) (Suc (ev_chunk e k)) = length ?B" for k
    using full by (simp_all add: full_writes_def min_def)
  let ?e5 = "e\<lparr>ev_files := (ev_files e)(tmp_path d \<mapsto> ?B), ev_tick := Suc (Suc (Suc (Suc (Suc (ev_tick e)))))\<rparr>"
  have s: "sm_Commit e d names =
      (if ev_files e (curr_path d) = None then commit_swap ?e5 d
       else case fs_rename ?e5 (curr_path d) (prev_path d) of (bad, e) \<Rightarrow>
         if bad then (IOError ''Manifest prev rename failed'', e) else commit_swap e d)"
    by (simp add: sm_Commit_def iop_NewWritableFile_def iop_Append_def iop_Sync_def iop_Close_def put_bytes_def pwrite_at_def
        fs_exists_def sys_unfold Let_def n w split: option.split)
  show ?thesis
  proof (cases "ev_files e (curr_path d)")
    case None
    then show ?thesis unfolding s
      by (simp add: commit_swap_def fs_rename_def RenameFile_def FsyncDir_def sys_unfold n manifest_holds_def manifest_files_def)
  next
    case (Some old)
    then show ?thesis unfolding s
      by (simp add: commit_swap_def fs_rename_def RenameFile_def FsyncDir_def sys_unfold n manifest_holds_def manifest_files_def)
  qed
qed

subsection \<open>The names of new segments\<close>

definition job_name :: "(nat \<Rightarrow> nat) \<Rightarrow> nat \<Rightarrow> nat \<Rightarrow> string \<Rightarrow> bool" where
  "job_name stamp M k n \<longleftrightarrow> (\<exists>j m. m < M \<and> n = ''seg_'' @ to_string (stamp j) @ ''_'' @ to_string m @ ''_'' @ to_string k @ ''.dat'')"

lemma to_string_chars: "c \<in> set (to_string n) \<Longrightarrow> c \<noteq> CHR ''_'' \<and> c \<noteq> nl"
  using to_string_digits [of c n] by (auto simp: nl_def)

lemma job_name_seg: "job_name stamp M k n \<Longrightarrow> seg_name n"
proof -
  assume "job_name stamp M k n"
  then obtain j m where "n = ''seg_'' @ (to_string (stamp j) @ ''_'' @ to_string m @ ''_'' @ to_string k) @ ''.dat''"
    by (auto simp: job_name_def)
  moreover have "nl \<notin> set (to_string (stamp j) @ ''_'' @ to_string m @ ''_'' @ to_string k)"
    using to_string_chars by (auto simp: nl_def)
  ultimately show ?thesis unfolding seg_name_def by blast
qed

lemma job_name_part:
  assumes "job_name stamp M k n" "job_name stamp M k' n"
  shows "k = k'"
proof -
  have ex: "\<exists>A. n = (A @ ''_'' @ to_string k) @ ''.dat''" if jn: "job_name stamp M k n" for k
  proof -
    obtain j m where "n = ((''seg_'' @ to_string (stamp j) @ ''_'' @ to_string m) @ ''_'' @ to_string k) @ ''.dat''"
      using jn by (auto simp: job_name_def)
    then show ?thesis by blast
  qed
  obtain A A' where n: "n = (A @ ''_'' @ to_string k) @ ''.dat''" "n = (A' @ ''_'' @ to_string k') @ ''.dat''"
    using ex [OF assms(1)] ex [OF assms(2)] by blast
  then have "A @ ''_'' @ to_string k = A' @ ''_'' @ to_string k'" by (metis append_same_eq)
  then have "rev (A @ ''_'' @ to_string k) = rev (A' @ ''_'' @ to_string k')" by (rule arg_cong)
  then have r: "rev (to_string k) @ CHR ''_'' # rev A = rev (to_string k') @ CHR ''_'' # rev A'" by simp
  have "takeWhile (\<lambda>c. c \<noteq> CHR ''_'') (rev (to_string x) @ CHR ''_'' # B) = rev (to_string x)" for x B
    by (subst takeWhile_append2) (use to_string_chars in auto)
  then have "rev (to_string k) = rev (to_string k')" by (metis r)
  then show ?thesis by simp
qed

lemma length_to_string: "n < 10 ^ Suc d \<Longrightarrow> length (to_string n) \<le> Suc d"
proof (induction n arbitrary: d rule: to_string.induct)
  case (1 n)
  show ?case
  proof (cases "n < 10")
    case False
    then obtain d' where d: "d = Suc d'" using 1(2) by (cases d) auto
    have "n div 10 < 10 ^ Suc d'" using 1(2) by (simp add: d div_less_iff_less_mult)
    then show ?thesis using 1(1) [OF False] False by (subst to_string.simps) (simp add: d)
  qed (subst to_string.simps, simp)
qed

lemma job_name_length:
  assumes "job_name stamp M k n" "\<forall>j. stamp j < 10 ^ 20" "M \<le> 10 ^ 20" "k < 10 ^ 20"
  shows "length n < 80"
proof -
  obtain j m where n: "n = ''seg_'' @ to_string (stamp j) @ ''_'' @ to_string m @ ''_'' @ to_string k @ ''.dat''" "m < M"
    using assms(1) by (auto simp: job_name_def)
  have "length (to_string (stamp j)) \<le> 20" "length (to_string m) \<le> 20" "length (to_string k) \<le> 20"
    using length_to_string [of "stamp j" 19] length_to_string [of m 19] length_to_string [of k 19] assms(2-4) n(2) by auto
  then show ?thesis by (simp add: n(1))
qed

subsection \<open>What is on disk\<close>

definition mems :: "ieee \<Rightarrow> runtime \<Rightarrow> versions" where
  "mems fp rt = layered (mem_versions fp) (rev (rt_frozen rt)) ++ mem_versions fp (rt_mem rt)"

text \<open>The versions a log stands for, the newest record last.\<close>

fun rec_version :: "u64 \<times> lrec \<Rightarrow> versions \<Rightarrow> versions" where
  "rec_version (q, LPut i v m) vs = vs(i \<mapsto> Some (Some v, kept_meta q m))"
| "rec_version (q, LDel i) vs = vs(i \<mapsto> None)"
| "rec_version (q, LRaw op k v) vs = vs"

definition log_versions :: "(u64 \<times> lrec) list \<Rightarrow> versions" where
  "log_versions recs = fold rec_version recs Map.empty"

definition stored :: "posix_env \<Rightarrow> string \<Rightarrow> string \<Rightarrow> seg_reader \<Rightarrow> bool" where
  "stored e d n r \<longleftrightarrow> seg_name n \<and> sr_path r = path_join d n \<and> ev_files e (sr_path r) = Some (sr_data r)"

text \<open>The log holds what the memtables hold; the segments the manifest names hold what the open segments hold,
  but for ids that are in the log.\<close>

definition on_disk :: "ieee \<Rightarrow> aes_gcm \<Rightarrow> posix_env \<Rightarrow> runtime \<Rightarrow> string list \<Rightarrow> seg_reader list \<Rightarrow> (u64 \<times> lrec) list \<Rightarrow> bool" where
  "on_disk fp aes e rt names segs recs \<longleftrightarrow>
     rt_dir rt = data_dir (rt_wal rt) \<and> log_holds aes e (rt_wal rt) recs \<and> mems fp rt = log_versions recs \<and>
     manifest_holds e (rt_dir rt) names \<and> list_all2 (stored e (rt_dir rt)) names segs \<and> list_all (seg_ok fp (rt_dim rt)) segs \<and>
     (\<forall>i. i \<notin> dom (log_versions recs) \<longrightarrow> layered (seg_versions fp) segs i = layered (seg_versions fp) (rt_segments rt) i)"

lemma stored_names_ok: "list_all2 (stored e d) names segs \<Longrightarrow> names_ok names"
  by (induction names segs rule: list_all2_induct) (auto simp: names_ok_def stored_def seg_name_def nl_def)

lemma on_disk_view:
  assumes "on_disk fp aes e rt names segs recs"
  shows "layered (seg_versions fp) segs ++ log_versions recs = layered (seg_versions fp) (rt_segments rt) ++ mems fp rt"
proof
  fix i
  show "(layered (seg_versions fp) segs ++ log_versions recs) i = (layered (seg_versions fp) (rt_segments rt) ++ mems fp rt) i"
    using assms by (cases "log_versions recs i") (auto simp: on_disk_def map_add_def)
qed

lemma rt_versions_mems: "rt_inv fp hash rt \<Longrightarrow> rt_versions fp rt = layered (seg_versions fp) (rt_segments rt) ++ mems fp rt"
  by (auto simp: rt_inv_def rt_versions_def mems_def stack_def)

subsection \<open>A freeze on disk\<close>

text \<open>The names of this job's segments are new, and the manifest with all of them can be written at once.\<close>

definition job_ok :: "ieee \<Rightarrow> (nat \<Rightarrow> nat) \<Rightarrow> runtime \<Rightarrow> string list \<Rightarrow> bool" where
  "job_ok fp stamp rt names \<longleftrightarrow> (\<forall>j. stamp j < 10 ^ 20) \<and> length (rt_frozen rt) \<le> 10 ^ 20 \<and>
     (\<forall>k n. job_name stamp (length (rt_frozen rt)) k n \<longrightarrow> n \<notin> set names) \<and>
     length (manifest_bytes names) + 80 * length (all_items fp (rt_frozen rt)) \<le> 2 ^ 32"

definition job_names :: "(nat \<Rightarrow> nat) \<Rightarrow> ieee \<Rightarrow> runtime \<Rightarrow> freeze_state \<Rightarrow> bool" where
  "job_names stamp fp rt f \<longleftrightarrow>
     (\<forall>(n, r)\<in>set (fz_built f). \<exists>k<fz_part f. job_name stamp (length (rt_frozen rt)) k n) \<and> length (fz_built f) = fz_part f \<and>
     (fz_builder f \<noteq> None \<longrightarrow> job_name stamp (length (rt_frozen rt)) (fz_part f) (fz_filename f)) \<and>
     fz_part f + (if fz_builder f = None then 0 else 1) \<le> length (fz_consumed fp f)"

definition fz_disk :: "segment_tools \<Rightarrow> aes_gcm \<Rightarrow> (nat \<Rightarrow> nat) \<Rightarrow> string list \<Rightarrow> seg_reader list \<Rightarrow> (u64 \<times> lrec) list \<Rightarrow> runtime \<Rightarrow>
    posix_env \<Rightarrow> runtime \<Rightarrow> freeze_state \<Rightarrow> bool" where
  "fz_disk tk aes stamp names segs recs rt0 e rt f \<longleftrightarrow>
     job_names stamp (tl_fp tk) rt0 f \<and> list_all2 (stored e (rt_dir rt0)) names segs \<and>
     (\<forall>(n, r)\<in>set (fz_built f). stored e (rt_dir rt0) n r) \<and> wal_cfg (rt_wal rt) = wal_cfg (rt_wal rt0) \<and>
     log_holds aes e (rt_wal rt) (if fz_phase f \<in> {kPublish, kDone} then [] else recs) \<and>
     manifest_holds e (rt_dir rt0) (if fz_phase f \<in> {kBuild, kFinalizeSegment, kCommitManifest} then names else map fst (fz_built f) @ names)"

lemma stored_frame:
  assumes "stored e d n r" "seg_name F" "n \<noteq> F" "\<forall>p. p \<notin> segment_files (path_join d F) \<longrightarrow> ev_files e' p = ev_files e p"
  shows "stored e' d n r"
proof -
  have n: "seg_name n" "sr_path r = path_join d n" using assms(1) by (simp_all add: stored_def)
  then have "path_join d n \<notin> segment_files (path_join d F)" using segment_files_dat [OF assms(2) n(1)] assms(3) by blast
  then show ?thesis using assms(1,4) n by (simp add: stored_def)
qed

lemma finish_segment_ok:
  assumes tk: "tools_ok tk" and b: "build_ok dim b" and full: "full_writes e (2 ^ 32)" and c: "calls_ok e"
    and i: "tl_index tk e b = (s1, e1)" "st_ok s1"
  shows "\<exists>r e'. finish_segment tk job e rt b = (Ok, Some r, e')"
proof -
  let ?es = "tl_sort tk (sb_entries b)" and ?q = "sq8_new (unat dim)"
  let ?F = "seg_file (tl_fp tk) (tl_tsort tk) (tl_padding tk) qNone dim ?q ?es"
  have S: "entry_sorts (tl_sort tk)" "time_sorts (tl_tsort tk)" "index_frame tk" using tk by (simp_all add: tools_ok_def)
  have B: "sb_dim b = dim" "sb_quant b = qNone" "fits dim (map sn_meta (sb_entries b))"
    "\<forall>e\<in>set (sb_entries b). \<not> sn_deleted e \<longrightarrow> length (sn_vec e) = unat dim" using b by (simp_all add: build_ok_def)
  have L: "laid_out (tl_fp tk) (tl_tsort tk) (tl_padding tk) qNone dim ?q ?es" by (rule fits_laid_out [OF S(1,2) B(3,4)])
  obtain s2 e2 b2 where f: "sb_Finish (tl_fp tk) (tl_sort tk) (tl_tsort tk) (tl_padding tk) e1 b = (s2, e2, b2)"
    by (cases "sb_Finish (tl_fp tk) (tl_sort tk) (tl_tsort tk) (tl_padding tk) e1 b")
  have I: "ev_chunk e1 = ev_chunk e" "ev_err e1 = ev_err e" using S(3) i unfolding index_frame_def by blast+
  have c1: "calls_ok e1" using c I(2) by (simp add: calls_ok_def)
  have "length ?F \<le> 2 ^ 32" using L by (simp add: laid_out_def)
  then have fw: "full_writes e1 (length ?F)" using full_writes_mono [of e1 "2 ^ 32"] full I(1) by (simp add: full_writes_def)
  have tr: "train (tl_fp tk) (sb_quant b) (unat (sb_dim b)) ?es = (Ok, ?q)" using L B by (simp add: laid_out_def well_formed_def)
  note R = sb_Finish_result [OF f refl tr, unfolded B(1,2), OF fw]
  have ok2: "st_ok s2" "calls_ok e2" using R c1 by (simp_all add: calls_ok_def)
  have fl: "ev_files e2 (sb_path b) = Some ?F" using R ok2(1) by blast
  have p2: "sb_path b2 = sb_path b" using f by (auto simp: sb_Finish_def Let_def split: prod.splits option.splits if_splits)
  obtain e3 where d: "FsyncDir e2 (rt_dir rt) = (Ok, e3)" using ok2(2) by (simp add: FsyncDir_def sys_ok)
  have e3: "calls_ok e3" "ev_files e3 (sb_path b) = Some ?F" using FsyncDir_frame [OF d] ok2(2) fl by (simp_all add: calls_ok_def)
  have "\<exists>t. sr_Open (tl_fp tk) e3 (sb_path b) =
      (Ok, Some (seg_opened (tl_fp tk) (sb_path b) (tl_tsort tk) (tl_padding tk) qNone dim ?q ?es), e3\<lparr>ev_tick := t\<rparr>)"
    using sr_Open_opened [OF L, of e3 "sb_path b"] e3 by simp
  then show ?thesis using i f d ok2(1) p2 by (auto simp: finish_segment_def)
qed

lemma build_disk:
  assumes disk: "fz_disk tk aes stamp names segs recs rt e rt f" and same: "same_built (tl_fp tk) (stamp n) f f'"
    and inv: "fz_inv tk T rt e rt f'" and ph: "fz_phase f = kBuild"
  shows "fz_disk tk aes stamp names segs recs rt e rt f'"
proof -
  have J: "job_names stamp (tl_fp tk) rt f" using disk by (simp add: fz_disk_def)
  have "job_name stamp (length (rt_frozen rt)) (fz_part f) (freeze_name (stamp n) f)" if "fz_builder f' \<noteq> None"
  proof -
    have "fz_mem_index f' < length (fz_memtables f') \<and> fz_memtables f' = rt_frozen rt" using inv that by (auto simp: fz_inv_def fz_progress_def)
    then have "fz_mem_index f < length (rt_frozen rt)" using same that by (auto simp: same_built_def)
    then show ?thesis unfolding job_name_def freeze_name_def by blast
  qed
  then have "job_names stamp (tl_fp tk) rt f'" using J same by (auto simp: job_names_def same_built_def)
  then show ?thesis using disk same ph by (auto simp: fz_disk_def same_built_def)
qed

lemma finalize_disk:
  assumes disk: "fz_disk tk aes stamp names segs recs rt e rt f" and ph: "fz_phase f = kFinalizeSegment" "fz_builder f \<noteq> None"
    and dir: "rt_dir rt = data_dir (rt_wal rt)" and jo: "job_ok (tl_fp tk) stamp rt names" and only: "only_job_files rt f e e'"
  shows "fz_disk tk aes stamp names segs recs rt e' rt f"
    "fz_built f' = fz_built f @ [(fz_filename f, r)] \<Longrightarrow> fz_part f' = fz_part f + 1 \<Longrightarrow> fz_builder f' = None \<Longrightarrow>
     fz_consumed (tl_fp tk) f' = fz_consumed (tl_fp tk) f \<Longrightarrow> fz_phase f' = kBuild \<Longrightarrow> sr_path r = path_join (rt_dir rt) (fz_filename f) \<Longrightarrow>
     ev_files e' (sr_path r) = Some (sr_data r) \<Longrightarrow> fz_disk tk aes stamp names segs recs rt e' rt f'"
proof -
  let ?F = "fz_filename f" and ?M = "length (rt_frozen rt)"
  have J: "job_names stamp (tl_fp tk) rt f" using disk by (simp add: fz_disk_def)
  have F: "job_name stamp ?M (fz_part f) ?F" using J ph(2) by (simp add: job_names_def)
  note SF = job_name_seg [OF F]
  have only': "ev_err e' = ev_err e" "\<forall>p. p \<notin> segment_files (path_join (rt_dir rt) ?F) \<longrightarrow> ev_files e' p = ev_files e p"
    using only by (simp_all add: only_job_files_def)
  have old: "list_all2 (stored e' (rt_dir rt)) names segs"
  proof (rule list_all2_all_nthI)
    have "list_all2 (stored e (rt_dir rt)) names segs" using disk by (simp add: fz_disk_def)
    then show "length names = length segs" "\<And>n. n < length names \<Longrightarrow> stored e' (rt_dir rt) (names ! n) (segs ! n)"
      using stored_frame [OF _ SF _ only'(2)] jo F by (auto simp: list_all2_conv_all_nth job_ok_def) (metis nth_mem)
  qed
  have new: "\<forall>(n, r)\<in>set (fz_built f). stored e' (rt_dir rt) n r"
  proof (clarify)
    fix n r assume n: "(n, r) \<in> set (fz_built f)"
    then obtain k where "k < fz_part f" "job_name stamp ?M k n" using J by (auto simp: job_names_def)
    then have "n \<noteq> ?F" using job_name_part [OF F] by auto
    then show "stored e' (rt_dir rt) n r" using stored_frame [OF _ SF _ only'(2)] disk n by (auto simp: fz_disk_def)
  qed
  have log: "log_holds aes e' (rt_wal rt) recs"
    by (rule log_holds_frame [of aes e]) (use disk ph only' wal_apart'(2) [OF SF] dir in \<open>auto simp: fz_disk_def\<close>)
  have man: "manifest_holds e' (rt_dir rt) names"
    using disk ph only'(2) segment_files_apart [OF SF] by (simp add: fz_disk_def manifest_holds_def)
  show "fz_disk tk aes stamp names segs recs rt e' rt f" using disk ph old new log man by (simp add: fz_disk_def)
  assume f': "fz_built f' = fz_built f @ [(?F, r)]" "fz_part f' = fz_part f + 1" "fz_builder f' = None"
     "fz_consumed (tl_fp tk) f' = fz_consumed (tl_fp tk) f" "fz_phase f' = kBuild" "sr_path r = path_join (rt_dir rt) ?F" "ev_files e' (sr_path r) = Some (sr_data r)"
  have "job_names stamp (tl_fp tk) rt f'" using J F ph(2) f' by (auto simp: job_names_def less_Suc_eq)
  then show "fz_disk tk aes stamp names segs recs rt e' rt f'" using old new log man SF f' by (simp add: fz_disk_def stored_def)
qed

lemma consumed_phase [simp]: "fz_consumed fp (f\<lparr>fz_phase := p\<rparr>) = fz_consumed fp f"
  by (cases "fz_cursor f") (simp_all add: fz_consumed_def fz_current_def)

lemma left_phase: "phase_steps p < phase_steps (fz_phase f) \<Longrightarrow> fz_left fp (f\<lparr>fz_phase := p\<rparr>) < fz_left fp f"
  by (simp add: fz_left_def)

lemma job_names_phase [simp]: "job_names stamp fp rt (f\<lparr>fz_phase := p\<rparr>) = job_names stamp fp rt f"
  by (simp add: job_names_def)

lemma sum_list_le: "(\<And>x. x \<in> set xs \<Longrightarrow> g x \<le> c) \<Longrightarrow> sum_list (map g xs) \<le> length xs * (c :: nat)"
  by (induction xs) (auto simp: add_mono)

lemma built_names_small:
  assumes j: "job_names stamp fp rt f" and jo: "job_ok fp stamp rt names" and p: "fz_progress tk T rt f" and fp: "fp = tl_fp tk"
  shows "length (manifest_bytes (map fst (fz_built f) @ names)) \<le> 2 ^ 32"
proof -
  let ?N = "length (all_items fp (rt_frozen rt))"
  have "length (fz_consumed fp f) \<le> ?N" using consumed_prefix [of f fp] p by (auto simp: fz_progress_def)
  then have N: "length (fz_built f) \<le> ?N" "?N \<le> 2 ^ 32" using j jo by (auto simp: job_names_def job_ok_def split: if_splits)
  have "length n + 1 \<le> 80" if n: "n \<in> set (map fst (fz_built f))" for n
  proof -
    obtain k where k: "k < fz_part f" "job_name stamp (length (rt_frozen rt)) k n" using j n unfolding job_names_def by fastforce
    then have "k < 10 ^ 20" using N j by (simp add: job_names_def)
    then show ?thesis using job_name_length [OF k(2)] jo by (simp add: job_ok_def)
  qed
  then have "sum_list (map (\<lambda>n. length n + 1) (map fst (fz_built f))) \<le> length (map fst (fz_built f)) * 80"
    using sum_list_le [of "map fst (fz_built f)" "\<lambda>n. length n + 1" 80] by blast
  then show ?thesis using N(1) jo by (simp add: length_manifest_bytes job_ok_def)
qed

lemma commit_disk:
  assumes disk: "fz_disk tk aes stamp names segs recs rt e rt f" and ph: "fz_phase f = kCommitManifest" and full: "full_writes e (2 ^ 32)"
    and dir: "rt_dir rt = data_dir (rt_wal rt)" and jo: "job_ok (tl_fp tk) stamp rt names" and p: "fz_progress tk T rt f"
  shows "\<exists>e' ph'. freeze_commit e rt f = Some (Inr (e', rt, f\<lparr>fz_phase := ph'\<rparr>)) \<and> ph' = (if fz_built f = [] then kResetWal else kInstall) \<and>
    fz_disk tk aes stamp names segs recs rt e' rt (f\<lparr>fz_phase := ph'\<rparr>)"
proof (cases "fz_built f = []")
  case True
  then show ?thesis using disk ph by (simp add: freeze_commit_def fz_disk_def)
next
  case False
  let ?d = "rt_dir rt" and ?new = "map fst (fz_built f) @ names"
  have D: "job_names stamp (tl_fp tk) rt f" "list_all2 (stored e ?d) names segs" "\<forall>(n, r)\<in>set (fz_built f). stored e ?d n r"
    "log_holds aes e (rt_wal rt) recs" "manifest_holds e ?d names" using disk ph by (simp_all add: fz_disk_def)
  note c = log_holds_calls [OF D(4)]
  obtain t where l: "sm_Load e ?d = (Ok, Some names, e\<lparr>ev_tick := t\<rparr>)" using sm_Load_holds [OF c D(5) stored_names_ok [OF D(2)]] by blast
  have "full_writes (e\<lparr>ev_tick := t\<rparr>) (length (manifest_bytes ?new))"
    using full_writes_mono [OF full built_names_small [OF D(1) jo p refl]] by (simp add: full_writes_def)
  then obtain e' where m: "sm_Commit (e\<lparr>ev_tick := t\<rparr>) ?d ?new = (Ok, e')" "ev_err e' = ev_err e" "manifest_holds e' ?d ?new"
      "\<forall>p. p \<notin> manifest_files ?d \<longrightarrow> ev_files e' p = ev_files e p"
    using sm_Commit_ok [of "e\<lparr>ev_tick := t\<rparr>" ?new ?d] c by auto
  have s: "stored e' ?d n r" if "stored e ?d n r" for n r
    using that m(4) manifest_files_apart [of n ?d] by (auto simp: stored_def)
  have "log_holds aes e' (rt_wal rt) recs"
    by (rule log_holds_frame [OF D(4) m(2)]) (use m(4) wal_apart'(1) dir in auto)
  moreover have "list_all2 (stored e' ?d) names segs" using D(2) s by (rule list_all2_mono)
  moreover have "\<forall>(n, r)\<in>set (fz_built f). stored e' ?d n r" using D(3) s by blast
  ultimately have "fz_disk tk aes stamp names segs recs rt e' rt (f\<lparr>fz_phase := kInstall\<rparr>)" using D(1) m(3) by (simp add: fz_disk_def)
  then show ?thesis using False l m(1) by (simp add: freeze_commit_def)
qed

lemma reset_disk:
  assumes disk: "fz_disk tk aes stamp names segs recs rt0 e rt f" and ph: "fz_phase f = kResetWal" and inv: "fz_inv tk T rt0 e rt f"
    and dir: "rt_dir rt0 = data_dir (rt_wal rt0)" and ne: "rt_frozen rt0 \<noteq> []"
  shows "\<exists>e' w. freeze_reset e rt f = Some (Inr (e', (installed f rt0)\<lparr>rt_frozen := [], rt_wal := w\<rparr>, f\<lparr>fz_phase := kPublish\<rparr>)) \<and>
    fz_disk tk aes stamp names segs recs rt0 e' ((installed f rt0)\<lparr>rt_frozen := [], rt_wal := w\<rparr>) (f\<lparr>fz_phase := kPublish\<rparr>)"
proof -
  let ?d = "rt_dir rt0"
  have I: "rt = installed f rt0" "fz_progress tk T rt0 f" "fz_epoch f = rt_epoch rt0" using inv ph by (simp_all add: fz_inv_def)
  have w: "rt_wal rt = rt_wal rt0" using I(1) by (simp add: installed_def)
  have D: "job_names stamp (tl_fp tk) rt0 f" "list_all2 (stored e ?d) names segs" "\<forall>(n, r)\<in>set (fz_built f). stored e ?d n r"
    "log_holds aes e (rt_wal rt0) recs" "manifest_holds e ?d (map fst (fz_built f) @ names)" using disk ph w by (simp_all add: fz_disk_def)
  obtain sg where "wal_log e (rt_wal rt0) sg" using D(4) by (auto simp: log_holds_def)
  from Wal_Reset_empties [OF this] obtain e' w' where r: "Wal_Reset e (rt_wal rt0) = Some (Ok, e', w')" "wal_log e' w' [[]]"
      "wal_cfg w' = wal_cfg (rt_wal rt0)" "wal_only (rt_wal rt0) e e'" by blast
  have t: "fz_target f = length (rt_frozen rt0)" using I(2) by (simp add: fz_progress_def)
  have step: "freeze_reset e rt f = Some (Inr (e', (installed f rt0)\<lparr>rt_frozen := [], rt_wal := w'\<rparr>, f\<lparr>fz_phase := kPublish\<rparr>))"
    using r(1) ne t I(1,3) by (simp add: freeze_reset_def Let_def installed_def)
  have same: "ev_files e' (path_join ?d x) = ev_files e (path_join ?d x)" for x
    using r(4) wal_apart [of "rt_wal rt0" _ x] dir unfolding wal_only_def by (metis rangeE)
  have s: "stored e' ?d n r" if "stored e ?d n r" for n r using that same by (auto simp: stored_def)
  have "log_holds aes e' w' []" using r(2) by (auto simp: log_holds_def intro!: exI [of _ "[[]]"])
  moreover have "manifest_holds e' ?d (map fst (fz_built f) @ names)" using D(5) same by (simp add: manifest_holds_def curr_path_def)
  moreover have "list_all2 (stored e' ?d) names segs" using D(2) s by (rule list_all2_mono)
  moreover have "\<forall>(n, r)\<in>set (fz_built f). stored e' ?d n r" using D(3) s by blast
  ultimately show ?thesis using step D(1) r(3) by (auto simp: fz_disk_def)
qed

definition index_ok :: "segment_tools \<Rightarrow> bool" where
  "index_ok tk \<longleftrightarrow> (\<forall>e b. calls_ok e \<longrightarrow> st_ok (fst (tl_index tk e b)))"

lemma finalize_step_disk:
  assumes tk: "tools_ok tk" and fz: "freezable (tl_fp tk) hash rt0" and inv: "fz_inv tk T rt0 e rt f"
    and disk: "fz_disk tk aes stamp names segs recs rt0 e rt f" and jo: "job_ok (tl_fp tk) stamp rt0 names" and dir: "rt_dir rt0 = data_dir (rt_wal rt0)"
    and kFinalizeSegment: "fz_phase f = kFinalizeSegment"
  shows "(\<exists>e' rt' f'. freeze_step tk e rt now (stamp n) f = Some (Inr (e', rt', f')) \<and> fz_inv tk T rt0 e' rt' f' \<and>
      fz_disk tk aes stamp names segs recs rt0 e' rt' f' \<and> fz_left (tl_fp tk) f' < fz_left (tl_fp tk) f) \<or>
    (\<exists>s e' rt'. freeze_step tk e rt now (stamp n) f = Some (Inl (s, e', rt')) \<and> fz_inv tk T rt0 e' rt' f \<and>
      fz_disk tk aes stamp names segs recs rt0 e' rt' f \<and> (index_ok tk \<longrightarrow> s = Ok) \<and> (st_ok s \<longrightarrow> fz_phase f = kDone))"
proof -
  have r: "rt = rt0" and b: "fz_builder f \<noteq> None" using inv kFinalizeSegment by (simp_all add: fz_inv_def)
  have P: "fz_progress tk T rt0 f" "full_writes e (2 ^ 32)" using inv kFinalizeSegment by (simp_all add: fz_inv_def)
  note F = finalize_disk [OF disk [unfolded r] kFinalizeSegment b dir jo]
  from freeze_finalize_step [OF tk fz inv [unfolded r] kFinalizeSegment] show ?thesis
  proof (elim disjE exE conjE)
    fix s e'
    assume s: "freeze_finalize tk e rt0 f = Some (Inl (s, e', rt0))" "\<not> st_ok s" "only_job_files rt0 f e e'"
    have "\<not> index_ok tk"
    proof
      assume i: "index_ok tk"
      obtain bb where bb: "fz_builder f = Some bb" using b by blast
      have c: "calls_ok e" using disk log_holds_calls by (auto simp: fz_disk_def)
      obtain s1 e1 where ix: "tl_index tk e bb = (s1, e1)" by (cases "tl_index tk e bb")
      have "st_ok s1" using i c ix unfolding index_ok_def by (metis fst_conv)
      from finish_segment_ok [OF tk pending_ok [OF fz P(1) bb] P(2) c ix this, of "''Freeze''" rt0] show False
        using s(1) bb by (auto simp: freeze_finalize_def Let_def)
    qed
    moreover have "fz_inv tk T rt0 e' rt0 f"
      using inv s(3) kFinalizeSegment r by (simp add: fz_inv_def only_job_files_def full_writes_def)
    ultimately show ?thesis using s F(1) [OF s(3)] kFinalizeSegment r by (auto simp: freeze_step_def)
  next
    fix e' f' x
    assume f': "freeze_finalize tk e rt0 f = Some (Inr (e', rt0, f'))" "fz_inv tk T rt0 e' rt0 f'" "fz_left (tl_fp tk) f' < fz_left (tl_fp tk) f"
      "only_job_files rt0 f e e'" "fz_built f' = fz_built f @ [(fz_filename f, x)]" "fz_part f' = fz_part f + 1" "fz_builder f' = None"
      "fz_consumed (tl_fp tk) f' = fz_consumed (tl_fp tk) f" "fz_phase f' = kBuild"
      "sr_path x = path_join (rt_dir rt0) (fz_filename f)" "ev_files e' (sr_path x) = Some (sr_data x)"
    then show ?thesis using F(2) [OF f'(4-11)] kFinalizeSegment r by (auto simp: freeze_step_def)
  qed
qed

lemma freeze_step_disk:
  assumes tk: "tools_ok tk" and fz: "freezable (tl_fp tk) hash rt0" and ne: "rt_frozen rt0 \<noteq> []" and inv: "fz_inv tk T rt0 e rt f" and now: "now \<le> T"
    and disk: "fz_disk tk aes stamp names segs recs rt0 e rt f" and jo: "job_ok (tl_fp tk) stamp rt0 names" and dir: "rt_dir rt0 = data_dir (rt_wal rt0)"
  shows "(\<exists>e' rt' f'. freeze_step tk e rt now (stamp n) f = Some (Inr (e', rt', f')) \<and> fz_inv tk T rt0 e' rt' f' \<and>
      fz_disk tk aes stamp names segs recs rt0 e' rt' f' \<and> fz_left (tl_fp tk) f' < fz_left (tl_fp tk) f) \<or>
    (\<exists>s e' rt'. freeze_step tk e rt now (stamp n) f = Some (Inl (s, e', rt')) \<and> fz_inv tk T rt0 e' rt' f \<and>
      fz_disk tk aes stamp names segs recs rt0 e' rt' f \<and> (index_ok tk \<longrightarrow> s = Ok) \<and> (st_ok s \<longrightarrow> fz_phase f = kDone))"
proof (cases "fz_phase f")
  case kBuild
  then have r: "rt = rt0" using inv by (simp add: fz_inv_def)
  then show ?thesis
    using freeze_build_step [OF fz inv [unfolded r] kBuild now, of "stamp n"] build_disk [OF disk [unfolded r] _ _ kBuild, of n] kBuild
    by (auto simp: freeze_step_def)
next
  case kFinalizeSegment
  then show ?thesis by (rule finalize_step_disk [OF tk fz inv disk jo dir])
next
  case kCommitManifest
  then have r: "rt = rt0" and P: "fz_progress tk T rt0 f" "full_writes e (2 ^ 32)" using inv by (simp_all add: fz_inv_def)
  obtain e' ph' where c: "freeze_commit e rt0 f = Some (Inr (e', rt0, f\<lparr>fz_phase := ph'\<rparr>))" "ph' = (if fz_built f = [] then kResetWal else kInstall)"
      "fz_disk tk aes stamp names segs recs rt0 e' rt0 (f\<lparr>fz_phase := ph'\<rparr>)"
    using commit_disk [OF disk [unfolded r] kCommitManifest P(2) dir jo P(1)] by blast
  have "fz_inv tk T rt0 e' rt0 (f\<lparr>fz_phase := ph'\<rparr>)" using inv kCommitManifest c(2) by (simp add: fz_inv_def installed_def)
  moreover have "fz_left (tl_fp tk) (f\<lparr>fz_phase := ph'\<rparr>) < fz_left (tl_fp tk) f" using kCommitManifest c(2) by (simp add: left_phase)
  ultimately show ?thesis using c(1,3) r kCommitManifest by (auto simp: freeze_step_def)
next
  case kInstall
  then have r: "rt = rt0" using inv by (simp add: fz_inv_def)
  have "fz_inv tk T rt0 e (installed f rt0) (f\<lparr>fz_phase := kResetWal\<rparr>)" using inv kInstall by (simp add: fz_inv_def)
  moreover have "fz_disk tk aes stamp names segs recs rt0 e (installed f rt0) (f\<lparr>fz_phase := kResetWal\<rparr>)"
    using disk kInstall r by (simp add: fz_disk_def installed_def)
  ultimately show ?thesis using kInstall r left_phase [of kResetWal f "tl_fp tk"] by (simp add: freeze_step_def freeze_install_def installed_def)
next
  case kResetWal
  obtain e' w where d: "freeze_reset e rt f = Some (Inr (e', (installed f rt0)\<lparr>rt_frozen := [], rt_wal := w\<rparr>, f\<lparr>fz_phase := kPublish\<rparr>))"
    "fz_disk tk aes stamp names segs recs rt0 e' ((installed f rt0)\<lparr>rt_frozen := [], rt_wal := w\<rparr>) (f\<lparr>fz_phase := kPublish\<rparr>)"
    using reset_disk [OF disk kResetWal inv dir ne] by blast
  moreover have "fz_inv tk T rt0 e' ((installed f rt0)\<lparr>rt_frozen := [], rt_wal := w\<rparr>) (f\<lparr>fz_phase := kPublish\<rparr>)"
    using inv kResetWal by (auto simp: fz_inv_def)
  ultimately show ?thesis using kResetWal left_phase [of kPublish f "tl_fp tk"] by (auto simp: freeze_step_def)
next
  case kPublish
  have "fz_inv tk T rt0 e (PublishSnapshot rt) (f\<lparr>fz_phase := kDone\<rparr>)" using inv kPublish by (auto simp: fz_inv_def)
  moreover have "fz_disk tk aes stamp names segs recs rt0 e (PublishSnapshot rt) (f\<lparr>fz_phase := kDone\<rparr>)"
    using disk kPublish by (simp add: fz_disk_def PublishSnapshot_def)
  ultimately show ?thesis using kPublish left_phase [of kDone f "tl_fp tk"] by (simp add: freeze_step_def)
next
  case kDone
  then show ?thesis using inv disk by (simp add: freeze_step_def)
next
  case kCleanup
  then show ?thesis using inv by (simp add: fz_inv_def)
qed

lemma freeze_pump_disk:
  assumes tk: "tools_ok tk" and fz: "freezable (tl_fp tk) hash rt0" and ne: "rt_frozen rt0 \<noteq> []" and now: "\<forall>n. now n \<le> T"
    and jo: "job_ok (tl_fp tk) stamp rt0 names" and dir: "rt_dir rt0 = data_dir (rt_wal rt0)"
    and inv: "fz_inv tk T rt0 e rt f" and disk: "fz_disk tk aes stamp names segs recs rt0 e rt f"
  shows "\<exists>s e' rt' f'. freeze_pump tk now stamp fuel e rt f = Some (s, e', rt') \<and> fz_inv tk T rt0 e' rt' f' \<and>
    fz_disk tk aes stamp names segs recs rt0 e' rt' f' \<and> (index_ok tk \<and> fz_left (tl_fp tk) f < fuel \<longrightarrow> s = Ok) \<and>
    (st_ok s \<longrightarrow> fz_phase f' = kDone)"
  using inv disk
proof (induction fuel arbitrary: e rt f)
  case (Suc n)
  from freeze_step_disk [OF tk fz ne Suc.prems(1) spec [OF now] Suc.prems(2) jo dir, of n n] show ?case
  proof (elim disjE exE conjE)
    fix e1 rt1 f1
    assume s: "freeze_step tk e rt (now n) (stamp n) f = Some (Inr (e1, rt1, f1))" "fz_inv tk T rt0 e1 rt1 f1"
      "fz_disk tk aes stamp names segs recs rt0 e1 rt1 f1" "fz_left (tl_fp tk) f1 < fz_left (tl_fp tk) f"
    obtain st e' rt' f' where r: "freeze_pump tk now stamp n e1 rt1 f1 = Some (st, e', rt')" "fz_inv tk T rt0 e' rt' f'"
        "fz_disk tk aes stamp names segs recs rt0 e' rt' f'" "index_ok tk \<and> fz_left (tl_fp tk) f1 < n \<longrightarrow> st = Ok"
        "st_ok st \<longrightarrow> fz_phase f' = kDone"
      using Suc.IH [OF s(2,3)] by blast
    have "index_ok tk \<and> fz_left (tl_fp tk) f < Suc n \<longrightarrow> st = Ok" using r(4) s(4) by auto
    then show ?thesis using s(1) r(1-3,5) by (intro exI [of _ st] exI [of _ e'] exI [of _ rt'] exI [of _ f']) simp
  next
    fix st e' rt'
    assume "freeze_step tk e rt (now n) (stamp n) f = Some (Inl (st, e', rt'))" "fz_inv tk T rt0 e' rt' f"
      "fz_disk tk aes stamp names segs recs rt0 e' rt' f" "index_ok tk \<longrightarrow> st = Ok" "st_ok st \<longrightarrow> fz_phase f = kDone"
    then show ?thesis by (intro exI [of _ st] exI [of _ e'] exI [of _ rt'] exI [of _ f]) simp
  qed
qed auto

subsection \<open>Where a freeze leaves the disk\<close>

lemma fz_disk_on_disk:
  assumes tk: "tools_ok tk" and fz: "freezable (tl_fp tk) hash rt0" and od: "on_disk (tl_fp tk) aes e0 rt0 names segs recs"
    and mt: "mem_versions (tl_fp tk) (rt_mem rt0) = Map.empty"
    and inv: "fz_inv tk T rt0 e rt f" and disk: "fz_disk tk aes stamp names segs recs rt0 e rt f"
  shows "\<exists>names' segs' recs'. on_disk (tl_fp tk) aes e rt names' segs' recs' \<and> set recs' \<subseteq> set recs \<and>
    (fz_phase f = kDone \<longrightarrow> recs' = []) \<and> rt_cfg rt = rt_cfg rt0 \<and> wal_cfg (rt_wal rt) = wal_cfg (rt_wal rt0)"
proof -
  let ?fp = "tl_fp tk" and ?news = "map snd (fz_built f)" and ?new = "map fst (fz_built f)" and ?d = "rt_dir rt0"
  have O: "rt_dir rt0 = data_dir (rt_wal rt0)" "mems ?fp rt0 = log_versions recs" "list_all (seg_ok ?fp (rt_dim rt0)) segs"
    "\<And>i. i \<notin> dom (log_versions recs) \<Longrightarrow> layered (seg_versions ?fp) segs i = layered (seg_versions ?fp) (rt_segments rt0) i"
    using od by (simp_all add: on_disk_def)
  have D: "list_all2 (stored e ?d) names segs" "wal_cfg (rt_wal rt) = wal_cfg (rt_wal rt0)" "\<forall>(n, r)\<in>set (fz_built f). stored e ?d n r"
    using disk by (simp_all add: fz_disk_def)
  have "list_all2 (stored e ?d) ?new ?news" using D(3) by (simp add: list_all2_map1 list_all2_map2 list_all2_same case_prod_unfold)
  then have st: "list_all2 (stored e ?d) (?new @ names) (?news @ segs)" using D(1) by (rule list_all2_appendI)
  have dir: "data_dir (rt_wal rt) = ?d" using O(1) D(2) by (simp add: data_dir_def wal_cfg_def)
  have c: "rt_cfg rt = rt_cfg rt0" "rt_dir rt = ?d" "rt_dim rt = rt_dim rt0"
    using inv by (auto simp: fz_inv_def rt_cfg_def installed_def PublishSnapshot_def split: Phase.splits)
  show ?thesis
  proof (cases "fz_phase f \<in> {kBuild, kFinalizeSegment, kCommitManifest}")
    case True
    then have "rt = rt0" using inv by (auto simp: fz_inv_def)
    then have "on_disk ?fp aes e rt names segs recs" using True disk od O by (auto simp: on_disk_def fz_disk_def)
    then show ?thesis using c(1) D(2) True by (intro exI [of _ names] exI [of _ segs] exI [of _ recs]) auto
  next
    case False
    then have P: "fz_progress tk T rt0 f" "fz_complete tk rt0 f" using inv by (auto simp: fz_inv_def split: Phase.splits)
    note C = complete_segments [OF tk fz P]
    have m: "dom (layered (seg_versions ?fp) ?news) = dom (log_versions recs)"
      using fades_dom [OF C(2)] mt unfolding O(2) [symmetric] mems_def by (simp add: dom_layered)
    have ok: "list_all (seg_ok ?fp (rt_dim rt0)) (?news @ segs)" using C(1) O(3) by simp
    have v1: "layered (seg_versions ?fp) (?news @ segs) i = layered (seg_versions ?fp) (rt_segments rt0) i" if "i \<notin> dom (log_versions recs)" for i
      using that O(4) [OF that] m by (auto simp: layered_append map_add_def split: option.split)
    have v2: "layered (seg_versions ?fp) (?news @ segs) i = layered (seg_versions ?fp) (?news @ rt_segments rt0) i" for i
      using O(4) [of i] m by (cases "layered (seg_versions ?fp) ?news i") (auto simp: layered_append map_add_def)
    show ?thesis
    proof (cases "fz_phase f \<in> {kPublish, kDone}")
      case True
      then have "mems ?fp rt = Map.empty" "rt_segments rt = ?news @ rt_segments rt0"
        using inv mt by (auto simp: fz_inv_def mems_def installed_def PublishSnapshot_def)
      then have "on_disk ?fp aes e rt (?new @ names) (?news @ segs) []"
        using True disk st ok v2 c dir by (auto simp: on_disk_def fz_disk_def log_versions_def)
      then show ?thesis using c(1) D(2) by (intro exI [of _ "?new @ names"] exI [of _ "?news @ segs"] exI [of _ "[]"]) simp
    next
      case F: False
      have r: "mems ?fp rt = mems ?fp rt0" "rt_segments rt = rt_segments rt0 \<or> rt_segments rt = ?news @ rt_segments rt0"
        using inv False F by (auto simp: fz_inv_def mems_def installed_def split: Phase.splits)
      then have v: "\<forall>i. i \<notin> dom (log_versions recs) \<longrightarrow> layered (seg_versions ?fp) (?news @ segs) i = layered (seg_versions ?fp) (rt_segments rt) i"
        using v1 v2 by metis
      have "on_disk ?fp aes e rt (?new @ names) (?news @ segs) recs"
        using False F disk st ok v c(2,3) dir O(2) r(1) by (simp add: on_disk_def fz_disk_def)
      then show ?thesis using c(1) D(2) F by blast
    qed
  qed
qed

lemma count_items:
  assumes "mt_inv hash mt"
  shows "mt_GetCount mt = length (mt_IterateWithMetadata fp mt)"
proof -
  have "length (fh_slots (mt_map mt)) = fh_cap (mt_map mt)" using mt_inv_flat [OF assms(1)] by (simp add: flat_inv_def slots_ok_def)
  then show ?thesis
    using mt_inv_flat [OF assms(1)] card_occupied_filter [of "fh_slots (mt_map mt)"]
    by (simp add: flat_inv_def mt_GetCount_def fh_ForEach_def mt_IterateWithMetadata_def)
qed

lemma empty_table:
  assumes "mt_inv hash mt"
  shows "mt_GetCount mt = 0 \<longleftrightarrow> mem_versions fp mt = Map.empty"
  using dom_items [of "mt_IterateWithMetadata fp mt"] unfolding count_items [OF assms, of fp] mem_versions_items(1) [OF assms] by auto

lemma to_freeze_on_disk:
  assumes inv: "rt_inv fp hash rt" and od: "on_disk fp aes e rt names segs recs"
  shows "on_disk fp aes e (to_freeze rt) names segs recs" "mem_versions fp (rt_mem (to_freeze rt)) = Map.empty" "rt_cfg (to_freeze rt) = rt_cfg rt"
    "rt_wal (to_freeze rt) = rt_wal rt"
proof -
  have mem: "mt_inv hash (rt_mem rt)" "\<not> rt_quantize_inmem rt" "4 * unat (rt_dim rt) \<le> 2 ^ 20" using inv by (simp_all add: rt_inv_def mem_ok_def)
  note n = mem_new(2) [OF mem(3), of fp]
  have m: "mem_versions fp (rt_mem (to_freeze rt)) = Map.empty \<and> mems fp (to_freeze rt) = mems fp rt"
    using mem(2) n empty_table [OF mem(1), of fp]
    by (auto simp: to_freeze_def RotateMemTable_def PublishSnapshot_def mems_def layered_append)
  then show "mem_versions fp (rt_mem (to_freeze rt)) = Map.empty" by blast
  show "rt_cfg (to_freeze rt) = rt_cfg rt" "rt_wal (to_freeze rt) = rt_wal rt" by (simp_all add: to_freeze_def rt_cfg_def)
  have "rt_dir (to_freeze rt) = rt_dir rt" "rt_dim (to_freeze rt) = rt_dim rt" "rt_segments (to_freeze rt) = rt_segments rt" "rt_wal (to_freeze rt) = rt_wal rt"
    by (simp_all add: to_freeze_def)
  then show "on_disk fp aes e (to_freeze rt) names segs recs" using od m by (auto simp: on_disk_def)
qed

lemma rt_Freeze_disk:
  assumes tk: "tools_ok tk" and inv: "rt_inv (tl_fp tk) hash rt" and st: "rt_started rt" and fz: "freezable (tl_fp tk) hash (to_freeze rt)"
    and full: "full_writes e (2 ^ 32)" and now: "\<forall>n. now n \<le> T"
    and od: "on_disk (tl_fp tk) aes e rt names segs recs" and jo: "job_ok (tl_fp tk) stamp (to_freeze rt) names"
  shows "\<exists>s e' rt' names' segs' recs'. rt_Freeze tk now stamp fuel e rt = Some (s, e', rt') \<and>
    on_disk (tl_fp tk) aes e' rt' names' segs' recs' \<and> set recs' \<subseteq> set recs \<and> rt_cfg rt' = rt_cfg rt \<and> wal_cfg (rt_wal rt') = wal_cfg (rt_wal rt) \<and>
    (index_ok tk \<and> 3 * (length (all_items (tl_fp tk) (rt_frozen (to_freeze rt))) + length (rt_frozen (to_freeze rt))) + 6 < fuel \<longrightarrow> s = Ok) \<and>
    (st_ok s \<and> rt_frozen (to_freeze rt) \<noteq> [] \<longrightarrow> recs' = [])"
proof -
  let ?fp = "tl_fp tk" and ?r = "to_freeze rt"
  note O = to_freeze_on_disk [OF inv od]
  show ?thesis
  proof (cases "rt_frozen ?r = []")
    case True
    then show ?thesis using st O by (auto simp: rt_Freeze_def HandleFreeze_unfold)
  next
    case False
    have d: "rt_dir ?r = data_dir (rt_wal ?r)" using O(1) by (simp add: on_disk_def)
    have "fz_disk tk aes stamp names segs recs ?r e ?r (freeze_start ?r)"
      using O(1) by (auto simp: fz_disk_def freeze_start_def job_names_def on_disk_def)
    from freeze_pump_disk [OF tk fz False now jo d freeze_start_inv [OF full] this, of fuel]
    obtain s e' rt' f' where P: "freeze_pump tk now stamp fuel e ?r (freeze_start ?r) = Some (s, e', rt')" "fz_inv tk T ?r e' rt' f'"
      "fz_disk tk aes stamp names segs recs ?r e' rt' f'" "index_ok tk \<and> fz_left ?fp (freeze_start ?r) < fuel \<longrightarrow> s = Ok"
      "st_ok s \<longrightarrow> fz_phase f' = kDone" by blast
    have "fz_left ?fp (freeze_start ?r) = 3 * (length (all_items ?fp (rt_frozen ?r)) + length (rt_frozen ?r)) + 6"
      by (simp add: fz_left_def freeze_start_def fz_consumed_def fz_current_def all_items_def)
    moreover have "rt_Freeze tk now stamp fuel e rt = Some (s, e', rt')" using st False P(1) by (simp add: rt_Freeze_def HandleFreeze_unfold)
    ultimately show ?thesis using fz_disk_on_disk [OF tk fz O(1,2) P(2,3)] P(4,5) O(3,4) by (simp, metis)
  qed
qed

end
