(* ===== verification/Vector_Engine.thy ===== *)
theory Vector_Engine
  imports Freeze_Disk
begin

text \<open>
  The vector engine (\<open>src/core/vector_engine/vector_engine.cc\<close>): opening a membrane's log, replaying it,
  loading its segments, and the calls it passes on to the runtime; and the way the embedded database
  (\<open>src/database.cc\<close>) opens the same runtime.  The searches are not modelled.  The lemmas say what a write and an open do to
  the directory.
\<close>

subsection \<open>Definitions\<close>

definition kArenaBlockBytes :: nat where "kArenaBlockBytes = 2 ^ 20"
definition kWalSegmentBytes :: nat where "kWalSegmentBytes = 64 * 2 ^ 20"

text \<open>The options of a database that reach the engine.\<close>

record ve_options =
  vo_path :: string
  vo_dim :: u32
  vo_fsync :: FsyncPolicy
  vo_encryption :: bool
  vo_key_hex :: string
  vo_quantization :: bool
  vo_quant :: SegmentQuant
  vo_window :: u32
  vo_batch_size :: u32

record vector_engine =
  ve_opt :: ve_options
  ve_vector :: bool
  ve_ttl :: u32
  ve_opened :: bool
  ve_runtime :: "runtime option"

definition VectorEngine :: "ve_options \<Rightarrow> bool \<Rightarrow> u32 \<Rightarrow> vector_engine" where
  "VectorEngine opt vector ttl = \<lparr>ve_opt = opt, ve_vector = vector, ve_ttl = ttl, ve_opened = False, ve_runtime = None\<rparr>"

definition EnsureOpen :: "vector_engine \<Rightarrow> status" where
  "EnsureOpen ve =
     (if \<not> ve_opened ve then InvalidArgument ''vector_engine not opened''
      else if \<not> ve_vector ve then InvalidArgument ''vector_engine requires VECTOR membrane''
      else if vo_dim (ve_opt ve) = 0 then InvalidArgument ''vector_engine requires dim > 0''
      else Ok)"

definition ValidateVector :: "vector_engine \<Rightarrow> VectorView \<Rightarrow> status" where
  "ValidateVector ve v = (if vv_dim v \<noteq> vo_dim (ve_opt ve) then InvalidArgument ''vector_engine dim mismatch'' else Ok)"

definition engine_wal :: "ve_options \<Rightarrow> wal" where
  "engine_wal opt = Wal_new (vo_path opt) 0 kWalSegmentBytes (vo_fsync opt) (vo_encryption opt) (vo_key_hex opt)"

definition OpenLocked :: "ieee \<Rightarrow> (u64 \<Rightarrow> u64) \<Rightarrow> aes_gcm \<Rightarrow> posix_env \<Rightarrow> vector_engine \<Rightarrow> (status \<times> posix_env \<times> vector_engine) option" where
  "OpenLocked fp hash aes e ve =
     (let opt = ve_opt ve in
      if \<not> ve_vector ve then Some (InvalidArgument ''vector_engine only supports VECTOR membranes'', e, ve)
      else if vo_dim opt = 0 then Some (InvalidArgument ''vector_engine requires dim > 0'', e, ve)
      else case CreateDirIfMissing e (vo_path opt) of (s, e) \<Rightarrow>
        if \<not> st_ok s then Some (IOError ''vector_engine CreateDirIfMissing failed'', e, ve) else
        case Wal_Open e (engine_wal opt) of
          None \<Rightarrow> None
        | Some (s, e, w) \<Rightarrow>
            if \<not> st_ok s then Some (s, e, ve) else
            let quantize_inmem = (vo_quantization opt \<and> vo_quant opt \<noteq> qNone) in
            case Wal_ReplayInto fp hash aes e w (MemTable_new (vo_dim opt) kArenaBlockBytes quantize_inmem) of
              None \<Rightarrow> None
            | Some (s, e, w, mem) \<Rightarrow>
                if \<not> st_ok s then Some (s, e, ve) else
                let data_dir = path_join (vo_path opt) ''data'';
                    e = snd (fs_create_directories e data_dir);
                    rt = VectorRuntime data_dir (vo_dim opt) True w mem (vo_quant opt) quantize_inmem (vo_window opt) (vo_batch_size opt) (ve_ttl ve)
                in case rt_Start fp e rt of (s, e, rt) \<Rightarrow>
                   if \<not> st_ok s then Some (s, e, ve\<lparr>ve_runtime := None\<rparr>)
                   else Some (Ok, e, ve\<lparr>ve_runtime := Some rt, ve_opened := True\<rparr>))"

definition ve_Open :: "ieee \<Rightarrow> (u64 \<Rightarrow> u64) \<Rightarrow> aes_gcm \<Rightarrow> posix_env \<Rightarrow> vector_engine \<Rightarrow> (status \<times> posix_env \<times> vector_engine) option" where
  "ve_Open fp hash aes e ve = (if ve_opened ve then Some (Ok, e, ve) else OpenLocked fp hash aes e ve)"

definition ve_Close :: "vector_engine \<Rightarrow> status \<times> vector_engine" where
  "ve_Close ve = (Ok, if ve_opened ve then ve\<lparr>ve_runtime := None, ve_opened := False\<rparr> else ve)"

text \<open>A call on the runtime behind the check; an open engine always has one.\<close>

definition on_runtime :: "vector_engine \<Rightarrow> posix_env \<Rightarrow> (posix_env \<Rightarrow> runtime \<Rightarrow> status \<times> posix_env \<times> runtime) \<Rightarrow> status \<times> posix_env \<times> vector_engine" where
  "on_runtime ve e f =
     (let s = EnsureOpen ve in
      if \<not> st_ok s then (s, e, ve)
      else case ve_runtime ve of
        None \<Rightarrow> (NullImpl, e, ve)
      | Some rt \<Rightarrow> (case f e rt of (s, e, rt) \<Rightarrow> (s, e, ve\<lparr>ve_runtime := Some rt\<rparr>)))"

definition ve_Put :: "ieee \<Rightarrow> (u64 \<Rightarrow> u64) \<Rightarrow> aes_gcm \<Rightarrow> u64 \<Rightarrow> posix_env \<Rightarrow> vector_engine \<Rightarrow> VectorId \<Rightarrow> VectorView \<Rightarrow> Metadata \<Rightarrow>
    status \<times> posix_env \<times> vector_engine" where
  "ve_Put fp hash aes clock e ve i v meta =
     on_runtime ve e (\<lambda>e rt. let s = ValidateVector ve v in if \<not> st_ok s then (s, e, rt) else rt_Put fp hash aes clock e rt i v meta)"

definition ve_PutBatch :: "(u64 \<Rightarrow> u64) \<Rightarrow> aes_gcm \<Rightarrow> posix_env \<Rightarrow> vector_engine \<Rightarrow> VectorId list \<Rightarrow> VectorView list \<Rightarrow>
    status \<times> posix_env \<times> vector_engine" where
  "ve_PutBatch hash aes e ve ids vs =
     on_runtime ve e (\<lambda>e rt.
       if length ids \<noteq> length vs then (InvalidArgument ''vector_engine ids/vectors size mismatch'', e, rt)
       else case find (\<lambda>v. \<not> st_ok (ValidateVector ve v)) vs of
         Some v \<Rightarrow> (ValidateVector ve v, e, rt)
       | None \<Rightarrow> if ids = [] then (Ok, e, rt) else rt_PutBatch hash aes e rt ids vs)"

definition ve_Get :: "ieee \<Rightarrow> (u64 \<Rightarrow> u64) \<Rightarrow> u64 \<Rightarrow> vector_engine \<Rightarrow> VectorId \<Rightarrow> status \<times> (VectorView option \<times> Metadata) option" where
  "ve_Get fp hash now ve i =
     (let s = EnsureOpen ve in
      if \<not> st_ok s then (s, None) else case ve_runtime ve of None \<Rightarrow> (NullImpl, None) | Some rt \<Rightarrow> rt_Get fp hash now rt i)"

definition ve_Exists :: "ieee \<Rightarrow> (u64 \<Rightarrow> u64) \<Rightarrow> u64 \<Rightarrow> vector_engine \<Rightarrow> VectorId \<Rightarrow> status \<times> bool" where
  "ve_Exists fp hash now ve i =
     (let s = EnsureOpen ve in
      if \<not> st_ok s then (s, False) else case ve_runtime ve of None \<Rightarrow> (NullImpl, False) | Some rt \<Rightarrow> rt_Exists fp hash now rt i)"

definition ve_Delete :: "ieee \<Rightarrow> (u64 \<Rightarrow> u64) \<Rightarrow> aes_gcm \<Rightarrow> posix_env \<Rightarrow> vector_engine \<Rightarrow> VectorId \<Rightarrow> status \<times> posix_env \<times> vector_engine" where
  "ve_Delete fp hash aes e ve i = on_runtime ve e (\<lambda>e rt. rt_Delete fp hash aes e rt i)"

definition ve_Flush :: "posix_env \<Rightarrow> vector_engine \<Rightarrow> status \<times> posix_env \<times> vector_engine" where
  "ve_Flush e ve = on_runtime ve e (\<lambda>e rt. case rt_Flush e rt of (s, e) \<Rightarrow> (s, e, rt))"

definition on_runtime_job :: "vector_engine \<Rightarrow> posix_env \<Rightarrow> (posix_env \<Rightarrow> runtime \<Rightarrow> (status \<times> posix_env \<times> runtime) option) \<Rightarrow>
    (status \<times> posix_env \<times> vector_engine) option" where
  "on_runtime_job ve e job =
     (let s = EnsureOpen ve in
      if \<not> st_ok s then Some (s, e, ve)
      else case ve_runtime ve of
        None \<Rightarrow> Some (NullImpl, e, ve)
      | Some rt \<Rightarrow> map_option (\<lambda>(s, e, rt). (s, e, ve\<lparr>ve_runtime := Some rt\<rparr>)) (job e rt))"

definition ve_Freeze :: "segment_tools \<Rightarrow> (nat \<Rightarrow> u64) \<Rightarrow> (nat \<Rightarrow> nat) \<Rightarrow> nat \<Rightarrow> posix_env \<Rightarrow> vector_engine \<Rightarrow> (status \<times> posix_env \<times> vector_engine) option" where
  "ve_Freeze tk now stamp fuel e ve = on_runtime_job ve e (rt_Freeze tk now stamp fuel)"

definition ve_Compact :: "segment_tools \<Rightarrow> (nat \<Rightarrow> u64) \<Rightarrow> (nat \<Rightarrow> nat) \<Rightarrow> nat \<Rightarrow> posix_env \<Rightarrow> vector_engine \<Rightarrow> (status \<times> posix_env \<times> vector_engine) option" where
  "ve_Compact tk now stamp fuel e ve = on_runtime_job ve e (rt_Compact tk now stamp fuel)"

text \<open>The embedded database: its vector pod, whose start result is dropped.\<close>

definition embedded_wal :: "ve_options \<Rightarrow> wal" where
  "embedded_wal opt = Wal_new (vo_path opt @ ''/vectors'') 0 (2 ^ 30) (vo_fsync opt) (vo_encryption opt) (vo_key_hex opt)"

definition embedded_Open :: "ieee \<Rightarrow> posix_env \<Rightarrow> ve_options \<Rightarrow> (status \<times> posix_env \<times> runtime option) option" where
  "embedded_Open fp e opt =
     (case Wal_Open e (embedded_wal opt) of
        None \<Rightarrow> None
      | Some (s, e, w) \<Rightarrow>
          if \<not> st_ok s then Some (s, e, None)
          else
            let rt = VectorRuntime (vo_path opt @ ''/vectors'') (vo_dim opt) True w (MemTable_new (vo_dim opt) (128 * 2 ^ 20) False) (vo_quant opt) False 0 256 0
            in case rt_Start fp e rt of (_, e, rt) \<Rightarrow> Some (Ok, e, Some rt))"

subsection \<open>Writes\<close>

fun rec_ok :: "u32 \<Rightarrow> lrec \<Rightarrow> bool" where
  "rec_ok dim (LPut i v m) \<longleftrightarrow> i \<noteq> sentinel \<and> length v = unat dim \<and> (md_tenant m \<noteq> '''' \<or> \<not> has_meta m)"
| "rec_ok dim (LDel i) \<longleftrightarrow> i \<noteq> sentinel"
| "rec_ok dim (LRaw op k v) \<longleftrightarrow> True"

lemma rec_version_op: "rec_version (q, op_rec x) vs = op_effect q x vs"
  by (cases x) simp_all

lemma mems_mem:
  "mem_versions fp mt = (mem_versions fp (rt_mem rt))(i \<mapsto> x) \<Longrightarrow> mems fp (rt\<lparr>rt_mem := mt\<rparr>) = (mems fp rt)(i \<mapsto> x)"
  by (simp add: mems_def)

lemma mems_rotate: "rt_inv fp hash rt \<Longrightarrow> mems fp (RotateMemTable rt) = mems fp rt"
  using mem_new(2) [of "rt_dim rt" fp] by (auto simp: RotateMemTable_def PublishSnapshot_def mems_def layered_append rt_inv_def)

lemma mems_other [simp]:
  "mems fp (rt\<lparr>rt_wal := w\<rparr>) = mems fp rt" "mems fp (rt\<lparr>rt_epoch := n\<rparr>) = mems fp rt" "mems fp (rt\<lparr>rt_ops := n\<rparr>) = mems fp rt"
  by (simp_all add: mems_def)

lemma rt_do_mems:
  assumes inv: "rt_inv fp hash rt" and i: "op_id x \<noteq> sentinel" and w: "rt_window rt = 0" and ok: "st_ok s"
    and r: "rt_do fp hash aes clock e rt x = (s, e', rt')"
  shows "mems fp rt' = op_effect (wal_seq (rt_wal rt')) x (mems fp rt)"
proof (cases x)
  case (RtDelete j)
  have mem: "mem_ok hash (rt_dim rt) (rt_mem rt)" using inv by (simp add: rt_inv_def)
  obtain s1 e1 w1 where a: "Wal_AppendDelete aes e (rt_wal rt) j = (s1, e1, w1)" by (cases "Wal_AppendDelete aes e (rt_wal rt) j")
  obtain s2 m2 where d: "mt_Delete fp hash (rt_mem rt) j = (s2, m2)" by (cases "mt_Delete fp hash (rt_mem rt) j")
  have j: "j \<noteq> sentinel" using i RtDelete by simp
  have "mems fp (rt\<lparr>rt_mem := m2\<rparr>) = (mems fp rt)(j \<mapsto> None)" by (rule mems_mem [OF mem_Delete(3) [OF mem j d]])
  then have "mems fp (rt\<lparr>rt_wal := w1, rt_epoch := rt_epoch rt + 1, rt_mem := m2\<rparr>) = (mems fp rt)(j \<mapsto> None)" by (simp add: mems_def)
  then show ?thesis
    using r RtDelete a d ok by (auto simp: rt_Delete_def HandleDel_def count_op_def Let_def split: if_splits)
next
  case (RtPut j v m)
  have mem: "mem_ok hash (rt_dim rt) (rt_mem rt)" using inv by (simp add: rt_inv_def)
  obtain s1 e1 w1 where a: "Wal_AppendPut aes e (rt_wal rt) j v m = (s1, e1, w1)" by (cases "Wal_AppendPut aes e (rt_wal rt) j v m")
  obtain s2 m2 where d: "mt_Put fp hash (rt_mem rt) j v (m\<lparr>md_lsn := wal_seq w1\<rparr>) = (s2, m2)"
    by (cases "mt_Put fp hash (rt_mem rt) j v (m\<lparr>md_lsn := wal_seq w1\<rparr>)")
  have j: "j \<noteq> sentinel" using i RtPut by simp
  have l: "length v = unat (rt_dim rt)" using r RtPut ok by (auto simp: rt_Put_def split: if_splits)
  let ?r = "rt\<lparr>rt_wal := w1, rt_epoch := rt_epoch rt + 1, rt_mem := m2\<rparr>"
  note D = mem_Put [OF mem j l d]
  have m: "mems fp ?r = (mems fp rt)(j \<mapsto> Some (Some v, kept_meta (wal_seq w1) m))" using D(3) by (simp add: mems_def)
  have "rt_inv fp hash ?r" using rt_inv_mem(1) [OF inv D(2)] by (simp add: rt_inv_def)
  then have "mems fp (RotateMemTable ?r) = mems fp ?r" by (rule mems_rotate)
  then show ?thesis
    using r RtPut a d ok m w by (auto simp: rt_Put_def HandlePut_def count_op_def Let_def split: if_splits)
qed

lemma rt_do_disk:
  assumes inv: "rt_inv fp hash rt" and i: "op_id x \<noteq> sentinel" and w: "rt_window rt = 0" and aes: "aes_law aes" and key: "key_ok (rt_wal rt)"
    and l: "loggable (op_rec x)" and od: "on_disk fp aes e rt names segs recs" and r: "rt_do fp hash aes clock e rt x = (s, e', rt')"
  shows "on_disk fp aes e' rt' names segs (recs @ (if accepts rt x then [(wal_seq (rt_wal rt) + 1, op_rec x)] else [])) \<and>
    rt_cfg rt' = rt_cfg rt \<and> wal_cfg (rt_wal rt') = wal_cfg (rt_wal rt)"
proof -
  have O: "rt_dir rt = data_dir (rt_wal rt)" "log_holds aes e (rt_wal rt) recs" "mems fp rt = log_versions recs" using od by (simp_all add: on_disk_def)
  note L = rt_do_log [OF inv i w O(2) aes key l r]
  show ?thesis
  proof (cases "accepts rt x")
    case False
    then show ?thesis using L od by simp
  next
    case True
    let ?q = "wal_seq (rt_wal rt) + 1"
    let ?recs = "recs @ [(?q, op_rec x)]"
    have A: "s = Ok" "append_rec aes e (rt_wal rt) (op_rec x) = (Ok, e', rt_wal rt')" "wal_seq (rt_wal rt') = ?q" "log_holds aes e' (rt_wal rt') ?recs"
      "rt_cfg rt' = rt_cfg rt" "wal_cfg (rt_wal rt') = wal_cfg (rt_wal rt)" "rt_segments rt' = rt_segments rt" using L True by simp_all
    have only: "wal_only (rt_wal rt) e e'" using append_rec_log(5) [OF O(2) aes key l A(2)] .
    have same: "ev_files e' (path_join (rt_dir rt) y) = ev_files e (path_join (rt_dir rt) y)" for y
      using only wal_apart [of "rt_wal rt" _ y] O(1) unfolding wal_only_def by (metis rangeE)
    have m: "mems fp rt' = log_versions ?recs"
      using rt_do_mems [OF inv i w _ r] A(1,3) O(3) by (simp add: log_versions_def rec_version_op)
    have sub: "dom (log_versions recs) \<subseteq> dom (log_versions ?recs)" by (cases x) (auto simp: log_versions_def)
    have "list_all2 (stored e' (rt_dir rt)) names segs"
      by (rule list_all2_mono [of "stored e (rt_dir rt)"]) (use od same in \<open>auto simp: on_disk_def stored_def\<close>)
    moreover have "manifest_holds e' (rt_dir rt) names" using od same by (auto simp: on_disk_def manifest_holds_def curr_path_def)
    moreover have "rt_dir rt' = rt_dir rt" "rt_dim rt' = rt_dim rt" "data_dir (rt_wal rt') = rt_dir rt"
      using A(5,6) O(1) by (simp_all add: rt_cfg_def data_dir_def wal_cfg_def)
    moreover have "\<forall>i. i \<notin> dom (log_versions ?recs) \<longrightarrow> layered (seg_versions fp) segs i = layered (seg_versions fp) (rt_segments rt) i"
      using od sub unfolding on_disk_def by blast
    ultimately have "on_disk fp aes e' rt' names segs ?recs" using od A(4,7) m by (simp add: on_disk_def)
    then show ?thesis using A(5,6) True by simp
  qed
qed

subsection \<open>Opening\<close>

lemma replay_recs_wal: "replay_recs fp hash w recs mem = (s, w', mem') \<Longrightarrow> \<exists>q. w' = w\<lparr>wal_seq := q\<rparr>"
proof (induction recs arbitrary: w mem)
  case (Cons sr recs)
  obtain q r where sr: "sr = (q, r)" by (cases sr)
  have n: "\<exists>k. note_seq w q = w\<lparr>wal_seq := k\<rparr>"
    unfolding note_seq_def by (cases "wal_seq w < q") (auto intro: exI [of _ q] exI [of _ "wal_seq w"])
  show ?case
  proof (cases "st_ok (fst (apply_rec fp hash q r mem))")
    case True
    then obtain k where "w' = (note_seq w q)\<lparr>wal_seq := k\<rparr>" using Cons sr by (auto split: prod.splits)
    then show ?thesis using n by auto
  next
    case False
    then have "w' = w" using Cons.prems sr by (auto split: prod.splits)
    then show ?thesis by (intro exI [of _ "wal_seq w"]) simp
  qed
qed (auto intro: exI [of _ "wal_seq w'"])

definition told :: "(VectorId \<rightharpoonup> (VectorView option \<times> Metadata option) option) \<Rightarrow> versions" where
  "told view i = map_option (map_option (map_prod id (case_option Metadata0 id))) (view i)"

lemma replayed_versions:
  assumes "\<forall>sr\<in>set recs. rec_ok (mt_dim mt) (snd sr)" "\<not> mt_quant mt"
  shows "told (fold (rec_effect fp mt) recs view) = fold rec_version recs (told view)"
  using assms(1)
proof (induction recs arbitrary: view)
  case (Cons sr recs)
  have "told (rec_effect fp mt sr view) = rec_version sr (told view)"
  proof (cases sr)
    case (Pair q r)
    show ?thesis
    proof (cases r)
      case (LPut i v m)
      then have "md_tenant m \<noteq> '''' \<or> \<not> has_meta m" using Cons.prems Pair by simp
      then have "case_option Metadata0 id (logged_meta q m) = kept_meta q m"
        by (auto simp: logged_meta_def kept_meta_def Let_def has_meta_def Metadata0_def)
      then show ?thesis using Pair LPut assms(2) by (auto simp: fun_eq_iff stored_vec_def told_def)
    qed (auto simp: Pair told_def)
  qed
  then show ?case using Cons.IH [of "rec_effect fp mt sr view"] Cons.prems by simp
qed simp

lemma open_stored:
  assumes "calls_ok e" "stored e d n r" "seg_ok fp dim r"
  shows "\<exists>t. sr_Open fp e (path_join d n) = (Ok, Some r, e\<lparr>ev_tick := t\<rparr>)"
proof -
  obtain es tsrt padding q where h: "laid_out fp tsrt padding qNone dim q es" "r = seg_opened fp (sr_path r) tsrt padding qNone dim q es"
    using assms(3) by (auto simp: seg_ok_def seg_holds_def)
  have p: "sr_path r = path_join d n" "ev_files e (sr_path r) = Some (sr_data r)" using assms(2) by (auto simp: stored_def)
  have "sr_data r = seg_file fp tsrt padding qNone dim q es" by (subst h(2)) (simp add: seg_opened_def Let_def)
  then show ?thesis using sr_Open_opened [OF h(1) assms(1), of "path_join d n"] p h(2) by simp
qed

lemma open_all_stored:
  assumes "calls_ok e" "list_all2 (stored e d) names segs" "list_all (seg_ok fp dim) segs"
  shows "\<exists>t. open_all fp e d names rs = (Ok, rs @ segs, e\<lparr>ev_tick := t\<rparr>)"
  using assms
proof (induction names arbitrary: segs e rs)
  case Nil
  then show ?case by (auto intro: exI [of _ "ev_tick e"])
next
  case (Cons n names)
  obtain r segs' where r: "segs = r # segs'" "stored e d n r" "list_all2 (stored e d) names segs'" using Cons.prems(2) by (auto simp: list_all2_Cons1)
  obtain t where o: "sr_Open fp e (path_join d n) = (Ok, Some r, e\<lparr>ev_tick := t\<rparr>)"
    using open_stored [OF Cons.prems(1) r(2)] Cons.prems(3) r(1) by auto
  have "stored (e\<lparr>ev_tick := t\<rparr>) d = stored e d" by (simp add: stored_def fun_eq_iff)
  then show ?case using Cons.IH [of "e\<lparr>ev_tick := t\<rparr>" segs' "rs @ [r]"] Cons.prems o r by simp
qed

text \<open>A started runtime over the replayed memtable.\<close>

lemma rt_Start_disk:
  assumes c: "calls_ok e" and m: "manifest_holds e (rt_dir rt) names" and s: "list_all2 (stored e (rt_dir rt)) names segs"
    and ok: "list_all (seg_ok fp (rt_dim rt)) segs" and rt: "\<not> rt_started rt" "rt_frozen rt = []" "\<not> rt_quantize_inmem rt" "4 * unat (rt_dim rt) \<le> 2 ^ 20"
    and mem: "mem_ok hash (rt_dim rt) (rt_mem rt)"
  shows "\<exists>t rt'. rt_Start fp e rt = (Ok, e\<lparr>ev_tick := t\<rparr>, rt') \<and> rt_inv fp hash rt' \<and> rt_segments rt' = segs \<and>
    mems fp rt' = mem_versions fp (rt_mem rt) \<and> rt_cfg rt' = rt_cfg (rt\<lparr>rt_started := True\<rparr>) \<and> rt_wal rt' = rt_wal rt \<and>
    rt_frozen rt' = (if mem_versions fp (rt_mem rt) = Map.empty then [] else [rt_mem rt]) \<and> mem_versions fp (rt_mem rt') = Map.empty"
proof -
  define r1 where "r1 = (if mt_GetCount (rt_mem rt) > 0 then RotateMemTable (rt\<lparr>rt_started := True\<rparr>) else rt\<lparr>rt_started := True\<rparr>)"
  have R: "rt_dir r1 = rt_dir rt" "rt_dim r1 = rt_dim rt" "rt_wal r1 = rt_wal rt" "rt_cfg r1 = rt_cfg (rt\<lparr>rt_started := True\<rparr>)" "\<not> rt_quantize_inmem r1"
    using rt by (simp_all add: r1_def rt_cfg_def RotateMemTable_def PublishSnapshot_def)
  have M: "mem_ok hash (rt_dim r1) (rt_mem r1)" "list_all (mem_ok hash (rt_dim r1)) (rt_frozen r1)" "mems fp r1 = mem_versions fp (rt_mem rt)"
    using mem rt mem_new(1) [OF rt(4), of hash] mem_new(2) [OF rt(4), of fp] unfolding r1_def
    by (simp_all add: RotateMemTable_def PublishSnapshot_def mems_def)
  have "mt_inv hash (rt_mem rt)" using mem by (simp add: mem_ok_def)
  note E = empty_table [OF this, of fp]
  have F: "rt_frozen r1 = (if mem_versions fp (rt_mem rt) = Map.empty then [] else [rt_mem rt])" "mem_versions fp (rt_mem r1) = Map.empty"
    using rt E mem_new(2) [OF rt(4), of fp] unfolding r1_def by (auto simp: RotateMemTable_def PublishSnapshot_def)
  obtain t where l: "sm_Load e (rt_dir rt) = (Ok, Some names, e\<lparr>ev_tick := t\<rparr>)" using sm_Load_holds [OF c m stored_names_ok [OF s]] by blast
  have "stored (e\<lparr>ev_tick := t\<rparr>) d = stored e d" for d by (simp add: stored_def fun_eq_iff)
  then obtain t2 where o: "open_all fp (e\<lparr>ev_tick := t\<rparr>) (rt_dir rt) names [] = (Ok, segs, e\<lparr>ev_tick := t2\<rparr>)"
    using open_all_stored [of "e\<lparr>ev_tick := t\<rparr>" "rt_dir rt" names segs fp "rt_dim rt" "[]"] c s ok by auto
  let ?r = "r1\<lparr>rt_segments := segs\<rparr>"
  have st: "rt_Start fp e rt = (Ok, e\<lparr>ev_tick := t2\<rparr>, PublishSnapshot ?r)"
    unfolding rt_Start_def LoadSegments_def Let_def using rt(1) by (simp add: r1_def [symmetric] R(1) l o)
  have "rt_inv fp hash (PublishSnapshot ?r)"
    by (rule PublishSnapshot_inv(1)) (use M R ok rt in \<open>simp_all add: layers_ok_def\<close>)
  moreover have "mems fp (PublishSnapshot ?r) = mem_versions fp (rt_mem rt)" using M(3) by (simp add: mems_def PublishSnapshot_def)
  ultimately show ?thesis using st R(3,4) F by (auto simp: PublishSnapshot_def rt_cfg_def)
qed

lemma replay_recs_kind:
  assumes "mt_inv hash mt" "\<forall>sr\<in>set recs. rec_fits mt (snd sr)" "replay_recs fp hash w recs mt = (Ok, w', mt')"
  shows "mt_quant mt' = mt_quant mt \<and> mt_dim mt' = mt_dim mt"
  using assms
proof (induction recs arbitrary: w mt)
  case (Cons sr recs)
  obtain q r where sr: "sr = (q, r)" by (cases sr)
  obtain s m where a: "apply_rec fp hash q r mt = (s, m)" by (cases "apply_rec fp hash q r mt")
  note A = apply_rec_view [OF Cons.prems(1) _ a]
  have f: "rec_fits mt r" "\<forall>sr\<in>set recs. rec_fits mt (snd sr)" using Cons.prems(2) sr by simp_all
  have "\<forall>sr\<in>set recs. rec_fits m (snd sr)" using f(2) by (simp add: rec_fits_cong [OF A(4) [OF f(1)]])
  then show ?case using Cons.IH [OF A(2) [OF f(1)]] Cons.prems(3) A(1,4,5) [OF f(1)] a sr by simp
qed simp

lemma log_holds_seq: "log_holds aes e (w\<lparr>wal_seq := q\<rparr>) recs = log_holds aes e w recs"
proof -
  have "body_ok aes (w\<lparr>wal_seq := q\<rparr>) = body_ok aes w" by (rule wal_cfg_body_ok) (simp add: wal_cfg_def)
  then show ?thesis by (simp add: log_holds_def)
qed

definition good_opt :: "ve_options \<Rightarrow> bool" where
  "good_opt opt \<longleftrightarrow> vo_dim opt \<noteq> 0 \<and> 4 * unat (vo_dim opt) \<le> 2 ^ 20 \<and> vo_quant opt = qNone \<and> vo_window opt = 0"

definition engine_of :: "ve_options \<Rightarrow> runtime \<Rightarrow> vector_engine" where
  "engine_of opt rt = (VectorEngine opt True 0)\<lparr>ve_runtime := Some rt, ve_opened := True\<rparr>"

definition belongs :: "ve_options \<Rightarrow> runtime \<Rightarrow> bool" where
  "belongs opt rt \<longleftrightarrow> rt_cfg rt = (path_join (vo_path opt) ''data'', vo_dim opt, True, True, qNone, 0, 0) \<and> wal_cfg (rt_wal rt) = wal_cfg (engine_wal opt)"

text \<open>A directory from which an engine can be opened: its log can, and its segments are there.\<close>

definition openable :: "ieee \<Rightarrow> aes_gcm \<Rightarrow> ve_options \<Rightarrow> posix_env \<Rightarrow> string list \<Rightarrow> seg_reader list \<Rightarrow> (u64 \<times> lrec) list \<Rightarrow> bool" where
  "openable fp aes opt e names segs recs \<longleftrightarrow> calls_ok e \<and>
     (\<forall>t. \<exists>e' w. Wal_Open (e\<lparr>ev_tick := t\<rparr>) (engine_wal opt) = Some (Ok, e', w) \<and> wal_cfg w = wal_cfg (engine_wal opt) \<and>
        log_holds aes e' w recs \<and> wal_only (engine_wal opt) e e') \<and>
     (let d = path_join (vo_path opt) ''data'' in
      manifest_holds e d names \<and> list_all2 (stored e d) names segs \<and> list_all (seg_ok fp (vo_dim opt)) segs) \<and>
     (\<forall>sr\<in>set recs. rec_ok (vo_dim opt) (snd sr))"

lemma engine_data_dir: "wal_cfg w = wal_cfg (engine_wal opt) \<Longrightarrow> data_dir w = path_join (vo_path opt) ''data''"
  by (simp add: data_dir_def wal_cfg_def engine_wal_def Wal_new_def Let_def)

lemma openable_new:
  assumes "calls_ok e" "no_segments_from e (engine_wal opt) 0" "ev_files e (curr_path (path_join (vo_path opt) ''data'')) = None"
  shows "openable fp aes opt e [] [] []"
proof -
  have "\<exists>e' w. Wal_Open (e\<lparr>ev_tick := t\<rparr>) (engine_wal opt) = Some (Ok, e', w) \<and> wal_cfg w = wal_cfg (engine_wal opt) \<and>
        log_holds aes e' w [] \<and> wal_only (engine_wal opt) e e'" for t
    using log_holds_empty [of "e\<lparr>ev_tick := t\<rparr>" "engine_wal opt" aes] assms(1,2) by (auto simp: no_segments_from_def wal_only_def)
  then show ?thesis using assms(1,3) by (simp add: openable_def Let_def manifest_holds_def)
qed

lemma openable_on_disk:
  assumes od: "on_disk fp aes e rt names segs recs" and b: "belongs opt rt" and r: "\<forall>sr\<in>set recs. rec_ok (vo_dim opt) (snd sr)"
  shows "openable fp aes opt e names segs recs"
proof -
  have L: "log_holds aes e (rt_wal rt) recs" "wal_cfg (engine_wal opt) = wal_cfg (rt_wal rt)" using od b by (simp_all add: on_disk_def belongs_def)
  have "\<exists>e' w. Wal_Open (e\<lparr>ev_tick := t\<rparr>) (engine_wal opt) = Some (Ok, e', w) \<and> wal_cfg w = wal_cfg (engine_wal opt) \<and>
        log_holds aes e' w recs \<and> wal_only (engine_wal opt) e e'" for t
  proof -
    have "log_holds aes (e\<lparr>ev_tick := t\<rparr>) (rt_wal rt) recs" by (rule log_holds_frame [OF L(1)]) simp_all
    from log_holds_open [OF this L(2)] show ?thesis using wal_cfg_SegmentPath [OF L(2)] by (auto simp: wal_only_def)
  qed
  moreover have "rt_dir rt = path_join (vo_path opt) ''data''" "rt_dim rt = vo_dim opt" using b by (simp_all add: belongs_def rt_cfg_def)
  ultimately show ?thesis using od r log_holds_calls [OF L(1)] by (auto simp: openable_def on_disk_def)
qed

lemma OpenLocked_disk:
  assumes g: "good_opt opt" and o: "openable fp aes opt e names segs recs"
  shows "\<exists>e' rt. ve_Open fp hash aes e (VectorEngine opt True 0) = Some (Ok, e', engine_of opt rt) \<and> rt_inv fp hash rt \<and> belongs opt rt \<and>
    on_disk fp aes e' rt names segs recs \<and> rt_versions fp rt = layered (seg_versions fp) segs ++ log_versions recs \<and>
    ev_chunk e' = ev_chunk e \<and> mem_versions fp (rt_mem rt) = Map.empty \<and>
    (if log_versions recs = Map.empty then rt_frozen rt = [] else \<exists>mem. rt_frozen rt = [mem] \<and> mem_versions fp mem = log_versions recs)"
proof -
  let ?d = "path_join (vo_path opt) ''data''" and ?dim = "vo_dim opt" and ?m0 = "MemTable_new (vo_dim opt) (2 ^ 20) False"
  have O: "calls_ok e" "manifest_holds e ?d names" "list_all2 (stored e ?d) names segs" "list_all (seg_ok fp ?dim) segs" "\<forall>sr\<in>set recs. rec_ok ?dim (snd sr)"
    using o by (simp_all add: openable_def Let_def)
  obtain t where cd: "CreateDirIfMissing e (vo_path opt) = (Ok, e\<lparr>ev_tick := t\<rparr>)" using CreateDirIfMissing_ok [OF O(1)] by blast
  obtain e2 w where w: "Wal_Open (e\<lparr>ev_tick := t\<rparr>) (engine_wal opt) = Some (Ok, e2, w)" "wal_cfg w = wal_cfg (engine_wal opt)"
      "log_holds aes e2 w recs" "wal_only (engine_wal opt) e e2"
    using o unfolding openable_def by blast
  have G: "4 * unat ?dim \<le> 2 ^ 20" using g by (simp add: good_opt_def)
  have m0: "mt_inv hash ?m0" "mt_view fp ?m0 = Map.empty" "mt_dim ?m0 = ?dim" "\<not> mt_quant ?m0"
    using mt_new_inv(1) [of "2 ^ 20" False ?dim hash] mt_new_inv(2) [of "2 ^ 20" False ?dim fp] G by (simp_all add: MemTable_new_def)
  have fit: "\<forall>sr\<in>set recs. rec_fits ?m0 (snd sr)"
  proof
    fix sr assume "sr \<in> set recs"
    then have "rec_ok ?dim (snd sr)" using O(5) by blast
    then show "rec_fits ?m0 (snd sr)" using m0(3) by (cases "snd sr") auto
  qed
  obtain w3 mem where p: "replay_recs fp hash w recs ?m0 = (Ok, w3, mem)" "mt_inv hash mem" "mt_view fp mem = fold (rec_effect fp ?m0) recs Map.empty"
    using replay_recs_view [OF m0(1) fit, of fp w] m0(2) by auto
  have q: "mt_quant mem = mt_quant ?m0 \<and> mt_dim mem = mt_dim ?m0" by (rule replay_recs_kind [OF m0(1) fit p(1)])
  have "told Map.empty = Map.empty" "mem_versions fp mem = told (mt_view fp mem)" by (simp_all add: told_def mem_versions_def fun_eq_iff)
  then have mv: "mem_versions fp mem = log_versions recs"
    using replayed_versions [of recs ?m0 fp Map.empty] O(5) m0(3,4) unfolding p(3) log_versions_def by simp
  obtain n where rp: "Wal_ReplayInto fp hash aes e2 w ?m0 = Some (Ok, e2\<lparr>ev_tick := n\<rparr>, w3, mem)"
    using replay_log_holds [OF w(3), of fp hash ?m0] p(1) by auto
  obtain k where k: "w3 = w\<lparr>wal_seq := k\<rparr>" using replay_recs_wal [OF p(1)] by blast
  have c2: "calls_ok e2" by (rule log_holds_calls [OF w(3)])
  define e3 where "e3 = snd (fs_create_directories (e2\<lparr>ev_tick := n\<rparr>) ?d)"
  have e3: "calls_ok e3" "ev_files e3 = ev_files e2" "ev_err e3 = ev_err e2" "ev_chunk e3 = ev_chunk e2" using c2 by (simp_all add: e3_def fs_create_directories_def sys_ok)
  let ?rt = "VectorRuntime ?d ?dim True w3 mem qNone False 0 (vo_batch_size opt) 0"
  have dd: "data_dir (engine_wal opt) = ?d" by (rule engine_data_dir) simp
  have same: "ev_files e3 (path_join ?d x) = ev_files e (path_join ?d x)" for x
    using w(4) wal_apart [of "engine_wal opt" _ x] e3(2) unfolding wal_only_def dd by (metis rangeE)
  have "stored e3 ?d = stored e ?d" using same by (auto simp: stored_def fun_eq_iff)
  then have s3: "manifest_holds e3 ?d names" "list_all2 (stored e3 ?d) names segs"
    using O(2,3) same by (simp_all add: manifest_holds_def curr_path_def)
  have "mem_ok hash ?dim mem" using p(2) q m0 by (simp add: mem_ok_def)
  then obtain t2 rt' where st: "rt_Start fp e3 ?rt = (Ok, e3\<lparr>ev_tick := t2\<rparr>, rt')" "rt_inv fp hash rt'" "rt_segments rt' = segs"
      "mems fp rt' = log_versions recs" "rt_cfg rt' = (?d, ?dim, True, True, qNone, 0, 0)" "rt_wal rt' = w3"
      "mem_versions fp (rt_mem rt') = Map.empty" "rt_frozen rt' = (if mem_versions fp mem = Map.empty then [] else [mem])"
    using rt_Start_disk [OF e3(1), of ?rt names segs fp hash] s3 O(4) G mv by (auto simp: VectorRuntime_def rt_cfg_def)
  have op: "ve_Open fp hash aes e (VectorEngine opt True 0) = Some (Ok, e3\<lparr>ev_tick := t2\<rparr>, engine_of opt rt')"
    using g cd w(1) rp st(1)
    by (simp add: ve_Open_def OpenLocked_def Let_def good_opt_def VectorEngine_def kArenaBlockBytes_def e3_def [symmetric] engine_of_def)
  have cfg: "wal_cfg w3 = wal_cfg (engine_wal opt)" using w(2) by (simp add: k wal_cfg_def)
  have "log_holds aes e2 w3 recs" using w(3) by (simp add: k log_holds_seq)
  then have "log_holds aes (e3\<lparr>ev_tick := t2\<rparr>) w3 recs" by (rule log_holds_frame) (simp_all add: e3)
  moreover have "stored (e3\<lparr>ev_tick := t2\<rparr>) ?d = stored e3 ?d" "manifest_holds (e3\<lparr>ev_tick := t2\<rparr>) ?d = manifest_holds e3 ?d"
    by (simp_all add: stored_def manifest_holds_def fun_eq_iff)
  ultimately have "on_disk fp aes (e3\<lparr>ev_tick := t2\<rparr>) rt' names segs recs"
    using st s3 O(4) engine_data_dir [OF cfg] by (simp add: on_disk_def rt_cfg_def)
  moreover have "rt_versions fp rt' = layered (seg_versions fp) segs ++ log_versions recs" using rt_versions_mems [OF st(2)] st(3,4) by simp
  moreover have "belongs opt rt'" using st(5,6) cfg by (simp add: belongs_def)
  moreover have "ev_chunk (e3\<lparr>ev_tick := t2\<rparr>) = ev_chunk e" using e3(4) w(4) by (simp add: wal_only_def)
  ultimately show ?thesis using op st(2,7,8) mv by (intro exI [of _ "e3\<lparr>ev_tick := t2\<rparr>"] exI [of _ rt']) simp
qed

end
