(* ===== verification/Durability.thy ===== *)
theory Durability
  imports Vector_Engine
begin

text \<open>
  The vector engine over its life: freezing, stopping at any point and opening again.  What was acknowledged stays
  readable, given that no id is in two memtables when they are frozen; where one is, the older version comes back; and
  the embedded database does not read its log at all.
\<close>

subsection \<open>Freezing\<close>




subsection \<open>Histories of an engine\<close>

definition last_seq :: "vector_engine \<Rightarrow> u64" where
  "last_seq ve = (case ve_runtime ve of None \<Rightarrow> 0 | Some rt \<Rightarrow> wal_seq (rt_wal rt))"

definition new_directory :: "ve_options \<Rightarrow> posix_env \<Rightarrow> bool" where
  "new_directory opt e \<longleftrightarrow> calls_ok e \<and> no_segments_from e (engine_wal opt) 0 \<and> ev_files e (curr_path (path_join (vo_path opt) ''data'')) = None"

text \<open>The states of an engine's directory and its object after opening a new directory, any writes, freezes that end or are cut short,
  and restarts, which lose all but the files; and the versions the writes that reported \<open>Ok\<close> add up to.  The records of writes can be
  read back (\<open>loggable\<close>): they fit their length field, and the metadata of a put has a tenant or nothing that needs one.  A freeze has
  no id in two memtables, no short writes, segments within their 32-bit offsets and names that are not in use.\<close>

inductive history :: "segment_tools \<Rightarrow> (u64 \<Rightarrow> u64) \<Rightarrow> aes_gcm \<Rightarrow> ve_options \<Rightarrow> posix_env \<Rightarrow> vector_engine \<Rightarrow> versions \<Rightarrow> bool"
  for tk hash aes opt where
  new: "new_directory opt e \<Longrightarrow>
    ve_Open (tl_fp tk) hash aes e (VectorEngine opt True 0) = Some (s, e', ve') \<Longrightarrow> history tk hash aes opt e' ve' Map.empty"
| put: "history tk hash aes opt e ve vs \<Longrightarrow> i \<noteq> sentinel \<Longrightarrow> loggable (LPut i v m) \<Longrightarrow> md_tenant m \<noteq> '''' \<or> \<not> has_meta m \<Longrightarrow>
    ve_Put (tl_fp tk) hash aes clock e ve i v m = (s, e', ve') \<Longrightarrow>
    history tk hash aes opt e' ve' (if st_ok s then vs(i \<mapsto> Some (Some v, kept_meta (last_seq ve') m)) else vs)"
| delete: "history tk hash aes opt e ve vs \<Longrightarrow> i \<noteq> sentinel \<Longrightarrow> ve_Delete (tl_fp tk) hash aes e ve i = (s, e', ve') \<Longrightarrow>
    history tk hash aes opt e' ve' (if st_ok s then vs(i \<mapsto> None) else vs)"
| freeze: "history tk hash aes opt e ve vs \<Longrightarrow> ve_runtime ve = Some rt \<Longrightarrow> freezable (tl_fp tk) hash (to_freeze rt) \<Longrightarrow>
    separate (tl_fp tk) (rt_frozen (to_freeze rt)) \<Longrightarrow> full_writes e (2 ^ 32) \<Longrightarrow> sm_Load e (rt_dir rt) = (sl, Some names, el) \<Longrightarrow>
    job_ok (tl_fp tk) stamp (to_freeze rt) names \<Longrightarrow> ve_Freeze tk now stamp fuel e ve = Some (s, e', ve') \<Longrightarrow> history tk hash aes opt e' ve' vs"
| restart: "history tk hash aes opt e ve vs \<Longrightarrow> ve_Open (tl_fp tk) hash aes e (VectorEngine opt True 0) = Some (s, e', ve') \<Longrightarrow>
    history tk hash aes opt e' ve' vs"

definition engine_inv :: "segment_tools \<Rightarrow> (u64 \<Rightarrow> u64) \<Rightarrow> aes_gcm \<Rightarrow> ve_options \<Rightarrow> posix_env \<Rightarrow> vector_engine \<Rightarrow> versions \<Rightarrow> bool" where
  "engine_inv tk hash aes opt e ve vs \<longleftrightarrow> (\<exists>rt names segs recs. ve = engine_of opt rt \<and> rt_inv (tl_fp tk) hash rt \<and> belongs opt rt \<and>
     on_disk (tl_fp tk) aes e rt names segs recs \<and> (\<forall>sr\<in>set recs. rec_ok (vo_dim opt) (snd sr)) \<and> rt_versions (tl_fp tk) rt = vs)"

lemma engine_invI:
  "rt_inv (tl_fp tk) hash rt \<Longrightarrow> belongs opt rt \<Longrightarrow> on_disk (tl_fp tk) aes e rt names segs recs \<Longrightarrow> \<forall>sr\<in>set recs. rec_ok (vo_dim opt) (snd sr) \<Longrightarrow>
   rt_versions (tl_fp tk) rt = vs \<Longrightarrow> engine_inv tk hash aes opt e (engine_of opt rt) vs"
  by (auto simp: engine_inv_def)

lemma engine_invE:
  assumes "engine_inv tk hash aes opt e (engine_of opt rt) vs"
  obtains names segs recs where "rt_inv (tl_fp tk) hash rt" "belongs opt rt" "on_disk (tl_fp tk) aes e rt names segs recs"
    "\<forall>sr\<in>set recs. rec_ok (vo_dim opt) (snd sr)" "rt_versions (tl_fp tk) rt = vs"
proof -
  have "engine_of opt a = engine_of opt b \<longleftrightarrow> a = b" for a b by (simp add: engine_of_def VectorEngine_def)
  then show ?thesis using assms that by (auto simp: engine_inv_def)
qed

lemma engine_fields [simp]:
  "ve_runtime (engine_of opt rt) = Some rt" "good_opt opt \<Longrightarrow> EnsureOpen (engine_of opt rt) = Ok"
  "(engine_of opt rt)\<lparr>ve_runtime := Some rt'\<rparr> = engine_of opt rt'" "ve_opt (engine_of opt rt) = opt"
  by (simp_all add: engine_of_def VectorEngine_def EnsureOpen_def good_opt_def)

lemma belongs_fields:
  assumes "belongs opt rt"
  shows "rt_window rt = 0" "rt_ttl rt = 0" "rt_dim rt = vo_dim opt" "rt_started rt" "rt_vector rt" "key_ok (rt_wal rt)"
    "rt_dir rt = path_join (vo_path opt) ''data''"
  using assms key_ok_cong [of "rt_wal rt" "engine_wal opt"] key_ok_new by (auto simp: belongs_def rt_cfg_def engine_wal_def)

lemma write_inv:
  assumes aes: "aes_law aes" and inv: "engine_inv tk hash aes opt e (engine_of opt rt) vs" and i: "op_id x \<noteq> sentinel" and l: "loggable (op_rec x)"
    and r: "rt_do (tl_fp tk) hash aes clock e rt x = (s, e', rt')" and ok: "accepts rt x \<longrightarrow> rec_ok (vo_dim opt) (op_rec x)"
  shows "engine_inv tk hash aes opt e' (engine_of opt rt') (if st_ok s then op_effect (wal_seq (rt_wal rt')) x vs else vs)"
proof -
  obtain names segs recs where I: "rt_inv (tl_fp tk) hash rt" "belongs opt rt" "on_disk (tl_fp tk) aes e rt names segs recs"
      "\<forall>sr\<in>set recs. rec_ok (vo_dim opt) (snd sr)" "rt_versions (tl_fp tk) rt = vs"
    by (rule engine_invE [OF inv])
  note B = belongs_fields [OF I(2)]
  note D = rt_do_disk [OF I(1) i B(1) aes B(6) l I(3) r]
  have "belongs opt rt'" using I(2) D by (simp add: belongs_def)
  moreover have "\<forall>sr\<in>set (recs @ (if accepts rt x then [(wal_seq (rt_wal rt) + 1, op_rec x)] else [])). rec_ok (vo_dim opt) (snd sr)" using I(4) ok by auto
  ultimately show ?thesis using rt_do_refines [OF I(1) i B(1) r] D I(5) by (intro engine_invI) auto
qed

lemma freeze_inv:
  assumes tk: "tools_ok tk" and inv: "engine_inv tk hash aes opt e (engine_of opt rt) vs" and fz: "freezable (tl_fp tk) hash (to_freeze rt)"
    and sep: "separate (tl_fp tk) (rt_frozen (to_freeze rt))" and full: "full_writes e (2 ^ 32)" and ld: "sm_Load e (rt_dir rt) = (sl, Some names, el)"
    and jo: "job_ok (tl_fp tk) stamp (to_freeze rt) names"
  shows "\<exists>s e' rt'. rt_Freeze tk now stamp fuel e rt = Some (s, e', rt') \<and> engine_inv tk hash aes opt e' (engine_of opt rt') vs \<and>
    (index_ok tk \<and> 3 * (length (all_items (tl_fp tk) (rt_frozen (to_freeze rt))) + length (rt_frozen (to_freeze rt))) + 6 < fuel \<longrightarrow> s = Ok)"
proof -
  let ?fp = "tl_fp tk"
  obtain names' segs recs where I: "rt_inv ?fp hash rt" "belongs opt rt" "on_disk ?fp aes e rt names' segs recs"
      "\<forall>sr\<in>set recs. rec_ok (vo_dim opt) (snd sr)" "rt_versions ?fp rt = vs"
    by (rule engine_invE [OF inv])
  note B = belongs_fields [OF I(2)]
  have "manifest_holds e (rt_dir rt) names'" "list_all2 (stored e (rt_dir rt)) names' segs" "log_holds aes e (rt_wal rt) recs"
    using I(3) unfolding on_disk_def by blast+
  then have "names' = names" using sm_Load_holds [OF log_holds_calls, of aes e "rt_wal rt" recs] stored_names_ok ld by fastforce
  then have od: "on_disk ?fp aes e rt names segs recs" using I(3) by simp
  have now: "\<forall>n. now n \<le> (- 1 :: u64)" by simp
  obtain s e' rt' n' s' r' where F: "rt_Freeze tk now stamp fuel e rt = Some (s, e', rt')" "on_disk ?fp aes e' rt' n' s' r'" "set r' \<subseteq> set recs"
      "rt_cfg rt' = rt_cfg rt" "wal_cfg (rt_wal rt') = wal_cfg (rt_wal rt)"
      "index_ok tk \<and> 3 * (length (all_items ?fp (rt_frozen (to_freeze rt))) + length (rt_frozen (to_freeze rt))) + 6 < fuel \<longrightarrow> s = Ok"
    using rt_Freeze_disk [OF tk I(1) B(4) fz full now od jo, of fuel] by blast
  note V = rt_Freeze_view [OF tk I(1) fz full now F(1) B(4)]
  have "oldest_first ?fp (to_freeze rt) = vs" using oldest_first_separate [OF to_freeze_inv(1) [OF I(1)] sep] to_freeze_inv(2) [OF I(1)] I(5) by simp
  then have "rt_inv ?fp hash rt' \<and> rt_versions ?fp rt' = vs" using V sep B(2) I(5) fades_no_ttl by auto
  then have "engine_inv tk hash aes opt e' (engine_of opt rt') vs"
    using F(2-5) I(2,4) by (intro engine_invI [of tk hash rt' opt aes e' n' s' r']) (auto simp: belongs_def)
  then show ?thesis using F(1,6) by blast
qed

lemma restart_inv:
  assumes g: "good_opt opt" and inv: "engine_inv tk hash aes opt e ve vs"
  shows "\<exists>e' ve'. ve_Open (tl_fp tk) hash aes e (VectorEngine opt True 0) = Some (Ok, e', ve') \<and> engine_inv tk hash aes opt e' ve' vs"
proof -
  obtain rt names segs recs where I: "rt_inv (tl_fp tk) hash rt" "belongs opt rt" "on_disk (tl_fp tk) aes e rt names segs recs"
      "\<forall>sr\<in>set recs. rec_ok (vo_dim opt) (snd sr)" "rt_versions (tl_fp tk) rt = vs"
    using inv by (auto simp: engine_inv_def)
  have "layered (seg_versions (tl_fp tk)) segs ++ log_versions recs = vs" using on_disk_view [OF I(3)] rt_versions_mems [OF I(1)] I(5) by simp
  then show ?thesis using OpenLocked_disk [OF g openable_on_disk [OF I(3,2,4)], of hash] I(4) unfolding engine_inv_def by blast
qed

lemma history_inv:
  assumes tk: "tools_ok tk" and aes: "aes_law aes" and g: "good_opt opt"
  shows "history tk hash aes opt e ve vs \<Longrightarrow> engine_inv tk hash aes opt e ve vs"
proof (induction e ve vs rule: history.induct)
  case (new e s e' ve')
  obtain e1 rt where "ve_Open (tl_fp tk) hash aes e (VectorEngine opt True 0) = Some (Ok, e1, engine_of opt rt)" "rt_inv (tl_fp tk) hash rt"
      "belongs opt rt" "on_disk (tl_fp tk) aes e1 rt [] [] []" "rt_versions (tl_fp tk) rt = Map.empty"
    using OpenLocked_disk [OF g openable_new, of e, where fp = "tl_fp tk" and aes = aes and hash = hash] new(1)
    by (auto simp: new_directory_def log_versions_def)
  then show ?case using new(2) by (auto intro: engine_invI)
next
  case (put e ve vs i v m clock s e' ve')
  obtain rt where ve: "ve = engine_of opt rt" using put.IH by (auto simp: engine_inv_def)
  show ?case
  proof (cases "st_ok (ValidateVector ve v)")
    case True
    then have d: "vv_dim v = vo_dim opt" using ve by (auto simp: ValidateVector_def split: if_splits)
    obtain rt' where r: "rt_do (tl_fp tk) hash aes clock e rt (RtPut i v m) = (s, e', rt')" "ve' = engine_of opt rt'"
      using put(5) True g by (auto simp: ve ve_Put_def on_runtime_def split: prod.splits)
    have "rt_dim rt = vo_dim opt" using put.IH unfolding ve by (auto elim!: engine_invE dest: belongs_fields(3))
    then have "accepts rt (RtPut i v m) \<longrightarrow> rec_ok (vo_dim opt) (op_rec (RtPut i v m))" using put(2,4) by simp
    from write_inv [OF aes put.IH [unfolded ve] _ _ r(1) this] show ?thesis using put(2,3) r(2) by (auto simp: last_seq_def split: if_splits)
  next
    case False
    then have "s = ValidateVector ve v" "e' = e" "ve' = ve" using put(5) g by (auto simp: ve ve_Put_def on_runtime_def)
    then show ?thesis using put.IH False by simp
  qed
next
  case (delete e ve vs i s e' ve')
  obtain rt where ve: "ve = engine_of opt rt" using delete.IH by (auto simp: engine_inv_def)
  obtain rt' where r: "rt_do (tl_fp tk) hash aes 0 e rt (RtDelete i) = (s, e', rt')" "ve' = engine_of opt rt'"
    using delete(3) g by (auto simp: ve ve_Delete_def on_runtime_def split: prod.splits)
  have "loggable (op_rec (RtDelete i))" by (simp add: loggable_def del_plain_def)
  from write_inv [OF aes delete.IH [unfolded ve] _ this r(1)] show ?case using delete(2) r(2) by (auto split: if_splits)
next
  case (freeze e ve vs rt sl names el stamp now fuel s e' ve')
  obtain rt0 where ve: "ve = engine_of opt rt0" using freeze.IH by (auto simp: engine_inv_def)
  then have "rt0 = rt" using freeze(2) by simp
  then have ve: "ve = engine_of opt rt" using ve by simp
  obtain s1 e1 rt1 where F: "rt_Freeze tk now stamp fuel e rt = Some (s1, e1, rt1)" "engine_inv tk hash aes opt e1 (engine_of opt rt1) vs"
    using freeze_inv [OF tk freeze.IH [unfolded ve] freeze(3-7), of now fuel] by blast
  have "e' = e1" "ve' = engine_of opt rt1" using freeze(8) F(1) g by (auto simp: ve ve_Freeze_def on_runtime_job_def)
  then show ?case using F(2) by simp
next
  case (restart e ve vs s e' ve')
  then show ?case using restart_inv [OF g restart.IH] by auto
qed

lemma engine_reads:
  assumes "good_opt opt" "engine_inv tk hash aes opt e ve vs" "i \<noteq> sentinel"
  shows "snd (ve_Get (tl_fp tk) hash now ve i) = live 0 now vs i" "ve_Exists (tl_fp tk) hash now ve i = (Ok, live 0 now vs i \<noteq> None)"
proof -
  obtain rt where ve: "ve = engine_of opt rt" using assms(2) by (auto simp: engine_inv_def)
  obtain names segs recs where I: "rt_inv (tl_fp tk) hash rt" "belongs opt rt" "rt_versions (tl_fp tk) rt = vs"
    by (rule engine_invE [OF assms(2) [unfolded ve]])
  show "snd (ve_Get (tl_fp tk) hash now ve i) = live 0 now vs i" "ve_Exists (tl_fp tk) hash now ve i = (Ok, live 0 now vs i \<noteq> None)"
    using rt_Get_live [OF I(1) assms(3)] belongs_fields(2) [OF I(2)] I(3) assms(1) by (simp_all add: ve ve_Get_def ve_Exists_def)
qed

text \<open>C2: What was acknowledged is never lost, for an engine without a coalescing window, without quantisation and without a time to live, whose
  system calls succeed. Over any history of it on a directory of its own, of \<open>Put\<close>s and \<open>Delete\<close>s with whatever
  outcome, \<open>Freeze\<close>s that succeed, fail or are cut off after any of their steps, and restarts at any moment, \<open>Get\<close> and
  \<open>Exists\<close> answer by the writes that reported \<open>Ok\<close>, in their order; and opening the directory again succeeds and answers the same.
  The dimension is at most 2 to the power 18, so that a vector fits a block of the arena, and the reserved id is not used.
  Two more things are excluded from a history. The metadata of a \<open>Put\<close> must have a tenant, or else neither device, location, source id,
  timestamp nor text: any other record is acknowledged and cannot be replayed. And a \<open>Freeze\<close> starts only when no id is in two of the memtables it
  freezes: otherwise older versions come back.\<close>

theorem Engine_durable:
  assumes "history tk hash aes opt e ve vs" "tools_ok tk" "aes_law aes" "i \<noteq> sentinel"
    and opt: "vo_dim opt \<noteq> 0" "4 * unat (vo_dim opt) \<le> 2 ^ 20" "vo_quant opt = qNone" "vo_window opt = 0"
  shows "snd (ve_Get (tl_fp tk) hash now ve i) = live 0 now vs i \<and> ve_Exists (tl_fp tk) hash now ve i = (Ok, live 0 now vs i \<noteq> None) \<and>
    (\<exists>e' ve'. ve_Open (tl_fp tk) hash aes e (VectorEngine opt True 0) = Some (Ok, e', ve') \<and>
       snd (ve_Get (tl_fp tk) hash now ve' i) = live 0 now vs i \<and> ve_Exists (tl_fp tk) hash now ve' i = (Ok, live 0 now vs i \<noteq> None))"
proof -
  have g: "good_opt opt" using opt by (simp add: good_opt_def)
  have inv: "engine_inv tk hash aes opt e ve vs" by (rule history_inv [OF assms(2,3) g assms(1)])
  obtain e' ve' where o: "ve_Open (tl_fp tk) hash aes e (VectorEngine opt True 0) = Some (Ok, e', ve')" "engine_inv tk hash aes opt e' ve' vs"
    using restart_inv [OF g inv] by blast
  show ?thesis using engine_reads [OF g inv assms(4)] engine_reads [OF g o(2) assms(4)] o(1) by blast
qed

subsection \<open>An id in two memtables\<close>

lemma single_item:
  assumes "mt_inv hash mt" "mem_versions fp mt = [i \<mapsto> x]"
  shows "\<exists>y. mt_IterateWithMetadata fp mt = [y] \<and> fst y = i \<and> item_meta y = (case x of None \<Rightarrow> Metadata0 | Some (v, m) \<Rightarrow> m)"
proof -
  let ?xs = "mt_IterateWithMetadata fp mt"
  have v: "items_versions ?xs = [i \<mapsto> x]" and d: "distinct (map fst ?xs)" using mem_versions_items [OF assms(1)] assms(2) by simp_all
  then have f: "fst ` set ?xs = {i}" using dom_items [of ?xs] by simp
  then have "length ?xs = 1" using distinct_card [OF d] by simp
  then obtain y where y: "?xs = [y]" by (metis One_nat_def length_0_conv length_Suc_conv)
  obtain k w dl m where yk: "y = (k, w, dl, m)" by (cases y) auto
  have k: "k = i" using f y yk by simp
  have "item_version (w, dl, m) = x" using v unfolding y yk k by (simp add: items_versions_def fun_eq_iff split: if_splits)
  moreover have "y \<in> set ?xs" using y by simp
  then have "dl \<longrightarrow> m = None" unfolding yk by (auto simp: mt_IterateWithMetadata_def split: option.splits)
  ultimately show ?thesis using y yk k by (cases dl) auto
qed

lemma to_freeze_tables:
  assumes "mt_GetCount (rt_mem rt) > 0"
  shows "rt_frozen (to_freeze rt) = rt_frozen rt @ [rt_mem rt]" "rt_frozen (to_freeze (RotateMemTable rt)) = rt_frozen rt @ [rt_mem rt]"
proof -
  have "mt_GetCount (MemTable_new d b q) = 0" for d b q by (simp add: MemTable_new_def mt_GetCount_def fh_new_def Let_def)
  then show "rt_frozen (to_freeze rt) = rt_frozen rt @ [rt_mem rt]" "rt_frozen (to_freeze (RotateMemTable rt)) = rt_frozen rt @ [rt_mem rt]"
    using assms by (simp_all add: to_freeze_def RotateMemTable_def PublishSnapshot_def)
qed

lemma write_tables:
  assumes inv: "rt_inv fp hash rt" and i: "op_id x \<noteq> sentinel" and w: "rt_window rt = 0" and acc: "accepts rt x"
    and log: "log_holds aes e (rt_wal rt) recs" "aes_law aes" "key_ok (rt_wal rt)" "loggable (op_rec x)" and r: "rt_do fp hash aes clock e rt x = (s, e', rt')"
  shows "s = Ok \<and> ev_chunk e' = ev_chunk e \<and> (\<exists>mt. mem_ok hash (rt_dim rt) mt \<and>
    mem_versions fp mt = op_effect (wal_seq (rt_wal rt')) x (mem_versions fp (rt_mem rt)) \<and> rt_frozen (to_freeze rt') = rt_frozen rt @ [mt])"
proof -
  have mem: "mem_ok hash (rt_dim rt) (rt_mem rt)" using inv by (simp add: rt_inv_def)
  have A: "s = Ok" "append_rec aes e (rt_wal rt) (op_rec x) = (Ok, e', rt_wal rt')" using rt_do_log [OF inv i w log r] acc by simp_all
  have ch: "ev_chunk e' = ev_chunk e" using append_rec_log(5) [OF log A(2)] by (simp add: wal_only_def)
  let ?w = "rt_wal rt'"
  obtain mt where mt: "mem_ok hash (rt_dim rt) mt" "mem_versions fp mt = op_effect (wal_seq ?w) x (mem_versions fp (rt_mem rt))"
    and res: "let r1 = rt\<lparr>rt_wal := ?w, rt_epoch := rt_epoch rt + 1, rt_mem := mt\<rparr> in \<exists>n. rt' = r1\<lparr>rt_ops := n\<rparr> \<or> rt' = (RotateMemTable r1)\<lparr>rt_ops := n\<rparr>"
  proof (cases x)
    case (RtDelete j)
    obtain s2 m2 where d: "mt_Delete fp hash (rt_mem rt) j = (s2, m2)" by (cases "mt_Delete fp hash (rt_mem rt) j")
    note D = mem_Delete [OF mem _ d]
    have "rt' = rt\<lparr>rt_wal := ?w, rt_epoch := rt_epoch rt + 1, rt_mem := m2, rt_ops := rt_ops rt + 1\<rparr>"
      using r RtDelete A d acc D(1) i by (simp add: rt_Delete_def HandleDel_def count_op_def Let_def split: prod.splits if_splits)
    then show ?thesis using that [of m2] D(2,3) i RtDelete unfolding Let_def by (simp, blast)
  next
    case (RtPut j v m)
    obtain s2 m2 where d: "mt_Put fp hash (rt_mem rt) j v (m\<lparr>md_lsn := wal_seq ?w\<rparr>) = (s2, m2)"
      by (cases "mt_Put fp hash (rt_mem rt) j v (m\<lparr>md_lsn := wal_seq ?w\<rparr>)")
    have a: "Wal_AppendPut aes e (rt_wal rt) j v m = (Ok, e', ?w)" using A(2) RtPut by simp
    note D = mem_Put [OF mem _ _ d]
    let ?r = "rt\<lparr>rt_wal := ?w, rt_epoch := rt_epoch rt + 1, rt_mem := m2\<rparr>"
    have "rt' = (if mt_GetCount m2 \<ge> kMemtableSoftLimit then RotateMemTable ?r else ?r)\<lparr>rt_ops := rt_ops rt + 1\<rparr>"
      using r RtPut a d acc w D(1) i
      by (auto simp: rt_Put_def HandlePut_def count_op_def Let_def vv_dim_def RotateMemTable_def PublishSnapshot_def split: if_splits)
    then show ?thesis using that [of m2] D(2,3) i acc RtPut unfolding Let_def by (simp split: if_splits, blast+)
  qed
  let ?r1 = "rt\<lparr>rt_wal := ?w, rt_epoch := rt_epoch rt + 1, rt_mem := mt\<rparr>"
  have "mt_inv hash mt" using mt(1) by (simp add: mem_ok_def)
  moreover have "mem_versions fp mt \<noteq> Map.empty" unfolding mt(2) by (cases x) (auto simp: fun_eq_iff)
  ultimately have "mt_GetCount (rt_mem ?r1) > 0" using empty_table by fastforce
  note T = to_freeze_tables [OF this]
  have ops: "rt_frozen (to_freeze (r\<lparr>rt_ops := n\<rparr>)) = rt_frozen (to_freeze r)" for r n
    by (simp add: to_freeze_def RotateMemTable_def PublishSnapshot_def)
  obtain n where "rt' = ?r1\<lparr>rt_ops := n\<rparr> \<or> rt' = (RotateMemTable ?r1)\<lparr>rt_ops := n\<rparr>" using res unfolding Let_def by blast
  then have "rt_frozen (to_freeze rt') = rt_frozen (to_freeze ?r1) \<or> rt_frozen (to_freeze rt') = rt_frozen (to_freeze (RotateMemTable ?r1))"
    using ops by metis
  then have "rt_frozen (to_freeze rt') = rt_frozen rt @ [mt]" using T by auto
  then show ?thesis using A(1) ch mt by blast
qed

lemma open_new:
  assumes "good_opt opt" "calls_ok e" "no_segments_from e (engine_wal opt) 0" "ev_files e (curr_path (path_join (vo_path opt) ''data'')) = None"
  shows "\<exists>e' rt. ve_Open fp hash aes e (VectorEngine opt True 0) = Some (Ok, e', engine_of opt rt) \<and> rt_inv fp hash rt \<and> belongs opt rt \<and>
    on_disk fp aes e' rt [] [] [] \<and> ev_chunk e' = ev_chunk e \<and> mem_versions fp (rt_mem rt) = Map.empty \<and> rt_frozen rt = []"
  using OpenLocked_disk [OF assms(1) openable_new [OF assms(2-4)], where fp = fp and aes = aes and hash = hash]
  by (simp add: log_versions_def) blast

lemma two_plain_fit: "good_opt opt \<Longrightarrow> fits (vo_dim opt) [Metadata0, Metadata0]"
proof -
  assume g: "good_opt opt"
  then have "(75 + unat (vo_dim opt) * 4) div 64 \<le> (75 + 262144 * 4) div 64" by (intro div_le_mono) (simp add: good_opt_def)
  then show ?thesis using g by (simp add: good_opt_def fits_def entry_size_of_def short_strings_def Metadata0_def md_record_def length_add_str)
qed

definition plain_table :: "ieee \<Rightarrow> memtable \<Rightarrow> bool" where
  "plain_table fp mt \<longleftrightarrow> (\<exists>i x. mem_versions fp mt = [i \<mapsto> x] \<and> (\<forall>v m. x = Some (v, m) \<longrightarrow> m = Metadata0))"

lemma plain_tableI:
  "mem_versions fp mt = [i \<mapsto> Some (v, Metadata0)] \<Longrightarrow> plain_table fp mt" "mem_versions fp mt = [i \<mapsto> None] \<Longrightarrow> plain_table fp mt"
  unfolding plain_table_def by blast+

lemma plain_metas:
  assumes "\<forall>mt\<in>set mts. mt_inv hash mt \<and> plain_table fp mt"
  shows "map item_meta (all_items fp mts) = replicate (length mts) Metadata0"
  using assms
proof (induction mts)
  case (Cons mt mts)
  obtain i x where x: "mt_inv hash mt" "mem_versions fp mt = [i \<mapsto> x]" "\<forall>v m. x = Some (v, m) \<longrightarrow> m = Metadata0" using Cons.prems unfolding plain_table_def list.set by blast
  obtain y where "mt_IterateWithMetadata fp mt = [y]" "item_meta y = Metadata0" using single_item [OF x(1,2)] x(3) by (cases x) auto
  then show ?case using Cons by (simp add: all_items_def)
qed (simp add: all_items_def)

lemma plain_tables:
  assumes g: "good_opt opt" and inv: "rt_inv fp hash rt" and b: "belongs opt rt" and f: "rt_frozen (to_freeze rt) = mts" "length mts \<le> 2"
    and m: "\<forall>mt\<in>set mts. plain_table fp mt" and st: "\<forall>j. stamp j < 10 ^ 20"
  shows "freezable fp hash (to_freeze rt)" "job_ok fp stamp (to_freeze rt) []" "length (all_items fp (rt_frozen (to_freeze rt))) = length mts"
proof -
  have ok: "list_all (mem_ok hash (rt_dim (to_freeze rt))) mts" using to_freeze_inv(1) [OF inv] f(1) by (simp add: rt_inv_def layers_ok_def)
  then have "\<forall>mt\<in>set mts. mt_inv hash mt" by (auto simp: list_all_iff mem_ok_def)
  then have r: "map item_meta (all_items fp mts) = replicate (length mts) Metadata0" using m by (intro plain_metas [of _ hash]) blast
  then have l: "length (all_items fp mts) = length mts" by (metis length_map length_replicate)
  then show "length (all_items fp (rt_frozen (to_freeze rt))) = length mts" by (simp add: f(1))
  have "[Metadata0, Metadata0] = replicate (length mts) Metadata0 @ replicate (2 - length mts) Metadata0"
    using f(2) by (simp add: replicate_add [symmetric] numeral_2_eq_2)
  then have "fits (vo_dim opt) (replicate (length mts) Metadata0)" using two_plain_fit [OF g] fits_append by metis
  moreover have q: "rt_quant (to_freeze rt) = qNone" using b by (auto simp: belongs_def rt_cfg_def to_freeze_def)
  ultimately show "freezable fp hash (to_freeze rt)"
    using ok r to_freeze_inv(4) [OF inv] belongs_fields(3) [OF b] q by (simp add: freezable_def f(1))
  show "job_ok fp stamp (to_freeze rt) []" using st l f by (simp add: job_ok_def length_manifest_bytes)
qed

text \<open>A new directory with one vector in it.\<close>

lemma plain_meta [simp]: "kept_meta q Metadata0 = Metadata0" "\<not> has_meta Metadata0"
  by (simp_all add: kept_meta_def has_meta_def Metadata0_def)

lemma put_new:
  assumes aes: "aes_law aes" and g: "good_opt opt" and e: "new_directory opt e" and i: "i \<noteq> sentinel"
    and v: "length v = unat (vo_dim opt)" "loggable (LPut i v Metadata0)"
  obtains e1 r1 e2 r2 q mt where "ve_Open fp hash aes e (VectorEngine opt True 0) = Some (Ok, e1, engine_of opt r1)"
    "rt_do fp hash aes clock e1 r1 (RtPut i v Metadata0) = (Ok, e2, r2)" "on_disk fp aes e2 r2 [] [] [(q, LPut i v Metadata0)]" "belongs opt r2"
    "rt_inv fp hash r2" "rt_versions fp r2 = [i \<mapsto> Some (Some v, Metadata0)]" "ev_chunk e2 = ev_chunk e"
    "rt_frozen (to_freeze r2) = [mt]" "mem_versions fp mt = [i \<mapsto> Some (Some v, Metadata0)]"
proof -
  obtain e1 r1 where O: "ve_Open fp hash aes e (VectorEngine opt True 0) = Some (Ok, e1, engine_of opt r1)" "rt_inv fp hash r1" "belongs opt r1"
      "on_disk fp aes e1 r1 [] [] []" "ev_chunk e1 = ev_chunk e" "mem_versions fp (rt_mem r1) = Map.empty" "rt_frozen r1 = []"
    using open_new [OF g, of e fp hash aes] e by (auto simp: new_directory_def)
  note B = belongs_fields [OF O(3)]
  let ?x = "RtPut i v Metadata0"
  obtain s e2 r2 where p: "rt_do fp hash aes clock e1 r1 ?x = (s, e2, r2)" by (cases "rt_do fp hash aes clock e1 r1 ?x")
  have acc: "accepts r1 ?x" using B v(1) O(7) by (simp add: backpressure_def kMaxFrozenMemtables_def)
  have log: "log_holds aes e1 (rt_wal r1) []" using O(4) by (simp add: on_disk_def)
  have x: "op_id ?x \<noteq> sentinel" "loggable (op_rec ?x)" using i v(2) by simp_all
  have W: "s = Ok" "ev_chunk e2 = ev_chunk e1" "\<exists>mt. mem_versions fp mt = [i \<mapsto> Some (Some v, Metadata0)] \<and> rt_frozen (to_freeze r2) = [mt]"
    using write_tables [OF O(2) x(1) B(1) acc log aes B(6) x(2) p] O(6,7) by auto
  have D: "on_disk fp aes e2 r2 [] [] [(wal_seq (rt_wal r1) + 1, LPut i v Metadata0)]" "belongs opt r2"
    using rt_do_disk [OF O(2) x(1) B(1) aes B(6) x(2) O(4) p] acc O(3) by (simp_all add: belongs_def)
  have "rt_versions fp r1 = Map.empty" using on_disk_view [OF O(4)] rt_versions_mems [OF O(2)] by (simp add: log_versions_def)
  then have "rt_inv fp hash r2" "rt_versions fp r2 = [i \<mapsto> Some (Some v, Metadata0)]" using rt_do_refines [OF O(2) x(1) B(1) p] W(1) by simp_all
  then show thesis using that O(1,5) p W D by auto
qed

lemma reopen_delete:
  assumes aes: "aes_law aes" and g: "good_opt opt" and od: "on_disk fp aes e r [] [] [(q, LPut i v Metadata0)]" and b: "belongs opt r"
    and i: "i \<noteq> sentinel" and v: "length v = unat (vo_dim opt)"
  obtains e1 r1 e2 r2 recs mem mt where "ve_Open fp hash aes e (VectorEngine opt True 0) = Some (Ok, e1, engine_of opt r1)"
    "rt_do fp hash aes clock e1 r1 (RtDelete i) = (Ok, e2, r2)" "on_disk fp aes e2 r2 [] [] recs" "belongs opt r2" "rt_inv fp hash r2"
    "rt_versions fp r2 i = Some None" "ev_chunk e2 = ev_chunk e" "rt_frozen (to_freeze r2) = [mem, mt]"
    "mem_versions fp mem = [i \<mapsto> Some (Some v, Metadata0)]" "mem_versions fp mt = [i \<mapsto> None]"
proof -
  have lv: "log_versions [(q, LPut i v Metadata0)] = [i \<mapsto> Some (Some v, Metadata0)]" by (simp add: log_versions_def)
  have "\<forall>sr\<in>set [(q, LPut i v Metadata0)]. rec_ok (vo_dim opt) (snd sr)" using i v by simp
  from OpenLocked_disk [OF g openable_on_disk [OF od b this], of hash] lv
  obtain e1 r1 mem where O: "ve_Open fp hash aes e (VectorEngine opt True 0) = Some (Ok, e1, engine_of opt r1)" "rt_inv fp hash r1" "belongs opt r1"
      "on_disk fp aes e1 r1 [] [] [(q, LPut i v Metadata0)]" "ev_chunk e1 = ev_chunk e" "mem_versions fp (rt_mem r1) = Map.empty"
      "rt_frozen r1 = [mem]" "mem_versions fp mem = [i \<mapsto> Some (Some v, Metadata0)]"
    by auto
  note B = belongs_fields [OF O(3)]
  let ?x = "RtDelete i"
  obtain s e2 r2 where d: "rt_do fp hash aes clock e1 r1 ?x = (s, e2, r2)" by (cases "rt_do fp hash aes clock e1 r1 ?x")
  have log: "log_holds aes e1 (rt_wal r1) [(q, LPut i v Metadata0)]" using O(4) by (simp add: on_disk_def)
  have x: "op_id ?x \<noteq> sentinel" "loggable (op_rec ?x)" "accepts r1 ?x" using i B(4) by (simp_all add: loggable_def del_plain_def)
  have W: "s = Ok" "ev_chunk e2 = ev_chunk e1" "\<exists>mt. mem_versions fp mt = [i \<mapsto> None] \<and> rt_frozen (to_freeze r2) = [mem, mt]"
    using write_tables [OF O(2) x(1) B(1) x(3) log aes B(6) x(2) d] O(6,7) by auto
  have D: "\<exists>recs. on_disk fp aes e2 r2 [] [] recs" "belongs opt r2"
    using rt_do_disk [OF O(2) x(1) B(1) aes B(6) x(2) O(4) d] O(3) by (auto simp: belongs_def)
  have "rt_inv fp hash r2" "rt_versions fp r2 i = Some None" using rt_do_refines [OF O(2) x(1) B(1) d] W(1) by simp_all
  then show thesis using that O(1,5,8) d W D by auto
qed

lemma engine_calls:
  assumes "good_opt opt" "length v = unat (vo_dim opt)"
  shows "ve_Put fp hash aes clock e (engine_of opt r) i v m =
      (case rt_do fp hash aes clock e r (RtPut i v m) of (s, e', r') \<Rightarrow> (s, e', engine_of opt r'))"
    "ve_Delete fp hash aes e (engine_of opt r) i = (case rt_do fp hash aes clock e r (RtDelete i) of (s, e', r') \<Rightarrow> (s, e', engine_of opt r'))"
    "ve_Get fp hash t (engine_of opt r) i = rt_Get fp hash t r i"
    "ve_Freeze tk now stamp fuel e (engine_of opt r) = map_option (\<lambda>(s, e', r'). (s, e', engine_of opt r')) (rt_Freeze tk now stamp fuel e r)"
  using assms by (simp_all add: ve_Put_def ve_Delete_def ve_Get_def ve_Freeze_def on_runtime_def on_runtime_job_def ValidateVector_def vv_dim_def)

text \<open>C39: A freeze can bring back what was deleted. In a new directory put a vector, open the directory again, which turns
  the replayed log into a frozen memtable, delete the vector, and freeze: every call reports \<open>Ok\<close>, after the deletion \<open>Get\<close> finds
  nothing, and after the freeze it returns the deleted vector, because the segments are listed from the oldest memtable to
  the newest and the first one that has the id answers.\<close>

theorem Freeze_resurrects:
  assumes tk: "tools_ok tk" "index_ok tk" and aes: "aes_law aes" and g: "good_opt opt" and e: "new_directory opt e" "full_writes e (2 ^ 32)"
    and i: "i \<noteq> sentinel" and v: "length v = unat (vo_dim opt)" "loggable (LPut i v Metadata0)" and job: "\<forall>j. stamp j < 10 ^ 20" "18 < fuel"
  shows "\<exists>e1 ve1 e2 ve2 e3 ve3 e4 ve4 e5 ve5. ve_Open (tl_fp tk) hash aes e (VectorEngine opt True 0) = Some (Ok, e1, ve1) \<and>
    ve_Put (tl_fp tk) hash aes clock e1 ve1 i v Metadata0 = (Ok, e2, ve2) \<and>
    ve_Open (tl_fp tk) hash aes e2 (VectorEngine opt True 0) = Some (Ok, e3, ve3) \<and>
    ve_Delete (tl_fp tk) hash aes e3 ve3 i = (Ok, e4, ve4) \<and> snd (ve_Get (tl_fp tk) hash t ve4 i) = None \<and>
    ve_Freeze tk now stamp fuel e4 ve4 = Some (Ok, e5, ve5) \<and> snd (ve_Get (tl_fp tk) hash t ve5 i) = Some (Some v, Metadata0)"
proof -
  let ?fp = "tl_fp tk"
  obtain e1 r1 e2 r2 q mt where P: "ve_Open ?fp hash aes e (VectorEngine opt True 0) = Some (Ok, e1, engine_of opt r1)"
    "rt_do ?fp hash aes clock e1 r1 (RtPut i v Metadata0) = (Ok, e2, r2)" "on_disk ?fp aes e2 r2 [] [] [(q, LPut i v Metadata0)]" "belongs opt r2"
    "ev_chunk e2 = ev_chunk e"
    by (rule put_new [OF aes g e(1) i v])
  obtain e3 r3 e4 r4 recs mem mt' where D: "ve_Open ?fp hash aes e2 (VectorEngine opt True 0) = Some (Ok, e3, engine_of opt r3)"
    "rt_do ?fp hash aes 0 e3 r3 (RtDelete i) = (Ok, e4, r4)" "on_disk ?fp aes e4 r4 [] [] recs" "belongs opt r4" "rt_inv ?fp hash r4"
    "rt_versions ?fp r4 i = Some None" "ev_chunk e4 = ev_chunk e2" "rt_frozen (to_freeze r4) = [mem, mt']"
    "mem_versions ?fp mem = [i \<mapsto> Some (Some v, Metadata0)]" "mem_versions ?fp mt' = [i \<mapsto> None]"
    by (rule reopen_delete [OF aes g P(3,4) i v(1)])
  note B = belongs_fields [OF D(4)]
  have T: "freezable ?fp hash (to_freeze r4)" "job_ok ?fp stamp (to_freeze r4) []" "length (all_items ?fp (rt_frozen (to_freeze r4))) = 2"
    using plain_tables [OF g D(5,4,8) _ _ job(1)] plain_tableI(1) [OF D(9)] plain_tableI(2) [OF D(10)] by simp_all
  have full: "full_writes e4 (2 ^ 32)" using e(2) P(5) D(7) by (simp add: full_writes_def)
  have now: "\<forall>n. now n \<le> (- 1 :: u64)" by simp
  obtain e5 r5 where F: "rt_Freeze tk now stamp fuel e4 r4 = Some (Ok, e5, r5)" "rt_cfg r5 = rt_cfg r4"
    using rt_Freeze_disk [OF tk(1) D(5) B(4) T(1) full now D(3) T(2), of fuel] tk(2) job(2) T(3) by (auto simp: D(8))
  have V: "rt_inv ?fp hash r5" "rt_versions ?fp r5 = oldest_first ?fp (to_freeze r4)"
    using rt_Freeze_view [OF tk(1) D(5) T(1) full now F(1) B(4)] B(2) fades_no_ttl by auto
  have "mem_versions ?fp (rt_mem (to_freeze r4)) = Map.empty" by (rule to_freeze_on_disk(2) [OF D(5,3)])
  then have V5: "rt_versions ?fp r5 i = Some (Some (Some v, Metadata0))" unfolding V(2) oldest_first_def D(8) by (simp add: D(9,10))
  have "rt_ttl r5 = 0" using F(2) B(2) by (simp add: rt_cfg_def)
  then have G: "snd (rt_Get ?fp hash t r4 i) = None" "snd (rt_Get ?fp hash t r5 i) = Some (Some v, Metadata0)"
    using rt_Get_live(1) [OF D(5) i] rt_Get_live(1) [OF V(1) i] D(6) V5 by (simp_all add: live_def VectorMetaExpired_def)
  note C = engine_calls(1,3,4) [OF g v(1)] engine_calls(2) [OF g v(1), where clock = 0]
  have "ve_Put ?fp hash aes clock e1 (engine_of opt r1) i v Metadata0 = (Ok, e2, engine_of opt r2)"
    "ve_Delete ?fp hash aes e3 (engine_of opt r3) i = (Ok, e4, engine_of opt r4)"
    "ve_Freeze tk now stamp fuel e4 (engine_of opt r4) = Some (Ok, e5, engine_of opt r5)"
    using P(2) D(2) F(1) by (simp_all add: C)
  then show ?thesis using P(1) D(1) G unfolding C(2) [symmetric] by blast
qed

subsection \<open>The embedded database\<close>

lemma embedded_open:
  assumes dim: "4 * unat (vo_dim opt) \<le> 2 ^ 20" and w: "Wal_Open e (embedded_wal opt) = Some (Ok, e1, w)" "log_holds aes e1 w recs"
    and m: "ev_files e1 (curr_path (vo_path opt @ ''/vectors'')) = None"
  shows "\<exists>t rt. embedded_Open fp e opt = Some (Ok, e1\<lparr>ev_tick := t\<rparr>, Some rt) \<and> rt_inv fp hash rt \<and> rt_versions fp rt = Map.empty \<and>
    rt_cfg rt = (vo_path opt @ ''/vectors'', vo_dim opt, True, True, vo_quant opt, 0, 0) \<and> rt_wal rt = w \<and> rt_frozen rt = []"
proof -
  let ?m = "MemTable_new (vo_dim opt) (128 * 2 ^ 20) False"
  let ?rt = "VectorRuntime (vo_path opt @ ''/vectors'') (vo_dim opt) True w ?m (vo_quant opt) False 0 256 0"
  have m0: "mt_inv hash ?m" "mem_versions fp ?m = Map.empty" "mem_ok hash (vo_dim opt) ?m"
    using mt_new_inv(1) [of "128 * 2 ^ 20" False "vo_dim opt" hash] mt_new_inv(2) [of "128 * 2 ^ 20" False "vo_dim opt" fp] dim
    by (simp_all add: MemTable_new_def mem_ok_def mem_versions_def fun_eq_iff)
  obtain t rt where "rt_Start fp e1 ?rt = (Ok, e1\<lparr>ev_tick := t\<rparr>, rt)" "rt_inv fp hash rt" "rt_segments rt = []" "mems fp rt = Map.empty"
      "rt_cfg rt = rt_cfg (?rt\<lparr>rt_started := True\<rparr>)" "rt_wal rt = w" "rt_frozen rt = []"
    using rt_Start_disk [OF log_holds_calls [OF w(2)], of ?rt "[]" "[]" fp hash] m m0 dim by (auto simp: VectorRuntime_def manifest_holds_def)
  then show ?thesis using w(1) rt_versions_mems [of fp hash rt] by (auto simp: embedded_Open_def VectorRuntime_def rt_cfg_def)
qed

lemma embedded_apart: "curr_path (vo_path opt @ ''/vectors'') \<notin> range (SegmentPath (embedded_wal opt))"
proof -
  have "SegmentPath (embedded_wal opt) g \<noteq> curr_path (vo_path opt @ ''/vectors'')" for g
    by (simp add: SegmentPath_def embedded_wal_def Wal_new_def Let_def curr_path_def path_join_def)
  then show ?thesis by (metis rangeE)
qed

lemma embedded_keeps:
  assumes "wal_cfg w = wal_cfg (embedded_wal opt)"
  shows "key_ok w" "wal_only w e e' \<Longrightarrow> ev_files e' (curr_path (vo_path opt @ ''/vectors'')) = ev_files e (curr_path (vo_path opt @ ''/vectors''))"
proof -
  have "SegmentPath w = SegmentPath (embedded_wal opt)" by (rule wal_cfg_SegmentPath [OF assms])
  then show "wal_only w e e' \<Longrightarrow> ev_files e' (curr_path (vo_path opt @ ''/vectors'')) = ev_files e (curr_path (vo_path opt @ ''/vectors''))"
    using embedded_apart [of opt] unfolding wal_only_def by simp
  show "key_ok w" using key_ok_cong [OF assms] key_ok_new by (simp add: embedded_wal_def)
qed

text \<open>C40: The embedded database does not recover its vectors. In a new directory open it, put a vector and read it back; open the directory
  again: both opens and the put report \<open>Ok\<close> and the log still holds the record of the put, but the vector is not found,
  because opening never replays the log into the memtable.\<close>

theorem Embedded_open_forgets:
  assumes aes: "aes_law aes" and dim: "4 * unat (vo_dim opt) \<le> 2 ^ 20" and c: "calls_ok e"
    and e: "no_segments_from e (embedded_wal opt) 0" "ev_files e (curr_path (vo_path opt @ ''/vectors'')) = None"
    and i: "i \<noteq> sentinel" and v: "length v = unat (vo_dim opt)" "loggable (LPut i v Metadata0)"
  shows "\<exists>e1 r1 e2 r2 e3 r3 q. embedded_Open fp e opt = Some (Ok, e1, Some r1) \<and> rt_Put fp hash aes clock e1 r1 i v Metadata0 = (Ok, e2, r2) \<and>
    snd (rt_Get fp hash t r2 i) = Some (Some v, Metadata0) \<and> embedded_Open fp e2 opt = Some (Ok, e3, Some r3) \<and>
    log_holds aes e3 (rt_wal r3) [(q, LPut i v Metadata0)] \<and> snd (rt_Get fp hash t r3 i) = None"
proof -
  let ?w = "embedded_wal opt" and ?c = "curr_path (vo_path opt @ ''/vectors'')" and ?x = "RtPut i v Metadata0"
  obtain e0 w where W: "Wal_Open e ?w = Some (Ok, e0, w)" "wal_cfg w = wal_cfg ?w" "log_holds aes e0 w []" "wal_only ?w e e0"
    using log_holds_empty [OF c e(1)] by blast
  have m0: "ev_files e0 ?c = None" using embedded_keeps(2) [OF refl W(4)] e(2) by simp
  obtain n r1 where O: "embedded_Open fp e opt = Some (Ok, e0\<lparr>ev_tick := n\<rparr>, Some r1)" "rt_inv fp hash r1" "rt_versions fp r1 = Map.empty"
      "rt_cfg r1 = (vo_path opt @ ''/vectors'', vo_dim opt, True, True, vo_quant opt, 0, 0)" "rt_wal r1 = w" "rt_frozen r1 = []"
    using embedded_open [OF dim W(1,3) m0] by blast
  have R: "rt_window r1 = 0" "accepts r1 ?x" "rt_ttl r1 = 0"
    using O(4,6) v(1) by (simp_all add: rt_cfg_def backpressure_def kMaxFrozenMemtables_def)
  obtain s e2 r2 where p: "rt_do fp hash aes clock (e0\<lparr>ev_tick := n\<rparr>) r1 ?x = (s, e2, r2)" by (cases "rt_do fp hash aes clock (e0\<lparr>ev_tick := n\<rparr>) r1 ?x")
  have log: "log_holds aes (e0\<lparr>ev_tick := n\<rparr>) (rt_wal r1) []" using log_holds_frame [OF W(3)] O(5) by simp
  have x: "op_id ?x \<noteq> sentinel" "loggable (op_rec ?x)" "key_ok (rt_wal r1)" using i v(2) embedded_keeps(1) [OF W(2)] O(5) by simp_all
  note L = rt_do_log [OF O(2) x(1) R(1) log aes x(3,2) p]
  have P: "s = Ok" "rt_ttl r2 = 0" "wal_cfg (rt_wal r2) = wal_cfg ?w" "log_holds aes e2 (rt_wal r2) [(wal_seq w + 1, LPut i v Metadata0)]"
    "append_rec aes (e0\<lparr>ev_tick := n\<rparr>) (rt_wal r1) (op_rec ?x) = (Ok, e2, rt_wal r2)"
    using L R W(2) O(5) by (auto simp: rt_cfg_def)
  have "wal_only w (e0\<lparr>ev_tick := n\<rparr>) e2" using append_rec_log(5) [OF log aes x(3,2) P(5)] O(5) by simp
  then have m2: "ev_files e2 ?c = None" using embedded_keeps(2) [OF W(2)] m0 by fastforce
  obtain e3 w3 where W3: "Wal_Open e2 ?w = Some (Ok, e3, w3)" "log_holds aes e3 w3 [(wal_seq w + 1, LPut i v Metadata0)]" "wal_only (rt_wal r2) e2 e3"
    using log_holds_open [OF P(4), of ?w] P(3) by auto
  have "ev_files e3 ?c = None" using embedded_keeps(2) [OF P(3) W3(3)] m2 by simp
  then obtain n3 r3 where O3: "embedded_Open fp e2 opt = Some (Ok, e3\<lparr>ev_tick := n3\<rparr>, Some r3)" "rt_inv fp hash r3" "rt_versions fp r3 = Map.empty" "rt_wal r3 = w3"
    using embedded_open [OF dim W3(1,2)] by blast
  have "rt_inv fp hash r2" "rt_versions fp r2 i = Some (Some (Some v, Metadata0))" using rt_do_refines [OF O(2) x(1) R(1) p] P(1) by simp_all
  then have "snd (rt_Get fp hash t r2 i) = Some (Some v, Metadata0)" "snd (rt_Get fp hash t r3 i) = None"
    using rt_Get_live(1) [OF _ i] O3(2,3) P(2) by (simp_all add: live_def VectorMetaExpired_def)
  moreover have "log_holds aes (e3\<lparr>ev_tick := n3\<rparr>) (rt_wal r3) [(wal_seq w + 1, LPut i v Metadata0)]" using log_holds_frame [OF W3(2)] O3(4) by simp
  moreover have "rt_Put fp hash aes clock (e0\<lparr>ev_tick := n\<rparr>) r1 i v Metadata0 = (Ok, e2, r2)" using p P(1) by simp
  ultimately show ?thesis using O(1) O3(1) by blast
qed

subsection \<open>A sample engine\<close>

definition sample_tools :: segment_tools where
  "sample_tools = \<lparr>tl_fp = sample_fp, tl_sort = sort_key sn_id, tl_tsort = sort_key fst, tl_padding = (\<lambda>_. 0), tl_index = (\<lambda>e b. (Ok, e))\<rparr>"

definition sample_opt :: ve_options where
  "sample_opt = \<lparr>vo_path = ''db'', vo_dim = 1, vo_fsync = kAlways, vo_encryption = False, vo_key_hex = [], vo_quantization = False, vo_quant = qNone,
     vo_window = 0, vo_batch_size = 256\<rparr>"

definition sample_disk :: posix_env where
  "sample_disk = \<lparr>ev_files = Map.empty, ev_tick = 0, ev_err = (\<lambda>_. None), ev_chunk = (\<lambda>_. 2 ^ 32)\<rparr>"

lemma sample_good:
  "tools_ok sample_tools" "index_ok sample_tools" "tl_fp sample_tools = sample_fp" "good_opt sample_opt" "calls_ok sample_disk"
  "no_segments_from sample_disk w n" "ev_files sample_disk p = None" "new_directory sample_opt sample_disk" "full_writes sample_disk (2 ^ 32)"
  "(7 :: u64) \<noteq> sentinel" "length [5 :: u32] = unat (vo_dim sample_opt)" "loggable (LPut 7 [5] Metadata0)"
  using sample_sorts by (simp_all add: tools_ok_def index_ok_def index_frame_def sample_tools_def good_opt_def sample_opt_def calls_ok_def sample_disk_def
      no_segments_from_def new_directory_def full_writes_def sentinel_def loggable_def put_plain_def Let_def has_wal_meta_def meta_small_def Metadata0_def)

lemma sample_put:
  obtains e1 r1 e2 r2 q where "ve_Open sample_fp id aes_id sample_disk (VectorEngine sample_opt True 0) = Some (Ok, e1, engine_of sample_opt r1)"
    "ve_Put sample_fp id aes_id 0 e1 (engine_of sample_opt r1) 7 [5] Metadata0 = (Ok, e2, engine_of sample_opt r2)"
    "on_disk sample_fp aes_id e2 r2 [] [] [(q, LPut 7 [5] Metadata0)]" "rt_inv sample_fp id r2" "belongs sample_opt r2"
    "rt_versions sample_fp r2 = [7 \<mapsto> Some (Some [5], Metadata0)]"
    "freezable sample_fp id (to_freeze r2)" "separate sample_fp (rt_frozen (to_freeze r2))" "job_ok sample_fp (\<lambda>_. 3) (to_freeze r2) []"
    "full_writes e2 (2 ^ 32)" "length (all_items sample_fp (rt_frozen (to_freeze r2))) = 1" "length (rt_frozen (to_freeze r2)) = 1"
proof -
  obtain e1 r1 e2 r2 q mt where P: "ve_Open sample_fp id aes_id sample_disk (VectorEngine sample_opt True 0) = Some (Ok, e1, engine_of sample_opt r1)"
      "rt_do sample_fp id aes_id 0 e1 r1 (RtPut 7 [5] Metadata0) = (Ok, e2, r2)" "on_disk sample_fp aes_id e2 r2 [] [] [(q, LPut 7 [5] Metadata0)]"
      "belongs sample_opt r2" "rt_inv sample_fp id r2" "rt_versions sample_fp r2 = [7 \<mapsto> Some (Some [5], Metadata0)]" "ev_chunk e2 = ev_chunk sample_disk"
      "rt_frozen (to_freeze r2) = [mt]" "mem_versions sample_fp mt = [7 \<mapsto> Some (Some [5], Metadata0)]"
    by (rule put_new [OF aes_id_law sample_good(4,8,10,11,12)])
  have T: "freezable sample_fp id (to_freeze r2)" "job_ok sample_fp (\<lambda>_. 3) (to_freeze r2) []" "length (all_items sample_fp (rt_frozen (to_freeze r2))) = 1"
    using plain_tables [OF sample_good(4) P(5,4,8), where stamp = "\<lambda>_. 3"] plain_tableI(1) [OF P(9)] by simp_all
  then have "separate sample_fp (rt_frozen (to_freeze r2))" by (auto simp: separate_def length_Suc_conv)
  moreover have "ve_Put sample_fp id aes_id 0 e1 (engine_of sample_opt r1) 7 [5] Metadata0 = (Ok, e2, engine_of sample_opt r2)"
    using P(2) by (simp add: engine_calls [OF sample_good(4,11)])
  moreover have "full_writes e2 (2 ^ 32)" using sample_good(9) P(7) by (simp add: full_writes_def)
  ultimately show thesis using that P T by auto
qed



theorem Engine_durable_witness:
  "\<exists>e ve vs e' ve'. history sample_tools id aes_id sample_opt e ve vs \<and> snd (ve_Get sample_fp id 0 ve 7) = Some (Some [5], Metadata0) \<and>
     ve_Open sample_fp id aes_id e (VectorEngine sample_opt True 0) = Some (Ok, e', ve') \<and> snd (ve_Get sample_fp id 0 ve' 7) = Some (Some [5], Metadata0)"
proof -
  obtain e1 r1 e2 r2 q where P: "ve_Open sample_fp id aes_id sample_disk (VectorEngine sample_opt True 0) = Some (Ok, e1, engine_of sample_opt r1)"
      "ve_Put sample_fp id aes_id 0 e1 (engine_of sample_opt r1) 7 [5] Metadata0 = (Ok, e2, engine_of sample_opt r2)"
      "on_disk sample_fp aes_id e2 r2 [] [] [(q, LPut 7 [5] Metadata0)]" "rt_inv sample_fp id r2" "belongs sample_opt r2"
      "freezable sample_fp id (to_freeze r2)" "separate sample_fp (rt_frozen (to_freeze r2))" "job_ok sample_fp (\<lambda>_. 3) (to_freeze r2) []" "full_writes e2 (2 ^ 32)"
    by (rule sample_put)
  note S = sample_good(1-3)
  have "history sample_tools id aes_id sample_opt e1 (engine_of sample_opt r1) Map.empty" using history.new [OF sample_good(8)] P(1) S(3) by metis
  from history.put [OF this sample_good(10,12), of 0 Ok e2 "engine_of sample_opt r2"] P(2) S(3)
  have h: "history sample_tools id aes_id sample_opt e2 (engine_of sample_opt r2) [7 \<mapsto> Some (Some [5], Metadata0)]" by simp
  have c: "calls_ok e2" using P(3) log_holds_calls by (auto simp: on_disk_def)
  obtain sl el where l: "sm_Load e2 (rt_dir r2) = (sl, Some [], el)" using sm_Load_holds [OF c, of "rt_dir r2" "[]"] P(3) by (auto simp: on_disk_def names_ok_def)
  have now: "\<forall>n. (\<lambda>_ :: nat. 0 :: u64) n \<le> 0" by simp
  obtain s e3 r3 where "rt_Freeze sample_tools (\<lambda>_. 0) (\<lambda>_. 3) 20 e2 r2 = Some (s, e3, r3)"
    using rt_Freeze_disk [OF S(1), unfolded S(3), OF P(4) belongs_fields(4) [OF P(5)] P(6,9) now P(3,8)] by blast
  then have f: "ve_Freeze sample_tools (\<lambda>_. 0) (\<lambda>_. 3) 20 e2 (engine_of sample_opt r2) = Some (s, e3, engine_of sample_opt r3)"
    by (simp add: engine_calls [OF sample_good(4,11)])
  have h3: "history sample_tools id aes_id sample_opt e3 (engine_of sample_opt r3) [7 \<mapsto> Some (Some [5], Metadata0)]"
    by (rule history.freeze [OF h _ _ _ P(9) l _ f]) (simp_all add: S(3) P(6-8))
  have o: "vo_dim sample_opt \<noteq> 0" "4 * unat (vo_dim sample_opt) \<le> 2 ^ 20" "vo_quant sample_opt = qNone" "vo_window sample_opt = 0"
    by (simp_all add: sample_opt_def)
  from Engine_durable [OF h3 S(1) aes_id_law sample_good(10) o, of 0] h3 show ?thesis
    by (auto simp: S(3) live_def VectorMetaExpired_def)
qed

theorem Freeze_resurrects_witness:
  "\<exists>ve4 ve5 e4 e5. snd (ve_Get sample_fp id 0 ve4 7) = None \<and> ve_Freeze sample_tools (\<lambda>_. 0) (\<lambda>_. 3) 20 e4 ve4 = Some (Ok, e5, ve5) \<and>
     snd (ve_Get sample_fp id 0 ve5 7) = Some (Some [5], Metadata0)"
  using Freeze_resurrects [OF sample_good(1,2) aes_id_law sample_good(4,8,9,10,11,12), of "\<lambda>_. 3" 20 id 0 0 "\<lambda>_. 0"] sample_good(3) by auto

theorem Embedded_open_forgets_witness:
  "\<exists>e2 r2 e3 r3. snd (rt_Get sample_fp id 0 r2 7) = Some (Some [5], Metadata0) \<and> embedded_Open sample_fp e2 sample_opt = Some (Ok, e3, Some r3) \<and>
     snd (rt_Get sample_fp id 0 r3 7) = None"
  using Embedded_open_forgets [OF aes_id_law _ sample_good(5,6,7,10,11,12), of sample_fp id 0 0] by (auto simp: sample_opt_def)

end
